(* ===== verification/Prelude.thy ===== *)
theory Prelude
  imports Main "HOL-Library.Word"
begin

unbundle bit_operations_syntax

text \<open>
  What every component of the kernel model shares: the machine types of
  \<^verbatim>\<open>include/types.h\<close>, the ways a kernel routine can fail to return, sequencing of
  routines that can fail, the error codes of \<^verbatim>\<open>include/defs.h\<close>, and linked structures:
  the \<open>chain\<close> of nodes reached through a link field, and \<open>walk\<close>, the
  \<^verbatim>\<open>while( curr != NULL && ... ) { prev = curr; curr = curr->next; }\<close> loop that the queue
  and free-list code is written with.
\<close>

section \<open>Machine types\<close>

type_synonym u8 = "8 word"
type_synonym u16 = "16 word"
type_synonym u32 = "32 word"
type_synonym u64 = "64 word"
type_synonym addr = u32
type_synonym status = int  \<comment> \<open>a C \<open>int\<close> used as a status code\<close>

lemma u32_le_3_cases:
  assumes "(w :: u32) \<le> 3"
  shows "w = 0 \<or> w = 1 \<or> w = 2 \<or> w = 3"
proof -
  have "unat w \<le> 3" using assms by (simp add: word_le_nat_alt)
  then have "unat w = 0 \<or> unat w = 1 \<or> unat w = 2 \<or> unat w = 3" by auto
  then show ?thesis by (simp add: word_unat_eq_iff)
qed

section \<open>Status codes and configuration constants\<close>

abbreviation SUCCESS :: status where "SUCCESS \<equiv> 0"
abbreviation E_FAILURE :: status where "E_FAILURE \<equiv> - 1"
abbreviation E_BAD_PARAM :: status where "E_BAD_PARAM \<equiv> - 2"
abbreviation E_BAD_CHAN :: status where "E_BAD_CHAN \<equiv> - 3"
abbreviation E_NO_CHILDREN :: status where "E_NO_CHILDREN \<equiv> - 4"
abbreviation E_NO_MEMORY :: status where "E_NO_MEMORY \<equiv> - 5"
abbreviation E_NOT_FOUND :: status where "E_NOT_FOUND \<equiv> - 6"
abbreviation E_NO_PROCS :: status where "E_NO_PROCS \<equiv> - 7"
abbreviation E_EMPTY_QUEUE :: status where "E_EMPTY_QUEUE \<equiv> - 100"
abbreviation E_NO_PCBS :: status where "E_NO_PCBS \<equiv> - 101"
abbreviation EXIT_KILLED :: status where "EXIT_KILLED \<equiv> - 101"
abbreviation EXIT_BAD_SYSCALL :: status where "EXIT_BAD_SYSCALL \<equiv> - 102"

abbreviation N_PROCS :: nat where "N_PROCS \<equiv> 25"
abbreviation SZ_PAGE :: nat where "SZ_PAGE \<equiv> 4096"
abbreviation SZ_SLICE :: nat where "SZ_SLICE \<equiv> 1024"
abbreviation N_USTKPAGES :: u32 where "N_USTKPAGES \<equiv> 2"

section \<open>Routines that may not return\<close>

text \<open>
  \<open>Assert\<close> is a failed \<^verbatim>\<open>assert\<close> or \<^verbatim>\<open>PANIC\<close> (the sanity level of the build is 9999, so
  every \<^verbatim>\<open>assert1\<close> is active), \<open>Kpanic\<close> a direct call of \<^verbatim>\<open>kpanic\<close>; \<open>Wild\<close> is a
  dereference of a NULL pointer; \<open>Hang\<close> is a loop of the code that never ends.
\<close>

datatype failure = Assert string | Kpanic string | Wild | Hang

type_synonym 'a res = "failure + 'a"

definition bindR :: "'a res \<Rightarrow> ('a \<Rightarrow> 'b res) \<Rightarrow> 'b res" where
  "bindR m f = (case m of Inl e \<Rightarrow> Inl e | Inr x \<Rightarrow> f x)"

lemma bindR_simps [simp]:
  "bindR (Inl e) f = Inl e"
  "bindR (Inr x) f = f x"
  by (simp_all add: bindR_def)

lemma bindR_cong [fundef_cong]:
  "m = m' \<Longrightarrow> (\<And>x. m' = Inr x \<Longrightarrow> f x = g x) \<Longrightarrow> bindR m f = bindR m' g"
  by (cases m') simp_all

lemma bindR_assoc: "bindR (bindR m f) g = bindR m (\<lambda>x. bindR (f x) g)"
  by (simp add: bindR_def split: sum.splits)

lemma bindR_eq_Inr: "bindR m f = Inr y \<longleftrightarrow> (\<exists>x. m = Inr x \<and> f x = Inr y)"
  by (simp add: bindR_def split: sum.splits)

lemma bindR_InrE:
  assumes "bindR m f = Inr y"
  obtains x where "m = Inr x" "f x = Inr y"
  using assms by (auto simp: bindR_eq_Inr)

section \<open>Linked structures\<close>

text \<open>\<open>chain h p xs\<close>: starting at the pointer \<open>p\<close> and following the link field \<open>h\<close>,
  one meets exactly the nodes \<open>xs\<close> and then NULL.\<close>

fun chain :: "('a \<Rightarrow> 'a option) \<Rightarrow> 'a option \<Rightarrow> 'a list \<Rightarrow> bool" where
  "chain h p [] \<longleftrightarrow> p = None"
| "chain h p (x # xs) \<longleftrightarrow> p = Some x \<and> chain h (h x) xs"

text \<open>A piece of a chain, ending at the pointer \<open>q\<close>.\<close>

fun segment :: "('a \<Rightarrow> 'a option) \<Rightarrow> 'a option \<Rightarrow> 'a list \<Rightarrow> 'a option \<Rightarrow> bool" where
  "segment h p [] q \<longleftrightarrow> p = q"
| "segment h p (x # xs) q \<longleftrightarrow> p = Some x \<and> segment h (h x) xs q"

lemma chain_None [simp]: "chain h None xs \<longleftrightarrow> xs = []"
  by (cases xs) auto

lemma chain_Some: "chain h (Some x) xs \<longleftrightarrow> (\<exists>ys. xs = x # ys \<and> chain h (h x) ys)"
  by (cases xs) auto

lemma chain_append: "chain h p (xs @ ys) \<longleftrightarrow> (\<exists>q. segment h p xs q \<and> chain h q ys)"
  by (induction xs arbitrary: p) auto

lemma segment_append:
  "segment h p (xs @ ys) r \<longleftrightarrow> (\<exists>q. segment h p xs q \<and> segment h q ys r)"
  by (induction xs arbitrary: p) auto

lemma chain_cong:
  "(\<And>x. x \<in> set xs \<Longrightarrow> h x = h' x) \<Longrightarrow> chain h p xs = chain h' p xs"
  by (induction xs arbitrary: p) auto

lemma segment_cong:
  "(\<And>x. x \<in> set xs \<Longrightarrow> h x = h' x) \<Longrightarrow> segment h p xs q = segment h' p xs q"
  by (induction xs arbitrary: p) auto

lemma chain_fun_upd [simp]:
  "a \<notin> set xs \<Longrightarrow> chain (h(a := v)) p xs = chain h p xs"
  by (rule chain_cong) auto

lemma segment_fun_upd [simp]:
  "a \<notin> set xs \<Longrightarrow> segment (h(a := v)) p xs q = segment h p xs q"
  by (rule segment_cong) auto

lemma chain_det: "chain h p xs \<Longrightarrow> chain h p ys \<Longrightarrow> xs = ys"
proof (induction xs arbitrary: p ys)
  case Nil
  then show ?case by simp
next
  case (Cons x xs)
  then show ?case by (auto simp: chain_Some)
qed

lemma chain_distinct: "chain h p xs \<Longrightarrow> distinct xs"
proof (induction xs arbitrary: p)
  case Nil
  then show ?case by simp
next
  case (Cons x xs)
  have "x \<notin> set xs"
  proof
    assume "x \<in> set xs"
    then obtain as bs where xs: "xs = as @ x # bs" by (meson split_list)
    with Cons.prems have "chain h (h x) bs" by (auto simp: chain_append)
    with Cons.prems have "xs = bs" by (auto dest: chain_det)
    with xs show False by simp
  qed
  with Cons show ?case by auto
qed

lemma chain_last: "chain h p xs \<Longrightarrow> xs \<noteq> [] \<Longrightarrow> h (last xs) = None"
  by (induction xs arbitrary: p) auto

lemma segment_link_last:
  "segment h p xs q \<Longrightarrow> xs \<noteq> [] \<Longrightarrow> h (last xs) = q"
  by (induction xs arbitrary: p) auto

lemma segment_relink:
  assumes "segment h p xs q" "xs \<noteq> []" "distinct xs"
  shows "segment (h(last xs := r)) p xs r"
  using assms
proof (induction xs arbitrary: p)
  case Nil
  then show ?case by simp
next
  case (Cons x xs)
  show ?case
  proof (cases "xs = []")
    case True
    with Cons.prems show ?thesis by simp
  next
    case False
    with Cons.prems have "x \<noteq> last xs" by auto
    with False Cons show ?thesis by auto
  qed
qed

section \<open>The list-walking loop\<close>

text \<open>
  \<open>walk n keep h prev curr\<close> is \<^verbatim>\<open>while( curr != NULL && keep(curr) ) { prev = curr;
  curr = curr->next; }\<close>; it returns the final \<open>(prev, curr)\<close>. The fuel \<open>n\<close> bounds the
  number of steps; where the nodes come from a set of at most \<open>n\<close> elements, running out of fuel
  means that the loop of the code does not end (\<open>walk_Hang_forever\<close> below).
\<close>

fun walk :: "nat \<Rightarrow> ('a \<Rightarrow> bool) \<Rightarrow> ('a \<Rightarrow> 'a option) \<Rightarrow> 'a option \<Rightarrow> 'a option
    \<Rightarrow> ('a option \<times> 'a option) res" where
  "walk n keep h prev None = Inr (prev, None)"
| "walk n keep h prev (Some c) =
     (if keep c then (if n = 0 then Inl Hang else walk (n - 1) keep h (Some c) (h c))
      else Inr (prev, Some c))"

definition hd_opt :: "'a list \<Rightarrow> 'a option" where
  "hd_opt xs = (case xs of [] \<Rightarrow> None | x # _ \<Rightarrow> Some x)"

definition last_opt :: "'a option \<Rightarrow> 'a list \<Rightarrow> 'a option" where
  "last_opt d xs = (if xs = [] then d else Some (last xs))"

lemma hd_opt_simps [simp]: "hd_opt [] = None" "hd_opt (x # xs) = Some x"
  by (simp_all add: hd_opt_def)

lemma last_opt_simps [simp]: "last_opt d [] = d" "last_opt d (xs @ [x]) = Some x"
  by (simp_all add: last_opt_def)

lemma last_opt_Cons [simp]: "last_opt d (x # xs) = last_opt (Some x) xs"
  by (simp add: last_opt_def)

lemma chain_hd_opt: "chain h p xs \<Longrightarrow> p = hd_opt xs"
  by (cases xs) auto

text \<open>On a chain the loop stops where the condition first fails.\<close>

lemma walk_chain:
  "chain h p xs \<Longrightarrow> length xs \<le> n \<Longrightarrow>
   walk n keep h prev p =
     Inr (last_opt prev (takeWhile keep xs), hd_opt (dropWhile keep xs))"
proof (induction xs arbitrary: p n prev)
  case Nil
  then show ?case by simp
next
  case (Cons x xs)
  then show ?case by (cases n) auto
qed

lemma walk_res_cong:
  "(\<And>x. x \<in> set xs \<Longrightarrow> keep x = keep' x) \<Longrightarrow> chain h p xs \<Longrightarrow> length xs \<le> n \<Longrightarrow>
   walk n keep h prev p = walk n keep' h prev p"
  by (simp add: walk_chain cong: takeWhile_cong dropWhile_cong)

subsection \<open>Out of fuel means forever\<close>

definition hop :: "('a \<Rightarrow> 'a option) \<Rightarrow> 'a option \<Rightarrow> 'a option" where
  "hop h p = Option.bind p h"

lemma hop_simps [simp]: "hop h None = None" "hop h (Some x) = h x"
  by (simp_all add: hop_def)

lemma walk_Hang_iff:
  "walk n keep h prev p = Inl Hang \<longleftrightarrow>
     (\<forall>k\<le>n. \<exists>c. (hop h ^^ k) p = Some c \<and> keep c)"
proof (induction n arbitrary: prev p)
  case 0
  then show ?case by (cases p) auto
next
  case (Suc n)
  show ?case
  proof (cases p)
    case None
    have "(hop h ^^ 0) p = None" using None by simp
    with None show ?thesis by fastforce
  next
    case (Some c)
    have shift: "(\<forall>k\<le>Suc n. Q k) \<longleftrightarrow> Q 0 \<and> (\<forall>k\<le>n. Q (Suc k))" for Q
      by (metis Suc_le_mono le0 not0_implies_Suc)
    show ?thesis
      unfolding shift using Some Suc.IH
      by (simp add: funpow_swap1)
  qed
qed

lemma funpow_periodic:
  fixes f :: "'b \<Rightarrow> 'b"
  assumes "(f ^^ i) x = (f ^^ j) x" "i < j"
  shows "\<exists>l<j. (f ^^ k) x = (f ^^ l) x"
proof (induction k rule: less_induct)
  case (less k)
  show ?case
  proof (cases "k < j")
    case True
    then show ?thesis by blast
  next
    case False
    then have k: "k = (k - j) + j" by simp
    have "(f ^^ k) x = (f ^^ (k - j)) ((f ^^ j) x)"
      by (subst k, subst funpow_add) simp
    also have "\<dots> = (f ^^ (k - j + i)) x"
      by (simp add: funpow_add assms(1))
    finally have "(f ^^ k) x = (f ^^ (k - j + i)) x" .
    moreover have "k - j + i < k" using assms(2) False by simp
    ultimately show ?thesis using less by metis
  qed
qed

lemma walk_Hang_forever:
  assumes hang: "walk n keep h prev p = Inl Hang"
    and fin: "finite S" "card S \<le> n"
    and nodes: "\<And>k c. (hop h ^^ k) p = Some c \<Longrightarrow> c \<in> S"
  shows "walk m keep h prev' p = Inl Hang"
proof -
  let ?f = "\<lambda>k. (hop h ^^ k) p"
  from hang have keep: "\<exists>c. ?f k = Some c \<and> keep c" if "k \<le> n" for k
    using that by (simp add: walk_Hang_iff)
  have "?f ` {..n} \<subseteq> Some ` S" using keep nodes by fastforce
  then have "card (?f ` {..n}) \<le> n"
    using fin by (meson card_image_le card_mono finite_imageI le_trans)
  then have "\<not> inj_on ?f {..n}" by (auto dest: card_image)
  then obtain i j where ij: "i < j" "j \<le> n" "?f i = ?f j"
    by (auto simp: inj_on_def) (metis linorder_neqE_nat)
  have "\<exists>c. ?f k = Some c \<and> keep c" for k
  proof -
    from funpow_periodic [OF ij(3,1)] obtain l where "l < j" "?f k = ?f l" by blast
    with ij(2) keep [of l] show ?thesis by simp
  qed
  then show ?thesis by (simp add: walk_Hang_iff)
qed

text \<open>A set of nodes that satisfy the condition and lead only to each other is never left.\<close>

lemma walk_Hang_closed:
  assumes "\<And>c. c \<in> S \<Longrightarrow> keep c \<and> (\<exists>d\<in>S. h c = Some d)" "c \<in> S"
  shows "walk n keep h prev (Some c) = Inl Hang"
  using assms(2)
proof (induction n arbitrary: c prev)
  case 0
  then show ?case using assms(1) by simp
next
  case (Suc n)
  then obtain d where "h c = Some d" "d \<in> S" using assms(1) by blast
  with Suc assms(1) show ?case by simp
qed

section \<open>Ordered insertion\<close>

text \<open>The position the predecessor search of the queue code selects: after every
  element whose key is not greater.\<close>

definition insert_after :: "('a \<Rightarrow> 'k :: linorder) \<Rightarrow> 'a \<Rightarrow> 'a list \<Rightarrow> 'a list" where
  "insert_after key a xs =
     takeWhile (\<lambda>x. key x \<le> key a) xs @ a # dropWhile (\<lambda>x. key x \<le> key a) xs"

lemma set_insert_after [simp]: "set (insert_after key a xs) = insert a (set xs)"
proof -
  have "set xs = set (takeWhile (\<lambda>x. key x \<le> key a) xs @ dropWhile (\<lambda>x. key x \<le> key a) xs)"
    by simp
  then show ?thesis unfolding insert_after_def by (simp only: set_append) auto
qed

lemma length_insert_after [simp]: "length (insert_after key a xs) = Suc (length xs)"
  unfolding insert_after_def
  by (metis add_Suc_right length_Cons length_append takeWhile_dropWhile_id)

lemma insert_after_not_Nil [simp]: "insert_after key a xs \<noteq> []"
  by (simp add: insert_after_def)

lemma sorted_wrt_dropWhile_gt:
  fixes key :: "'a \<Rightarrow> 'k :: linorder"
  assumes "sorted (map key xs)" "y \<in> set (dropWhile (\<lambda>x. key x \<le> b) xs)"
  shows "b < key y"
  using assms
proof (induction xs)
  case Nil
  then show ?case by simp
next
  case (Cons x xs)
  then show ?case by (fastforce split: if_splits)
qed

lemma sorted_insert_after:
  assumes "sorted (map key xs)"
  shows "sorted (map key (insert_after key a xs))"
proof -
  let ?t = "takeWhile (\<lambda>x. key x \<le> key a) xs" and ?d = "dropWhile (\<lambda>x. key x \<le> key a) xs"
  have "sorted (map key ?t @ map key ?d)"
    using assms by (metis map_append takeWhile_dropWhile_id)
  then have td: "sorted (map key ?t)" "sorted (map key ?d)"
      "\<forall>x\<in>set ?t. \<forall>y\<in>set ?d. key x \<le> key y"
    unfolding sorted_append set_map ball_simps by blast+
  have t: "\<forall>x\<in>set ?t. key x \<le> key a"
    by (auto dest: set_takeWhileD)
  have d: "\<forall>y\<in>set ?d. key a \<le> key y"
    using sorted_wrt_dropWhile_gt [OF assms] by (blast intro: less_imp_le)
  show ?thesis
    unfolding insert_after_def map_append list.map sorted_append sorted_simps list.set set_map
    using td t d by blast
qed

text \<open>Insertion is stable: among equal keys the newcomer goes last.\<close>

lemma insert_after_stable:
  assumes "sorted (map key xs)"
  shows "filter (\<lambda>x. key x = k) (insert_after key a xs) =
         filter (\<lambda>x. key x = k) xs @ (if key a = k then [a] else [])"
proof -
  let ?t = "takeWhile (\<lambda>x. key x \<le> key a) xs" and ?d = "dropWhile (\<lambda>x. key x \<le> key a) xs"
  have d: "key a = k \<Longrightarrow> filter (\<lambda>x. key x = k) ?d = []"
    using sorted_wrt_dropWhile_gt [OF assms] by (fastforce simp: filter_empty_conv)
  have "filter (\<lambda>x. key x = k) xs = filter (\<lambda>x. key x = k) ?t @ filter (\<lambda>x. key x = k) ?d"
    by (metis filter_append takeWhile_dropWhile_id)
  with d show ?thesis by (auto simp: insert_after_def)
qed

end
