(* ===== verification/Pcb_Queue.thy ===== *)
theory Pcb_Queue
  imports Prelude
begin

text \<open>
  The process table and the PCB queues of \<^verbatim>\<open>procs.c\<close> and \<^verbatim>\<open>include/procs.h\<close>. A \<^verbatim>\<open>pcb_t *\<close> is
  an index into \<^verbatim>\<open>ptable\<close> or NULL (\<open>nat option\<close>); every PCB pointer of the kernel points into
  that array. A queue handle is one of the six global queues, so the \<^verbatim>\<open>queue != NULL\<close>
  sanity checks always pass. The queue structure, its link fields and every assignment to them
  are kept as the code has them; \<open>qrep\<close> says which list of PCBs a queue holds, and the
  lemmas show what each operation does to that list.
\<close>

section \<open>Process states, control blocks and queues\<close>

datatype state_e = STATE_UNUSED | STATE_NEW | STATE_READY | STATE_RUNNING | STATE_SLEEPING
  | STATE_BLOCKED | STATE_WAITING | STATE_KILLED | STATE_ZOMBIE

fun state_code :: "state_e \<Rightarrow> nat" where
  "state_code STATE_UNUSED = 0"
| "state_code STATE_NEW = 1"
| "state_code STATE_READY = 2"
| "state_code STATE_RUNNING = 3"
| "state_code STATE_SLEEPING = 4"
| "state_code STATE_BLOCKED = 5"
| "state_code STATE_WAITING = 6"
| "state_code STATE_KILLED = 7"
| "state_code STATE_ZOMBIE = 8"

lemma state_code_inj: "state_code a = state_code b \<longleftrightarrow> a = b"
  by (cases a; cases b) simp_all

text \<open>The code compares states with \<open><\<close> and \<open>\<ge>\<close>: the order of the enumeration.\<close>

instantiation state_e :: linorder
begin

definition less_eq_state_e :: "state_e \<Rightarrow> state_e \<Rightarrow> bool" where
  "less_eq_state_e a b \<longleftrightarrow> state_code a \<le> state_code b"

definition less_state_e :: "state_e \<Rightarrow> state_e \<Rightarrow> bool" where
  "less_state_e a b \<longleftrightarrow> state_code a < state_code b"

instance
  by standard (auto simp: less_eq_state_e_def less_state_e_def state_code_inj)

end

record pcb =
  p_context :: addr        \<comment> \<open>context save area, 0 is NULL\<close>
  p_stack :: addr
  p_next :: "nat option"
  p_parent :: "nat option"
  p_wakeup :: u32
  p_exit_status :: u32     \<comment> \<open>an \<open>int32_t\<close>, kept as its 32 bits\<close>
  p_pid :: u32
  p_state :: state_e
  p_priority :: u32        \<comment> \<open>\<open>setprio\<close> stores any value here\<close>
  p_ticks :: u32
  p_stkpgs :: u32

abbreviation O_FIFO :: u32 where "O_FIFO \<equiv> 0"
abbreviation O_PRIO :: u32 where "O_PRIO \<equiv> 1"
abbreviation O_PID :: u32 where "O_PID \<equiv> 2"
abbreviation O_WAKEUP :: u32 where "O_WAKEUP \<equiv> 3"

record pcb_queue =
  q_head :: "nat option"
  q_tail :: "nat option"
  q_length :: u32
  q_order :: u32

datatype qid = Q_freelist | Q_ready | Q_waiting | Q_sleeping | Q_zombie | Q_sioread

record procs =
  ptable :: "nat \<Rightarrow> pcb"
  queues :: "qid \<Rightarrow> pcb_queue"
  current :: "nat option"
  next_pid :: u32
  init_pcb :: "nat option"

definition upd_pcb :: "nat \<Rightarrow> (pcb \<Rightarrow> pcb) \<Rightarrow> procs \<Rightarrow> procs" where
  "upd_pcb i f s = s\<lparr>ptable := (ptable s)(i := f (ptable s i))\<rparr>"

definition upd_queue :: "qid \<Rightarrow> (pcb_queue \<Rightarrow> pcb_queue) \<Rightarrow> procs \<Rightarrow> procs" where
  "upd_queue q f s = s\<lparr>queues := (queues s)(q := f (queues s q))\<rparr>"

abbreviation set_next :: "nat \<Rightarrow> nat option \<Rightarrow> procs \<Rightarrow> procs" where
  "set_next i v \<equiv> upd_pcb i (\<lambda>c. c\<lparr>p_next := v\<rparr>)"

definition links :: "procs \<Rightarrow> nat \<Rightarrow> nat option" where
  "links s i = p_next (ptable s i)"

section \<open>The queue operations\<close>

definition find_prev_wakeup :: "procs \<Rightarrow> qid \<Rightarrow> nat \<Rightarrow> nat option res" where
  "find_prev_wakeup s q p =
     bindR (walk N_PROCS (\<lambda>c. p_wakeup (ptable s c) \<le> p_wakeup (ptable s p)) (links s)
        None (q_head (queues s q)))
       (\<lambda>(prev, curr). Inr prev)"

definition find_prev_priority :: "procs \<Rightarrow> qid \<Rightarrow> nat \<Rightarrow> nat option res" where
  "find_prev_priority s q p =
     bindR (walk N_PROCS (\<lambda>c. p_priority (ptable s c) \<le> p_priority (ptable s p)) (links s)
        None (q_head (queues s q)))
       (\<lambda>(prev, curr). Inr prev)"

definition find_prev_pid :: "procs \<Rightarrow> qid \<Rightarrow> nat \<Rightarrow> nat option res" where
  "find_prev_pid s q p =
     bindR (walk N_PROCS (\<lambda>c. p_pid (ptable s c) \<le> p_pid (ptable s p)) (links s)
        None (q_head (queues s q)))
       (\<lambda>(prev, curr). Inr prev)"

definition pcb_queue_reset :: "qid \<Rightarrow> u32 \<Rightarrow> procs \<Rightarrow> (status \<times> procs) res" where
  "pcb_queue_reset q style s =
     (if style < O_FIFO \<or> style > O_WAKEUP then Inr (E_BAD_PARAM, s)
      else Inr (SUCCESS, upd_queue q
             (\<lambda>qu. qu\<lparr>q_head := None, q_tail := None, q_order := style, q_length := 0\<rparr>) s))"

definition pcb_queue_empty :: "qid \<Rightarrow> procs \<Rightarrow> bool" where
  "pcb_queue_empty q s \<longleftrightarrow> q_head (queues s q) = None"

definition pcb_queue_length :: "qid \<Rightarrow> procs \<Rightarrow> u32" where
  "pcb_queue_length q s = q_length (queues s q)"

text \<open>The insertion proper, once the predecessor is known (lines 721 to 751).\<close>

definition link_after :: "qid \<Rightarrow> nat \<Rightarrow> nat option \<Rightarrow> procs \<Rightarrow> status \<times> procs" where
  "link_after q p prev s =
     (let s1 =
        (case prev of
           None \<Rightarrow>
             let s' = set_next p (q_head (queues s q)) s;
                 s'' = (if q_head (queues s' q) = None
                        then upd_queue q (\<lambda>qu. qu\<lparr>q_tail := Some p\<rparr>) s' else s')
             in upd_queue q (\<lambda>qu. qu\<lparr>q_head := Some p\<rparr>) s''
         | Some r \<Rightarrow>
             if p_next (ptable s r) = None
             then upd_queue q (\<lambda>qu. qu\<lparr>q_tail := Some p\<rparr>) (set_next r (Some p) s)
             else set_next r (Some p) (set_next p (p_next (ptable s r)) s))
      in (SUCCESS, upd_queue q (\<lambda>qu. qu\<lparr>q_length := q_length qu + 1\<rparr>) s1))"

definition pcb_queue_insert :: "qid \<Rightarrow> nat option \<Rightarrow> procs \<Rightarrow> (status \<times> procs) res" where
  "pcb_queue_insert q pcb s =
     (case pcb of
        None \<Rightarrow> Inl (Assert ''pcb != NULL'')
      | Some p \<Rightarrow>
          if p_next (ptable s p) \<noteq> None then Inr (E_BAD_PARAM, s)
          else if q_head (queues s q) = None then
            Inr (SUCCESS, upd_queue q
                   (\<lambda>qu. qu\<lparr>q_head := Some p, q_tail := Some p, q_length := 1\<rparr>) s)
          else if q_tail (queues s q) = None then Inl (Assert ''queue->tail != NULL'')
          else if q_order (queues s q) = O_FIFO then
            Inr (link_after q p (q_tail (queues s q)) s)
          else if q_order (queues s q) = O_PRIO then
            bindR (find_prev_priority s q p) (\<lambda>prev. Inr (link_after q p prev s))
          else if q_order (queues s q) = O_PID then
            bindR (find_prev_pid s q p) (\<lambda>prev. Inr (link_after q p prev s))
          else if q_order (queues s q) = O_WAKEUP then
            bindR (find_prev_wakeup s q p) (\<lambda>prev. Inr (link_after q p prev s))
          else Inr (E_BAD_PARAM, s))"

text \<open>The second component of the result is what the code stores through \<^verbatim>\<open>pcb_t **pcb\<close>.\<close>

definition pcb_queue_remove :: "qid \<Rightarrow> procs \<Rightarrow> (status \<times> nat option \<times> procs) res" where
  "pcb_queue_remove q s =
     (case q_head (queues s q) of
        None \<Rightarrow> Inr (E_EMPTY_QUEUE, None, s)
      | Some tmp \<Rightarrow>
          let s1 = upd_queue q (\<lambda>qu. qu\<lparr>q_head := p_next (ptable s tmp)\<rparr>) s;
              s2 = set_next tmp None s1;
              s3 = upd_queue q (\<lambda>qu. qu\<lparr>q_length := q_length qu - 1\<rparr>) s2;
              s4 = (if q_head (queues s3 q) = None
                    then upd_queue q (\<lambda>qu. qu\<lparr>q_tail := None, q_length := 0\<rparr>) s3 else s3)
          in Inr (SUCCESS, Some tmp, s4))"

text \<open>Unlinking the found element (lines 847 to 879).\<close>

definition unlink :: "qid \<Rightarrow> nat option \<Rightarrow> nat \<Rightarrow> procs \<Rightarrow> (status \<times> procs) res" where
  "unlink q prev c s =
     (let s1 = (case prev of
                  Some r \<Rightarrow> set_next r (p_next (ptable s c)) s
                | None \<Rightarrow> upd_queue q (\<lambda>qu. qu\<lparr>q_head := p_next (ptable s c)\<rparr>) s);
          s2 = (if p_next (ptable s1 c) = None
                then upd_queue q (\<lambda>qu. qu\<lparr>q_tail := prev\<rparr>) s1 else s1);
          s3 = set_next c None s2;
          s4 = upd_queue q (\<lambda>qu. qu\<lparr>q_length := q_length qu - 1\<rparr>) s3
      in if (q_head (queues s4 q) = None) = (q_tail (queues s4 q) = None)
         then Inr (SUCCESS, s4)
         else Inl (Assert ''queue head and tail''))"

definition pcb_queue_remove_this :: "qid \<Rightarrow> nat option \<Rightarrow> procs \<Rightarrow> (status \<times> procs) res" where
  "pcb_queue_remove_this q pcb s =
     (case pcb of
        None \<Rightarrow> Inl (Assert ''pcb != NULL'')
      | Some p \<Rightarrow>
          if q_head (queues s q) = None then Inr (E_EMPTY_QUEUE, s)
          else bindR (walk N_PROCS (\<lambda>c. c \<noteq> p) (links s) None (q_head (queues s q)))
            (\<lambda>(prev, curr).
               case curr of
                 None \<Rightarrow> if prev = None then Inl (Assert ''prev != NULL'') else Inr (E_NOT_FOUND, s)
               | Some c \<Rightarrow> unlink q prev c s))"

definition pcb_queue_peek :: "qid \<Rightarrow> procs \<Rightarrow> nat option" where
  "pcb_queue_peek q s = (if q_head (queues s q) = None then None else q_head (queues s q))"

section \<open>What a queue holds\<close>

definition qrep :: "procs \<Rightarrow> qid \<Rightarrow> nat list \<Rightarrow> bool" where
  "qrep s q xs \<longleftrightarrow>
     chain (links s) (q_head (queues s q)) xs \<and> q_tail (queues s q) = last_opt None xs \<and>
     q_length (queues s q) = of_nat (length xs) \<and> set xs \<subseteq> {..<N_PROCS}"

text \<open>The key an ordered queue sorts by, and where a newcomer goes.\<close>

definition queue_key :: "u32 \<Rightarrow> pcb \<Rightarrow> u32" where
  "queue_key ord c =
     (if ord = O_PRIO then p_priority c else if ord = O_PID then p_pid c else p_wakeup c)"

definition qins :: "procs \<Rightarrow> qid \<Rightarrow> nat \<Rightarrow> nat list \<Rightarrow> nat list" where
  "qins s q p xs =
     (if q_order (queues s q) = O_FIFO then xs @ [p]
      else insert_after (\<lambda>x. queue_key (q_order (queues s q)) (ptable s x)) p xs)"

text \<open>What an operation on the queue \<open>q\<close> that touches the PCBs in \<open>S\<close> leaves alone.\<close>

definition frame :: "qid \<Rightarrow> nat set \<Rightarrow> procs \<Rightarrow> procs \<Rightarrow> bool" where
  "frame q S s s' \<longleftrightarrow>
     (\<forall>q'. q' \<noteq> q \<longrightarrow> queues s' q' = queues s q') \<and>
     q_order (queues s' q) = q_order (queues s q) \<and>
     (\<forall>x. x \<notin> S \<longrightarrow> ptable s' x = ptable s x) \<and>
     (\<forall>x. (ptable s' x)\<lparr>p_next := None\<rparr> = (ptable s x)\<lparr>p_next := None\<rparr>) \<and>
     current s' = current s \<and> next_pid s' = next_pid s \<and> init_pcb s' = init_pcb s"

section \<open>Facts about the small steps\<close>

lemma links_upd_pcb [simp]: "links (set_next i v s) = (links s)(i := v)"
  by (rule ext) (simp add: links_def upd_pcb_def)

lemma links_upd_queue [simp]: "links (upd_queue q f s) = links s"
  by (rule ext) (simp add: links_def upd_queue_def)

lemma queues_upd_pcb [simp]: "queues (upd_pcb i f s) = queues s"
  by (simp add: upd_pcb_def)

lemma queues_upd_queue [simp]: "queues (upd_queue q f s) = (queues s)(q := f (queues s q))"
  by (simp add: upd_queue_def)

lemma ptable_upd_queue [simp]: "ptable (upd_queue q f s) = ptable s"
  by (simp add: upd_queue_def)

lemma ptable_upd_pcb [simp]: "ptable (upd_pcb i f s) = (ptable s)(i := f (ptable s i))"
  by (simp add: upd_pcb_def)

lemma globals_upd [simp]:
  "current (upd_pcb i f s) = current s" "current (upd_queue q g s) = current s"
  "next_pid (upd_pcb i f s) = next_pid s" "next_pid (upd_queue q g s) = next_pid s"
  "init_pcb (upd_pcb i f s) = init_pcb s" "init_pcb (upd_queue q g s) = init_pcb s"
  by (simp_all add: upd_pcb_def upd_queue_def)

lemma qrep_length: "qrep s q xs \<Longrightarrow> length xs \<le> N_PROCS"
proof -
  assume "qrep s q xs"
  then have "distinct xs" "set xs \<subseteq> {..<N_PROCS}"
    by (auto simp: qrep_def dest: chain_distinct)
  then have "card (set xs) \<le> card {..<N_PROCS}" by (intro card_mono) auto
  with \<open>distinct xs\<close> show ?thesis by (simp add: distinct_card)
qed

lemma qrep_distinct: "qrep s q xs \<Longrightarrow> distinct xs"
  by (auto simp: qrep_def dest: chain_distinct)

lemma qrep_det: "qrep s q xs \<Longrightarrow> qrep s q ys \<Longrightarrow> xs = ys"
  by (auto simp: qrep_def dest: chain_det)

lemma qrep_head: "qrep s q xs \<Longrightarrow> q_head (queues s q) = hd_opt xs"
  by (auto simp: qrep_def dest: chain_hd_opt)

lemma frame_refl [simp]: "frame q S s s"
  by (simp add: frame_def)

lemma frame_trans: "frame q S s t \<Longrightarrow> frame q S t u \<Longrightarrow> frame q S s u"
  by (simp add: frame_def)

lemma frame_mono: "frame q S s t \<Longrightarrow> S \<subseteq> T \<Longrightarrow> frame q T s t"
  unfolding frame_def by (elim conjE, intro conjI) auto

lemma frame_set_next: "i \<in> S \<Longrightarrow> frame q S s (set_next i v s)"
  by (auto simp: frame_def)

lemma frame_upd_queue: "q_order (f (queues s q)) = q_order (queues s q) \<Longrightarrow> frame q S s (upd_queue q f s)"
  by (simp add: frame_def)

lemmas frame_steps = frame_set_next frame_upd_queue

lemma frame_data:
  assumes "frame q S s s'"
  shows "p_wakeup (ptable s' x) = p_wakeup (ptable s x)" "p_pid (ptable s' x) = p_pid (ptable s x)"
    "p_priority (ptable s' x) = p_priority (ptable s x)"
    "p_state (ptable s' x) = p_state (ptable s x)"
    "p_parent (ptable s' x) = p_parent (ptable s x)"
    "p_context (ptable s' x) = p_context (ptable s x)"
    "p_stack (ptable s' x) = p_stack (ptable s x)"
    "p_stkpgs (ptable s' x) = p_stkpgs (ptable s x)"
    "p_exit_status (ptable s' x) = p_exit_status (ptable s x)"
    "p_ticks (ptable s' x) = p_ticks (ptable s x)"
proof -
  have "(ptable s' x)\<lparr>p_next := None\<rparr> = (ptable s x)\<lparr>p_next := None\<rparr>"
    using assms by (simp add: frame_def)
  then show "p_wakeup (ptable s' x) = p_wakeup (ptable s x)"
    "p_pid (ptable s' x) = p_pid (ptable s x)"
    "p_priority (ptable s' x) = p_priority (ptable s x)"
    "p_state (ptable s' x) = p_state (ptable s x)"
    "p_parent (ptable s' x) = p_parent (ptable s x)"
    "p_context (ptable s' x) = p_context (ptable s x)"
    "p_stack (ptable s' x) = p_stack (ptable s x)"
    "p_stkpgs (ptable s' x) = p_stkpgs (ptable s x)"
    "p_exit_status (ptable s' x) = p_exit_status (ptable s x)"
    "p_ticks (ptable s' x) = p_ticks (ptable s x)"
    by (cases "ptable s' x"; cases "ptable s x"; simp)+
qed

lemma frame_key: "frame q S s s' \<Longrightarrow> queue_key ord (ptable s' x) = queue_key ord (ptable s x)"
  by (simp add: queue_key_def frame_data)

text \<open>Every node of a segment leads to another one of it or to its end.\<close>

lemma segment_closed:
  "segment h p as (Some e) \<Longrightarrow> x \<in> set as \<Longrightarrow> \<exists>d\<in>insert e (set as). h x = Some d"
proof (induction as arbitrary: p)
  case (Cons a as)
  then show ?case by (cases as) auto
qed simp

text \<open>A queue whose members are not touched keeps its contents.\<close>

lemma qrep_frame:
  assumes "qrep s q' ys" "frame q S s s'" "q' \<noteq> q" "set ys \<inter> S = {}"
  shows "qrep s' q' ys"
proof -
  have "chain (links s') (q_head (queues s q')) ys = chain (links s) (q_head (queues s q')) ys"
    using assms by (intro chain_cong) (auto simp: links_def frame_def)
  with assms show ?thesis by (simp add: qrep_def frame_def)
qed

section \<open>What the operations do to the list\<close>

lemma last_opt_append [simp]: "last_opt d (xs @ ys) = last_opt (last_opt d xs) ys"
  by (simp add: last_opt_def)

lemma last_opt_eq_Some: "last_opt None xs = Some r \<longleftrightarrow> xs \<noteq> [] \<and> last xs = r"
  by (simp add: last_opt_def)

lemma last_opt_Some_None: "xs \<noteq> [] \<Longrightarrow> last_opt d xs = last_opt None xs"
  by (simp add: last_opt_def)

text \<open>Linking a new PCB behind the prefix \<open>as\<close>.\<close>

lemma link_after_qrep:
  assumes rep: "qrep s q (as @ bs)" and ne: "as @ bs \<noteq> []"
    and p: "p < N_PROCS" "p \<notin> set (as @ bs)" "links s p = None"
    and res: "link_after q p (last_opt None as) s = (st, s')"
  shows "st = SUCCESS \<and> qrep s' q (as @ p # bs) \<and> frame q (insert p (set (as @ bs))) s s'"
proof -
  let ?h = "links s" and ?S = "insert p (set (as @ bs))"
  from rep obtain r where seg: "segment ?h (q_head (queues s q)) as r" and bs: "chain ?h r bs"
    and tail: "q_tail (queues s q) = last_opt None (as @ bs)"
    and len: "q_length (queues s q) = of_nat (length (as @ bs))"
    and sub: "set (as @ bs) \<subseteq> {..<N_PROCS}"
    by (auto simp: qrep_def chain_append)
  have dist: "distinct as" "set as \<inter> set bs = {}" using qrep_distinct [OF rep] by auto
  have r: "r = hd_opt bs" using bs by (rule chain_hd_opt)
  show ?thesis
  proof (cases "as = []")
    case True
    with ne obtain b bs' where b: "bs = b # bs'" by (cases bs) auto
    from True seg r b have head: "q_head (queues s q) = Some b" by simp
    have s': "s' = upd_queue q (\<lambda>qu. qu\<lparr>q_length := q_length qu + 1\<rparr>)
        (upd_queue q (\<lambda>qu. qu\<lparr>q_head := Some p\<rparr>) (set_next p (Some b) s))" and st: "st = SUCCESS"
      using res True head by (auto simp: link_after_def Let_def)
    have "chain ((links s)(p := Some b)) (Some p) (p # bs)"
      using bs p b seg True head by simp
    then have "qrep s' q (p # bs)"
      using len tail sub p True b by (simp add: s' qrep_def)
    moreover have "frame q ?S s s'"
      unfolding s' by (intro frame_trans [OF frame_trans [OF frame_set_next frame_upd_queue] frame_upd_queue]) simp_all
    ultimately show ?thesis using True st by simp
  next
    case False
    let ?l = "last as"
    have la: "?l \<in> set as" using False by simp
    then have lb: "?l \<notin> set bs" using dist(2) by blast
    from la lb have l: "?l \<in> set as" "?h ?l = r" "?l \<noteq> p" "?l \<notin> set bs"
      using False segment_link_last [OF seg] p by auto
    have nl: "p_next (ptable s ?l) = r" using l by (simp add: links_def)
    show ?thesis
    proof (cases bs)
      case Nil
      have s': "s' = upd_queue q (\<lambda>qu. qu\<lparr>q_length := q_length qu + 1\<rparr>)
          (upd_queue q (\<lambda>qu. qu\<lparr>q_tail := Some p\<rparr>) (set_next ?l (Some p) s))" and st: "st = SUCCESS"
        using res False nl r Nil by (auto simp: link_after_def Let_def last_opt_def)
      have "segment (?h(?l := Some p)) (q_head (queues s q)) as (Some p)"
        using segment_relink [OF seg False dist(1)] .
      then have "chain (?h(?l := Some p)) (q_head (queues s q)) (as @ [p])"
        using p l by (auto simp: chain_append)
      then have "qrep s' q (as @ [p])"
        using len sub p Nil by (simp add: s' qrep_def)
      moreover have "frame q ?S s s'"
        unfolding s' using l by (intro frame_trans [OF frame_trans [OF frame_set_next frame_upd_queue] frame_upd_queue]) simp_all
      ultimately show ?thesis using Nil st by simp
    next
      case (Cons b bs')
      have s': "s' = upd_queue q (\<lambda>qu. qu\<lparr>q_length := q_length qu + 1\<rparr>)
          (set_next ?l (Some p) (set_next p r s))" and st: "st = SUCCESS"
        using res False nl r Cons by (auto simp: link_after_def Let_def last_opt_def)
      have "segment (?h(?l := Some p, p := r)) (q_head (queues s q)) as (Some p)"
        using segment_relink [OF seg False dist(1)] p by simp
      moreover have "chain (?h(?l := Some p, p := r)) (Some p) (p # bs)"
        using bs p l dist by simp
      ultimately have "chain (?h(p := r, ?l := Some p)) (q_head (queues s q)) (as @ p # bs)"
        using l by (auto simp: chain_append fun_upd_twist)
      then have "qrep s' q (as @ p # bs)"
        using len sub p tail Cons False by (simp add: s' qrep_def last_opt_def)
      moreover have "frame q ?S s s'"
        unfolding s' using l
        by (intro frame_trans [OF frame_trans [OF frame_set_next frame_set_next] frame_upd_queue]) simp_all
      ultimately show ?thesis using st by simp
    qed
  qed
qed

lemma find_prev_chain:
  assumes "qrep s q xs"
  shows "bindR (walk N_PROCS keep (links s) None (q_head (queues s q))) (\<lambda>(prev, curr). Inr prev)
         = Inr (last_opt None (takeWhile keep xs))"
proof -
  have "chain (links s) (q_head (queues s q)) xs" using assms by (simp add: qrep_def)
  from walk_chain [OF this qrep_length [OF assms]] show ?thesis by simp
qed

lemmas find_prev_defs = find_prev_priority_def find_prev_pid_def find_prev_wakeup_def

lemma pcb_queue_insert_keyed:
  assumes rep: "qrep s q xs" "xs \<noteq> []" and p: "links s p = None"
    and ord: "q_order (queues s q) \<in> {O_PRIO, O_PID, O_WAKEUP}"
  shows "pcb_queue_insert q (Some p) s =
     Inr (link_after q p (last_opt None (takeWhile
       (\<lambda>x. queue_key (q_order (queues s q)) (ptable s x) \<le> queue_key (q_order (queues s q)) (ptable s p)) xs)) s)"
proof -
  have "q_head (queues s q) \<noteq> None" "q_tail (queues s q) \<noteq> None"
    using rep by (auto simp: qrep_def last_opt_def neq_Nil_conv)
  moreover have "p_next (ptable s p) = None" using p by (simp add: links_def)
  ultimately show ?thesis
    using ord by (auto simp: pcb_queue_insert_def find_prev_defs find_prev_chain [OF rep(1)] queue_key_def)
qed

lemma pcb_queue_insert_fifo:
  assumes "qrep s q xs" "xs \<noteq> []" "links s p = None" "q_order (queues s q) = O_FIFO"
  shows "pcb_queue_insert q (Some p) s = Inr (link_after q p (last_opt None xs) s)"
  using assms
  by (auto simp: pcb_queue_insert_def qrep_def last_opt_def neq_Nil_conv links_def)

lemma pcb_queue_insert_qrep:
  assumes rep: "qrep s q xs" and ord: "q_order (queues s q) \<le> O_WAKEUP"
    and p: "p < N_PROCS" "p \<notin> set xs" "links s p = None"
  obtains s' where "pcb_queue_insert q (Some p) s = Inr (SUCCESS, s')"
    "qrep s' q (qins s q p xs)" "frame q (insert p (set xs)) s s'"
proof (cases "xs = []")
  case True
  let ?s = "upd_queue q (\<lambda>qu. qu\<lparr>q_head := Some p, q_tail := Some p, q_length := 1\<rparr>) s"
  have "pcb_queue_insert q (Some p) s = Inr (SUCCESS, ?s)"
    using True rep p by (simp add: pcb_queue_insert_def qrep_def links_def)
  moreover have "qrep ?s q (qins s q p xs)"
    using True p by (simp add: qrep_def qins_def insert_after_def)
  moreover have "frame q (insert p (set xs)) s ?s" by (rule frame_upd_queue) simp
  ultimately show ?thesis by (rule that)
next
  case False
  have ocases: "q_order (queues s q) = O_FIFO \<or> q_order (queues s q) \<in> {O_PRIO, O_PID, O_WAKEUP}"
    using u32_le_3_cases [OF ord] by auto
  define as where "as = (if q_order (queues s q) = O_FIFO then xs else takeWhile
       (\<lambda>x. queue_key (q_order (queues s q)) (ptable s x) \<le> queue_key (q_order (queues s q)) (ptable s p)) xs)"
  define bs where "bs = (if q_order (queues s q) = O_FIFO then [] else dropWhile
       (\<lambda>x. queue_key (q_order (queues s q)) (ptable s x) \<le> queue_key (q_order (queues s q)) (ptable s p)) xs)"
  have xs: "xs = as @ bs" by (simp add: as_def bs_def)
  have qi: "qins s q p xs = as @ p # bs" by (simp add: qins_def as_def bs_def insert_after_def)
  have eq: "pcb_queue_insert q (Some p) s = Inr (link_after q p (last_opt None as) s)"
    using ocases pcb_queue_insert_fifo [OF rep False p(3)] pcb_queue_insert_keyed [OF rep False p(3)]
    by (auto simp: as_def)
  obtain st s' where res: "link_after q p (last_opt None as) s = (st, s')" by fastforce
  have "st = SUCCESS \<and> qrep s' q (as @ p # bs) \<and> frame q (insert p (set (as @ bs))) s s'"
    using rep False p res unfolding xs by (intro link_after_qrep) auto
  then show ?thesis using that eq res qi xs by simp
qed

lemma pcb_queue_insert_linked:
  "links s p \<noteq> None \<Longrightarrow> pcb_queue_insert q (Some p) s = Inr (E_BAD_PARAM, s)"
  by (simp add: pcb_queue_insert_def links_def)

lemma pcb_queue_remove_qrep:
  assumes rep: "qrep s q (x # xs)"
  obtains s' where "pcb_queue_remove q s = Inr (SUCCESS, Some x, s')"
    "qrep s' q xs" "frame q {x} s s'" "links s' x = None"
proof -
  let ?h = "links s"
  have ch: "q_head (queues s q) = Some x" "chain ?h (?h x) xs"
    and len: "q_length (queues s q) = of_nat (Suc (length xs))"
    and tail: "q_tail (queues s q) = last_opt (Some x) xs"
    and sub: "set xs \<subseteq> {..<N_PROCS}" and nin: "x \<notin> set xs"
    using rep qrep_distinct [OF rep] by (auto simp: qrep_def)
  have hx: "?h x = hd_opt xs" using ch(2) by (rule chain_hd_opt)
  define s1 where "s1 = upd_queue q (\<lambda>qu. qu\<lparr>q_length := q_length qu - 1\<rparr>)
    (set_next x None (upd_queue q (\<lambda>qu. qu\<lparr>q_head := p_next (ptable s x)\<rparr>) s))"
  define s' where "s' = (if q_head (queues s1 q) = None
     then upd_queue q (\<lambda>qu. qu\<lparr>q_tail := None, q_length := 0\<rparr>) s1 else s1)"
  have eq: "pcb_queue_remove q s = Inr (SUCCESS, Some x, s')"
    using ch(1) by (simp add: pcb_queue_remove_def Let_def s1_def s'_def)
  have head: "q_head (queues s1 q) = hd_opt xs" using hx by (simp add: s1_def links_def)
  have "chain (?h(x := None)) (hd_opt xs) xs" using ch(2) nin hx by simp
  then have rep': "qrep s' q xs"
    using len tail sub head
    by (cases xs) (simp_all add: s'_def s1_def qrep_def last_opt_def)
  have f1: "frame q {x} s s1"
    unfolding s1_def
    by (intro frame_trans [OF frame_trans [OF frame_upd_queue frame_set_next] frame_upd_queue]) simp_all
  have fr: "frame q {x} s s'"
    unfolding s'_def using f1 by (auto intro: frame_trans [OF f1 frame_upd_queue])
  have "links s' x = None" by (simp add: s'_def s1_def)
  with eq rep' fr show ?thesis by (rule that)
qed

lemma pcb_queue_remove_empty: "qrep s q [] \<Longrightarrow> pcb_queue_remove q s = Inr (E_EMPTY_QUEUE, None, s)"
  by (simp add: pcb_queue_remove_def qrep_def)

lemma takeWhile_neq_split:
  assumes "p \<notin> set as"
  shows "takeWhile (\<lambda>c. c \<noteq> p) (as @ p # bs) = as" "dropWhile (\<lambda>c. c \<noteq> p) (as @ p # bs) = p # bs"
  using assms by (induction as) auto

lemma unlink_qrep:
  assumes rep: "qrep s q (as @ p # bs)"
  obtains s' where "unlink q (last_opt None as) p s = Inr (SUCCESS, s')"
    "qrep s' q (as @ bs)" "frame q (set (as @ p # bs)) s s'" "links s' p = None"
proof -
  let ?h = "links s"
  from rep have seg: "segment ?h (q_head (queues s q)) as (Some p)" and bs: "chain ?h (?h p) bs"
    and tail: "q_tail (queues s q) = last_opt None (as @ p # bs)"
    and len: "q_length (queues s q) = of_nat (length (as @ p # bs))"
    and sub: "set (as @ p # bs) \<subseteq> {..<N_PROCS}"
    by (auto simp: qrep_def chain_append)
  have dist: "distinct as" "p \<notin> set as" "p \<notin> set bs" "set as \<inter> set bs = {}"
    using qrep_distinct [OF rep] by auto
  have hp: "p_next (ptable s p) = hd_opt bs" using chain_hd_opt [OF bs] by (simp add: links_def)
  define s1 where "s1 = (case last_opt None as of
      Some r \<Rightarrow> set_next r (hd_opt bs) s | None \<Rightarrow> upd_queue q (\<lambda>qu. qu\<lparr>q_head := hd_opt bs\<rparr>) s)"
  define s2 where "s2 = (if hd_opt bs = None
      then upd_queue q (\<lambda>qu. qu\<lparr>q_tail := last_opt None as\<rparr>) s1 else s1)"
  define s' where "s' = upd_queue q (\<lambda>qu. qu\<lparr>q_length := q_length qu - 1\<rparr>) (set_next p None s2)"
  have p1: "p_next (ptable s1 p) = hd_opt bs"
    using hp dist(2) by (auto simp: s1_def last_opt_def)
  have head: "q_head (queues s' q) = (if as = [] then hd_opt bs else q_head (queues s q))"
    by (auto simp: s'_def s2_def s1_def last_opt_def)
  have tl: "q_tail (queues s' q) = last_opt None (as @ bs)"
    using tail by (cases bs) (auto simp: s'_def s2_def s1_def last_opt_def)
  have lk: "links s' = (if as = [] then ?h else ?h(last as := hd_opt bs))(p := None)"
    by (auto simp: s'_def s2_def s1_def last_opt_def)
  have chain': "chain (links s') (q_head (queues s' q)) (as @ bs)"
  proof (cases "as = []")
    case True
    with bs dist chain_hd_opt [OF bs] show ?thesis by (simp add: lk head)
  next
    case False
    then have la: "last as \<in> set as" by simp
    then have nb: "last as \<notin> set bs" using dist(4) by blast
    have "segment (links s') (q_head (queues s q)) as (hd_opt bs)"
      using segment_relink [OF seg False dist(1)] False dist by (simp add: lk)
    moreover have "chain (links s') (hd_opt bs) bs"
      using bs chain_hd_opt [OF bs] dist nb False by (simp add: lk)
    ultimately show ?thesis using False by (auto simp: head chain_append)
  qed
  have len': "q_length (queues s' q) = of_nat (length (as @ bs))"
    using len by (auto simp: s'_def s2_def s1_def split: option.split)
  have rep': "qrep s' q (as @ bs)"
    using chain' tl len' sub by (simp add: qrep_def)
  have ht: "(q_head (queues s' q) = None) = (q_tail (queues s' q) = None)"
    using chain_hd_opt [OF chain'] tl by (cases "as @ bs") (auto simp: last_opt_def)
  have eq: "unlink q (last_opt None as) p s = Inr (SUCCESS, s')"
    unfolding unlink_def Let_def hp s1_def [symmetric] p1 s2_def [symmetric] s'_def [symmetric]
    using ht by simp
  have "frame q (set (as @ p # bs)) s s1"
    unfolding s1_def by (auto simp: last_opt_def intro!: frame_steps)
  then have f2: "frame q (set (as @ p # bs)) s s2"
    unfolding s2_def by (auto elim!: frame_trans intro!: frame_upd_queue)
  have "frame q (set (as @ p # bs)) s2 s'"
    unfolding s'_def by (rule frame_trans [OF frame_set_next frame_upd_queue]) simp_all
  with f2 have fr: "frame q (set (as @ p # bs)) s s'" by (rule frame_trans)
  have "links s' p = None" by (simp add: lk)
  with eq rep' fr show ?thesis by (rule that)
qed

lemma pcb_queue_remove_this_qrep:
  assumes rep: "qrep s q xs" and p: "p \<in> set xs"
  obtains s' where "pcb_queue_remove_this q (Some p) s = Inr (SUCCESS, s')"
    "qrep s' q (remove1 p xs)" "frame q (set xs) s s'" "links s' p = None"
proof -
  obtain as bs where xs: "xs = as @ p # bs" and nin: "p \<notin> set as"
    using p by (meson split_list_first)
  have "chain (links s) (q_head (queues s q)) xs" using rep by (simp add: qrep_def)
  from walk_chain [OF this qrep_length [OF rep]]
  have w: "walk N_PROCS (\<lambda>c. c \<noteq> p) (links s) None (q_head (queues s q)) = Inr (last_opt None as, Some p)"
    using nin by (simp add: xs takeWhile_neq_split)
  have hd: "q_head (queues s q) \<noteq> None" using qrep_head [OF rep] xs by (cases as) auto
  from rep [unfolded xs] obtain s' where s': "unlink q (last_opt None as) p s = Inr (SUCCESS, s')"
      "qrep s' q (as @ bs)" "frame q (set (as @ p # bs)) s s'" "links s' p = None"
    by (rule unlink_qrep)
  have "pcb_queue_remove_this q (Some p) s = Inr (SUCCESS, s')"
    using w hd s'(1) by (simp add: pcb_queue_remove_this_def)
  moreover have "remove1 p xs = as @ bs" using nin by (simp add: xs remove1_append)
  ultimately show ?thesis using s' xs that by simp
qed

lemma pcb_queue_remove_this_absent:
  assumes rep: "qrep s q xs" and p: "p \<notin> set xs"
  shows "pcb_queue_remove_this q (Some p) s =
    Inr (if xs = [] then E_EMPTY_QUEUE else E_NOT_FOUND, s)"
proof (cases "xs = []")
  case True
  with rep show ?thesis by (simp add: pcb_queue_remove_this_def qrep_def)
next
  case False
  have "chain (links s) (q_head (queues s q)) xs" using rep by (simp add: qrep_def)
  from walk_chain [OF this qrep_length [OF rep], of "\<lambda>c. c \<noteq> p" None]
  have "walk N_PROCS (\<lambda>c. c \<noteq> p) (links s) None (q_head (queues s q)) = Inr (last_opt None xs, None)"
    using p by (simp add: takeWhile_eq_all_conv [THEN iffD2] dropWhile_eq_Nil_conv [THEN iffD2])
       (metis (mono_tags, lifting) dropWhile_eq_Nil_conv hd_opt_simps(1) takeWhile_eq_all_conv)
  with False qrep_head [OF rep] show ?thesis
    by (cases xs) (auto simp: pcb_queue_remove_this_def last_opt_def)
qed

text \<open>Whatever the queues look like, the operations change links and queue headers only.\<close>

lemma frame_link_after: "link_after q p prev s = (st, s') \<Longrightarrow> frame q UNIV s s'"
  unfolding link_after_def Let_def
  by (auto split: option.splits if_splits intro!: frame_trans [OF frame_trans [OF frame_set_next frame_upd_queue] frame_upd_queue]
      frame_trans [OF frame_trans [OF frame_trans [OF frame_set_next frame_upd_queue] frame_upd_queue] frame_upd_queue]
      frame_trans [OF frame_trans [OF frame_set_next frame_set_next] frame_upd_queue])

lemma frame_insert: "pcb_queue_insert q p s = Inr (st, s') \<Longrightarrow> frame q UNIV s s'"
  unfolding pcb_queue_insert_def
  by (auto split: option.splits if_splits simp: bindR_eq_Inr intro: frame_link_after frame_upd_queue)

lemma frame_remove: "pcb_queue_remove q s = Inr (st, p, s') \<Longrightarrow> frame q UNIV s s'"
  unfolding pcb_queue_remove_def Let_def
  by (auto split: option.splits if_splits intro!:
      frame_trans [OF frame_trans [OF frame_upd_queue frame_set_next] frame_upd_queue]
      frame_trans [OF frame_trans [OF frame_trans [OF frame_upd_queue frame_set_next] frame_upd_queue] frame_upd_queue])

lemma frame_unlink: "unlink q prev c s = Inr (st, s') \<Longrightarrow> frame q UNIV s s'"
proof -
  assume u: "unlink q prev c s = Inr (st, s')"
  define s1 where "s1 = (case prev of Some r \<Rightarrow> set_next r (p_next (ptable s c)) s
      | None \<Rightarrow> upd_queue q (\<lambda>qu. qu\<lparr>q_head := p_next (ptable s c)\<rparr>) s)"
  define s2 where "s2 = (if p_next (ptable s1 c) = None then upd_queue q (\<lambda>qu. qu\<lparr>q_tail := prev\<rparr>) s1 else s1)"
  have s': "s' = upd_queue q (\<lambda>qu. qu\<lparr>q_length := q_length qu - 1\<rparr>) (set_next c None s2)"
    using u unfolding unlink_def Let_def s1_def [symmetric] s2_def [symmetric] by (auto split: if_splits)
  have "frame q UNIV s s1" by (auto simp: s1_def split: option.split intro: frame_steps)
  moreover have "frame q UNIV s1 s2" by (auto simp: s2_def intro: frame_steps)
  moreover have "frame q UNIV s2 s'" unfolding s' by (rule frame_trans [OF frame_set_next frame_upd_queue]) simp_all
  ultimately show ?thesis by (blast intro: frame_trans)
qed

lemma frame_remove_this: "pcb_queue_remove_this q p s = Inr (st, s') \<Longrightarrow> frame q UNIV s s'"
  unfolding pcb_queue_remove_this_def
  by (auto split: option.splits if_splits simp: bindR_eq_Inr intro: frame_unlink)

section \<open>All six queues together\<close>

text \<open>The ordering \<^verbatim>\<open>pcb_init\<close> gives each queue.\<close>

fun init_order :: "qid \<Rightarrow> u32" where
  "init_order Q_freelist = O_FIFO"
| "init_order Q_ready = O_PRIO"
| "init_order Q_waiting = O_PID"
| "init_order Q_sleeping = O_WAKEUP"
| "init_order Q_zombie = O_PID"
| "init_order Q_sioread = O_FIFO"

lemma init_order_valid [simp]: "init_order q \<le> O_WAKEUP"
  by (cases q) simp_all

text \<open>The queues hold the lists \<open>L\<close>, no PCB is in two of them, and a PCB that is in none has a
  NULL link.\<close>

definition qreps :: "procs \<Rightarrow> (qid \<Rightarrow> nat list) \<Rightarrow> bool" where
  "qreps s L \<longleftrightarrow>
     (\<forall>q. qrep s q (L q)) \<and> (\<forall>q. q_order (queues s q) = init_order q) \<and>
     (\<forall>q q'. q \<noteq> q' \<longrightarrow> set (L q) \<inter> set (L q') = {}) \<and>
     (\<forall>p<N_PROCS. (\<forall>q. p \<notin> set (L q)) \<longrightarrow> links s p = None)"

lemma qrepsD:
  assumes "qreps s L"
  shows "qrep s q (L q)" "q_order (queues s q) = init_order q"
    "q \<noteq> q' \<Longrightarrow> set (L q) \<inter> set (L q') = {}"
    "p < N_PROCS \<Longrightarrow> (\<And>q. p \<notin> set (L q)) \<Longrightarrow> links s p = None"
  using assms unfolding qreps_def by blast+

lemma qreps_member: "qreps s L \<Longrightarrow> p \<in> set (L q) \<Longrightarrow> p < N_PROCS"
  by (auto simp: qreps_def qrep_def)

lemma qreps_unique_queue: "qreps s L \<Longrightarrow> p \<in> set (L q) \<Longrightarrow> p \<in> set (L q') \<Longrightarrow> q = q'"
  using qrepsD(3) [of s L q q'] by blast

lemma qreps_det: "qreps s L \<Longrightarrow> qreps s L' \<Longrightarrow> L = L'"
  by (rule ext) (auto simp: qreps_def intro: qrep_det)

text \<open>Changing one queue within its own members (and possibly one unqueued PCB).\<close>

lemma qreps_change:
  assumes all: "qreps s L" and rep: "qrep s' q ys" and fr: "frame q S s s'"
    and S: "\<And>q'. q' \<noteq> q \<Longrightarrow> set (L q') \<inter> S = {}"
    and ys: "\<And>q'. q' \<noteq> q \<Longrightarrow> set (L q') \<inter> set ys = {}"
    and out: "\<And>p. p < N_PROCS \<Longrightarrow> p \<in> S \<Longrightarrow> p \<notin> set ys \<Longrightarrow> links s' p = None"
    and keep: "set (L q) \<subseteq> S"
  shows "qreps s' (L(q := ys))"
proof -
  have "qrep s' q' ((L(q := ys)) q')" for q'
    using rep qrep_frame [OF qrepsD(1) [OF all] fr _ S] by (cases "q' = q") auto
  moreover have "q_order (queues s' q') = init_order q'" for q'
    using fr qrepsD(2) [OF all] by (cases "q' = q") (auto simp: frame_def)
  moreover have "set ((L(q := ys)) a) \<inter> set ((L(q := ys)) b) = {}" if "a \<noteq> b" for a b
    using that qrepsD(3) [OF all] ys [of a] ys [of b] by (auto split: if_splits)
  moreover have "links s' p = None" if p: "p < N_PROCS" "\<And>q'. p \<notin> set ((L(q := ys)) q')" for p
  proof (cases "p \<in> S")
    case True
    with p out show ?thesis by (metis fun_upd_same)
  next
    case False
    with keep have "p \<notin> set (L q')" for q'
      using p(2) [of q'] by (cases "q' = q") auto
    then have "links s p = None" using qrepsD(4) [OF all p(1)] by blast
    with fr False show ?thesis by (simp add: links_def frame_def)
  qed
  ultimately show ?thesis unfolding qreps_def by blast
qed

lemma qreps_insert:
  assumes all: "qreps s L" and p: "p < N_PROCS" "\<And>q. p \<notin> set (L q)"
  obtains s' where "pcb_queue_insert q (Some p) s = Inr (SUCCESS, s')"
    "qreps s' (L(q := qins s q p (L q)))" "frame q (insert p (set (L q))) s s'"
proof -
  have "q_order (queues s q) \<le> O_WAKEUP" "links s p = None"
    using qrepsD(2,4) [OF all] p by simp_all
  with qrepsD(1) [OF all] p obtain s' where s': "pcb_queue_insert q (Some p) s = Inr (SUCCESS, s')"
    "qrep s' q (qins s q p (L q))" "frame q (insert p (set (L q))) s s'"
    by (metis pcb_queue_insert_qrep)
  have set: "set (qins s q p (L q)) = insert p (set (L q))" by (simp add: qins_def)
  have dis: "set (L q') \<inter> insert p (set (L q)) = {}" if "q' \<noteq> q" for q'
    using that qrepsD(3) [OF all] p(2) by auto
  have "qreps s' (L(q := qins s q p (L q)))"
    using all s'(2,3) by (rule qreps_change) (simp_all add: set dis subset_insertI)
  with s' that show ?thesis by blast
qed

lemma qreps_remove:
  assumes all: "qreps s L" and L: "L q = x # xs"
  obtains s' where "pcb_queue_remove q s = Inr (SUCCESS, Some x, s')"
    "qreps s' (L(q := xs))" "frame q (set (L q)) s s'"
proof -
  from qrepsD(1) [OF all, of q] L obtain s' where s': "pcb_queue_remove q s = Inr (SUCCESS, Some x, s')"
    "qrep s' q xs" "frame q {x} s s'" "links s' x = None"
    by (metis pcb_queue_remove_qrep)
  have fr: "frame q (set (L q)) s s'" by (rule frame_mono [OF s'(3)]) (simp add: L)
  have dis: "set (L q') \<inter> set (L q) = {}" if "q' \<noteq> q" for q'
    using qrepsD(3) [OF all that] .
  have "qreps s' (L(q := xs))"
    using all s'(2) fr by (rule qreps_change) (use dis L s'(4) in auto)
  with s'(1) fr that show ?thesis by blast
qed

lemma qreps_remove_this:
  assumes all: "qreps s L" and p: "p \<in> set (L q)"
  obtains s' where "pcb_queue_remove_this q (Some p) s = Inr (SUCCESS, s')"
    "qreps s' (L(q := remove1 p (L q)))" "frame q (set (L q)) s s'"
proof -
  from qrepsD(1) [OF all, of q] p obtain s' where s': "pcb_queue_remove_this q (Some p) s = Inr (SUCCESS, s')"
    "qrep s' q (remove1 p (L q))" "frame q (set (L q)) s s'" "links s' p = None"
    by (metis pcb_queue_remove_this_qrep)
  have dis: "set (L q') \<inter> set (L q) = {}" if "q' \<noteq> q" for q'
    using qrepsD(3) [OF all that] .
  have "distinct (L q)" using qrep_distinct [OF qrepsD(1) [OF all]] .
  then have set: "set (remove1 p (L q)) = set (L q) - {p}" by simp
  have "qreps s' (L(q := remove1 p (L q)))"
    using all s'(2,3) by (rule qreps_change) (use dis set s'(4) in auto)
  with s' that show ?thesis by blast
qed

section \<open>The interface the rest of the kernel uses\<close>

text \<open>Taking everything out of a queue, as the clock handler does with the sleepers whose time has
  come.\<close>

fun drain :: "('s \<Rightarrow> (status \<times> nat option \<times> 's) res) \<Rightarrow> nat \<Rightarrow> 's \<Rightarrow> (nat option list \<times> 's) res" where
  "drain rem 0 s = Inr ([], s)"
| "drain rem (Suc n) s =
     bindR (rem s) (\<lambda>(st, x, s1). bindR (drain rem n s1) (\<lambda>(xs, s2). Inr (x # xs, s2)))"

locale queue_interface =
  fixes contents :: "'s \<Rightarrow> (qid \<Rightarrow> nat list) \<Rightarrow> bool"
    and ins :: "qid \<Rightarrow> nat option \<Rightarrow> 's \<Rightarrow> (status \<times> 's) res"
    and rem :: "qid \<Rightarrow> 's \<Rightarrow> (status \<times> nat option \<times> 's) res"
    and rem_this :: "qid \<Rightarrow> nat option \<Rightarrow> 's \<Rightarrow> (status \<times> 's) res"
    and place :: "'s \<Rightarrow> qid \<Rightarrow> nat \<Rightarrow> nat list \<Rightarrow> nat list"
  assumes ins_law: "contents s L \<Longrightarrow> p < N_PROCS \<Longrightarrow> (\<And>q. p \<notin> set (L q)) \<Longrightarrow>
      \<exists>s'. ins q (Some p) s = Inr (SUCCESS, s') \<and> contents s' (L(q := place s q p (L q)))"
    and rem_law: "contents s L \<Longrightarrow> L q = x # xs \<Longrightarrow>
      \<exists>s'. rem q s = Inr (SUCCESS, Some x, s') \<and> contents s' (L(q := xs))"
    and rem_empty_law: "contents s L \<Longrightarrow> L q = [] \<Longrightarrow> rem q s = Inr (E_EMPTY_QUEUE, None, s)"
    and rem_this_law: "contents s L \<Longrightarrow> p \<in> set (L q) \<Longrightarrow>
      \<exists>s'. rem_this q (Some p) s = Inr (SUCCESS, s') \<and> contents s' (L(q := remove1 p (L q)))"
    and place_split: "\<exists>as bs. place s q p xs = as @ p # bs \<and> xs = as @ bs"
    and contents_once: "contents s L \<Longrightarrow> distinct (L q)"
    and contents_bound: "contents s L \<Longrightarrow> p \<in> set (L q) \<Longrightarrow> p < N_PROCS"
    and contents_disjoint: "contents s L \<Longrightarrow> p \<in> set (L q) \<Longrightarrow> p \<in> set (L q') \<Longrightarrow> q = q'"
begin

lemma set_place: "set (place s q p xs) = insert p (set xs)"
  using place_split [of s q p xs] by auto

lemma remove1_place: "p \<notin> set xs \<Longrightarrow> remove1 p (place s q p xs) = xs"
  using place_split [of s q p xs] by (auto simp: remove1_append)

text \<open>Removing what was just inserted restores the queue.\<close>

lemma ins_then_rem_this:
  assumes "contents s L" "p < N_PROCS" "\<And>q. p \<notin> set (L q)"
  shows "\<exists>s1 s2. ins q (Some p) s = Inr (SUCCESS, s1) \<and>
           rem_this q (Some p) s1 = Inr (SUCCESS, s2) \<and> contents s2 L"
proof -
  obtain s1 where s1: "ins q (Some p) s = Inr (SUCCESS, s1)" "contents s1 (L(q := place s q p (L q)))"
    using ins_law [OF assms] by blast
  have "p \<in> set ((L(q := place s q p (L q))) q)" by (simp add: set_place)
  from rem_this_law [OF s1(2) this] obtain s2
    where "rem_this q (Some p) s1 = Inr (SUCCESS, s2)" "contents s2 L"
    unfolding fun_upd_upd fun_upd_same remove1_place [OF assms(3)] fun_upd_triv by blast
  with s1 show ?thesis by blast
qed

text \<open>Moving a PCB between queues loses nothing and duplicates nothing.\<close>

lemma move_between:
  assumes "contents s L" "p \<in> set (L q)" "q \<noteq> q'"
  shows "\<exists>s1 s2. rem_this q (Some p) s = Inr (SUCCESS, s1) \<and> ins q' (Some p) s1 = Inr (SUCCESS, s2) \<and>
           contents s2 (L(q := remove1 p (L q), q' := place s1 q' p (L q')))"
proof -
  obtain s1 where s1: "rem_this q (Some p) s = Inr (SUCCESS, s1)" "contents s1 (L(q := remove1 p (L q)))"
    using rem_this_law [OF assms(1,2)] by blast
  have "p \<notin> set ((L(q := remove1 p (L q))) r)" for r
    using contents_disjoint [OF assms(1,2)] contents_once [OF assms(1)] by (cases "r = q") auto
  from ins_law [OF s1(2) contents_bound [OF assms(1,2)] this, of q'] obtain s2 where
    "ins q' (Some p) s1 = Inr (SUCCESS, s2)"
    "contents s2 ((L(q := remove1 p (L q)))(q' := place s1 q' p ((L(q := remove1 p (L q))) q')))"
    by blast
  with s1 assms(3) show ?thesis by auto
qed

text \<open>A queue gives its members back in the order it holds them.\<close>

lemma drain_all:
  assumes "contents s L" "L q = xs"
  shows "\<exists>s'. drain (rem q) (length xs) s = Inr (map Some xs, s') \<and> contents s' (L(q := []))"
  using assms
proof (induction xs arbitrary: s L)
  case Nil
  then have "L = L(q := [])" by auto
  with Nil show ?case by auto
next
  case (Cons x xs)
  obtain s1 where s1: "rem q s = Inr (SUCCESS, Some x, s1)" "contents s1 (L(q := xs))"
    using rem_law [OF Cons.prems] by blast
  from Cons.IH [OF s1(2)] obtain s2 where
    s2: "drain (rem q) (length xs) s1 = Inr (map Some xs, s2)" "contents s2 (L(q := []))"
    unfolding fun_upd_upd fun_upd_same by blast
  from s1(1) s2(1) have "drain (rem q) (length (x # xs)) s = Inr (map Some (x # xs), s2)" by simp
  with s2(2) show ?case by blast
qed

end

interpretation pq: queue_interface qreps pcb_queue_insert pcb_queue_remove pcb_queue_remove_this qins
proof (unfold_locales, goal_cases)
  case (1 s L p q)
  then show ?case by (metis qreps_insert)
next
  case (2 s L q x xs)
  then show ?case by (metis qreps_remove)
next
  case (3 s L q)
  then show ?case by (metis pcb_queue_remove_empty qrepsD(1))
next
  case (4 s L p q)
  then show ?case by (metis qreps_remove_this)
next
  case (5 s q p xs)
  show ?case
  proof (cases "q_order (queues s q) = O_FIFO")
    case True
    then show ?thesis by (auto simp: qins_def)
  next
    case False
    then show ?thesis unfolding qins_def insert_after_def by (metis takeWhile_dropWhile_id)
  qed
next
  case (6 s L q)
  then show ?case by (metis qrep_distinct qrepsD(1))
next
  case (7 s L p q)
  then show ?case by (rule qreps_member)
next
  case (8 s L p q q')
  then show ?case by (rule qreps_unique_queue)
qed

section \<open>Properties\<close>

text \<open>The order an ordered queue keeps its members in.\<close>

definition qsorted :: "procs \<Rightarrow> qid \<Rightarrow> nat list \<Rightarrow> bool" where
  "qsorted s q xs \<longleftrightarrow> q_order (queues s q) \<noteq> O_FIFO \<longrightarrow>
     sorted (map (\<lambda>x. queue_key (q_order (queues s q)) (ptable s x)) xs)"

lemma qsorted_qins: "qsorted s q xs \<Longrightarrow> qsorted s q (qins s q p xs)"
  by (simp add: qsorted_def qins_def sorted_insert_after)

lemma qsorted_frame: "frame q S s s' \<Longrightarrow> qsorted s' q xs = qsorted s q xs"
  by (simp add: qsorted_def frame_key) (simp add: frame_def)

text \<open>A sample table for the witnesses: processes 3 and 4, with priorities 1 and 0, in no queue, and
  process 5 of priority 1 alone in the ready queue.\<close>

definition sample_pcb :: pcb where
  "sample_pcb = \<lparr>p_context = 0, p_stack = 0, p_next = None, p_parent = None, p_wakeup = 0,
     p_exit_status = 0, p_pid = 0, p_state = STATE_UNUSED, p_priority = 0, p_ticks = 0, p_stkpgs = 0\<rparr>"

definition sample_procs :: procs where
  "sample_procs = \<lparr>ptable = (\<lambda>_. sample_pcb)(3 := sample_pcb\<lparr>p_priority := 1\<rparr>, 5 := sample_pcb\<lparr>p_priority := 1\<rparr>),
     queues = (\<lambda>q. \<lparr>q_head = None, q_tail = None, q_length = 0, q_order = init_order q\<rparr>)
        (Q_ready := \<lparr>q_head = Some 5, q_tail = Some 5, q_length = 1, q_order = O_PRIO\<rparr>),
     current = None, next_pid = 2, init_pcb = None\<rparr>"

abbreviation sample_lists :: "qid \<Rightarrow> nat list" where
  "sample_lists \<equiv> (\<lambda>_. [])(Q_ready := [5])"

lemma sample_qreps: "qreps sample_procs sample_lists"
  by (auto simp: qreps_def qrep_def sample_procs_def links_def sample_pcb_def last_opt_def)

text \<open>C3. Inserting a process that is in no queue succeeds and puts it where the ordering of the
  queue says: at the end of a FIFO queue, otherwise behind every member whose key (priority, PID or
  wakeup time) is not greater. No other queue changes, and an ordered queue stays sorted, with
  processes of equal key in the order of their arrival.\<close>

theorem pcb_queue_insert_ordered:
  assumes "qreps s L" "p < N_PROCS" "\<forall>q. p \<notin> set (L q)" "qsorted s q (L q)"
  shows "\<exists>s'. pcb_queue_insert q (Some p) s = Inr (SUCCESS, s') \<and>
     qreps s' (L(q := qins s q p (L q))) \<and> qsorted s' q (qins s q p (L q)) \<and>
     (q_order (queues s q) \<noteq> O_FIFO \<longrightarrow>
        (let key = (\<lambda>x. queue_key (q_order (queues s q)) (ptable s x))
         in \<forall>k. filter (\<lambda>x. key x = k) (qins s q p (L q)) =
                filter (\<lambda>x. key x = k) (L q) @ (if key p = k then [p] else [])))"
proof -
  from qreps_insert [OF assms(1,2)] assms(3) obtain s' where
    S: "pcb_queue_insert q (Some p) s = Inr (SUCCESS, s')"
      "qreps s' (L(q := qins s q p (L q)))" "frame q (insert p (set (L q))) s s'" by metis
  moreover have "qsorted s' q (qins s q p (L q))"
    using qsorted_qins [OF assms(4)] qsorted_frame [OF S(3)] by simp
  ultimately show ?thesis
    using assms(4) by (auto simp: qins_def qsorted_def insert_after_stable)
qed

theorem pcb_queue_insert_ordered_witness:
  "\<exists>s1. pcb_queue_insert Q_ready (Some 3) sample_procs = Inr (SUCCESS, s1) \<and>
     qreps s1 (sample_lists(Q_ready := [5, 3]))"
proof -
  have q: "qins sample_procs Q_ready 3 [5] = [5, 3]"
    by (simp add: qins_def insert_after_def sample_procs_def queue_key_def)
  have "qsorted sample_procs Q_ready [5]" by (simp add: qsorted_def)
  with pcb_queue_insert_ordered [OF sample_qreps, of 3 Q_ready] q show ?thesis by auto
qed

text \<open>C18. Removing a particular process: from a queue that holds it, it goes and every other member
  keeps its place; otherwise the queue is unchanged and the code tells an empty queue from one that
  does not hold the process.\<close>

theorem pcb_queue_remove_this_spec:
  assumes "qreps s L"
  shows "if p \<in> set (L q)
         then \<exists>s'. pcb_queue_remove_this q (Some p) s = Inr (SUCCESS, s') \<and>
                qreps s' (L(q := remove1 p (L q)))
         else pcb_queue_remove_this q (Some p) s =
                Inr (if L q = [] then E_EMPTY_QUEUE else E_NOT_FOUND, s)"
proof (cases "p \<in> set (L q)")
  case True
  then show ?thesis using pq.rem_this_law [OF assms True] by simp
next
  case False
  then show ?thesis using pcb_queue_remove_this_absent [OF qrepsD(1) [OF assms] False] by simp
qed

theorem pcb_queue_remove_this_spec_witness:
  "(\<exists>s'. pcb_queue_remove_this Q_ready (Some 5) sample_procs = Inr (SUCCESS, s') \<and> qreps s' (\<lambda>_. [])) \<and>
   pcb_queue_remove_this Q_ready (Some 3) sample_procs = Inr (E_NOT_FOUND, sample_procs) \<and>
   pcb_queue_remove_this Q_zombie (Some 3) sample_procs = Inr (E_EMPTY_QUEUE, sample_procs)"
  using pcb_queue_remove_this_spec [OF sample_qreps, of 5 Q_ready]
    pcb_queue_remove_this_spec [OF sample_qreps, of 3 Q_ready]
    pcb_queue_remove_this_spec [OF sample_qreps, of 3 Q_zombie] by (simp add: fun_upd_idem)

text \<open>Moving a process from one queue to another, the way the kernel wakes, kills and blocks
  processes: both calls succeed, the process is in the second queue at the place its ordering gives
  it, and nothing else moves.\<close>

theorem pcb_queue_move:
  assumes "qreps s L" "p \<in> set (L q)" "q \<noteq> q'"
  shows "\<exists>s1 s2. pcb_queue_remove_this q (Some p) s = Inr (SUCCESS, s1) \<and>
     pcb_queue_insert q' (Some p) s1 = Inr (SUCCESS, s2) \<and>
     qreps s2 (L(q := remove1 p (L q), q' := qins s1 q' p (L q')))"
  using assms by (rule pq.move_between)

theorem pcb_queue_move_witness:
  "\<exists>s1 s2. pcb_queue_remove_this Q_ready (Some 5) sample_procs = Inr (SUCCESS, s1) \<and>
     pcb_queue_insert Q_zombie (Some 5) s1 = Inr (SUCCESS, s2)"
  using pcb_queue_move [OF sample_qreps, of 5 Q_ready Q_zombie] by auto

text \<open>Removing repeatedly from a queue gives back its members in the order it holds them.\<close>

theorem pcb_queue_drain:
  assumes "qreps s L"
  shows "\<exists>s'. drain (pcb_queue_remove q) (length (L q)) s = Inr (map Some (L q), s') \<and>
     qreps s' (L(q := [])) \<and> pcb_queue_remove q s' = Inr (E_EMPTY_QUEUE, None, s')"
  using pq.drain_all [OF assms refl] pq.rem_empty_law by (metis fun_upd_same)

theorem pcb_queue_drain_witness:
  "\<exists>s'. drain (pcb_queue_remove Q_ready) 1 sample_procs = Inr ([Some 5], s') \<and>
     pcb_queue_remove Q_ready s' = Inr (E_EMPTY_QUEUE, None, s')"
  using pcb_queue_drain [OF sample_qreps, of Q_ready] by auto

text \<open>The check for "already in a queue" looks only at the link of the process, which is NULL for
  the last member. Inserting the last member of a FIFO queue a second time is reported as a success
  and makes the queue circular: after that, looking for a process the queue does not hold never
  ends.\<close>

theorem pcb_queue_insert_tail_again:
  assumes "qrep s q (as @ [p])" "q_order (queues s q) = O_FIFO"
  shows "\<exists>s'. pcb_queue_insert q (Some p) s = Inr (SUCCESS, s') \<and> links s' p = Some p \<and>
     (\<forall>y. y \<notin> set (as @ [p]) \<longrightarrow> pcb_queue_remove_this q (Some y) s' = Inl Hang)"
proof -
  let ?s' = "upd_queue q (\<lambda>qu. qu\<lparr>q_length := q_length qu + 1\<rparr>)
    (upd_queue q (\<lambda>qu. qu\<lparr>q_tail := Some p\<rparr>) (set_next p (Some p) s))"
  have seg: "segment (links s) (q_head (queues s q)) as (Some p)" and np: "p_next (ptable s p) = None"
    and tl: "q_tail (queues s q) = Some p"
    using assms(1) by (auto simp: qrep_def chain_append links_def)
  have hd: "q_head (queues s q) \<noteq> None" using qrep_head [OF assms(1)] by (cases as) auto
  have p: "p \<notin> set as" using qrep_distinct [OF assms(1)] by simp
  have "pcb_queue_insert q (Some p) s = Inr (SUCCESS, ?s')"
    using hd tl np assms(2) by (auto simp: pcb_queue_insert_def link_after_def)
  moreover have "pcb_queue_remove_this q (Some y) ?s' = Inl Hang" if y: "y \<notin> set (as @ [p])" for y
  proof -
    obtain c where c: "q_head (queues s q) = Some c" using hd by blast
    have cin: "c \<in> set (as @ [p])" using seg c by (cases as) auto
    have closed: "x \<noteq> y \<and> (\<exists>d\<in>set (as @ [p]). ((links s)(p := Some p)) x = Some d)"
      if x: "x \<in> set (as @ [p])" for x
      using segment_closed [OF seg] x y p by (cases "x = p") auto
    have "walk N_PROCS (\<lambda>c. c \<noteq> y) ((links s)(p := Some p)) None (Some c) = Inl Hang"
      by (rule walk_Hang_closed [OF closed cin])
    then show ?thesis using c by (simp add: pcb_queue_remove_this_def)
  qed
  ultimately show ?thesis by (intro exI [of _ ?s']) auto
qed

theorem pcb_queue_insert_tail_again_witness:
  "\<exists>s s'. qrep s Q_sioread [5] \<and> pcb_queue_insert Q_sioread (Some 5) s = Inr (SUCCESS, s') \<and>
     pcb_queue_remove_this Q_sioread (Some 3) s' = Inl Hang"
proof -
  let ?s = "upd_queue Q_sioread (\<lambda>qu. qu\<lparr>q_head := Some 5, q_tail := Some 5, q_length := 1\<rparr>) sample_procs"
  have "qrep ?s Q_sioread ([] @ [5])" "q_order (queues ?s Q_sioread) = O_FIFO"
    by (simp_all add: qrep_def sample_procs_def links_def sample_pcb_def)
  with pcb_queue_insert_tail_again [OF this] show ?thesis by fastforce
qed

end
