(* ===== verification/Memory.thy ===== *)
theory Memory
  imports Prelude
begin

unbundle bit_operations_syntax

text \<open>
  Physical memory as the kernel sees it (flat, 32-bit addresses, one byte per address), the
  little-endian 32-bit accesses of the i386, and the memory routines of \<^verbatim>\<open>klibc.c\<close> and
  \<^verbatim>\<open>list.c\<close>, which are loops over it. Stacks, process contexts, free-list headers and user
  buffers all live here.
\<close>

type_synonym mem = "addr \<Rightarrow> u8"

section \<open>Word access\<close>

definition load32 :: "mem \<Rightarrow> addr \<Rightarrow> u32" where
  "load32 m a = ucast (m a) OR push_bit 8 (ucast (m (a + 1)))
     OR push_bit 16 (ucast (m (a + 2))) OR push_bit 24 (ucast (m (a + 3)))"

definition store32 :: "mem \<Rightarrow> addr \<Rightarrow> u32 \<Rightarrow> mem" where
  "store32 m a v = m(a := ucast v, a + 1 := ucast (drop_bit 8 v),
     a + 2 := ucast (drop_bit 16 v), a + 3 := ucast (drop_bit 24 v))"

text \<open>\<open>x\<close> is one of the \<open>n\<close> bytes from \<open>a\<close> on.\<close>

definition inr :: "addr \<Rightarrow> nat \<Rightarrow> addr \<Rightarrow> bool" where
  "inr a n x \<longleftrightarrow> unat (x - a) < n"

lemma unat_u32: "unat (w :: u32) < 4294967296"
  using unsigned_less [of w, where ?'a = nat] by simp

lemma add_small_neq:
  "a + 1 \<noteq> (a :: u32)" "a + 2 \<noteq> (a :: u32)" "a + 3 \<noteq> (a :: u32)"
  "a + 2 \<noteq> (a + 1 :: u32)" "a + 3 \<noteq> (a + 1 :: u32)" "a + 3 \<noteq> (a + 2 :: u32)"
  by simp_all

lemma load32_store32 [simp]: "load32 (store32 m a v) a = v"
proof -
  have "load32 (store32 m a v) a = ucast (ucast v :: u8) OR push_bit 8 (ucast (ucast (drop_bit 8 v) :: u8))
     OR push_bit 16 (ucast (ucast (drop_bit 16 v) :: u8)) OR push_bit 24 (ucast (ucast (drop_bit 24 v) :: u8))"
    by (simp add: load32_def store32_def)
  also have "\<dots> = v"
  proof (rule bit_word_eqI)
    fix n assume "n < LENGTH(32)"
    then have "n < 8 \<or> (8 \<le> n \<and> n < 16) \<or> (16 \<le> n \<and> n < 24) \<or> (24 \<le> n \<and> n < 32)" by auto
    then consider "n < 8" | "8 \<le> n" "n < 16" | "16 \<le> n" "n < 24" | "24 \<le> n" "n < 32"
      by blast
    then show "bit ((ucast (ucast v :: u8) :: u32) OR push_bit 8 (ucast (ucast (drop_bit 8 v) :: u8))
     OR push_bit 16 (ucast (ucast (drop_bit 16 v) :: u8))
     OR push_bit 24 (ucast (ucast (drop_bit 24 v) :: u8))) n = bit v n"
      by cases (simp_all add: bit_simps, auto)
  qed
  finally show ?thesis .
qed

lemma store32_other: "\<not> inr a 4 x \<Longrightarrow> store32 m a v x = m x"
proof -
  assume h: "\<not> inr a 4 x"
  have "x \<noteq> a" "x \<noteq> a + 1" "x \<noteq> a + 2" "x \<noteq> a + 3"
    using h by (auto simp: inr_def)
  then show ?thesis by (simp add: store32_def)
qed

lemma load32_cong:
  "(\<And>x. inr a 4 x \<Longrightarrow> m x = m' x) \<Longrightarrow> load32 m a = load32 m' a"
  by (simp add: load32_def inr_def)

text \<open>Two accesses that do not overlap.\<close>

definition apart :: "addr \<Rightarrow> nat \<Rightarrow> addr \<Rightarrow> nat \<Rightarrow> bool" where
  "apart a n b k \<longleftrightarrow> n \<le> unat (b - a) \<and> k \<le> unat (a - b)"

lemma apart_inr: "apart a n b k \<Longrightarrow> inr a n x \<Longrightarrow> \<not> inr b k x"
  using unat_u32 [of a] unat_u32 [of b] unat_u32 [of x]
  by (auto simp: apart_def inr_def unat_sub_if' split: if_splits)

lemma load32_store32_apart: "apart a 4 b 4 \<Longrightarrow> load32 (store32 m a v) b = load32 m b"
  by (rule load32_cong) (auto intro!: store32_other dest: apart_inr)

text \<open>Addresses below the 4 GB limit that do not wrap are ordered as numbers.\<close>

lemma unat_add_nowrap: "unat a + n < 2 ^ 32 \<Longrightarrow> unat (a + of_nat n :: u32) = unat a + n"
  by (simp add: unat_word_ariths unat_of_nat)

lemma unat_diff_le: "b \<le> a \<Longrightarrow> unat (a - b :: u32) = unat a - unat b"
  by (rule unat_sub)

lemma inr_nowrap:
  assumes "unat a + n \<le> 2 ^ 32"
  shows "inr a n x \<longleftrightarrow> unat a \<le> unat x \<and> unat x < unat a + n"
  using assms unat_u32 [of a] unat_u32 [of x]
  by (auto simp: inr_def unat_sub_if' split: if_splits)

lemma apart_nowrap:
  assumes "unat a + n \<le> unat b" "unat b + k \<le> 2 ^ 32" "0 < n"
  shows "apart a n b k" "apart b k a n"
  using assms unat_u32 [of a] unat_u32 [of b]
  by (auto simp: apart_def unat_sub_if' split: if_splits)

section \<open>The block routines of klibc.c\<close>

function memclr :: "mem \<Rightarrow> addr \<Rightarrow> u32 \<Rightarrow> mem" where
  "memclr m dest len = (if len = 0 then m else memclr (m(dest := 0)) (dest + 1) (len - 1))"
  by pat_completeness auto
termination
  by (relation "measure (\<lambda>(m, dest, len). unat len)") (auto simp: unat_minus_one unat_gt_0)

function memset_loop :: "mem \<Rightarrow> addr \<Rightarrow> u32 \<Rightarrow> u8 \<Rightarrow> mem" where
  "memset_loop m bp len v =
     (if len = 0 then m else memset_loop (m(bp := v)) (bp + 1) (len - 1) v)"
  by pat_completeness auto
termination
  by (relation "measure (\<lambda>(m, bp, len, v). unat len)") (auto simp: unat_minus_one unat_gt_0)

definition memset :: "mem \<Rightarrow> addr \<Rightarrow> u32 \<Rightarrow> u32 \<Rightarrow> mem" where
  "memset m buf len v = memset_loop m buf len (ucast v)"

text \<open>\<^verbatim>\<open>while( len-- ) *dest++ = *source++;\<close>\<close>

function copy_up :: "mem \<Rightarrow> addr \<Rightarrow> addr \<Rightarrow> u32 \<Rightarrow> mem" where
  "copy_up m dest source len =
     (if len = 0 then m
      else copy_up (m(dest := m source)) (dest + 1) (source + 1) (len - 1))"
  by pat_completeness auto
termination
  by (relation "measure (\<lambda>(m, dest, source, len). unat len)") (auto simp: unat_minus_one unat_gt_0)

text \<open>\<^verbatim>\<open>while( len-- > 0 ) *--dest = *--source;\<close>\<close>

function copy_down :: "mem \<Rightarrow> addr \<Rightarrow> addr \<Rightarrow> u32 \<Rightarrow> mem" where
  "copy_down m dest source len =
     (if len = 0 then m
      else copy_down (m(dest - 1 := m (source - 1))) (dest - 1) (source - 1) (len - 1))"
  by pat_completeness auto
termination
  by (relation "measure (\<lambda>(m, dest, source, len). unat len)") (auto simp: unat_minus_one unat_gt_0)

declare memclr.simps [simp del] memset_loop.simps [simp del]
  copy_up.simps [simp del] copy_down.simps [simp del]

definition memcpy :: "mem \<Rightarrow> addr \<Rightarrow> addr \<Rightarrow> u32 \<Rightarrow> mem" where
  "memcpy m dst src len = copy_up m dst src len"

definition memmove :: "mem \<Rightarrow> addr \<Rightarrow> addr \<Rightarrow> u32 \<Rightarrow> mem" where
  "memmove m dst src len =
     (if src < dst \<and> src + len > dst then copy_down m (dst + len) (src + len) len
      else copy_up m dst src len)"

function word_up :: "mem \<Rightarrow> addr \<Rightarrow> addr \<Rightarrow> u32 \<Rightarrow> mem" where
  "word_up m dest source len =
     (if len = 0 then m
      else word_up (store32 m dest (load32 m source)) (dest + 4) (source + 4) (len - 1))"
  by pat_completeness auto
termination
  by (relation "measure (\<lambda>(m, dest, source, len). unat len)") (auto simp: unat_minus_one unat_gt_0)

function word_down :: "mem \<Rightarrow> addr \<Rightarrow> addr \<Rightarrow> u32 \<Rightarrow> mem" where
  "word_down m dest source len =
     (if len = 0 then m
      else word_down (store32 m (dest - 4) (load32 m (source - 4))) (dest - 4) (source - 4) (len - 1))"
  by pat_completeness auto
termination
  by (relation "measure (\<lambda>(m, dest, source, len). unat len)") (auto simp: unat_minus_one unat_gt_0)

declare word_up.simps [simp del] word_down.simps [simp del]

definition blkmov :: "mem \<Rightarrow> addr \<Rightarrow> addr \<Rightarrow> u32 \<Rightarrow> mem" where
  "blkmov m dst src len =
     (if dst AND 3 \<noteq> 0 \<or> src AND 3 \<noteq> 0 \<or> len AND 3 \<noteq> 0 then memmove m dst src len
      else let n = len div 4
           in if src < dst \<and> src + 4 * n > dst
              then word_down m (dst + 4 * n) (src + 4 * n) n
              else word_up m dst src n)"

subsection \<open>What they leave in memory\<close>

text \<open>The memory after the \<open>n\<close> bytes at \<open>src\<close>, as they were, have been put at \<open>dst\<close>.\<close>

definition copied :: "mem \<Rightarrow> addr \<Rightarrow> addr \<Rightarrow> nat \<Rightarrow> mem" where
  "copied m dst src n = (\<lambda>x. if inr dst n x then m (src + (x - dst)) else m x)"

lemma inr_0 [simp]: "\<not> inr a 0 x"
  by (simp add: inr_def)

lemma inr_self [simp]: "inr a n a \<longleftrightarrow> 0 < n"
  by (simp add: inr_def)

lemma unat_dec: "x \<noteq> a \<Longrightarrow> unat (x - (a + 1)) = unat (x - a) - 1 \<and> 0 < unat (x - a)" for x a :: u32
  using unat_minus_one [of "x - a"] by (simp add: diff_diff_eq unat_gt_0)

lemma inr_Suc: "inr a (Suc n) x \<longleftrightarrow> x = a \<or> inr (a + 1) n x" if "n < 2 ^ 32"
  using unat_dec [of x a] that unat_u32 [of "x - (a + 1)"]
  by (cases "x = a") (auto simp: inr_def)

lemma u32_len_induct [case_names zero step]:
  fixes len :: u32
  assumes "P 0" and "\<And>len. len \<noteq> 0 \<Longrightarrow> P (len - 1) \<Longrightarrow> P len"
  shows "P len"
proof (induction "unat len" arbitrary: len)
  case 0
  then have "len = 0" by (simp add: unat_eq_zero)
  with assms(1) show ?case by simp
next
  case (Suc n)
  then have "len \<noteq> 0" by auto
  moreover from this have "n = unat (len - 1)" using Suc.hyps(2) by (simp add: unat_minus_one)
  ultimately show ?case using Suc.hyps(1) assms(2) by blast
qed

lemma memclr_eq: "memclr m dest len = (\<lambda>x. if inr dest (unat len) x then 0 else m x)"
proof (induction len arbitrary: m dest rule: u32_len_induct)
  case zero
  show ?case by (subst memclr.simps) simp
next
  case (step len)
  have "unat len = Suc (unat (len - 1))" using step.hyps by (simp add: unat_minus_one unat_gt_0)
  moreover have "unat (len - 1) < 2 ^ 32" using unat_u32 by simp
  ultimately have "inr dest (unat len) x \<longleftrightarrow> x = dest \<or> inr (dest + 1) (unat (len - 1)) x" for x
    by (simp only: inr_Suc)
  with step show ?case by (subst memclr.simps) (auto simp: fun_eq_iff)
qed

lemma memset_eq: "memset m buf len v = (\<lambda>x. if inr buf (unat len) x then ucast v else m x)"
proof -
  have "memset_loop m buf len w = (\<lambda>x. if inr buf (unat len) x then w else m x)" for w
  proof (induction len arbitrary: m buf rule: u32_len_induct)
    case zero
    show ?case by (subst memset_loop.simps) simp
  next
    case (step len)
    have "unat len = Suc (unat (len - 1))" using step.hyps by (simp add: unat_minus_one unat_gt_0)
    moreover have "unat (len - 1) < 2 ^ 32" using unat_u32 by simp
    ultimately have "inr buf (unat len) x \<longleftrightarrow> x = buf \<or> inr (buf + 1) (unat (len - 1)) x" for x
      by (simp only: inr_Suc)
    with step show ?case by (subst memset_loop.simps) (auto simp: fun_eq_iff)
  qed
  then show ?thesis by (simp add: memset_def)
qed

text \<open>The upward loop is a copy when no byte is overwritten before it is read: the destination
  does not start inside the source.\<close>

lemma copy_up_eq:
  assumes "dest = source \<or> unat len \<le> unat (dest - source)"
  shows "copy_up m dest source len = copied m dest source (unat len)"
  using assms
proof (induction len arbitrary: m dest source rule: u32_len_induct)
  case zero
  show ?case by (subst copy_up.simps) (simp add: copied_def)
next
  case (step len)
  let ?k = "unat (len - 1)"
  have len: "unat len = Suc ?k" using step.hyps by (simp add: unat_minus_one unat_gt_0)
  have k: "?k < 2 ^ 32" using unat_u32 by simp
  have pre: "dest + 1 = source + 1 \<or> ?k \<le> unat (dest + 1 - (source + 1))"
    using step.prems len by auto
  have rd: "source + (x - dest) \<noteq> dest" if "inr dest (Suc ?k) x" "dest \<noteq> source" for x
  proof
    assume "source + (x - dest) = dest"
    then have "x - dest = dest - source" by (simp add: algebra_simps)
    with that step.prems len show False by (simp add: inr_def)
  qed
  have "copy_up m dest source len = copy_up (m(dest := m source)) (dest + 1) (source + 1) (len - 1)"
    using step.hyps by (simp add: copy_up.simps [of m dest source len])
  also have "\<dots> = copied (m(dest := m source)) (dest + 1) (source + 1) ?k"
    by (rule step.IH [OF pre])
  also have "\<dots> = copied m dest source (unat len)"
  proof (rule ext)
    fix x
    have in_Suc: "inr dest (Suc ?k) x \<longleftrightarrow> x = dest \<or> inr (dest + 1) ?k x" by (rule inr_Suc [OF k])
    have not_dest: "\<not> inr (dest + 1) ?k dest"
      using len unat_u32 [of len] by (simp add: inr_def unsigned_minus_1_eq_mask mask_eq_exp_minus_1)
    have src: "source + 1 + (x - (dest + 1)) = source + (x - dest)" by simp
    show "copied (m(dest := m source)) (dest + 1) (source + 1) ?k x = copied m dest source (unat len) x"
    proof (cases "dest = source")
      case True
      then show ?thesis by (simp add: copied_def)
    next
      case False
      then show ?thesis
        unfolding copied_def len in_Suc fun_upd_apply src using not_dest rd [of x] in_Suc by auto
    qed
  qed
  finally show ?case .
qed

text \<open>The downward loop, entered with the end addresses, is a copy when the source does not start
  inside the destination.\<close>

lemma inr_Suc_end: "inr a (Suc n) x \<longleftrightarrow> x = a + of_nat n \<or> inr a n x" if "n < 2 ^ 32"
proof -
  have "x = a + of_nat n \<longleftrightarrow> x - a = of_nat n" by (auto simp: algebra_simps)
  also have "\<dots> \<longleftrightarrow> unat (x - a) = n" using that by (simp add: word_unat_eq_iff unat_of_nat)
  finally show ?thesis by (auto simp: inr_def)
qed

lemma copy_down_eq:
  assumes "dest = source \<or> unat len \<le> unat (source - dest)"
  shows "copy_down m (dest + len) (source + len) len = copied m dest source (unat len)"
  using assms
proof (induction len arbitrary: m rule: u32_len_induct)
  case zero
  show ?case by (subst copy_down.simps) (simp add: copied_def)
next
  case (step len)
  let ?k = "unat (len - 1)" and ?e = "dest + (len - 1)" and ?f = "source + (len - 1)"
  have len: "unat len = Suc ?k" using step.hyps by (simp add: unat_minus_one unat_gt_0)
  have k: "?k < 2 ^ 32" using unat_u32 by simp
  have pre: "dest = source \<or> ?k \<le> unat (source - dest)" using step.prems len by auto
  have e: "dest + len - 1 = ?e" "source + len - 1 = ?f" by (simp_all add: algebra_simps)
  have "copy_down m (dest + len) (source + len) len = copy_down (m(?e := m ?f)) ?e ?f (len - 1)"
    using step.hyps by (simp add: copy_down.simps [of m "dest + len"] e)
  also have "\<dots> = copied (m(?e := m ?f)) dest source ?k"
    by (rule step.IH [OF pre])
  also have "\<dots> = copied m dest source (unat len)"
  proof (rule ext)
    fix x
    have in_Suc: "inr dest (Suc ?k) x \<longleftrightarrow> x = ?e \<or> inr dest ?k x"
      using inr_Suc_end [OF k, of dest x] by simp
    have rd: "source + (x - dest) \<noteq> ?e" if "inr dest ?k x" "dest \<noteq> source"
    proof
      assume "source + (x - dest) = ?e"
      then have eq: "x - dest = (len - 1) - (source - dest)" by (simp add: algebra_simps)
      have "unat len \<le> unat (source - dest)" using step.prems that by simp
      then have "unat (x - dest) = 2 ^ 32 + ?k - unat (source - dest)"
        unfolding eq using len unat_sub_if' [of "len - 1" "source - dest"] by auto
      with that(1) unat_u32 [of "source - dest"] show False by (simp add: inr_def)
    qed
    have not_e: "\<not> inr dest ?k ?e" by (simp add: inr_def)
    show "copied (m(?e := m ?f)) dest source ?k x = copied m dest source (unat len) x"
    proof (cases "dest = source")
      case True
      then show ?thesis by (simp add: copied_def)
    next
      case False
      then show ?thesis
        unfolding copied_def len in_Suc fun_upd_apply using not_e rd by simp
    qed
  qed
  finally show ?case .
qed

lemma up_safe:
  assumes "unat dst + unat len \<le> 2 ^ 32" "unat src + unat len \<le> 2 ^ 32" "\<not> (src < dst \<and> src + len > dst)"
  shows "dst = src \<or> unat len \<le> unat (dst - src :: u32)"
proof (cases "src < dst")
  case True
  then have lt: "unat src < unat dst" by (simp add: word_less_nat_alt)
  have "unat len = 0 \<or> unat src + unat len < 2 ^ 32"
    using assms lt by auto
  moreover have "unat (src + len) \<le> unat dst" using assms(3) True by (simp add: not_less word_le_nat_alt)
  ultimately have "unat src + unat len \<le> unat dst \<or> unat len = 0"
    by (auto simp: unat_word_ariths)
  then show ?thesis using lt by (auto simp: unat_sub_if')
next
  case False
  then have "unat dst \<le> unat src" by (simp add: not_less word_le_nat_alt)
  then show ?thesis using assms unat_u32 [of src]
    by (cases "dst = src") (auto simp: unat_sub_if' word_unat_eq_iff)
qed

text \<open>
  \<^verbatim>\<open>memmove\<close> handles overlapping buffers, as its comment says: whatever the overlap, as long as
  neither buffer wraps past the top of the address space, it stores the bytes the source held
  before the call.
\<close>

lemma memmove_eq:
  assumes "unat dst + unat len \<le> 2 ^ 32" "unat src + unat len \<le> 2 ^ 32"
  shows "memmove m dst src len = copied m dst src (unat len)"
proof (cases "src < dst \<and> src + len > dst")
  case True
  then have "unat src < unat dst" by (simp add: word_less_nat_alt)
  then have "unat len \<le> unat (src - dst)"
    using assms by (simp add: unat_sub_if')
  then show ?thesis using True by (simp add: memmove_def copy_down_eq)
next
  case False
  have "dst = src \<or> unat len \<le> unat (dst - src)" using assms False by (rule up_safe)
  then have "copy_up m dst src len = copied m dst src (unat len)" by (rule copy_up_eq)
  with False show ?thesis unfolding memmove_def by (simp only: if_False)
qed

text \<open>\<^verbatim>\<open>memcpy\<close> is the same copy when the buffers do not overlap.\<close>

lemma memcpy_eq:
  assumes "apart dst (unat len) src (unat len)"
  shows "memcpy m dst src len = copied m dst src (unat len)"
  using assms by (simp add: memcpy_def copy_up_eq apart_def)

section \<open>Byte strings in memory\<close>

text \<open>Bytes stored one after the other.\<close>

definition store_bytes :: "addr \<Rightarrow> u8 list \<Rightarrow> mem \<Rightarrow> mem" where
  "store_bytes p bs m = (\<lambda>x. if inr p (length bs) x then bs ! unat (x - p) else m x)"

lemma store_bytes_Nil [simp]: "store_bytes p [] m = m"
  by (simp add: store_bytes_def inr_def)

lemma store_bytes_Cons:
  assumes "length bs < 2 ^ 32 - 1"
  shows "store_bytes p (b # bs) m = store_bytes (p + 1) bs (m(p := b))"
proof
  fix x
  show "store_bytes p (b # bs) m x = store_bytes (p + 1) bs (m(p := b)) x"
  proof (cases "x = p")
    case True
    have "unat (-1 :: u32) = 2 ^ 32 - 1" by (simp add: unsigned_minus_1_eq_mask mask_eq_exp_minus_1)
    then have "\<not> inr (p + 1) (length bs) p" using assms by (simp add: inr_def)
    with True show ?thesis by (simp add: store_bytes_def inr_def)
  next
    case False
    then have "0 < unat (x - p)" by (simp add: unat_gt_0)
    with False show ?thesis using unat_dec [of x p] by (auto simp: store_bytes_def inr_def nth_Cons')
  qed
qed

section \<open>Copying by words\<close>

lemma inr_split:
  assumes "a + b \<le> 2 ^ 32"
  shows "inr d (a + b) x \<longleftrightarrow> inr d a x \<or> inr (d + of_nat a) b x"
    "inr (d + of_nat a) b x \<Longrightarrow> a \<le> unat (x - d)"
proof -
  define y where "y = x - d"
  have x: "x - (d + of_nat a) = y - of_nat a" "x - d = y" by (simp_all add: y_def)
  have *: "unat (y - of_nat a) < b \<longleftrightarrow> a \<le> unat y \<and> unat y < a + b" if "b \<noteq> 0" "a \<noteq> 2 ^ 32"
  proof -
    have "unat (of_nat a :: u32) = a" using assms that by (simp add: unat_of_nat)
    then show ?thesis using assms unat_u32 [of y] unat_sub_if' [of y "of_nat a"] that by (auto split: if_splits)
  qed
  show "inr d (a + b) x \<longleftrightarrow> inr d a x \<or> inr (d + of_nat a) b x"
    unfolding inr_def x using * assms unat_u32 [of y] by (cases "b = 0 \<or> a = 2 ^ 32") auto
  show "inr (d + of_nat a) b x \<Longrightarrow> a \<le> unat (x - d)"
    unfolding inr_def x using * assms by (cases "b = 0 \<or> a = 2 ^ 32") auto
qed

text \<open>Two copies one after the other, in either order, make one copy.\<close>

lemma copied_up:
  assumes "d = s \<or> a + b \<le> unat (d - s)" "a + b \<le> 2 ^ 32"
  shows "copied (copied m d s a) (d + of_nat a) (s + of_nat a) b = copied m d s (a + b)"
proof
  fix x
  have "copied m d s a (s + (x - d)) = m (s + (x - d))" if "inr (d + of_nat a) b x" "d \<noteq> s"
  proof -
    define y e where "y = x - d" and "e = d - s"
    have "a \<le> unat y" "unat y < a + b" using that(1) inr_split [OF assms(2), of d x] by (auto simp: inr_def y_def)
    moreover have "a + b \<le> unat e" using assms(1) that(2) by (simp add: e_def)
    ultimately have "a \<le> unat (y - e)" using unat_u32 [of e] by (simp add: unat_sub_if')
    moreover have "s + (x - d) - d = y - e" by (simp add: y_def e_def)
    ultimately have "\<not> inr d a (s + (x - d))" by (simp add: inr_def)
    then show ?thesis by (simp add: copied_def)
  qed
  moreover have "s + of_nat a + (x - (d + of_nat a)) = s + (x - d)" by simp
  ultimately show "copied (copied m d s a) (d + of_nat a) (s + of_nat a) b x = copied m d s (a + b) x"
    using inr_split(1) [OF assms(2), of d x] by (cases "d = s") (auto simp: copied_def)
qed

lemma copied_down:
  assumes "d = s \<or> a + b \<le> unat (s - d)" "a + b \<le> 2 ^ 32"
  shows "copied (copied m (d + of_nat a) (s + of_nat a) b) d s a = copied m d s (a + b)"
proof
  fix x
  have "copied m (d + of_nat a) (s + of_nat a) b (s + (x - d)) = m (s + (x - d))" if "inr d a x" "d \<noteq> s"
  proof -
    define y e where "y = x - d" and "e = s - d"
    have y: "unat y < a" using that(1) by (simp add: inr_def y_def)
    have e: "a + b \<le> unat e" using assms(1) that(2) by (simp add: e_def)
    have "\<not> (a \<le> unat (y + e) \<and> unat (y + e) < a + b)"
      using y e unat_u32 [of e] by (auto simp: unat_word_ariths mod_if)
    moreover have "s + (x - d) - d = y + e" by (simp add: y_def e_def)
    ultimately have "\<not> inr (d + of_nat a) b (s + (x - d))"
      using inr_split [OF assms(2), of d "s + (x - d)"] by (auto simp: inr_def)
    then show ?thesis by (simp add: copied_def)
  qed
  moreover have "s + of_nat a + (x - (d + of_nat a)) = s + (x - d)" by simp
  ultimately show "copied (copied m (d + of_nat a) (s + of_nat a) b) d s a x = copied m d s (a + b) x"
    using inr_split(1) [OF assms(2), of d x] by (cases "d = s") (auto simp: copied_def)
qed

lemma store32_load32: "store32 m d (load32 m s) = copied m d s 4"
proof
  fix x
  have b: "ucast (load32 m s) = m s" "ucast (drop_bit 8 (load32 m s)) = m (s + 1)"
    "ucast (drop_bit 16 (load32 m s)) = m (s + 2)" "ucast (drop_bit 24 (load32 m s)) = m (s + 3)"
    unfolding load32_def by (rule bit_word_eqI, auto simp: bit_simps dest: bit_imp_le_length)+
  show "store32 m d (load32 m s) x = copied m d s 4 x"
  proof (cases "inr d 4 x")
    case True
    then have "unat (x - d) \<in> {0, 1, 2, 3}" by (auto simp: inr_def)
    then have "x - d \<in> {0, 1, 2, 3}" by (auto simp: word_unat_eq_iff)
    then have "x \<in> {d, d + 1, d + 2, d + 3}" by (auto simp: algebra_simps)
    with True show ?thesis unfolding store32_def b by (auto simp: copied_def)
  next
    case False
    then show ?thesis by (simp add: store32_other copied_def)
  qed
qed

lemma len4:
  assumes "(n :: u32) \<noteq> 0" "4 * unat n < 2 ^ 32"
  shows "unat n = Suc (unat (n - 1))" "4 * unat (n - 1) + 4 = 4 * unat n"
proof -
  show *: "unat n = Suc (unat (n - 1))" using assms by (simp add: unat_minus_one unat_gt_0)
  show "4 * unat (n - 1) + 4 = 4 * unat n" unfolding * by simp
qed

lemma word_up_eq:
  assumes "dest = source \<or> 4 * unat n \<le> unat (dest - source)" "4 * unat n < 2 ^ 32"
  shows "word_up m dest source n = copied m dest source (4 * unat n)"
  using assms
proof (induction n arbitrary: m dest source rule: u32_len_induct)
  case zero
  show ?case by (subst word_up.simps) (simp add: copied_def)
next
  case (step n)
  note n = len4 [OF step.hyps step.prems(2)]
  have "word_up m dest source n = word_up (copied m dest source 4) (dest + 4) (source + 4) (n - 1)"
    using step.hyps by (subst word_up.simps) (simp add: store32_load32)
  also have "\<dots> = copied (copied m dest source 4) (dest + 4) (source + 4) (4 * unat (n - 1))"
    using step.prems n by (intro step.IH) auto
  also have "\<dots> = copied m dest source (4 + 4 * unat (n - 1))"
    using copied_up [of dest source 4 "4 * unat (n - 1)" m] step.prems n by auto
  finally show ?case using n by (simp add: add.commute)
qed

lemma word_down_eq:
  assumes "dest = source \<or> 4 * unat n \<le> unat (source - dest)" "4 * unat n < 2 ^ 32"
  shows "word_down m (dest + 4 * n) (source + 4 * n) n = copied m dest source (4 * unat n)"
  using assms
proof (induction n arbitrary: m rule: u32_len_induct)
  case zero
  show ?case by (subst word_down.simps) (simp add: copied_def)
next
  case (step n)
  note n = len4 [OF step.hyps step.prems(2)]
  let ?k = "4 * unat (n - 1)"
  have k: "of_nat ?k = 4 * (n - 1)" by simp
  have e: "dest + 4 * n - 4 = dest + 4 * (n - 1)" "source + 4 * n - 4 = source + 4 * (n - 1)" by (simp_all add: algebra_simps)
  have "word_down m (dest + 4 * n) (source + 4 * n) n =
      word_down (copied m (dest + 4 * (n - 1)) (source + 4 * (n - 1)) 4) (dest + 4 * (n - 1)) (source + 4 * (n - 1)) (n - 1)"
    using step.hyps by (subst word_down.simps) (simp only: e store32_load32 if_False)
  also have "\<dots> = copied (copied m (dest + 4 * (n - 1)) (source + 4 * (n - 1)) 4) dest source ?k"
    using step.prems n by (intro step.IH) auto
  also have "\<dots> = copied m dest source (?k + 4)"
    unfolding k [symmetric] using step.prems n by (intro copied_down) auto
  finally show ?case unfolding n(2) .
qed

lemma and_3: "(w :: u32) AND 3 = 0 \<longleftrightarrow> unat w mod 4 = 0"
proof -
  have "w AND 3 = take_bit 2 w" by (simp add: take_bit_eq_mask mask_eq_exp_minus_1)
  moreover have "unat (take_bit 2 w) = unat w mod 4" by (simp only: unsigned_take_bit_eq) (simp add: take_bit_eq_mod)
  ultimately show ?thesis by (simp add: word_unat_eq_iff)
qed

text \<open>\<^verbatim>\<open>blkmov\<close> is \<^verbatim>\<open>memmove\<close>, whichever of the two loops it takes.\<close>

lemma blkmov_eq:
  assumes "unat dst + unat len \<le> 2 ^ 32" "unat src + unat len \<le> 2 ^ 32"
  shows "blkmov m dst src len = copied m dst src (unat len)"
proof (cases "dst AND 3 \<noteq> 0 \<or> src AND 3 \<noteq> 0 \<or> len AND 3 \<noteq> 0")
  case True
  then show ?thesis using memmove_eq [OF assms] by (simp add: blkmov_def)
next
  case False
  let ?n = "len div 4"
  have n: "4 * unat ?n = unat len" using False by (auto simp: and_3 unat_div)
  then have len: "4 * ?n = len" by (metis of_nat_mult of_nat_numeral of_nat_unat ucast_id)
  have lt: "4 * unat ?n < 2 ^ 32" using n unat_u32 [of len] by simp
  have "memmove m dst src len = copied m dst src (unat len)" by (rule memmove_eq [OF assms])
  show ?thesis
  proof (cases "src < dst \<and> src + 4 * ?n > dst")
    case True
    then have "unat src < unat dst" by (simp add: word_less_nat_alt)
    then have "4 * unat ?n \<le> unat (src - dst)" using assms n by (simp add: unat_sub_if')
    then have "word_down m (dst + 4 * ?n) (src + 4 * ?n) ?n = copied m dst src (unat len)"
      using word_down_eq [OF disjI2 lt, of src dst m] n by simp
    with True False show ?thesis by (simp add: blkmov_def Let_def)
  next
    case nover: False
    then have "dst = src \<or> unat len \<le> unat (dst - src)" using up_safe [OF assms] len by simp
    then have "word_up m dst src ?n = copied m dst src (unat len)" using word_up_eq [OF _ lt, of dst src m] n by simp
    with nover False show ?thesis unfolding blkmov_def Let_def by (simp only: if_False de_Morgan_disj not_not simp_thms)
  qed
qed

section \<open>Linked lists of list.c\<close>

text \<open>The first word of a list entry is the address of the next one.\<close>

definition list_add :: "addr \<Rightarrow> addr \<Rightarrow> mem \<Rightarrow> mem res" where
  "list_add list data m =
     (if list = 0 then Inl (Assert ''list != NULL'')
      else if data = 0 then Inl (Assert ''data != NULL'')
      else Inr (store32 (store32 m data (load32 m list)) list data))"

definition list_remove :: "addr \<Rightarrow> mem \<Rightarrow> (addr \<times> mem) res" where
  "list_remove list m =
     (if list = 0 then Inl (Assert ''list != NULL'')
      else
        let data = load32 m list
        in Inr (data, if data \<noteq> 0 then store32 (store32 m list (load32 m data)) data 0 else m))"

lemma apart_sym: "apart a n b k \<Longrightarrow> apart b k a n"
  by (auto simp: apart_def)

section \<open>Properties\<close>

text \<open>\<^verbatim>\<open>blkmov\<close>, which copies by words when addresses and length are aligned and in the direction that
  is safe for the overlap, does what the byte loops of \<^verbatim>\<open>memmove\<close> do, for buffers that do not wrap
  around the address space.\<close>

theorem blkmov_is_memmove:
  assumes "unat dst + unat len \<le> 2 ^ 32" "unat src + unat len \<le> 2 ^ 32"
  shows "blkmov m dst src len = memmove m dst src len"
  using blkmov_eq [OF assms] memmove_eq [OF assms] by simp

theorem blkmov_is_memmove_witness: "blkmov (\<lambda>a. ucast a) 0x104 0x100 8 = memmove (\<lambda>a. ucast a) 0x104 0x100 8"
  by (rule blkmov_is_memmove) simp_all

text \<open>An entry added to a list is the one that is removed next; the list is then as before, and the link
  word of the removed entry is cleared.\<close>

theorem list_add_remove:
  assumes "list \<noteq> 0" "data \<noteq> 0" "apart list 4 data 4"
  shows "\<exists>m1 m2. list_add list data m = Inr m1 \<and> list_remove list m1 = Inr (data, m2) \<and>
    load32 m2 list = load32 m list \<and> load32 m2 data = 0 \<and>
    (\<forall>x. \<not> inr list 4 x \<longrightarrow> \<not> inr data 4 x \<longrightarrow> m2 x = m x)"
proof -
  let ?m1 = "store32 (store32 m data (load32 m list)) list data"
  have "load32 ?m1 list = data" "load32 ?m1 data = load32 m list"
    using assms(3) by (simp_all add: load32_store32_apart)
  then have "list_remove list ?m1 = Inr (data, store32 (store32 ?m1 list (load32 m list)) data 0)"
    using assms by (simp add: list_remove_def Let_def)
  moreover have "load32 (store32 (store32 ?m1 list (load32 m list)) data 0) list = load32 m list"
    using apart_sym [OF assms(3)] by (simp add: load32_store32_apart)
  ultimately show ?thesis using assms by (auto simp: list_add_def store32_other)
qed

theorem list_add_remove_witness:
  "\<exists>m1 m2. list_add 0x100 0x200 (\<lambda>_. 0) = Inr m1 \<and> list_remove 0x100 m1 = Inr (0x200, m2) \<and> load32 m2 0x100 = 0"
proof -
  have "apart (0x100 :: addr) 4 0x200 4" by (rule apart_nowrap) simp_all
  with list_add_remove [of "0x100" "0x200" "\<lambda>_. 0"] show ?thesis by (auto simp: load32_def)
qed

end
