(* ===== verification/Kmem.thy ===== *)
theory Kmem
  imports Memory
begin

unbundle bit_operations_syntax

text \<open>
  The kernel memory allocator, \<^verbatim>\<open>kmem.c\<close>. A free block is described by a \<^verbatim>\<open>Blockinfo\<close> stored
  in its own first eight bytes: the number of pages and the address of the next free block (0 is
  NULL). The model keeps these headers in memory, exactly where the code reads and writes
  them. \<open>frep\<close> relates such a memory to the list of free blocks; the lemmas show that the
  page allocator is a first-fit allocator on that list which splits and coalesces, and that the
  free memory it describes changes by exactly the pages handed out or given back.
\<close>

section \<open>State\<close>

record kms =
  k_mem :: mem
  free_pages :: addr
  free_slices :: addr
  n_pages :: u32
  n_slices :: u32
  km_initialized :: bool

definition ptr :: "addr \<Rightarrow> addr option" where
  "ptr a = (if a = 0 then None else Some a)"

definition unptr :: "addr option \<Rightarrow> addr" where
  "unptr p = (case p of None \<Rightarrow> 0 | Some a \<Rightarrow> a)"

text \<open>The fields of a \<^verbatim>\<open>Blockinfo\<close>.\<close>

abbreviation blk_pages :: "mem \<Rightarrow> addr \<Rightarrow> u32" where
  "blk_pages m b \<equiv> load32 m b"

abbreviation blk_next :: "mem \<Rightarrow> addr \<Rightarrow> addr" where
  "blk_next m b \<equiv> load32 m (b + 4)"

definition bnext :: "mem \<Rightarrow> addr \<Rightarrow> addr option" where
  "bnext m b = ptr (blk_next m b)"

definition P2B :: "u32 \<Rightarrow> u32" where
  "P2B x = push_bit 12 x"

definition B2P :: "u32 \<Rightarrow> u32" where
  "B2P x = drop_bit 12 x"

definition adjacent :: "mem \<Rightarrow> addr \<Rightarrow> addr \<Rightarrow> bool" where
  "adjacent m first second \<longleftrightarrow> first + P2B (blk_pages m first) = second"

text \<open>The free list holds at most one block per address, so \<open>2 ^ 32\<close> steps are enough for
  every walk that ends.\<close>

abbreviation km_fuel :: nat where "km_fuel \<equiv> 4294967296"

section \<open>Building the free list\<close>

definition add_block :: "addr \<Rightarrow> u32 \<Rightarrow> kms \<Rightarrow> kms res" where
  "add_block base len s =
     (if unat len < SZ_PAGE then Inr s
      else
        let len' = (if len AND 0xfff \<noteq> 0 then len AND 0xfffff000 else len);
            m = store32 (store32 (k_mem s) base (B2P len')) (base + 4) 0
        in if free_pages s = 0
           then Inr (s\<lparr>k_mem := m, free_pages := base, n_pages := blk_pages m base\<rparr>)
           else
             bindR (walk km_fuel (\<lambda>c. c < base) (bnext m) None (ptr (free_pages s)))
               (\<lambda>(prev, curr).
                  let m1 = store32 m (base + 4) (unptr curr)
                  in case prev of
                       None \<Rightarrow>
                         if curr = None then Inl (Assert ''curr'')
                         else Inr (s\<lparr>k_mem := m1, free_pages := base,
                                     n_pages := n_pages s + blk_pages m1 base\<rparr>)
                     | Some p \<Rightarrow>
                         let m2 = store32 m1 (p + 4) base
                         in Inr (s\<lparr>k_mem := m2, n_pages := n_pages s + blk_pages m2 base\<rparr>)))"

text \<open>A memory region as the BIOS reports it, 24 bytes in the map at \<^verbatim>\<open>MMAP_ADDR\<close>.\<close>

record region =
  r_base :: u64
  r_length :: u64
  r_type :: u32
  r_acpi :: u32

abbreviation MMAP_ADDR :: addr where "MMAP_ADDR \<equiv> 0x2d00"
abbreviation KM_LOW_CUTOFF :: u64 where "KM_LOW_CUTOFF \<equiv> 0x00100000"
abbreviation KM_HIGH_CUTOFF :: u64 where "KM_HIGH_CUTOFF \<equiv> 0x40000000"

definition load64 :: "mem \<Rightarrow> addr \<Rightarrow> u64" where
  "load64 m a = ucast (load32 m a) OR push_bit 32 (ucast (load32 m (a + 4)))"

definition load_region :: "mem \<Rightarrow> addr \<Rightarrow> region" where
  "load_region m a = \<lparr>r_base = load64 m a, r_length = load64 m (a + 8),
     r_type = load32 m (a + 16), r_acpi = load32 m (a + 20)\<rparr>"

text \<open>The part of a region that \<^verbatim>\<open>km_init\<close> uses, or \<open>None\<close> where the loop body says
  \<^verbatim>\<open>continue\<close>.\<close>

definition usable_part :: "region \<Rightarrow> (addr \<times> u32) option" where
  "usable_part r =
     (if r_acpi r AND 1 = 0 then None
      else if r_acpi r AND 2 \<noteq> 0 then None
      else if r_type r \<noteq> 1 then None
      else
        let base = r_base r; endpt = r_base r + r_length r
        in if (base \<ge> KM_HIGH_CUTOFF \<or> endpt \<ge> KM_HIGH_CUTOFF) \<and> base > KM_HIGH_CUTOFF then None
           else
             let endpt1 = (if base \<ge> KM_HIGH_CUTOFF \<or> endpt \<ge> KM_HIGH_CUTOFF
                           then KM_HIGH_CUTOFF else endpt)
             in if (base < KM_LOW_CUTOFF \<or> endpt1 < KM_LOW_CUTOFF) \<and> endpt1 < KM_LOW_CUTOFF then None
                else
                  let base1 = (if base < KM_LOW_CUTOFF \<or> endpt1 < KM_LOW_CUTOFF
                               then KM_LOW_CUTOFF else base)
                  in Some (ucast base1, ucast (endpt1 - base1)))"

fun km_init_loop :: "nat \<Rightarrow> addr \<Rightarrow> kms \<Rightarrow> kms res" where
  "km_init_loop 0 reg s = Inr s"
| "km_init_loop (Suc n) reg s =
     (case usable_part (load_region (k_mem s) reg) of
        None \<Rightarrow> km_init_loop n (reg + 24) s
      | Some (b32, l32) \<Rightarrow> bindR (add_block b32 l32 s) (km_init_loop n (reg + 24)))"

definition km_init :: "kms \<Rightarrow> kms res" where
  "km_init s =
     (let s0 = s\<lparr>free_slices := 0, free_pages := 0, n_pages := 0, n_slices := 0,
                 km_initialized := False\<rparr>;
          entries = load32 (k_mem s0) MMAP_ADDR
      in if sint entries < 1 then Inr s0
         else bindR (km_init_loop (nat (sint entries)) (MMAP_ADDR + 4) s0)
                (\<lambda>s1. Inr (s1\<lparr>km_initialized := True\<rparr>)))"

section \<open>Pages\<close>

text \<open>An assignment through \<^verbatim>\<open>Blockinfo **pointer\<close>, which is either \<^verbatim>\<open>&free_pages\<close> or the
  address of the predecessor's \<^verbatim>\<open>next\<close> field.\<close>

definition set_link :: "addr option \<Rightarrow> addr \<Rightarrow> kms \<Rightarrow> kms" where
  "set_link prev v s =
     (case prev of None \<Rightarrow> s\<lparr>free_pages := v\<rparr>
      | Some p \<Rightarrow> s\<lparr>k_mem := store32 (k_mem s) (p + 4) v\<rparr>)"

definition km_page_alloc :: "u32 \<Rightarrow> kms \<Rightarrow> (addr \<times> kms) res" where
  "km_page_alloc count s =
     (if \<not> km_initialized s then Inl (Assert ''km_initialized'')
      else if count < 1 then Inr (0, s)
      else
        bindR (walk km_fuel (\<lambda>b. blk_pages (k_mem s) b < count) (bnext (k_mem s)) None
                 (ptr (free_pages s)))
          (\<lambda>(prev, block).
             case block of
               None \<Rightarrow> Inr (0, s)
             | Some b \<Rightarrow>
                 let s1 =
                   (if blk_pages (k_mem s) b = count
                    then set_link prev (blk_next (k_mem s) b) s
                    else
                      let excess = blk_pages (k_mem s) b - count;
                          fragment = b + P2B count;
                          m1 = store32 (k_mem s) fragment excess;
                          m2 = store32 m1 (fragment + 4) (blk_next m1 b)
                      in set_link prev fragment (s\<lparr>k_mem := m2\<rparr>))
                 in Inr (b, s1\<lparr>n_pages := n_pages s1 - count\<rparr>)))"

definition km_page_free_multi :: "addr \<Rightarrow> u32 \<Rightarrow> kms \<Rightarrow> kms res" where
  "km_page_free_multi block count s =
     (if \<not> km_initialized s then Inl (Assert ''km_initialized'')
      else if block = 0 then Inr s
      else
        let m = store32 (k_mem s) block count
        in bindR (walk km_fuel (\<lambda>c. c < block) (bnext m) None (ptr (free_pages s)))
             (\<lambda>(prev, curr).
                let (s1, used) =
                      (case prev of
                         Some p \<Rightarrow>
                           if adjacent m p block
                           then (s\<lparr>k_mem := store32 m p (blk_pages m p + blk_pages m block)\<rparr>, p)
                           else (s\<lparr>k_mem := store32 (store32 m (block + 4) (blk_next m p))
                                              (p + 4) block\<rparr>, block)
                       | None \<Rightarrow>
                           (s\<lparr>k_mem := store32 m (block + 4) (free_pages s), free_pages := block\<rparr>,
                            block));
                    s2 =
                      (case curr of
                         Some c \<Rightarrow>
                           if adjacent (k_mem s1) used c
                           then let m2 = store32 (k_mem s1) (used + 4) (blk_next (k_mem s1) c)
                                in s1\<lparr>k_mem := store32 m2 used (blk_pages m2 used + blk_pages m2 c)\<rparr>
                           else s1
                       | None \<Rightarrow> s1)
                in Inr (s2\<lparr>n_pages := n_pages s2 + count\<rparr>)))"

definition km_page_free :: "addr \<Rightarrow> kms \<Rightarrow> kms res" where
  "km_page_free block s = (if block = 0 then Inr s else km_page_free_multi block 1 s)"

section \<open>Slices\<close>

definition km_slice_free :: "addr \<Rightarrow> kms \<Rightarrow> kms res" where
  "km_slice_free block s =
     (if \<not> km_initialized s then Inl (Assert ''km_initialized'')
      else let m1 = store32 (k_mem s) block (of_nat SZ_SLICE);
               m2 = store32 m1 (block + 4) (free_slices s)
           in Inr (s\<lparr>k_mem := m2, free_slices := block, n_slices := n_slices s + 1\<rparr>))"

fun carve_loop :: "nat \<Rightarrow> addr \<Rightarrow> kms \<Rightarrow> kms res" where
  "carve_loop 0 p s = Inr s"
| "carve_loop (Suc i) p s =
     bindR (km_slice_free p s)
       (\<lambda>s1. carve_loop i (p + of_nat SZ_SLICE) (s1\<lparr>n_slices := n_slices s1 + 1\<rparr>))"

definition carve_slices :: "kms \<Rightarrow> kms res" where
  "carve_slices s =
     bindR (km_page_alloc 1 s)
       (\<lambda>(page, s1). if page = 0 then Inl (Assert ''page'') else carve_loop 4 page s1)"

definition km_slice_alloc :: "kms \<Rightarrow> (addr \<times> kms) res" where
  "km_slice_alloc s =
     (if \<not> km_initialized s then Inl (Assert ''km_initialized'')
      else bindR (if free_slices s = 0 then carve_slices s else Inr s)
        (\<lambda>s1. let slice = free_slices s1
              in if slice = 0 then Inl (Assert ''slice != NULL'')
                 else Inr (slice, s1\<lparr>n_slices := n_slices s1 - 1,
                                     free_slices := blk_next (k_mem s1) slice,
                                     k_mem := memclr (k_mem s1) slice (of_nat SZ_SLICE)\<rparr>)))"

section \<open>The free list as a list of blocks\<close>

type_synonym block = "addr \<times> u32"  \<comment> \<open>address and number of pages\<close>

definition block_end :: "block \<Rightarrow> nat" where
  "block_end b = unat (fst b) + SZ_PAGE * unat (snd b)"

definition block_ok :: "block \<Rightarrow> bool" where
  "block_ok b \<longleftrightarrow> 0 < unat (fst b) \<and> 0 < unat (snd b) \<and> block_end b \<le> 2 ^ 32"

definition blocks_ok :: "block list \<Rightarrow> bool" where
  "blocks_ok xs \<longleftrightarrow> (\<forall>b\<in>set xs. block_ok b) \<and> sorted_wrt (\<lambda>b c. block_end b \<le> unat (fst c)) xs"

text \<open>The free list in memory holds exactly the blocks \<open>xs\<close>, in ascending order, without overlap,
  and \<^verbatim>\<open>n_pages\<close> counts their pages.\<close>

definition flist :: "mem \<Rightarrow> addr \<Rightarrow> block list \<Rightarrow> bool" where
  "flist m fp xs \<longleftrightarrow>
     chain (bnext m) (ptr fp) (map fst xs) \<and> (\<forall>b\<in>set xs. blk_pages m (fst b) = snd b) \<and>
     blocks_ok xs"

definition frep :: "kms \<Rightarrow> block list \<Rightarrow> bool" where
  "frep s xs \<longleftrightarrow>
     chain (bnext (k_mem s)) (ptr (free_pages s)) (map fst xs) \<and>
     (\<forall>b\<in>set xs. blk_pages (k_mem s) (fst b) = snd b) \<and>
     n_pages s = sum_list (map snd xs) \<and> blocks_ok xs"

lemma frep_flist:
  "frep s xs \<longleftrightarrow> flist (k_mem s) (free_pages s) xs \<and> n_pages s = sum_list (map snd xs)"
  by (auto simp: frep_def flist_def)

text \<open>The bytes of a list of blocks.\<close>

definition bytes :: "block list \<Rightarrow> nat set" where
  "bytes xs = (\<Union>b\<in>set xs. {unat (fst b) ..< block_end b})"

lemma bytes_simps [simp]:
  "bytes [] = {}" "bytes (b # xs) = {unat (fst b) ..< block_end b} \<union> bytes xs"
  "bytes (xs @ ys) = bytes xs \<union> bytes ys"
  by (auto simp: bytes_def)

text \<open>First fit, and giving back with coalescing, on lists.\<close>

fun first_fit :: "u32 \<Rightarrow> block list \<Rightarrow> (addr \<times> block list) option" where
  "first_fit count [] = None"
| "first_fit count ((b, n) # xs) =
     (if n < count then map_option (\<lambda>(r, ys). (r, (b, n) # ys)) (first_fit count xs)
      else Some (b, if n = count then xs else (b + P2B count, n - count) # xs))"

fun glue :: "block \<Rightarrow> block list \<Rightarrow> block list" where
  "glue b [] = [b]"
| "glue (a, n) ((b, k) # xs) =
     (if a + P2B n = b then (a, n + k) # xs else (a, n) # (b, k) # xs)"

definition give_back :: "block \<Rightarrow> block list \<Rightarrow> block list" where
  "give_back u xs =
     (let as = takeWhile (\<lambda>b. fst b < fst u) xs; bs = dropWhile (\<lambda>b. fst b < fst u) xs
      in if as = [] then glue u bs
         else let (p, k) = last as
              in butlast as @ (if p + P2B k = fst u then glue (p, k + snd u) bs
                               else (p, k) # glue u bs))"

subsection \<open>Headers\<close>

lemma ptr_simps [simp]: "ptr 0 = None" "ptr a = None \<longleftrightarrow> a = 0" "ptr a = Some b \<longleftrightarrow> a = b \<and> a \<noteq> 0"
  by (auto simp: ptr_def)

lemma ptr_unptr: "p \<noteq> Some 0 \<Longrightarrow> ptr (unptr p) = p"
  by (auto simp: ptr_def unptr_def split: option.splits)

abbreviation far :: "addr \<Rightarrow> addr \<Rightarrow> bool" where
  "far x y \<equiv> apart x 8 y 8"

lemma far_sym: "far x y \<Longrightarrow> far y x"
  by (simp add: apart_def)

lemma far_parts:
  assumes "far x y"
  shows "apart x 4 y 4" "apart (x + 4) 4 y 4" "apart x 4 (y + 4) 4" "apart (x + 4) 4 (y + 4) 4"
proof -
  define d where "d = y - x"
  have xy: "x - y = - d" "y - x = d" "y - (x + 4) = d - 4" "(x + 4) - y = 4 - d"
    "(y + 4) - x = d + 4" "x - (y + 4) = - d - 4" "(y + 4) - (x + 4) = d" "(x + 4) - (y + 4) = - d"
    by (simp_all add: d_def)
  have d: "8 \<le> unat d" "8 \<le> unat (0 - d)" using assms by (simp_all add: apart_def xy)
  have nd: "unat (0 - d) = 4294967296 - unat d"
    using d(1) unat_sub_if' [of 0 d] by simp
  have "unat (d - 4) = unat d - 4" using d(1) unat_sub_if' [of d 4] by simp
  moreover have "unat (4 - d) = 4 + 4294967296 - unat d" using d(1) unat_sub_if' [of 4 d] by simp
  moreover have "unat (d + 4) = unat d + 4"
    using d(2) nd unat_u32 [of d] by (simp add: unat_word_ariths)
  moreover have "unat ((0 - d) - 4) = unat (0 - d) - 4" using d(2) unat_sub_if' [of "0 - d" 4] by simp
  ultimately show "apart x 4 y 4" "apart (x + 4) 4 y 4" "apart x 4 (y + 4) 4" "apart (x + 4) 4 (y + 4) 4"
    using d nd unat_u32 [of d] by (simp_all add: apart_def xy) arith
qed

lemma header_far:
  assumes "far x y"
  shows "blk_pages (store32 m x v) y = blk_pages m y" "blk_next (store32 m x v) y = blk_next m y"
    "blk_pages (store32 m (x + 4) v) y = blk_pages m y"
    "blk_next (store32 m (x + 4) v) y = blk_next m y"
  using far_parts [OF assms] by (simp_all add: load32_store32_apart)

lemma header_same [simp]:
  "blk_next (store32 m x v) x = blk_next m x" "blk_pages (store32 m (x + 4) v) x = blk_pages m x"
proof -
  have "unat (- 4 :: u32) = 4294967292" using unat_sub_if' [of "0 :: u32" 4] by simp
  then have "apart x 4 (x + 4) 4" "apart (x + 4) 4 x 4" by (simp_all add: apart_def)
  then show "blk_next (store32 m x v) x = blk_next m x" "blk_pages (store32 m (x + 4) v) x = blk_pages m x"
    by (simp_all add: load32_store32_apart)
qed

lemma bnext_store:
  "bnext (store32 m (x + 4) v) x = ptr v" "bnext (store32 m x v) x = bnext m x"
  "far x y \<Longrightarrow> bnext (store32 m (x + 4) v) y = bnext m y"
  "far x y \<Longrightarrow> bnext (store32 m x v) y = bnext m y"
  by (simp_all add: bnext_def header_far)

lemma far_nowrap: "unat x + 8 \<le> unat y \<Longrightarrow> unat y + 8 \<le> 2 ^ 32 \<Longrightarrow> far x y"
  by (simp add: apart_nowrap)

lemma blocks_ok_Cons:
  "blocks_ok (b # xs) \<longleftrightarrow> block_ok b \<and> blocks_ok xs \<and> (\<forall>c\<in>set xs. block_end b \<le> unat (fst c))"
  by (auto simp: blocks_ok_def)

lemma blocks_ok_append:
  "blocks_ok (xs @ ys) \<longleftrightarrow> blocks_ok xs \<and> blocks_ok ys \<and>
     (\<forall>b\<in>set xs. \<forall>c\<in>set ys. block_end b \<le> unat (fst c))"
  by (auto simp: blocks_ok_def sorted_wrt_append)

lemma blocks_ok_Nil [simp]: "blocks_ok []"
  by (simp add: blocks_ok_def)

lemma block_ok_room: "block_ok b \<Longrightarrow> unat (fst b) + SZ_PAGE \<le> block_end b"
  by (auto simp: block_ok_def block_end_def)

lemma far_ordered:
  assumes "block_ok b" "block_ok c" "block_end b \<le> unat (fst c)"
  shows "far (fst b) (fst c)"
  using assms block_ok_room [of b] block_ok_room [of c]
  by (intro far_nowrap) (auto simp: block_ok_def)

lemma far_members:
  assumes "blocks_ok xs" "b \<in> set xs" "c \<in> set xs" "fst b \<noteq> fst c"
  shows "far (fst b) (fst c)"
  using assms
proof (induction xs)
  case Nil
  then show ?case by simp
next
  case (Cons a xs)
  then show ?case
    by (auto simp: blocks_ok_Cons blocks_ok_def intro: far_ordered far_sym [OF far_ordered])
qed

lemma unat_P2B: "SZ_PAGE * unat n < 2 ^ 32 \<Longrightarrow> unat (P2B n) = SZ_PAGE * unat n"
  by (simp add: P2B_def push_bit_eq_mult unat_word_ariths mult.commute)

subsection \<open>Allocation is first fit\<close>

text \<open>Writing the link that precedes a part of the list.\<close>

lemma set_link_chain:
  assumes seg: "segment (bnext (k_mem s)) (ptr (free_pages s)) as r"
    and cs: "chain (bnext (k_mem s)) (ptr v) cs" and dist: "distinct as"
    and far: "\<And>x. as \<noteq> [] \<Longrightarrow> x \<in> set as \<union> set cs \<Longrightarrow> x \<noteq> last as \<Longrightarrow> far (last as) x"
    and nin: "set as \<inter> set cs = {}"
    and s': "s' = set_link (last_opt None as) v s"
  shows "chain (bnext (k_mem s')) (ptr (free_pages s')) (as @ cs)"
    "x \<in> set as \<union> set cs \<Longrightarrow> blk_pages (k_mem s') x = blk_pages (k_mem s) x"
    "n_pages s' = n_pages s" "km_initialized s' = km_initialized s"
    "free_slices s' = free_slices s" "n_slices s' = n_slices s"
proof -
  show "n_pages s' = n_pages s" "km_initialized s' = km_initialized s"
    "free_slices s' = free_slices s" "n_slices s' = n_slices s"
    by (auto simp: s' set_link_def split: option.splits)
  have "chain (bnext (k_mem s')) (ptr (free_pages s')) (as @ cs) \<and>
    (x \<in> set as \<union> set cs \<longrightarrow> blk_pages (k_mem s') x = blk_pages (k_mem s) x)"
  proof (cases "as = []")
    case True
    with cs show ?thesis by (simp add: s' set_link_def)
  next
    case False
    let ?l = "last as" and ?h = "bnext (k_mem s)"
    have la: "?l \<in> set as" using False by simp
    have m': "k_mem s' = store32 (k_mem s) (?l + 4) v" "free_pages s' = free_pages s"
      using False by (simp_all add: s' set_link_def last_opt_def)
    have h': "bnext (k_mem s') x = (?h(?l := ptr v)) x" if "x \<in> set as \<union> set cs" for x
      using far [OF False that] by (auto simp: m' bnext_store)
    have "segment (?h(?l := ptr v)) (ptr (free_pages s)) as (ptr v)"
      by (rule segment_relink [OF seg False dist])
    then have "segment (bnext (k_mem s')) (ptr (free_pages s)) as (ptr v)"
      using h' by (subst segment_cong [where h' = "?h(?l := ptr v)"]) auto
    moreover have "chain (bnext (k_mem s')) (ptr v) cs"
      using cs h' la nin by (subst chain_cong [where h' = ?h]) auto
    moreover have "blk_pages (k_mem s') x = blk_pages (k_mem s) x" if "x \<in> set as \<union> set cs"
      using far [OF False that] by (cases "x = ?l") (auto simp: m' header_far)
    ultimately show ?thesis by (auto simp: chain_append m')
  qed
  then show "chain (bnext (k_mem s')) (ptr (free_pages s')) (as @ cs)"
    "x \<in> set as \<union> set cs \<Longrightarrow> blk_pages (k_mem s') x = blk_pages (k_mem s) x" by auto
qed

lemma first_fit_None: "first_fit count xs = None \<longleftrightarrow> (\<forall>b\<in>set xs. snd b < count)"
  by (induction xs) (auto split: if_splits)

lemma first_fit_Some:
  assumes "first_fit count xs = Some (r, ys)"
  obtains as n bs where "xs = as @ (r, n) # bs" "\<forall>b\<in>set as. snd b < count" "count \<le> n"
    "ys = as @ (if n = count then [] else [(r + P2B count, n - count)]) @ bs"
  using assms
proof (induction xs arbitrary: ys thesis)
  case Nil
  then show ?case by simp
next
  case (Cons x xs)
  obtain b n where x: "x = (b, n)" by fastforce
  show ?case
  proof (cases "n < count")
    case True
    with Cons.prems(2) x obtain zs where z: "first_fit count xs = Some (r, zs)" "ys = (b, n) # zs" by auto
    from Cons.IH [OF _ z(1)] obtain as k bs where
      "xs = as @ (r, k) # bs" "\<forall>b\<in>set as. snd b < count" "count \<le> k"
      "zs = as @ (if k = count then [] else [(r + P2B count, k - count)]) @ bs" by blast
    then show ?thesis using Cons.prems(1) [of "(b, n) # as"] True x z(2) by simp
  next
    case False
    then show ?thesis using Cons.prems(1) [of "[]"] Cons.prems(2) x by (auto simp: not_less split: if_splits)
  qed
qed

lemma frep_length: "frep s xs \<Longrightarrow> length xs \<le> km_fuel"
proof -
  assume "frep s xs"
  then have "distinct (map fst xs)" by (auto simp: frep_def dest: chain_distinct)
  then have "length xs = card (set (map fst xs))" by (metis distinct_card length_map)
  also have "\<dots> \<le> card (UNIV :: addr set)" by (rule card_mono) auto
  finally show ?thesis by (simp add: card_word)
qed

lemma frep_walk:
  assumes rep: "frep s xs" and m: "\<And>b. b \<in> set (map fst xs) \<Longrightarrow> bnext m b = bnext (k_mem s) b"
    and keep: "\<And>b. b \<in> set xs \<Longrightarrow> keep (fst b) = K b"
  shows "walk km_fuel keep (bnext m) None (ptr (free_pages s)) =
    Inr (last_opt None (map fst (takeWhile K xs)), hd_opt (map fst (dropWhile K xs)))"
proof -
  have "chain (bnext m) (ptr (free_pages s)) (map fst xs)"
    using rep m by (subst chain_cong [where h' = "bnext (k_mem s)"]) (auto simp: frep_def)
  from walk_chain [OF this] frep_length [OF rep]
  have "walk km_fuel keep (bnext m) None (ptr (free_pages s)) =
    Inr (last_opt None (takeWhile keep (map fst xs)), hd_opt (dropWhile keep (map fst xs)))" by simp
  moreover have "takeWhile (\<lambda>x. keep (fst x)) xs = takeWhile K xs"
    "dropWhile (\<lambda>x. keep (fst x)) xs = dropWhile K xs"
    using keep by (auto intro: takeWhile_cong dropWhile_cong)
  ultimately show ?thesis by (simp add: takeWhile_map dropWhile_map comp_def)
qed

text \<open>A request that no block satisfies leaves everything as it is and returns NULL.\<close>

lemma km_page_alloc_None:
  assumes rep: "frep s xs" and init: "km_initialized s" and none: "first_fit count xs = None"
  shows "km_page_alloc count s = Inr (0, s)"
proof -
  have pages: "blk_pages (k_mem s) (fst b) = snd b" if "b \<in> set xs" for b
    using rep that by (auto simp: frep_def)
  have all: "\<forall>b\<in>set xs. snd b < count" using none by (simp add: first_fit_None)
  then have none': "dropWhile (\<lambda>b. snd b < count) xs = []" by (simp add: dropWhile_eq_Nil_conv)
  have "walk km_fuel (\<lambda>b. blk_pages (k_mem s) b < count) (bnext (k_mem s)) None (ptr (free_pages s))
     = Inr (last_opt None (map fst (takeWhile (\<lambda>b. snd b < count) xs)), None)"
    by (subst frep_walk [OF rep, where K = "\<lambda>b. snd b < count"]) (simp_all only: pages none' list.map hd_opt_simps)
  with init show ?thesis by (simp add: km_page_alloc_def)
qed

text \<open>The piece that is left of a block after \<open>count\<close> pages have been cut off its front.\<close>

lemma fragment_block:
  assumes "block_ok (r, n)" "count < n" "1 \<le> count"
  shows "unat (r + P2B count) = unat r + SZ_PAGE * unat count"
    "block_end (r + P2B count, n - count) = block_end (r, n)"
    "block_ok (r + P2B count, n - count)" "far r (r + P2B count)"
proof -
  have lt: "unat count < unat n" "0 < unat count" "unat (n - count) = unat n - unat count"
    using assms by (auto simp: word_less_nat_alt word_le_nat_alt unat_sub)
  have le: "unat r + SZ_PAGE * unat n \<le> 2 ^ 32" "0 < unat r"
    using assms(1) by (auto simp: block_ok_def block_end_def)
  then have "SZ_PAGE * unat count < 2 ^ 32" using lt by simp
  then have p: "unat (P2B count) = SZ_PAGE * unat count" by (rule unat_P2B)
  show f: "unat (r + P2B count) = unat r + SZ_PAGE * unat count"
    using le lt by (simp add: unat_word_ariths p)
  show e: "block_end (r + P2B count, n - count) = block_end (r, n)"
    using lt by (simp add: block_end_def f diff_mult_distrib2)
  show "block_ok (r + P2B count, n - count)"
    using assms(1) lt e by (auto simp: block_ok_def f)
  show "far r (r + P2B count)"
    using lt le by (intro far_nowrap) (simp_all add: f)
qed

lemma alloc_walk:
  assumes rep: "frep s xs" and xs: "xs = as @ (r, n) # bs"
    and as: "\<forall>b\<in>set as. snd b < count" and n: "count \<le> n"
  shows "walk km_fuel (\<lambda>b. blk_pages (k_mem s) b < count) (bnext (k_mem s)) None (ptr (free_pages s))
    = Inr (last_opt None (map fst as), Some r)"
proof -
  have pages: "blk_pages (k_mem s) (fst b) = snd b" if "b \<in> set xs" for b
    using rep that by (auto simp: frep_def)
  have tw: "takeWhile (\<lambda>b. snd b < count) xs = as" "dropWhile (\<lambda>b. snd b < count) xs = (r, n) # bs"
    using as n by (auto simp: xs takeWhile_append dropWhile_append)
  show ?thesis
    by (subst frep_walk [OF rep, where K = "\<lambda>b. snd b < count"])
      (simp_all only: pages tw list.map hd_opt_simps fst_conv)
qed

text \<open>Block addresses on the two sides of a split list are different, and far from the last
  address before the split.\<close>

lemma blocks_ok_split_disjoint:
  assumes "blocks_ok (as @ cs)"
  shows "set (map fst as) \<inter> set (map fst cs) = {}"
proof -
  have "fst b \<noteq> fst c" if "b \<in> set as" "c \<in> set cs" for b c
  proof -
    have "block_ok b" "block_end b \<le> unat (fst c)"
      using that assms by (auto simp: blocks_ok_def sorted_wrt_append)
    then show ?thesis using block_ok_room [of b] by auto
  qed
  then show ?thesis by auto
qed

lemma blocks_ok_far_last:
  assumes "blocks_ok (as @ cs)" "map fst as \<noteq> []" "x \<in> set (map fst as) \<union> set (map fst cs)"
    "x \<noteq> last (map fst as)"
  shows "far (last (map fst as)) x"
proof -
  from assms obtain b where b: "b \<in> set (as @ cs)" "x = fst b" by auto
  have l: "last as \<in> set (as @ cs)" "last (map fst as) = fst (last as)"
    using assms(2) by (simp_all add: last_map)
  show ?thesis using far_members [OF assms(1) l(1) b(1)] assms(4) b(2) l(2) by simp
qed

text \<open>The whole step of relinking: from the blocks \<open>as\<close> to the blocks \<open>cs\<close> at \<open>v\<close>.\<close>

lemma set_link_frep:
  assumes seg: "segment (bnext (k_mem s)) (ptr (free_pages s)) (map fst as) r"
    and cs: "chain (bnext (k_mem s)) (ptr v) (map fst cs)" and ok: "blocks_ok (as @ cs)"
    and dist: "distinct (map fst as)"
    and pages: "\<forall>b\<in>set (as @ cs). blk_pages (k_mem s) (fst b) = snd b"
    and np: "n_pages s - k = sum_list (map snd (as @ cs))"
  defines "s' \<equiv> set_link (last_opt None (map fst as)) v s"
  shows "frep (s'\<lparr>n_pages := n_pages s' - k\<rparr>) (as @ cs)" "km_initialized s' = km_initialized s"
proof -
  note S = set_link_chain [OF seg cs dist blocks_ok_far_last [OF ok] blocks_ok_split_disjoint [OF ok] s'_def [THEN meta_eq_to_obj_eq]]
  have "blk_pages (k_mem s') (fst b) = snd b" if "b \<in> set (as @ cs)" for b
    using S(2) [of "fst b"] pages that by auto
  with S(1,3) ok np show "frep (s'\<lparr>n_pages := n_pages s' - k\<rparr>) (as @ cs)"
    by (simp add: frep_def)
  show "km_initialized s' = km_initialized s" by (rule S(4))
qed

text \<open>The header written for the rest of a split block does not touch any other header.\<close>

lemma fragment_far:
  assumes ok: "blocks_ok (as @ (r, n) # bs)" and c: "count < n" "1 \<le> count"
    and b: "b \<in> set (as @ (r, n) # bs)"
  shows "far (r + P2B count) (fst b)"
proof -
  have okr: "block_ok (r, n)" "blocks_ok as" "blocks_ok bs"
    "\<And>b. b \<in> set as \<Longrightarrow> block_end b \<le> unat r" "\<And>b. b \<in> set bs \<Longrightarrow> block_end (r, n) \<le> unat (fst b)"
    using ok by (auto simp: blocks_ok_append blocks_ok_Cons)
  note F = fragment_block [OF okr(1) c]
  from b consider "b \<in> set as" | "b = (r, n)" | "b \<in> set bs" by auto
  then show ?thesis
  proof cases
    case 1
    then have "block_ok b" using okr(2) by (auto simp: blocks_ok_def)
    moreover have "block_end b \<le> unat (r + P2B count)" using okr(4) [OF 1] F(1) by simp
    ultimately have "far (fst b) (fst (r + P2B count, n - count))" using F(3) by (intro far_ordered) auto
    then show ?thesis by (simp add: far_sym)
  next
    case 2
    then show ?thesis using far_sym [OF F(4)] by simp
  next
    case 3
    then have "block_ok b" using okr(3) by (auto simp: blocks_ok_def)
    with F(2,3) okr(5) [OF 3] have "far (fst (r + P2B count, n - count)) (fst b)" by (intro far_ordered) auto
    then show ?thesis by simp
  qed
qed

lemma blocks_ok_carve:
  assumes "blocks_ok (as @ (r, n) # bs)" "count \<le> n" "1 \<le> count"
  shows "blocks_ok (as @ (if n = count then [] else [(r + P2B count, n - count)]) @ bs)"
proof (cases "n = count")
  case True
  with assms(1) show ?thesis by (auto simp: blocks_ok_append blocks_ok_Cons)
next
  case False
  with assms have "count < n" by simp
  moreover have "block_ok (r, n)" using assms(1) by (auto simp: blocks_ok_append blocks_ok_Cons)
  ultimately have F: "unat (r + P2B count) = unat r + SZ_PAGE * unat count"
    "block_end (r + P2B count, n - count) = block_end (r, n)" "block_ok (r + P2B count, n - count)"
    using fragment_block [of r n count] assms(3) by auto
  with assms(1) False show ?thesis by (auto simp: blocks_ok_append blocks_ok_Cons trans_le_add1)
qed

text \<open>Headers are written inside free blocks only.\<close>

lemma header_store_frame:
  assumes "block_ok b" "unat x \<notin> {unat (fst b) ..< block_end b}"
  shows "store32 m (fst b) v x = m x" "store32 m (fst b + 4) v x = m x"
proof -
  have room: "unat (fst b) + SZ_PAGE \<le> block_end b" "block_end b \<le> 2 ^ 32"
    using assms(1) by (auto simp: block_ok_room block_ok_def)
  then have "unat (fst b + 4) = unat (fst b) + 4" using unat_add_nowrap [of "fst b" 4] by simp
  then have "\<not> inr (fst b) 4 x" "\<not> inr (fst b + 4) 4 x"
    using assms(2) room by (auto simp: inr_nowrap)
  then show "store32 m (fst b) v x = m x" "store32 m (fst b + 4) v x = m x"
    by (auto intro: store32_other)
qed

lemma set_link_frame:
  assumes "\<forall>b\<in>set as. block_ok b" "unat x \<notin> bytes as"
  shows "k_mem (set_link (last_opt None (map fst as)) v s) x = k_mem s x"
proof (cases as rule: rev_cases)
  case Nil
  then show ?thesis by (simp add: set_link_def)
next
  case (snoc bs b)
  then have "store32 (k_mem s) (fst b + 4) v x = k_mem s x"
    using assms header_store_frame(2) [of b x] by simp
  with snoc show ?thesis by (simp add: set_link_def)
qed

lemma alloc_fragment_frame:
  assumes "block_ok (r, n)" "count < n" "1 \<le> count" "unat x \<notin> {unat r ..< block_end (r, n)}"
  shows "store32 (store32 m (r + P2B count) v) (r + P2B count + 4) w x = m x"
proof -
  note F = fragment_block [OF assms(1-3)]
  have "unat x \<notin> {unat (r + P2B count) ..< block_end (r + P2B count, n - count)}"
    using assms(4) F(1,2) by auto
  with header_store_frame [OF F(3)] show ?thesis by simp
qed

lemma km_page_alloc_Some:
  assumes rep: "frep s xs" and init: "km_initialized s" and c: "1 \<le> count"
    and ff: "first_fit count xs = Some (r, ys)"
  obtains s' where "km_page_alloc count s = Inr (r, s')" "frep s' ys" "km_initialized s'"
    "\<forall>x. unat x \<notin> bytes xs \<longrightarrow> k_mem s' x = k_mem s x"
    "free_slices s' = free_slices s" "n_slices s' = n_slices s"
proof -
  from ff obtain as n bs where xs: "xs = as @ (r, n) # bs" and as: "\<forall>b\<in>set as. snd b < count"
    and n: "count \<le> n"
    and ys: "ys = as @ (if n = count then [] else [(r + P2B count, n - count)]) @ bs"
    by (rule first_fit_Some)
  let ?m = "k_mem s" and ?f = "r + P2B count"
  have ok: "blocks_ok (as @ (r, n) # bs)" and pages: "\<forall>b\<in>set (as @ (r, n) # bs). blk_pages ?m (fst b) = snd b"
    and ch: "chain (bnext ?m) (ptr (free_pages s)) (map fst as @ r # map fst bs)"
    and np: "n_pages s = sum_list (map snd (as @ (r, n) # bs))"
    using rep by (simp_all add: frep_def xs)
  from ch have seg: "segment (bnext ?m) (ptr (free_pages s)) (map fst as) (Some r)"
    and bs: "chain (bnext ?m) (bnext ?m r) (map fst bs)" by (auto simp: chain_append)
  have dist: "distinct (map fst as)" using chain_distinct [OF ch] by simp
  define s1 where "s1 = (if n = count then s
     else s\<lparr>k_mem := store32 (store32 ?m ?f (n - count)) (?f + 4) (blk_next ?m r)\<rparr>)"
  define v where "v = (if n = count then blk_next ?m r else ?f)"
  define cs where "cs = (if n = count then [] else [(?f, n - count)]) @ bs"
  define s2 where "s2 = set_link (last_opt None (map fst as)) v s1"
  have pr: "blk_pages ?m r = n" using pages by auto
  have ff_far: "far ?f (fst b)" if "n \<noteq> count" "b \<in> set (as @ (r, n) # bs)" for b
    using fragment_far [OF ok _ c that(2)] n that(1) by simp
  have "blk_next (store32 ?m ?f (n - count)) r = blk_next ?m r" if "n \<noteq> count"
    using ff_far [OF that, of "(r, n)"] by (simp add: header_far)
  then have alloc: "km_page_alloc count s = Inr (r, s2\<lparr>n_pages := n_pages s2 - count\<rparr>)"
    using init c alloc_walk [OF rep xs as n] pr
    by (auto simp: km_page_alloc_def s2_def s1_def v_def Let_def not_less [symmetric])
  have same: "bnext (k_mem s1) (fst b) = bnext ?m (fst b)" "blk_pages (k_mem s1) (fst b) = snd b"
    if "b \<in> set (as @ (r, n) # bs)" for b
    using ff_far [OF _ that] pages that by (auto simp: s1_def bnext_store header_far)
  have "chain (bnext (k_mem s1)) (bnext ?m r) (map fst bs)"
    using bs same(1) by (subst chain_cong [where h' = "bnext ?m"]) auto
  moreover have "?f \<noteq> 0" if "n \<noteq> count"
    using blocks_ok_carve [OF ok n c] that by (auto simp: blocks_ok_append blocks_ok_Cons block_ok_def unat_gt_0)
  ultimately have cs: "chain (bnext (k_mem s1)) (ptr v) (map fst cs)"
    by (auto simp: cs_def v_def s1_def bnext_store) (simp_all add: bnext_def)
  have seg1: "segment (bnext (k_mem s1)) (ptr (free_pages s1)) (map fst as) (Some r)"
    using seg same(1) by (subst segment_cong [where h' = "bnext ?m"]) (auto, simp_all add: s1_def)
  have pg: "\<forall>b\<in>set (as @ cs). blk_pages (k_mem s1) (fst b) = snd b"
    using same(2) by (auto simp: cs_def s1_def)
  have "n_pages s1 - count = sum_list (map snd (as @ cs))"
    using np by (auto simp: s1_def cs_def)
  note R = set_link_frep [OF seg1 cs _ dist pg this, folded s2_def]
  have okc: "blocks_ok (as @ cs)" unfolding cs_def by (rule blocks_ok_carve [OF ok n c])
  have "k_mem s2 x = k_mem s x" if "unat x \<notin> bytes xs" for x
  proof -
    have "k_mem s2 x = k_mem s1 x"
      using set_link_frame [of as x] ok that by (simp add: s2_def xs blocks_ok_def)
    also have "\<dots> = k_mem s x"
      using alloc_fragment_frame [OF _ _ c, of r n x] ok n that
      by (auto simp: s1_def xs blocks_ok_append blocks_ok_Cons)
    finally show ?thesis .
  qed
  moreover have "free_slices s2 = free_slices s" "n_slices s2 = n_slices s"
    by (auto simp: s2_def s1_def set_link_def split: option.splits)
  ultimately show ?thesis
    using that [OF alloc] R [OF okc] init by (simp add: ys cs_def s1_def split: if_splits)
qed

subsection \<open>Giving pages back\<close>

text \<open>A header written where no block starts does not disturb the list.\<close>

lemma flist_store_far:
  assumes "flist m fp xs" "\<And>b. b \<in> set xs \<Longrightarrow> far x (fst b)"
  shows "flist (store32 m x v) fp xs" "flist (store32 m (x + 4) v) fp xs"
  using assms unfolding flist_def
  by (auto simp: header_far bnext_store cong: chain_cong
      elim!: chain_cong [THEN iffD1, rotated])

lemma blocks_ok_far_new:
  assumes "blocks_ok (as @ u # bs)" "b \<in> set (as @ bs)"
  shows "far (fst u) (fst b)"
proof -
  have "block_ok u" "block_ok b" "b \<in> set as \<Longrightarrow> block_end b \<le> unat (fst u)"
    "b \<in> set bs \<Longrightarrow> block_end u \<le> unat (fst b)"
    using assms by (auto simp: blocks_ok_append blocks_ok_Cons) (auto simp: blocks_ok_def)
  with assms(2) show ?thesis by (auto intro: far_ordered far_sym)
qed

lemma blocks_ok_insert_drop: "blocks_ok (as @ u # bs) \<Longrightarrow> blocks_ok (as @ bs)"
  by (auto simp: blocks_ok_append blocks_ok_Cons)

lemma flist_split:
  assumes "flist m fp (as @ u # bs)"
  obtains "segment (bnext m) (ptr fp) (map fst as) (Some (fst u))"
    "chain (bnext m) (bnext m (fst u)) (map fst bs)"
  using assms by (auto simp: flist_def chain_append)

lemma chain_blocks_cong:
  assumes "chain h p (map fst xs)" "\<And>b. b \<in> set xs \<Longrightarrow> h' (fst b) = h (fst b)"
  shows "chain h' p (map fst xs)"
  using assms by (subst chain_cong [where h' = h]) auto

lemma segment_blocks_cong:
  assumes "segment h p (map fst xs) q" "\<And>b. b \<in> set xs \<Longrightarrow> h' (fst b) = h (fst b)"
  shows "segment h' p (map fst xs) q"
  using assms by (subst segment_cong [where h' = h]) auto

text \<open>Inserting a header, in front and behind a predecessor.\<close>

lemma flist_push:
  assumes rep: "flist m fp bs" and ok: "blocks_ok ((a, n) # bs)" and pg: "blk_pages m a = n"
  shows "flist (store32 m (a + 4) fp) a ((a, n) # bs)"
proof -
  have far: "far a (fst b)" if "b \<in> set bs" for b
    using blocks_ok_far_new [of "[]" "(a, n)" bs b] ok that by simp
  have "flist (store32 m (a + 4) fp) fp bs" by (rule flist_store_far(2) [OF rep far])
  moreover have "a \<noteq> 0" using ok by (auto simp: blocks_ok_Cons block_ok_def unat_gt_0)
  ultimately show ?thesis using ok pg by (simp add: flist_def bnext_store)
qed

lemma flist_insert_after:
  assumes rep: "flist m fp (as @ (p, k) # bs)" and ok: "blocks_ok (as @ (p, k) # (a, n) # bs)"
    and pg: "blk_pages m a = n"
  shows "flist (store32 (store32 m (a + 4) (blk_next m p)) (p + 4) a) fp (as @ (p, k) # (a, n) # bs)"
proof -
  let ?m1 = "store32 m (a + 4) (blk_next m p)" and ?m2 = "store32 (store32 m (a + 4) (blk_next m p)) (p + 4) a"
  have far_a: "far a (fst b)" if "b \<in> set (as @ (p, k) # bs)" for b
    using blocks_ok_far_new [of "as @ [(p, k)]" "(a, n)" bs b] ok that by simp
  have far_p: "far p (fst b)" if "b \<in> set (as @ (a, n) # bs)" for b
    using blocks_ok_far_new [of as "(p, k)" "(a, n) # bs" b] ok that by simp
  have a0: "a \<noteq> 0" using ok by (auto simp: blocks_ok_append blocks_ok_Cons block_ok_def unat_gt_0)
  have "bnext ?m2 a = bnext m p"
    using far_p [of "(a, n)"] by (simp add: bnext_store) (simp add: bnext_def)
  moreover have "bnext ?m2 p = Some a" using a0 by (simp add: bnext_store)
  moreover have others: "bnext ?m2 (fst b) = bnext m (fst b)" "blk_pages ?m2 (fst b) = blk_pages m (fst b)"
    if "b \<in> set (as @ bs)" for b
    using far_a [of b] far_p [of b] that by (auto simp: bnext_store header_far)
  moreover have "blk_pages ?m2 a = n" "blk_pages ?m2 p = blk_pages m p"
    using far_p [of "(a, n)"] far_a [of "(p, k)"] pg by (simp_all add: header_far)
  moreover have "segment (bnext ?m2) (ptr fp) (map fst as) (Some p)"
    "chain (bnext ?m2) (bnext m p) (map fst bs)"
    using rep others(1)
    by (auto simp: flist_def chain_append intro!: segment_blocks_cong [of "bnext m"] chain_blocks_cong [of "bnext m"])
  ultimately show ?thesis using rep ok by (auto simp: flist_def chain_append)
qed

text \<open>Two adjacent blocks made one, by growing the first.\<close>

lemma merge_block:
  assumes "block_ok (p, k)" "block_ok (c, j)" "p + P2B k = c" "block_end (p, k) \<le> unat c"
  shows "block_end (p, k + j) = block_end (c, j)" "block_ok (p, k + j)" "unat c = block_end (p, k)"
proof -
  have e: "block_end (p, k) < 2 ^ 32" using assms(2,4) unat_u32 [of c] by simp
  then have pk: "unat (P2B k) = SZ_PAGE * unat k" by (intro unat_P2B) (simp add: block_end_def)
  show c: "unat c = block_end (p, k)"
    using e assms(3) by (auto simp: unat_word_ariths pk block_end_def)
  have "SZ_PAGE * unat k + SZ_PAGE * unat j \<le> 2 ^ 32" using assms(2) c by (simp add: block_ok_def block_end_def)
  then have kj: "unat (k + j) = unat k + unat j" by (simp add: unat_word_ariths)
  show be: "block_end (p, k + j) = block_end (c, j)" by (simp add: block_end_def kj c distrib_left)
  show "block_ok (p, k + j)" using assms(1,2) be by (simp add: block_ok_def kj)
qed

lemma blocks_ok_merge:
  assumes ok: "blocks_ok (as @ (p, k) # (c, j) # bs)" and adj: "p + P2B k = c"
  shows "blocks_ok (as @ (p, k + j) # bs)" "unat c = block_end (p, k)"
    "block_end (p, k + j) = block_end (c, j)"
proof -
  have P: "block_ok (p, k)" "block_ok (c, j)" "block_end (p, k) \<le> unat c"
    using ok by (auto simp: blocks_ok_append blocks_ok_Cons)
  note M = merge_block [OF P(1,2) adj P(3)]
  show "blocks_ok (as @ (p, k + j) # bs)"
    using ok M by (auto simp: blocks_ok_append blocks_ok_Cons)
  show "unat c = block_end (p, k)" "block_end (p, k + j) = block_end (c, j)" by (rule M(3), rule M(1))
qed

lemma flist_grow:
  assumes rep: "flist m fp (as @ (p, k) # bs)" and ok: "blocks_ok (as @ (p, k') # bs)"
  shows "flist (store32 m p k') fp (as @ (p, k') # bs)"
proof -
  have far: "far p (fst b)" if "b \<in> set (as @ bs)" for b
    using blocks_ok_far_new [of as "(p, k')" bs b] ok that by simp
  have others: "bnext (store32 m p k') (fst b) = bnext m (fst b)" if "b \<in> set (as @ (p, k) # bs)" for b
  proof (cases "b \<in> set (as @ bs)")
    case True
    from bnext_store(4) [OF far [OF this]] show ?thesis .
  next
    case False
    with that show ?thesis by (auto simp: bnext_store)
  qed
  have pg: "blk_pages (store32 m p k') (fst b) = blk_pages m (fst b)" if "b \<in> set (as @ bs)" for b
    using far [OF that] by (simp add: header_far)
  have "chain (bnext m) (ptr fp) (map fst (as @ (p, k) # bs))" using rep by (simp add: flist_def)
  from chain_blocks_cong [OF this others]
  have "chain (bnext (store32 m p k')) (ptr fp) (map fst (as @ (p, k) # bs))" .
  with rep ok pg show ?thesis by (auto simp: flist_def)
qed

lemma flist_merge:
  assumes rep: "flist m fp (as @ (u, k) # (c, j) # bs)" and adj: "u + P2B k = c"
  defines "m2 \<equiv> store32 m (u + 4) (blk_next m c)"
  shows "flist (store32 m2 u (blk_pages m2 u + blk_pages m2 c)) fp (as @ (u, k + j) # bs)"
proof -
  have ok: "blocks_ok (as @ (u, k) # (c, j) # bs)" using rep by (simp add: flist_def)
  have far: "far u (fst b)" if "b \<in> set (as @ (c, j) # bs)" for b
    using blocks_ok_far_new [of as "(u, k)" "(c, j) # bs" b] ok that by simp
  have pages: "blk_pages m2 u = k" "blk_pages m2 c = j"
    using rep far [of "(c, j)"] by (auto simp: m2_def flist_def header_far)
  have others: "bnext m2 (fst b) = bnext m (fst b)" "blk_pages m2 (fst b) = blk_pages m (fst b)"
    if "b \<in> set (as @ bs)" for b
    using far [of b] that by (auto simp: m2_def bnext_store header_far)
  have seg: "segment (bnext m) (ptr fp) (map fst as) (Some u)" "chain (bnext m) (bnext m c) (map fst bs)"
    using rep by (auto simp: flist_def chain_append)
  have "segment (bnext m2) (ptr fp) (map fst as) (Some u)"
    using seg(1) others(1) by (auto intro!: segment_blocks_cong [of "bnext m"])
  moreover have "chain (bnext m2) (bnext m c) (map fst bs)"
    using seg(2) others(1) by (auto intro!: chain_blocks_cong [of "bnext m"])
  moreover have "bnext m2 u = bnext m c" by (simp add: m2_def bnext_store) (simp add: bnext_def)
  ultimately have "flist m2 fp (as @ (u, k) # bs)"
    using rep others(2) pages(1) blocks_ok_insert_drop [of "as @ [(u, k)]" "(c, j)" bs]
    by (auto simp: flist_def chain_append)
  then show ?thesis unfolding pages using blocks_ok_merge(1) [OF ok adj] by (rule flist_grow)
qed

text \<open>The second half of \<^verbatim>\<open>km_page_free_multi\<close>: join the block at \<open>used\<close> with its successor.\<close>

lemma flist_glue:
  assumes rep: "flist m fp (as @ (u, k) # bs)"
    and m': "m' = (case hd_opt (map fst bs) of
         Some c \<Rightarrow> if adjacent m u c
                   then let m2 = store32 m (u + 4) (blk_next m c)
                        in store32 m2 u (blk_pages m2 u + blk_pages m2 c) else m
       | None \<Rightarrow> m)"
  shows "flist m' fp (as @ glue (u, k) bs)"
proof (cases bs)
  case Nil
  with rep m' show ?thesis by simp
next
  case (Cons x cs)
  obtain c j where x: "x = (c, j)" by fastforce
  have "blk_pages m u = k" using rep by (auto simp: flist_def)
  then have adj: "adjacent m u c \<longleftrightarrow> u + P2B k = c" by (simp add: adjacent_def)
  show ?thesis
  proof (cases "u + P2B k = c")
    case True
    with rep m' Cons x adj show ?thesis using flist_merge [of m fp as u k c j cs] by (simp add: Let_def)
  next
    case False
    with rep m' Cons x adj show ?thesis by simp
  qed
qed

text \<open>Where the block goes: the blocks below it, and the blocks above it.\<close>

definition room_for :: "block \<Rightarrow> block list \<Rightarrow> bool" where
  "room_for u xs \<longleftrightarrow> block_ok u \<and>
     (\<forall>b\<in>set xs. block_end b \<le> unat (fst u) \<or> block_end u \<le> unat (fst b))"

lemma room_for_split:
  assumes ok: "blocks_ok xs" and room: "room_for u xs"
  shows "blocks_ok (takeWhile (\<lambda>b. fst b < fst u) xs @ u # dropWhile (\<lambda>b. fst b < fst u) xs)"
proof -
  let ?as = "takeWhile (\<lambda>b. fst b < fst u) xs" and ?bs = "dropWhile (\<lambda>b. fst b < fst u) xs"
  have okb: "\<forall>b\<in>set xs. block_ok b" and u: "block_ok u" using ok room by (auto simp: blocks_ok_def room_for_def)
  have "sorted (map fst xs)"
    using ok okb
  proof (induction xs)
    case (Cons b xs)
    then show ?case
      using block_ok_room [of b] by (force simp: blocks_ok_Cons word_le_nat_alt)
  qed simp
  have below: "block_end b \<le> unat (fst u)" if "b \<in> set ?as" for b
  proof -
    have "b \<in> set xs" "fst b < fst u" using set_takeWhileD [OF that] by auto
    then show ?thesis using room u block_ok_room [OF u] by (auto simp: room_for_def word_less_nat_alt)
  qed
  have above: "block_end u \<le> unat (fst b)" if "b \<in> set ?bs" for b
  proof -
    have "b \<in> set xs" using that by (rule set_dropWhileD)
    moreover have "\<not> fst b < fst u"
      using that \<open>sorted (map fst xs)\<close> by (induction xs) (auto split: if_splits)
    ultimately show ?thesis using room okb block_ok_room [of b]
      by (fastforce simp: room_for_def word_less_nat_alt)
  qed
  have "blocks_ok (?as @ ?bs)" using ok by simp
  with below above u show ?thesis
    by (auto simp: blocks_ok_append blocks_ok_Cons simp del: takeWhile_dropWhile_id)
qed

lemma sum_snd_glue: "sum_list (map snd (glue (u, k) bs)) = k + sum_list (map snd bs)"
proof (cases bs)
  case Nil
  then show ?thesis by simp
next
  case (Cons x xs)
  obtain c j where x: "x = (c, j)" by fastforce
  show ?thesis by (cases "u + P2B k = c") (simp_all add: Cons x add.assoc)
qed

lemma sum_snd_give_back: "sum_list (map snd (give_back (a, n) xs)) = sum_list (map snd xs) + n"
proof -
  let ?as = "takeWhile (\<lambda>b. fst b < a) xs" and ?bs = "dropWhile (\<lambda>b. fst b < a) xs"
  have xs: "sum_list (map snd xs) = sum_list (map snd ?as) + sum_list (map snd ?bs)"
    using arg_cong [OF takeWhile_dropWhile_id [of "\<lambda>b. fst b < a" xs, symmetric],
        of "\<lambda>l. sum_list (map snd l)"]
    unfolding map_append sum_list_append .
  show ?thesis
  proof (cases "?as = []")
    case True
    with xs show ?thesis by (simp add: give_back_def Let_def sum_snd_glue)
  next
    case False
    then have "sum_list (map snd ?as) = sum_list (map snd (butlast ?as)) + snd (last ?as)"
      using arg_cong [OF append_butlast_last_id [OF False, symmetric], of "\<lambda>l. sum_list (map snd l)"]
      unfolding map_append sum_list_append by (simp only: list.map sum_list.Cons sum_list.Nil add.right_neutral)
    with False xs show ?thesis
      by (simp add: give_back_def Let_def sum_snd_glue split: prod.splits)
  qed
qed

lemma free_walk:
  assumes rep: "frep s xs" and room: "room_for (a, n) xs"
  shows "walk km_fuel (\<lambda>c. c < a) (bnext (store32 (k_mem s) a v)) None (ptr (free_pages s)) =
    Inr (last_opt None (map fst (takeWhile (\<lambda>b. fst b < a) xs)),
         hd_opt (map fst (dropWhile (\<lambda>b. fst b < a) xs)))"
proof -
  let ?as = "takeWhile (\<lambda>b. fst b < a) xs" and ?bs = "dropWhile (\<lambda>b. fst b < a) xs"
  have ok: "blocks_ok (?as @ (a, n) # ?bs)"
    using room_for_split [of xs "(a, n)"] rep room by (simp add: frep_def)
  have "far a (fst b)" if "b \<in> set xs" for b
    using blocks_ok_far_new [OF ok, of b] that by simp
  then show ?thesis
    by (intro frep_walk [OF rep]) (auto simp: bnext_store)
qed

text \<open>The first half of \<^verbatim>\<open>km_page_free_multi\<close>, as the code writes it: link the block in, or let its
  predecessor grow over it.\<close>

definition put_block :: "addr \<Rightarrow> addr option \<Rightarrow> mem \<Rightarrow> kms \<Rightarrow> kms \<times> addr" where
  "put_block block prev m s =
     (case prev of
        Some p \<Rightarrow>
          if adjacent m p block
          then (s\<lparr>k_mem := store32 m p (blk_pages m p + blk_pages m block)\<rparr>, p)
          else (s\<lparr>k_mem := store32 (store32 m (block + 4) (blk_next m p)) (p + 4) block\<rparr>, block)
      | None \<Rightarrow> (s\<lparr>k_mem := store32 m (block + 4) (free_pages s), free_pages := block\<rparr>, block))"

lemma put_block_flist:
  assumes rep: "flist m (free_pages s) (as @ bs)" and ok: "blocks_ok (as @ (a, n) # bs)"
    and pg: "blk_pages m a = n" and res: "put_block a (last_opt None (map fst as)) m s = (s1, u)"
  obtains k cs where "flist (k_mem s1) (free_pages s1) (cs @ (u, k) # bs)"
    "cs @ glue (u, k) bs =
       (if as = [] then glue (a, n) bs
        else let (p, j) = last as in butlast as @
               (if p + P2B j = a then glue (p, j + n) bs else (p, j) # glue (a, n) bs))"
proof (cases as rule: rev_cases)
  case Nil
  have "s1 = s\<lparr>k_mem := store32 m (a + 4) (free_pages s), free_pages := a\<rparr>" "u = a"
    using res Nil by (auto simp: put_block_def)
  then show ?thesis using that [of "[]" n] flist_push [of m "free_pages s" bs a n] rep ok pg Nil by simp
next
  case (snoc cs x)
  obtain p j where x: "x = (p, j)" by fastforce
  have rep': "flist m (free_pages s) (cs @ (p, j) # bs)" using rep snoc x by simp
  then have pj: "blk_pages m p = j" by (auto simp: flist_def)
  have ok': "blocks_ok (cs @ (p, j) # (a, n) # bs)" using ok snoc x by simp
  show ?thesis
  proof (cases "p + P2B j = a")
    case True
    then have "s1 = s\<lparr>k_mem := store32 m p (j + n)\<rparr>" "u = p"
      using res snoc x pj pg by (auto simp: put_block_def adjacent_def)
    moreover have "flist (store32 m p (j + n)) (free_pages s) (cs @ (p, j + n) # bs)"
      by (rule flist_grow [OF rep' blocks_ok_merge(1) [OF ok' True]])
    ultimately show ?thesis using that [of cs "j + n"] snoc x True by simp
  next
    case False
    then have "s1 = s\<lparr>k_mem := store32 (store32 m (a + 4) (blk_next m p)) (p + 4) a\<rparr>" "u = a"
      using res snoc x pj by (auto simp: put_block_def adjacent_def)
    moreover have "flist (store32 (store32 m (a + 4) (blk_next m p)) (p + 4) a) (free_pages s)
        (cs @ (p, j) # (a, n) # bs)"
      by (rule flist_insert_after [OF rep' ok' pg])
    ultimately show ?thesis using that [of "cs @ [(p, j)]" n] snoc x False by simp
  qed
qed

lemma km_page_free_multi_unfold:
  assumes "km_initialized s" "a \<noteq> 0"
  shows "km_page_free_multi a n s =
    bindR (walk km_fuel (\<lambda>c. c < a) (bnext (store32 (k_mem s) a n)) None (ptr (free_pages s)))
      (\<lambda>(prev, curr).
         let (s1, used) = put_block a prev (store32 (k_mem s) a n) s;
             s2 = s1\<lparr>k_mem := (case curr of
                      Some c \<Rightarrow> if adjacent (k_mem s1) used c
                                then let m2 = store32 (k_mem s1) (used + 4) (blk_next (k_mem s1) c)
                                     in store32 m2 used (blk_pages m2 used + blk_pages m2 c)
                                else k_mem s1
                    | None \<Rightarrow> k_mem s1)\<rparr>
         in Inr (s2\<lparr>n_pages := n_pages s2 + n\<rparr>))"
proof -
  have upd: "s\<lparr>k_mem := k_mem s\<rparr> = s" for s :: kms by simp
  show ?thesis
    using assms unfolding km_page_free_multi_def Let_def put_block_def
    by (auto intro!: arg_cong [where f = "bindR _"] ext split: prod.splits option.splits)
qed

lemma put_block_frame:
  assumes "put_block a (last_opt None (map fst as)) m s = (s1, u)" "blocks_ok (as @ (a, n) # bs)"
    "unat x \<notin> bytes (as @ (a, n) # bs)"
  shows "k_mem s1 x = m x" "\<exists>b\<in>set (as @ [(a, n)]). u = fst b"
proof -
  have ok: "block_ok b" if "b \<in> set (as @ [(a, n)])" for b
    using assms(2) that unfolding blocks_ok_def by auto
  have out: "store32 m' (fst b) v x = m' x" "store32 m' (fst b + 4) v x = m' x" if "b \<in> set (as @ [(a, n)])" for b m' v
    using header_store_frame [OF ok [OF that], of x] assms(3) that by (auto simp: bytes_def)
  have outa: "store32 m' (a + 4) v x = m' x" for m' v using out(2) [of "(a, n)"] by simp
  have outl: "store32 m' (fst (last as)) v x = m' x" "store32 m' (fst (last as) + 4) v x = m' x" if "as \<noteq> []" for m' v
    using out [of "last as"] that by simp_all
  show "k_mem s1 x = m x"
    using assms(1) outa outl by (auto simp: put_block_def last_opt_def last_map split: if_splits)
  show "\<exists>b\<in>set (as @ [(a, n)]). u = fst b"
    using assms(1) by (auto simp: put_block_def last_opt_def last_map split: if_splits)
qed

lemma km_page_free_multi_frep:
  assumes rep: "frep s xs" and init: "km_initialized s" and room: "room_for (a, n) xs"
  obtains s' where "km_page_free_multi a n s = Inr s'" "frep s' (give_back (a, n) xs)"
    "km_initialized s'" "free_slices s' = free_slices s" "n_slices s' = n_slices s"
    "\<forall>x. unat x \<notin> bytes xs \<union> {unat a ..< block_end (a, n)} \<longrightarrow> k_mem s' x = k_mem s x"
proof -
  let ?as = "takeWhile (\<lambda>b. fst b < a) xs" and ?bs = "dropWhile (\<lambda>b. fst b < a) xs"
  let ?m = "store32 (k_mem s) a n"
  have ok: "blocks_ok (?as @ (a, n) # ?bs)"
    using room_for_split [of xs "(a, n)"] rep room by (simp add: frep_def)
  have a0: "a \<noteq> 0" using room by (auto simp: room_for_def block_ok_def unat_gt_0)
  have gbs: "give_back (a, n) xs = (if ?as = [] then glue (a, n) ?bs
        else let (p, j) = last ?as in butlast ?as @
               (if p + P2B j = a then glue (p, j + n) ?bs else (p, j) # glue (a, n) ?bs))"
    by (simp only: give_back_def Let_def fst_conv snd_conv)
  have fl: "flist ?m (free_pages s) (?as @ ?bs)"
    using flist_store_far(1) [of "k_mem s" "free_pages s" xs a n] rep blocks_ok_far_new [OF ok]
    by (simp add: frep_flist)
  obtain s1 u where put: "put_block a (last_opt None (map fst ?as)) ?m s = (s1, u)" by fastforce
  obtain k cs where L: "flist (k_mem s1) (free_pages s1) (cs @ (u, k) # ?bs)"
    and gb: "cs @ glue (u, k) ?bs = give_back (a, n) xs"
    unfolding gbs by (rule put_block_flist [OF fl ok load32_store32 put])
  define s2 where "s2 = s1\<lparr>k_mem := (case hd_opt (map fst ?bs) of
       Some c \<Rightarrow> if adjacent (k_mem s1) u c
                 then let m2 = store32 (k_mem s1) (u + 4) (blk_next (k_mem s1) c)
                      in store32 m2 u (blk_pages m2 u + blk_pages m2 c) else k_mem s1
     | None \<Rightarrow> k_mem s1)\<rparr>"
  have "flist (k_mem s2) (free_pages s2) (give_back (a, n) xs)"
    using flist_glue [OF L, of "k_mem s2"] gb by (simp add: s2_def)
  moreover have keep: "n_pages s2 = n_pages s" "km_initialized s2 = km_initialized s"
    "free_slices s2 = free_slices s" "n_slices s2 = n_slices s"
    using put by (auto simp: s2_def put_block_def split: option.splits if_splits)
  ultimately have "frep (s2\<lparr>n_pages := n_pages s2 + n\<rparr>) (give_back (a, n) xs)"
    using rep by (simp add: frep_flist sum_snd_give_back)
  moreover have "k_mem s2 x = k_mem s x" if x: "unat x \<notin> bytes xs \<union> {unat a ..< block_end (a, n)}" for x
  proof -
    have bx: "bytes xs = bytes ?as \<union> bytes ?bs" by (metis bytes_simps(3) takeWhile_dropWhile_id)
    have out: "unat x \<notin> bytes (?as @ (a, n) # ?bs)" using x unfolding bx by auto
    note F = put_block_frame [OF put ok out]
    obtain b where b: "b \<in> set (?as @ [(a, n)])" "u = fst b" using F(2) by blast
    then have "block_ok b" "unat x \<notin> {unat (fst b) ..< block_end b}"
      using ok out unfolding blocks_ok_def bytes_def by auto
    note H = header_store_frame [OF this, folded b(2)]
    have "?m x = k_mem s x" using header_store_frame(1) [of "(a, n)" x] room x by (simp add: room_for_def)
    then show ?thesis using F(1) H by (simp add: s2_def Let_def split: option.split)
  qed
  moreover have "km_page_free_multi a n s = Inr (s2\<lparr>n_pages := n_pages s2 + n\<rparr>)"
    unfolding km_page_free_multi_unfold [OF init a0] free_walk [OF rep room]
    by (simp add: put s2_def Let_def)
  ultimately show ?thesis using that keep init by simp
qed

subsection \<open>The free bytes\<close>

lemma bytes_first_fit:
  assumes ok: "blocks_ok xs" and c: "1 \<le> count" and ff: "first_fit count xs = Some (r, ys)"
  shows "{unat r ..< unat r + SZ_PAGE * unat count} \<subseteq> bytes xs"
    "bytes ys = bytes xs - {unat r ..< unat r + SZ_PAGE * unat count}"
    "r \<noteq> 0" "unat r + SZ_PAGE * unat count \<le> 2 ^ 32"
proof -
  from ff obtain as n bs where xs: "xs = as @ (r, n) # bs" and n: "count \<le> n"
    and ys: "ys = as @ (if n = count then [] else [(r + P2B count, n - count)]) @ bs"
    by (rule first_fit_Some)
  have B: "block_ok (r, n)" "bytes as \<subseteq> {..<unat r}" "bytes bs \<subseteq> {block_end (r, n)..}"
    using ok by (auto simp: xs blocks_ok_append blocks_ok_Cons bytes_def dest: order.strict_trans1 order.strict_trans2)
  have len: "unat r + SZ_PAGE * unat count \<le> block_end (r, n)"
    using n by (simp add: block_end_def word_le_nat_alt)
  then show "{unat r ..< unat r + SZ_PAGE * unat count} \<subseteq> bytes xs" by (auto simp: xs)
  show "r \<noteq> 0" "unat r + SZ_PAGE * unat count \<le> 2 ^ 32"
    using B(1) len by (auto simp: block_ok_def unat_gt_0)
  show "bytes ys = bytes xs - {unat r ..< unat r + SZ_PAGE * unat count}"
  proof (cases "n = count")
    case True
    then show ?thesis using B(2,3) by (auto simp: ys xs block_end_def)
  next
    case False
    with n have "count < n" by simp
    note F = fragment_block [OF B(1) this c]
    show ?thesis using False B(2,3) len F(1,2) by (auto simp: ys xs)
  qed
qed

lemma bytes_glue:
  assumes "blocks_ok ((u, k) # bs)"
  shows "bytes (glue (u, k) bs) = bytes ((u, k) # bs)"
proof (cases bs)
  case Nil
  then show ?thesis by simp
next
  case (Cons x cs)
  obtain c j where x: "x = (c, j)" by fastforce
  show ?thesis
  proof (cases "u + P2B k = c")
    case True
    have ok: "blocks_ok ([] @ (u, k) # (c, j) # cs)" using assms Cons x by simp
    note M = blocks_ok_merge(2,3) [OF ok True]
    have "unat u \<le> unat c" "unat c \<le> block_end (c, j)" using M(1) by (simp_all add: block_end_def)
    then have "{unat u ..< block_end (u, k)} \<union> {unat c ..< block_end (c, j)} = {unat u ..< block_end (c, j)}"
      unfolding M(1) [symmetric] by (rule ivl_disj_un_two(3))
    with True Cons x M(2) show ?thesis by (simp add: Un_assoc [symmetric])
  next
    case False
    with Cons x show ?thesis by simp
  qed
qed

lemma bytes_give_back:
  assumes ok: "blocks_ok xs" and room: "room_for (a, n) xs"
  shows "bytes (give_back (a, n) xs) = bytes xs \<union> {unat a ..< block_end (a, n)}"
proof -
  let ?as = "takeWhile (\<lambda>b. fst b < a) xs" and ?bs = "dropWhile (\<lambda>b. fst b < a) xs"
  have all: "blocks_ok (?as @ (a, n) # ?bs)" using room_for_split [OF ok room] by simp
  have xs: "bytes xs = bytes ?as \<union> bytes ?bs" by (metis bytes_simps(3) takeWhile_dropWhile_id)
  have g: "bytes (glue (a, n) ?bs) = {unat a ..< block_end (a, n)} \<union> bytes ?bs"
    using all bytes_glue [of a n ?bs] by (simp add: blocks_ok_append)
  show ?thesis
  proof (cases ?as rule: rev_cases)
    case Nil
    with xs g show ?thesis by (auto simp: give_back_def Let_def)
  next
    case (snoc cs x)
    obtain p j where x: "x = (p, j)" by fastforce
    show ?thesis
    proof (cases "p + P2B j = a")
      case True
      have m: "blocks_ok (cs @ (p, j) # (a, n) # ?bs)" using all snoc x by simp
      note M = blocks_ok_merge [OF m True]
      have "bytes (glue (p, j + n) ?bs) = {unat p ..< block_end (a, n)} \<union> bytes ?bs"
        using bytes_glue [of p "j + n" ?bs] M(1,3) by (simp add: blocks_ok_append)
      moreover have "{unat p ..< block_end (a, n)} = {unat p ..< block_end (p, j)} \<union> {unat a ..< block_end (a, n)}"
        using M(2) by (auto simp: block_end_def)
      ultimately show ?thesis using xs snoc x True by (auto simp: give_back_def Let_def)
    next
      case False
      then show ?thesis using xs snoc x g by (auto simp: give_back_def Let_def)
    qed
  qed
qed

lemma room_for_bytes:
  assumes ok: "blocks_ok xs" and u: "block_ok u"
    and dis: "{unat (fst u) ..< block_end u} \<inter> bytes xs = {}"
  shows "room_for u xs"
proof -
  have "block_end b \<le> unat (fst u) \<or> block_end u \<le> unat (fst b)" if b: "b \<in> set xs" for b
  proof (rule ccontr)
    assume "\<not> ?thesis"
    moreover have "unat (fst b) < block_end b" "unat (fst u) < block_end u"
      using ok u b block_ok_room [of b] block_ok_room [of u] by (auto simp: blocks_ok_def)
    ultimately have "max (unat (fst u)) (unat (fst b)) \<in> {unat (fst u) ..< block_end u}"
      and m: "max (unat (fst u)) (unat (fst b)) \<in> {unat (fst b) ..< block_end b}" by auto
    moreover have "max (unat (fst u)) (unat (fst b)) \<in> bytes xs"
      unfolding bytes_def using b m by blast
    ultimately show False using dis by blast
  qed
  with u show ?thesis by (simp add: room_for_def)
qed

subsection \<open>Building the list\<close>

definition insert_block :: "block \<Rightarrow> block list \<Rightarrow> block list" where
  "insert_block u xs =
     takeWhile (\<lambda>b. fst b < fst u) xs @ u # dropWhile (\<lambda>b. fst b < fst u) xs"

lemma set_insert_block: "set (insert_block u xs) = insert u (set xs)"
  unfolding insert_block_def set_append list.set
  by (metis Un_insert_right set_append takeWhile_dropWhile_id)

lemma bytes_insert_block: "bytes (insert_block u xs) = {unat (fst u) ..< block_end u} \<union> bytes xs"
  by (simp add: bytes_def set_insert_block)

lemma sum_snd_insert_block: "sum_list (map snd (insert_block u xs)) = snd u + sum_list (map snd xs)"
proof -
  have "sum_list (map snd xs) = sum_list (map snd (takeWhile (\<lambda>b. fst b < fst u) xs)) +
      sum_list (map snd (dropWhile (\<lambda>b. fst b < fst u) xs))"
    unfolding sum_list_append [symmetric] map_append [symmetric] takeWhile_dropWhile_id ..
  then show ?thesis by (simp add: insert_block_def)
qed

lemma B2P_round: "B2P (len AND 0xfffff000) = B2P len"
proof -
  have w: "(0xfffff000 :: u32) = push_bit 12 (mask 20)" by (simp add: mask_eq_exp_minus_1 push_bit_eq_mult)
  show ?thesis
    unfolding B2P_def w
    by (rule bit_word_eqI) (auto simp only: bit_simps comp_def, auto dest: bit_imp_le_length)
qed

lemma unptr_ptr [simp]: "unptr (ptr a) = a"
  by (simp add: unptr_def ptr_def)

lemma unat_B2P: "unat (B2P len) = unat len div SZ_PAGE"
  by (simp add: B2P_def drop_bit_eq_div unat_div)

lemma add_block_small: "unat len < SZ_PAGE \<Longrightarrow> add_block base len s = Inr s"
  by (simp add: add_block_def)

lemma room_for_Nil: "block_ok u \<Longrightarrow> room_for u []"
  by (simp add: room_for_def)

text \<open>Adding a block inserts it by address, and touches only headers.\<close>

lemma add_block_frep:
  assumes rep: "frep s xs" and len: "SZ_PAGE \<le> unat len" and room: "room_for (base, B2P len) xs"
  obtains s' where "add_block base len s = Inr s'" "frep s' (insert_block (base, B2P len) xs)"
    "free_slices s' = free_slices s" "n_slices s' = n_slices s"
    "\<And>x. unat x \<notin> bytes (insert_block (base, B2P len) xs) \<Longrightarrow> k_mem s' x = k_mem s x"
proof -
  define n where "n = B2P len"
  let ?as = "takeWhile (\<lambda>b. fst b < base) xs" and ?bs = "dropWhile (\<lambda>b. fst b < base) xs"
  define m where "m = store32 (store32 (k_mem s) base n) (base + 4) 0"
  have len': "B2P (if len AND 0xfff \<noteq> 0 then len AND 0xfffff000 else len) = n"
    by (simp add: n_def B2P_round)
  have room: "room_for (base, n) xs" using room by (simp add: n_def)
  have ok: "blocks_ok (?as @ (base, n) # ?bs)"
    using room_for_split [of xs "(base, n)"] rep room by (simp add: frep_def)
  have far: "far base (fst b)" if "b \<in> set xs" for b
    using blocks_ok_far_new [OF ok, of b] that by simp
  have m1: "flist m (free_pages s) xs"
    unfolding m_def using rep far by (intro flist_store_far) (simp_all add: frep_flist)
  have pg: "blk_pages m base = n" by (simp add: m_def)
  have walk: "walk km_fuel (\<lambda>c. c < base) (bnext m) None (ptr (free_pages s)) =
      Inr (last_opt None (map fst ?as), hd_opt (map fst ?bs))"
    using far by (intro frep_walk [OF rep]) (auto simp: m_def bnext_store)
  have ins: "insert_block (base, n) xs = ?as @ (base, n) # ?bs" by (simp add: insert_block_def)
  have sum: "sum_list (map snd (?as @ (base, n) # ?bs)) = n_pages s + n"
    using sum_snd_insert_block [of "(base, n)" xs] rep by (simp add: ins frep_def)
  have okb: "block_ok b" if "b \<in> set (?as @ (base, n) # ?bs)" for b
    using ok that unfolding blocks_ok_def by blast
  have frame: "m x = k_mem s x" "store32 m (base + 4) v x = m x"
    if "unat x \<notin> bytes (insert_block (base, n) xs)" for x v
    using that okb [of "(base, n)"] header_store_frame [of "(base, n)" x]
    by (simp_all add: bytes_insert_block m_def)
  show ?thesis
  proof (cases ?as rule: rev_cases)
    case Nil
    then have bs: "?bs = xs" by (metis append_Nil takeWhile_dropWhile_id)
    show ?thesis
    proof (cases xs)
      case Nil
      then have fp: "free_pages s = 0" "n_pages s = 0" using rep by (auto simp: frep_def)
      have "add_block base len s = Inr (s\<lparr>k_mem := m, free_pages := base, n_pages := n\<rparr>)"
        using len pg by (simp add: add_block_def len' fp flip: m_def)
      moreover have "frep (s\<lparr>k_mem := m, free_pages := base, n_pages := n\<rparr>) [(base, n)]"
        using ok Nil pg by (auto simp: frep_def blocks_ok_Cons block_ok_def unat_gt_0 m_def bnext_store)
      ultimately show ?thesis using that frame Nil ins by (simp add: n_def)
    next
      case (Cons b ys)
      have fp: "free_pages s \<noteq> 0" and hd: "fst b = free_pages s" using rep Cons by (auto simp: frep_def)
      have "add_block base len s = Inr (s\<lparr>k_mem := store32 m (base + 4) (free_pages s), free_pages := base,
          n_pages := n_pages s + n\<rparr>)"
        using len pg fp walk hd Nil bs Cons
        by (simp add: add_block_def len' unptr_def hd_opt_def flip: m_def)
      moreover have "flist (store32 m (base + 4) (free_pages s)) base ((base, n) # xs)"
        using ok Nil bs by (intro flist_push [OF m1 _ pg]) simp
      ultimately show ?thesis using that frame Nil ins bs sum by (simp add: n_def frep_flist)
    qed
  next
    case (snoc cs b)
    obtain p k where b: "b = (p, k)" by fastforce
    have xs: "xs = cs @ (p, k) # ?bs" using snoc b by (metis append_Cons append_Nil append_assoc takeWhile_dropWhile_id)
    have fp: "free_pages s \<noteq> 0"
      using rep snoc by (cases xs) (auto simp: frep_def)
    have m1': "flist m (free_pages s) (cs @ (p, k) # ?bs)" using m1 by (subst (asm) xs)
    from flist_split [OF m1'] have "bnext m p = hd_opt (map fst ?bs)"
      by (metis chain_hd_opt fst_conv)
    then have nx: "unptr (hd_opt (map fst ?bs)) = blk_next m p"
      by (metis bnext_def unptr_ptr)
    let ?m2 = "store32 (store32 m (base + 4) (blk_next m p)) (p + 4) base"
    have fl: "flist ?m2 (free_pages s) (cs @ (p, k) # (base, n) # ?bs)"
      using ok snoc b by (intro flist_insert_after [OF m1' _ pg]) simp
    then have "blk_pages ?m2 base = n" by (auto simp: flist_def)
    then have "add_block base len s = Inr (s\<lparr>k_mem := ?m2, n_pages := n_pages s + n\<rparr>)"
      using len fp walk nx snoc b by (simp add: add_block_def len' Let_def flip: m_def)
    moreover have "frep (s\<lparr>k_mem := ?m2, n_pages := n_pages s + n\<rparr>) (insert_block (base, n) xs)"
      using fl sum snoc b ins by (simp add: frep_flist)
    moreover have "?m2 x = k_mem s x" if x: "unat x \<notin> bytes (insert_block (base, n) xs)" for x
    proof -
      have "unat x \<notin> {unat p ..< block_end (p, k)}" using x unfolding ins snoc b by simp
      moreover have "block_ok (p, k)" using okb snoc b by simp
      ultimately show ?thesis using header_store_frame(2) [of "(p, k)" x] frame x by simp
    qed
    ultimately show ?thesis using that by (simp add: n_def)
  qed
qed

text \<open>What the gauntlet of \<^verbatim>\<open>km_init\<close> lets through lies between the two cutoffs, for every region
  that does not wrap around the 64-bit address space.\<close>

lemma usable_part_bounds:
  assumes part: "usable_part r = Some (b, l)" and nowrap: "unat (r_base r) + unat (r_length r) < 2 ^ 64"
  shows "0x100000 \<le> unat b" "unat b + unat l \<le> 0x40000000" "r_acpi r AND 1 \<noteq> 0" "r_type r = 1"
    "{unat b ..< unat b + unat l} \<subseteq> {unat (r_base r) ..< unat (r_base r) + unat (r_length r)}"
proof -
  define e0 where "e0 = r_base r + r_length r"
  define e1 where "e1 = (if r_base r \<ge> KM_HIGH_CUTOFF \<or> e0 \<ge> KM_HIGH_CUTOFF then KM_HIGH_CUTOFF else e0)"
  define b1 where "b1 = (if r_base r < KM_LOW_CUTOFF \<or> e1 < KM_LOW_CUTOFF then KM_LOW_CUTOFF else r_base r)"
  have e0: "unat e0 = unat (r_base r) + unat (r_length r)"
    using nowrap by (simp add: e0_def unat_word_ariths)
  have p: "b = ucast b1" "l = ucast (e1 - b1)"
    "\<not> ((r_base r \<ge> KM_HIGH_CUTOFF \<or> e0 \<ge> KM_HIGH_CUTOFF) \<and> r_base r > KM_HIGH_CUTOFF)"
    "\<not> ((r_base r < KM_LOW_CUTOFF \<or> e1 < KM_LOW_CUTOFF) \<and> e1 < KM_LOW_CUTOFF)"
    and flags: "r_acpi r AND 1 \<noteq> 0" "r_type r = 1"
    using part unfolding usable_part_def Let_def e0_def [symmetric] e1_def [symmetric] b1_def [symmetric]
    by (metis option.distinct(1) option.inject prod.inject)+
  show "r_acpi r AND 1 \<noteq> 0" "r_type r = 1" by (fact flags)+
  have e1: "unat e1 = (if unat (r_base r) \<ge> 0x40000000 \<or> unat e0 \<ge> 0x40000000 then 0x40000000 else unat e0)"
    by (simp add: e1_def word_le_nat_alt)
  have b1: "unat b1 = (if unat (r_base r) < 0x100000 \<or> unat e1 < 0x100000 then 0x100000 else unat (r_base r))"
    by (simp add: b1_def word_less_nat_alt)
  have n: "unat (r_base r) \<le> 0x40000000" "0x100000 \<le> unat e1"
    using p(3,4) by (auto simp: word_le_nat_alt word_less_nat_alt not_less not_le split: if_splits)
  have le: "unat b1 \<le> unat e1" "unat e1 \<le> 0x40000000" using n e1 b1 e0 by (auto split: if_splits)
  then have d: "unat (e1 - b1) = unat e1 - unat b1" by (simp add: unat_sub word_le_nat_alt)
  have u: "unat b = unat b1" "unat l = unat e1 - unat b1"
    using le d by (simp_all add: p(1,2) unsigned_ucast_eq take_bit_nat_eq_self)
  show "0x100000 \<le> unat b" "unat b + unat l \<le> 0x40000000"
    "{unat b ..< unat b + unat l} \<subseteq> {unat (r_base r) ..< unat (r_base r) + unat (r_length r)}"
    using u le n e1 b1 e0 by (auto split: if_splits)
qed

text \<open>The blocks that the memory map describes, in the order of the map, and that none of its regions
  wraps around.\<close>

fun usable_blocks :: "mem \<Rightarrow> nat \<Rightarrow> addr \<Rightarrow> block list" where
  "usable_blocks m 0 reg = []"
| "usable_blocks m (Suc n) reg =
     (case usable_part (load_region m reg) of
        None \<Rightarrow> usable_blocks m n (reg + 24)
      | Some (b, l) \<Rightarrow> (if unat l < SZ_PAGE then [] else [(b, B2P l)]) @ usable_blocks m n (reg + 24))"

fun regions_ok :: "mem \<Rightarrow> nat \<Rightarrow> addr \<Rightarrow> bool" where
  "regions_ok m 0 reg \<longleftrightarrow> True"
| "regions_ok m (Suc n) reg \<longleftrightarrow>
     unat (r_base (load_region m reg)) + unat (r_length (load_region m reg)) < 2 ^ 64 \<and>
     regions_ok m n (reg + 24)"

definition disjoint_blocks :: "block list \<Rightarrow> bool" where
  "disjoint_blocks bs \<longleftrightarrow>
     sorted_wrt (\<lambda>b c. {unat (fst b) ..< block_end b} \<inter> {unat (fst c) ..< block_end c} = {}) bs"

lemma load_region_cong:
  assumes "\<And>x. unat reg \<le> unat x \<Longrightarrow> unat x < 0x100000 \<Longrightarrow> m x = m' x" "unat reg + 24 \<le> 0x100000"
  shows "load_region m reg = load_region m' reg"
proof -
  have "load32 m (reg + of_nat k) = load32 m' (reg + of_nat k)" if "k \<le> 20" for k
  proof (rule load32_cong)
    fix x assume "inr (reg + of_nat k) 4 x"
    moreover have "unat (reg + of_nat k) = unat reg + k" using assms(2) that by (intro unat_add_nowrap) simp
    ultimately have "unat reg \<le> unat x" "unat x < unat reg + k + 4" using assms(2) that by (simp_all add: inr_nowrap)
    then show "m x = m' x" using assms that by simp
  qed
  from this [of 0] this [of 4] this [of 8] this [of 12] this [of 16] this [of 20] show ?thesis
    by (simp add: load_region_def load64_def add.assoc)
qed

lemma reg_step: "unat reg + 24 * Suc n \<le> 0x100000 \<Longrightarrow> unat (reg + 24 :: addr) + 24 * n \<le> 0x100000"
  using unat_add_nowrap [of reg 24] by simp

lemma map_cong_low:
  assumes "\<And>x. unat reg \<le> unat x \<Longrightarrow> unat x < 0x100000 \<Longrightarrow> m x = m' x" "unat reg + 24 * n \<le> 0x100000"
  shows "usable_blocks m n reg = usable_blocks m' n reg" "regions_ok m n reg = regions_ok m' n reg"
  using assms
proof (induction n arbitrary: reg)
  case (Suc n)
  have next_reg: "unat reg \<le> unat x" if "unat reg + 24 * Suc n \<le> 0x100000" "unat (reg + 24) \<le> unat x" for reg x :: addr
    using that unat_add_nowrap [of reg 24] by simp
  {
    case 1
    then have same: "m x = m' x" if "unat (reg + 24) \<le> unat x" "unat x < 0x100000" for x
      using 1(1) that next_reg [of reg x] 1(2) by blast
    have "load_region m reg = load_region m' reg" by (rule load_region_cong) (use 1 in auto)
    then show ?case using Suc.IH(1) [OF same reg_step [OF 1(2)]] by (auto split: option.splits prod.splits)
  next
    case 2
    then have same: "m x = m' x" if "unat (reg + 24) \<le> unat x" "unat x < 0x100000" for x
      using 2(1) that next_reg [of reg x] 2(2) by blast
    have "load_region m reg = load_region m' reg" by (rule load_region_cong) (use 2 in auto)
    then show ?case using Suc.IH(2) [OF same reg_step [OF 2(2)]] by simp
  }
qed simp_all

lemma usable_block_ok:
  assumes "usable_part r = Some (b, l)" "unat (r_base r) + unat (r_length r) < 2 ^ 64" "SZ_PAGE \<le> unat l"
  shows "block_ok (b, B2P l)" "0x100000 \<le> unat b"
proof -
  note U = usable_part_bounds [OF assms(1,2)]
  have "SZ_PAGE * (unat l div SZ_PAGE) \<le> unat l" by simp
  then show "block_ok (b, B2P l)"
    using U(1,2) assms(3) by (simp add: block_ok_def block_end_def unat_B2P div_greater_zero_iff)
  show "0x100000 \<le> unat b" by (fact U(1))
qed

lemma bytes_high:
  "(\<forall>b\<in>set xs. 0x100000 \<le> unat (fst b)) \<Longrightarrow> unat x < 0x100000 \<Longrightarrow> unat x \<notin> bytes xs"
  by (force simp: bytes_def)

lemma km_init_loop_frep:
  assumes "frep s xs" "\<forall>b\<in>set xs. 0x100000 \<le> unat (fst b)" "unat reg + 24 * n \<le> 0x100000"
    "regions_ok (k_mem s) n reg" "disjoint_blocks (usable_blocks (k_mem s) n reg)"
    "\<forall>b\<in>set (usable_blocks (k_mem s) n reg). {unat (fst b) ..< block_end b} \<inter> bytes xs = {}"
  shows "\<exists>s'. km_init_loop n reg s = Inr s' \<and>
    frep s' (fold insert_block (usable_blocks (k_mem s) n reg) xs) \<and>
    free_slices s' = free_slices s \<and> n_slices s' = n_slices s \<and>
    (\<forall>x. unat x < 0x100000 \<longrightarrow> k_mem s' x = k_mem s x)"
  using assms
proof (induction n arbitrary: reg s xs)
  case (Suc n)
  note step = reg_step [OF Suc.prems(3)]
  show ?case
  proof (cases "usable_part (load_region (k_mem s) reg)")
    case None
    then show ?thesis using Suc.IH [OF Suc.prems(1,2) step] Suc.prems by simp
  next
    case (Some bl)
    obtain b l where bl: "bl = (b, l)" by fastforce
    show ?thesis
    proof (cases "unat l < SZ_PAGE")
      case True
      then show ?thesis
        using Suc.IH [OF Suc.prems(1,2) step] Suc.prems Some bl by (simp add: add_block_small)
    next
      case False
      then have len: "SZ_PAGE \<le> unat l" by simp
      let ?u = "(b, B2P l)" and ?rest = "usable_blocks (k_mem s) n (reg + 24)"
      have ub: "usable_blocks (k_mem s) (Suc n) reg = ?u # ?rest" using Some bl False by simp
      have ok: "block_ok ?u" "0x100000 \<le> unat b"
        using usable_block_ok [of "load_region (k_mem s) reg" b l] Some bl len Suc.prems(4) by auto
      have "room_for ?u xs"
        using Suc.prems(1,6) ok(1) unfolding ub by (intro room_for_bytes) (auto simp: frep_def)
      from add_block_frep [OF Suc.prems(1) len this] obtain s1 where
        S: "add_block b l s = Inr s1" "frep s1 (insert_block ?u xs)" "free_slices s1 = free_slices s"
          "n_slices s1 = n_slices s"
          "\<And>x. unat x \<notin> bytes (insert_block ?u xs) \<Longrightarrow> k_mem s1 x = k_mem s x" by metis
      have high: "\<forall>c\<in>set (insert_block ?u xs). 0x100000 \<le> unat (fst c)"
        using Suc.prems(2) ok(2) by (auto simp: set_insert_block)
      have same: "k_mem s1 x = k_mem s x" if "unat x < 0x100000" for x
        using S(5) bytes_high [OF high that] by blast
      note low = map_cong_low [OF same step]
      have "disjoint_blocks ?rest" "\<forall>c\<in>set ?rest. {unat (fst c) ..< block_end c} \<inter> bytes (insert_block ?u xs) = {}"
        using Suc.prems(5,6) unfolding ub disjoint_blocks_def bytes_insert_block by auto
      with Suc.IH [OF S(2) high step] Suc.prems(4) low S(1,3,4) same Some bl ub show ?thesis by simp
    qed
  qed
qed simp

lemma bytes_fold_insert_block: "bytes (fold insert_block bs xs) = bytes bs \<union> bytes xs"
  by (induction bs arbitrary: xs) (auto simp: bytes_insert_block)

subsection \<open>Memory outside the free blocks\<close>

text \<open>Whoever owns memory may write it: the free list depends on the free bytes only.\<close>

lemma frep_outside:
  assumes rep: "frep s xs" and same: "\<And>x. unat x \<in> bytes xs \<Longrightarrow> m x = k_mem s x"
  shows "frep (s\<lparr>k_mem := m\<rparr>) xs"
proof -
  have H: "load32 m (fst b) = load32 (k_mem s) (fst b)" "load32 m (fst b + 4) = load32 (k_mem s) (fst b + 4)"
    if b: "b \<in> set xs" for b
  proof -
    have ok: "block_ok b" using rep b by (simp add: frep_def blocks_ok_def)
    have room: "unat (fst b) + SZ_PAGE \<le> block_end b" "block_end b \<le> 2 ^ 32"
      using ok by (auto simp: block_ok_room block_ok_def)
    then have a4: "unat (fst b + 4) = unat (fst b) + 4" using unat_add_nowrap [of "fst b" 4] by simp
    have in_b: "unat x \<in> bytes xs" if "unat (fst b) \<le> unat x" "unat x < unat (fst b) + 8" for x :: addr
      unfolding bytes_def using b that room by force
    show "load32 m (fst b) = load32 (k_mem s) (fst b)" "load32 m (fst b + 4) = load32 (k_mem s) (fst b + 4)"
      by (rule load32_cong, rule same, rule in_b; use room a4 in \<open>simp add: inr_nowrap\<close>)+
  qed
  moreover have "chain (bnext (k_mem s)) (ptr (free_pages s)) (map fst xs)" using rep by (simp add: frep_def)
  ultimately have "chain (bnext m) (ptr (free_pages s)) (map fst xs)"
    by (elim chain_blocks_cong) (simp add: bnext_def)
  with H rep show ?thesis by (auto simp: frep_def)
qed

lemma frep_fields: "frep (s\<lparr>free_slices := a\<rparr>) xs = frep s xs" "frep (s\<lparr>n_slices := n\<rparr>) xs = frep s xs"
  "frep (s\<lparr>km_initialized := i\<rparr>) xs = frep s xs"
  by (simp_all add: frep_def)

subsection \<open>Slices\<close>

text \<open>The slice list, in the order in which slices are handed out.\<close>

definition srep :: "kms \<Rightarrow> addr list \<Rightarrow> bool" where
  "srep s ss \<longleftrightarrow> chain (bnext (k_mem s)) (ptr (free_slices s)) ss"

text \<open>The four slices of a page as \<^verbatim>\<open>carve_slices\<close> writes them.\<close>

definition carved :: "addr \<Rightarrow> mem \<Rightarrow> mem" where
  "carved p m =
     (let m1 = store32 (store32 m p 1024) (p + 4) 0;
          m2 = store32 (store32 m1 (p + 1024) 1024) (p + 1028) p;
          m3 = store32 (store32 m2 (p + 2048) 1024) (p + 2052) (p + 1024)
      in store32 (store32 m3 (p + 3072) 1024) (p + 3076) (p + 2048))"

lemma carve_loop_carved:
  assumes "km_initialized s" "free_slices s = 0"
  shows "carve_loop 4 p s =
    Inr (s\<lparr>k_mem := carved p (k_mem s), free_slices := p + 3072, n_slices := n_slices s + 8\<rparr>)"
  using assms by (simp add: numeral_eq_Suc carved_def km_slice_free_def Let_def add.assoc)

lemma carved_next:
  "load32 (carved p m) (p + 3076) = p + 2048" "load32 (carved p m) (p + 2052) = p + 1024"
  "load32 (carved p m) (p + 1028) = p" "load32 (carved p m) (p + 4) = 0"
  unfolding carved_def Let_def by (simp_all add: load32_store32_apart apart_def)

lemma carved_outside:
  assumes "unat p + SZ_PAGE \<le> 2 ^ 32" "unat x \<notin> {unat p ..< unat p + SZ_PAGE}"
  shows "carved p m x = m x"
proof -
  have "\<not> inr (p + of_nat k) 4 x" if "k + 4 \<le> SZ_PAGE" for k
    using assms that unat_add_nowrap [of p k] by (auto simp: inr_nowrap)
  from this [of 0] this [of 4] this [of 1024] this [of 1028] this [of 2048] this [of 2052]
    this [of 3072] this [of 3076]
  show ?thesis by (simp add: carved_def Let_def store32_other)
qed

lemma inr_next_word: "inr (a + 4) 4 x \<Longrightarrow> inr a 8 x"
proof -
  assume h: "inr (a + 4) 4 x"
  have "x - a = (x - (a + 4)) + 4" by simp
  moreover have "unat (x - (a + 4)) < 4" using h by (simp add: inr_def)
  ultimately have "unat (x - a) = unat (x - (a + 4)) + 4" using unat_add_nowrap [of "x - (a + 4)" 4] by simp
  with h show "inr a 8 x" by (simp add: inr_def)
qed

lemma inr_mono: "inr a n x \<Longrightarrow> n \<le> k \<Longrightarrow> inr a k x"
  by (simp add: inr_def)

lemma page_offset_neq_0:
  assumes "p \<noteq> 0" "unat p + SZ_PAGE \<le> 2 ^ 32" "k < SZ_PAGE"
  shows "p + of_nat k \<noteq> (0 :: addr)"
proof -
  have "unat (p + of_nat k) = unat p + k" using assms by (intro unat_add_nowrap) simp
  moreover have "0 < unat p" using assms by (simp add: unat_gt_0)
  ultimately show ?thesis by (auto dest: arg_cong [where f = unat])
qed

lemma km_slice_alloc_carves:
  assumes rep: "frep s xs" and init: "km_initialized s" and none: "free_slices s = 0"
    and ff: "first_fit 1 xs = Some (p, ys)"
  obtains s' where "km_slice_alloc s = Inr (p + 3072, s')" "frep s' ys"
    "srep s' [p + 2048, p + 1024, p]" "n_slices s' = n_slices s + 7"
    "\<forall>x. inr (p + 3072) SZ_SLICE x \<longrightarrow> k_mem s' x = 0" "km_initialized s'"
    "\<forall>x. unat x \<notin> bytes xs \<longrightarrow> k_mem s' x = k_mem s x"
proof -
  have ok: "blocks_ok xs" using rep by (simp add: frep_def)
  note F = bytes_first_fit [OF ok _ ff, simplified]
  have p3: "p + 3072 \<noteq> 0" "p + 2048 \<noteq> 0" "p + 1024 \<noteq> 0"
    using page_offset_neq_0 [OF F(3), of 3072] page_offset_neq_0 [OF F(3), of 2048]
      page_offset_neq_0 [OF F(3), of 1024] F(4) by simp_all
  from km_page_alloc_Some [OF rep init _ ff] obtain s1 where
    S: "km_page_alloc 1 s = Inr (p, s1)" "frep s1 ys" "km_initialized s1" "free_slices s1 = 0"
      "n_slices s1 = n_slices s" and out: "\<forall>x. unat x \<notin> bytes xs \<longrightarrow> k_mem s1 x = k_mem s x"
    using none by (metis order.refl)
  let ?m = "carved p (k_mem s1)"
  let ?m' = "memclr ?m (p + 3072) 1024"
  define s' where "s' = s1\<lparr>k_mem := ?m', free_slices := p + 2048, n_slices := n_slices s + 7\<rparr>"
  have cl: "?m' x = (if inr (p + 3072) SZ_SLICE x then 0 else ?m x)" for x by (simp add: memclr_eq)
  have keep: "load32 ?m' (p + of_nat k) = load32 ?m (p + of_nat k)" if "k + 4 \<le> 3072" for k
  proof (rule load32_cong)
    fix x assume "inr (p + of_nat k) 4 x"
    then have "\<not> inr (p + 3072) SZ_SLICE x"
      using that F(4) unat_add_nowrap [of p k] unat_add_nowrap [of p 3072] by (simp add: inr_nowrap)
    then show "?m' x = ?m x" by (simp add: cl)
  qed
  from keep [of 4] keep [of 1028] keep [of 2052]
  have "srep s' [p + 2048, p + 1024, p]"
    using p3 F(3) by (simp add: srep_def s'_def bnext_def carved_next add.assoc)
  moreover have "frep s' ys"
  proof -
    have "?m' x = k_mem s1 x" if "unat x \<in> bytes ys" for x
    proof -
      have x: "unat x \<notin> {unat p ..< unat p + SZ_PAGE}" using that F(2) by simp
      moreover have "\<not> inr (p + 3072) SZ_SLICE x"
        using x F(4) unat_add_nowrap [of p 3072] by (auto simp: inr_nowrap)
      ultimately show ?thesis using carved_outside [of p x] F(4) by (simp add: cl)
    qed
    from frep_outside [OF S(2) this] show ?thesis by (simp add: s'_def frep_fields)
  qed
  moreover have "km_slice_alloc s = Inr (p + 3072, s')"
    using init none S F(3) p3
    by (simp add: km_slice_alloc_def carve_slices_def carve_loop_carved carved_next s'_def Let_def add.assoc)
  moreover have "\<forall>x. inr (p + 3072) SZ_SLICE x \<longrightarrow> k_mem s' x = 0" by (simp add: s'_def cl)
  moreover have "k_mem s' x = k_mem s x" if "unat x \<notin> bytes xs" for x
  proof -
    have x: "unat x \<notin> {unat p ..< unat p + SZ_PAGE}" using that F(1) by auto
    moreover have "\<not> inr (p + 3072) SZ_SLICE x"
      using x F(4) unat_add_nowrap [of p 3072] by (auto simp: inr_nowrap)
    ultimately show ?thesis using carved_outside [of p x] F(4) out that by (simp add: s'_def cl)
  qed
  ultimately show ?thesis using that S(3) by (simp add: s'_def)
qed

lemma km_slice_alloc_pops:
  assumes "km_initialized s" "srep s (a # ss)"
  shows "km_slice_alloc s = Inr (a, s\<lparr>n_slices := n_slices s - 1, free_slices := unptr (hd_opt ss),
    k_mem := memclr (k_mem s) a (of_nat SZ_SLICE)\<rparr>)"
proof -
  have a: "free_slices s = a" "a \<noteq> 0" and n: "bnext (k_mem s) a = hd_opt ss"
    using assms(2) chain_hd_opt [of "bnext (k_mem s)" "bnext (k_mem s) a" ss] by (auto simp: srep_def)
  have "blk_next (k_mem s) a = unptr (hd_opt ss)" using n by (metis bnext_def unptr_ptr)
  with a assms(1) show ?thesis by (simp add: km_slice_alloc_def)
qed

subsection \<open>The page pool interface\<close>

definition span :: "addr \<Rightarrow> u32 \<Rightarrow> nat set" where
  "span a n = {unat a ..< unat a + SZ_PAGE * unat n}"

text \<open>The initialized allocator, with \<open>B\<close> the set of free byte addresses.\<close>

definition pool :: "kms \<Rightarrow> nat set \<Rightarrow> bool" where
  "pool s B \<longleftrightarrow> km_initialized s \<and> (\<exists>xs. frep s xs \<and> bytes xs = B)"

locale page_pool =
  fixes free_in :: "'s \<Rightarrow> nat set \<Rightarrow> bool"
    and alloc :: "u32 \<Rightarrow> 's \<Rightarrow> (addr \<times> 's) res"
    and release :: "addr \<Rightarrow> u32 \<Rightarrow> 's \<Rightarrow> 's res"
    and content :: "'s \<Rightarrow> mem"
  assumes alloc_law: "free_in s B \<Longrightarrow> 1 \<le> count \<Longrightarrow>
      alloc count s = Inr (0, s) \<or>
      (\<exists>r s'. alloc count s = Inr (r, s') \<and> r \<noteq> 0 \<and> span r count \<subseteq> B \<and>
         unat r + SZ_PAGE * unat count \<le> 2 ^ 32 \<and> free_in s' (B - span r count) \<and>
         (\<forall>x. unat x \<notin> B \<longrightarrow> content s' x = content s x))"
    and release_law: "free_in s B \<Longrightarrow> a \<noteq> 0 \<Longrightarrow> 1 \<le> n \<Longrightarrow> unat a + SZ_PAGE * unat n \<le> 2 ^ 32 \<Longrightarrow>
      span a n \<inter> B = {} \<Longrightarrow> \<exists>s'. release a n s = Inr s' \<and> free_in s' (B \<union> span a n) \<and>
        (\<forall>x. unat x \<notin> B \<union> span a n \<longrightarrow> content s' x = content s x)"
begin

text \<open>What was allocated can be released, and the pool is then what it was.\<close>

lemma alloc_then_release:
  assumes pool: "free_in s B" and c: "1 \<le> count" and al: "alloc count s = Inr (r, s1)" and r: "r \<noteq> 0"
  shows "\<exists>s2. release r count s1 = Inr s2 \<and> free_in s2 B"
proof -
  have A: "span r count \<subseteq> B" "unat r + SZ_PAGE * unat count \<le> 2 ^ 32" "free_in s1 (B - span r count)"
    using alloc_law [OF pool c] al r by auto
  have "span r count \<inter> (B - span r count) = {}" by blast
  from release_law [OF A(3) r c A(2) this] obtain s2 where
    "release r count s1 = Inr s2" "free_in s2 (B - span r count \<union> span r count)" by blast
  moreover have "B - span r count \<union> span r count = B" using A(1) by blast
  ultimately show ?thesis by auto
qed

text \<open>Two allocations never overlap.\<close>

lemma alloc_twice_disjoint:
  assumes pool: "free_in s B" and c: "1 \<le> c1" "1 \<le> c2"
    and al: "alloc c1 s = Inr (r1, s1)" "r1 \<noteq> 0" "alloc c2 s1 = Inr (r2, s2)" "r2 \<noteq> 0"
  shows "span r1 c1 \<inter> span r2 c2 = {}"
proof -
  have "free_in s1 (B - span r1 c1)" using alloc_law [OF pool c(1)] al(1,2) by auto
  from alloc_law [OF this c(2)] al(3,4) have "span r2 c2 \<subseteq> B - span r1 c1" by auto
  then show ?thesis by blast
qed

end

lemma one_le_u32: "1 \<le> (n :: u32) \<longleftrightarrow> 0 < unat n"
  by (simp add: word_le_nat_alt Suc_le_eq)

lemma pool_alloc:
  assumes "pool s B" "1 \<le> count"
  shows "km_page_alloc count s = Inr (0, s) \<or>
      (\<exists>r s'. km_page_alloc count s = Inr (r, s') \<and> r \<noteq> 0 \<and> span r count \<subseteq> B \<and>
         unat r + SZ_PAGE * unat count \<le> 2 ^ 32 \<and> pool s' (B - span r count) \<and>
         (\<forall>x. unat x \<notin> B \<longrightarrow> k_mem s' x = k_mem s x))"
proof -
  from assms obtain xs where init: "km_initialized s" and rep: "frep s xs" and B: "bytes xs = B"
    by (auto simp: pool_def)
  have ok: "blocks_ok xs" using rep by (simp add: frep_def)
  show ?thesis
  proof (cases "first_fit count xs")
    case None
    then show ?thesis using km_page_alloc_None [OF rep init] by simp
  next
    case (Some ry)
    obtain r ys where ry: "first_fit count xs = Some (r, ys)" using Some by (cases ry) auto
    note F = bytes_first_fit [OF ok assms(2) ry, folded span_def]
    from km_page_alloc_Some [OF rep init assms(2) ry] obtain s' where
      S: "km_page_alloc count s = Inr (r, s')" "frep s' ys" "km_initialized s'"
        "\<forall>x. unat x \<notin> bytes xs \<longrightarrow> k_mem s' x = k_mem s x" by metis
    then have "pool s' (B - span r count)" using F(2) B by (auto simp: pool_def)
    with S F B show ?thesis by auto
  qed
qed

lemma pool_release:
  assumes "pool s B" "a \<noteq> 0" "1 \<le> n" "unat a + SZ_PAGE * unat n \<le> 2 ^ 32" "span a n \<inter> B = {}"
  shows "\<exists>s'. km_page_free_multi a n s = Inr s' \<and> pool s' (B \<union> span a n) \<and>
    (\<forall>x. unat x \<notin> B \<union> span a n \<longrightarrow> k_mem s' x = k_mem s x)"
proof -
  from assms obtain xs where init: "km_initialized s" and rep: "frep s xs" and B: "bytes xs = B"
    by (auto simp: pool_def)
  have ok: "blocks_ok xs" using rep by (simp add: frep_def)
  have "block_ok (a, n)" using assms(2-4) by (simp add: block_ok_def block_end_def one_le_u32 unat_gt_0)
  then have room: "room_for (a, n) xs"
    using assms(5) B by (intro room_for_bytes [OF ok]) (simp_all add: span_def block_end_def)
  from km_page_free_multi_frep [OF rep init room] obtain s' where
    S: "km_page_free_multi a n s = Inr s'" "frep s' (give_back (a, n) xs)" "km_initialized s'"
      "\<forall>x. unat x \<notin> bytes xs \<union> {unat a ..< block_end (a, n)} \<longrightarrow> k_mem s' x = k_mem s x" by metis
  then have "pool s' (B \<union> span a n)"
    using bytes_give_back [OF ok room] B by (auto simp: pool_def span_def block_end_def)
  moreover have "\<forall>x. unat x \<notin> B \<union> span a n \<longrightarrow> k_mem s' x = k_mem s x"
    using S(4) B by (simp add: span_def block_end_def)
  ultimately show ?thesis using S(1) by blast
qed

interpretation km: page_pool pool km_page_alloc km_page_free_multi k_mem
proof (unfold_locales, goal_cases)
  case (1 s B count)
  then show ?case by (rule pool_alloc)
next
  case (2 s B a n)
  then show ?case by (rule pool_release)
qed

section \<open>Properties\<close>

text \<open>A sample state for the witnesses: four free pages at 1 MB, and the memory map of a machine that
  reports them.\<close>

definition sample_kms :: kms where
  "sample_kms = \<lparr>k_mem = store32 (store32 (\<lambda>_. 0) 0x100000 4) 0x100004 0, free_pages = 0x100000,
     free_slices = 0, n_pages = 4, n_slices = 0, km_initialized = True\<rparr>"

definition sample_map :: mem where
  "sample_map = store32 (store32 (store32 (store32 (store32 (\<lambda>_. 0) 0x2d00 1) 0x2d04 0x100000)
     0x2d0c 0x4000) 0x2d14 1) 0x2d18 1"

lemma sample_frep: "frep sample_kms [(0x100000, 4)]" "km_initialized sample_kms" "free_slices sample_kms = 0"
  by (simp_all add: frep_def sample_kms_def bnext_def blocks_ok_Cons block_ok_def block_end_def
      load32_store32_apart apart_def)

lemma sample_pool: "pool sample_kms {0x100000 ..< 0x104000}"
  using sample_frep unfolding pool_def
  by (intro conjI exI [of _ "[(0x100000, 4)]"]) (simp_all add: block_end_def)

text \<open>C4. On a well-formed free list (ascending, non-overlapping blocks whose headers are in
  memory), \<^verbatim>\<open>km_page_alloc\<close> behaves as first fit on the list of blocks: it returns NULL and
  changes nothing exactly when no block is large enough, and otherwise returns the start of the first
  block that is, leaving the list with that block removed or shortened from the front, and no byte
  outside the free blocks is written.\<close>

theorem km_page_alloc_first_fit:
  assumes "frep s xs" "km_initialized s" "1 \<le> count"
  shows "case first_fit count xs of
           None \<Rightarrow> km_page_alloc count s = Inr (0, s)
         | Some (r, ys) \<Rightarrow> \<exists>s'. km_page_alloc count s = Inr (r, s') \<and> frep s' ys \<and> km_initialized s' \<and>
             (\<forall>x. unat x \<notin> bytes xs \<longrightarrow> k_mem s' x = k_mem s x)"
proof (cases "first_fit count xs")
  case None
  then show ?thesis using km_page_alloc_None [OF assms(1,2)] by simp
next
  case (Some ry)
  then show ?thesis using km_page_alloc_Some [OF assms] by (cases ry) (simp, metis)
qed

theorem km_page_alloc_first_fit_witness:
  "(\<exists>s'. km_page_alloc 3 sample_kms = Inr (0x100000, s') \<and> frep s' [(0x103000, 1)]) \<and>
   km_page_alloc 5 sample_kms = Inr (0, sample_kms)"
  using km_page_alloc_first_fit [OF sample_frep(1,2), of 3] km_page_alloc_first_fit [OF sample_frep(1,2), of 5]
  by (auto simp: P2B_def)

text \<open>C5. \<^verbatim>\<open>km_page_free_multi\<close> puts a block back: for a block that overlaps no free block, the
  resulting list is the old one with the block inserted by address and joined with a physically
  adjacent predecessor and successor, its bytes are the old free bytes and the block's, and the page
  count grows by the block's size.\<close>

theorem km_page_free_multi_coalesces:
  assumes "frep s xs" "km_initialized s" "room_for (a, n) xs"
  shows "\<exists>s'. km_page_free_multi a n s = Inr s' \<and> frep s' (give_back (a, n) xs) \<and>
           bytes (give_back (a, n) xs) = bytes xs \<union> span a n \<and> n_pages s' = n_pages s + n"
proof -
  from km_page_free_multi_frep [OF assms] obtain s' where
    S: "km_page_free_multi a n s = Inr s'" "frep s' (give_back (a, n) xs)" by metis
  moreover have "bytes (give_back (a, n) xs) = bytes xs \<union> span a n"
    using bytes_give_back [of xs a n] assms by (simp add: frep_def span_def block_end_def)
  moreover have "n_pages s' = n_pages s + n"
    using S(2) assms(1) sum_snd_give_back [of a n xs] by (simp add: frep_def)
  ultimately show ?thesis by blast
qed

theorem km_page_free_multi_coalesces_witness:
  "\<exists>s'. km_page_free_multi 0x104000 2 sample_kms = Inr s' \<and> frep s' [(0x100000, 6)]"
  using km_page_free_multi_coalesces [OF sample_frep(1,2), of "0x104000" 2]
  by (auto simp: room_for_def block_ok_def block_end_def give_back_def P2B_def)

text \<open>C19. Allocating pages and giving the same block back restores the set of free bytes, whatever
  splitting and joining happened on the way.\<close>

theorem km_alloc_free_roundtrip:
  assumes "pool s B" "1 \<le> count" "km_page_alloc count s = Inr (r, s1)" "r \<noteq> 0"
  shows "\<exists>s2. km_page_free_multi r count s1 = Inr s2 \<and> pool s2 B"
  using assms by (rule km.alloc_then_release)

lemma sample_alloc: "\<exists>s1. km_page_alloc 2 sample_kms = Inr (0x100000, s1) \<and> frep s1 [(0x102000, 2)] \<and> km_initialized s1"
  using km_page_alloc_Some [OF sample_frep(1,2), of 2 "0x100000" "[(0x102000, 2)]"]
  by (simp add: P2B_def) metis

theorem km_alloc_free_roundtrip_witness:
  "\<exists>s1 s2. km_page_alloc 2 sample_kms = Inr (0x100000, s1) \<and>
     km_page_free_multi 0x100000 2 s1 = Inr s2 \<and> pool s2 {0x100000 ..< 0x104000}"
  using sample_alloc km_alloc_free_roundtrip [OF sample_pool, of 2 "0x100000"] by auto

text \<open>C20. Two blocks handed out one after the other never overlap.\<close>

theorem km_allocations_disjoint:
  assumes "pool s B" "1 \<le> c1" "1 \<le> c2" "km_page_alloc c1 s = Inr (r1, s1)" "r1 \<noteq> 0"
    "km_page_alloc c2 s1 = Inr (r2, s2)" "r2 \<noteq> 0"
  shows "span r1 c1 \<inter> span r2 c2 = {}"
  using assms by (rule km.alloc_twice_disjoint)

theorem km_allocations_disjoint_witness:
  "\<exists>s1 s2. km_page_alloc 2 sample_kms = Inr (0x100000, s1) \<and> km_page_alloc 1 s1 = Inr (0x102000, s2) \<and>
     span 0x100000 2 \<inter> span 0x102000 1 = {}"
proof -
  obtain s1 where S: "km_page_alloc 2 sample_kms = Inr (0x100000, s1)" "frep s1 [(0x102000, 2)]" "km_initialized s1"
    using sample_alloc by blast
  moreover obtain s2 where "km_page_alloc 1 s1 = Inr (0x102000, s2)"
    using km_page_alloc_Some [OF S(2,3), of 1 "0x102000" "[(0x103000, 1)]"] by (auto simp: P2B_def)
  ultimately show ?thesis using km_allocations_disjoint [OF sample_pool, of 2 1 "0x100000" s1] by auto
qed

text \<open>C11. \<^verbatim>\<open>km_init\<close> turns the BIOS memory map into the page pool: when the map fits below 1 MB,
  none of its regions wraps around and the usable parts do not overlap, initialization succeeds,
  the slice list is empty and the free bytes are exactly the whole pages of the usable regions
  between the two cutoffs.\<close>

theorem km_init_builds_pool:
  assumes n: "load32 (k_mem s) MMAP_ADDR = of_nat n" "0 < n" "24 * n \<le> 0xfd2fc"
    and map: "regions_ok (k_mem s) n (MMAP_ADDR + 4)" "disjoint_blocks (usable_blocks (k_mem s) n (MMAP_ADDR + 4))"
  shows "\<exists>s'. km_init s = Inr s' \<and> pool s' (\<Union>(b, k)\<in>set (usable_blocks (k_mem s) n (MMAP_ADDR + 4)). span b k) \<and>
           free_slices s' = 0 \<and> n_slices s' = 0"
proof -
  let ?ub = "usable_blocks (k_mem s) n (MMAP_ADDR + 4)"
  define s0 where "s0 = s\<lparr>free_slices := 0, free_pages := 0, n_pages := 0, n_slices := 0, km_initialized := False\<rparr>"
  have s0: "k_mem s0 = k_mem s" "frep s0 []" by (simp_all add: s0_def frep_def)
  have "sint (of_nat n :: u32) = int n" using n(3) by (simp add: signed_of_nat signed_take_bit_int_eq_self)
  then have si: "sint (load32 (k_mem s) MMAP_ADDR) = int n" by (simp add: n(1))
  from km_init_loop_frep [OF s0(2), of "MMAP_ADDR + 4" n] map n(3) obtain s1 where
    S: "km_init_loop n (MMAP_ADDR + 4) s0 = Inr s1" "frep s1 (fold insert_block ?ub [])"
      "free_slices s1 = 0" "n_slices s1 = 0" by (auto simp: s0(1)) (auto simp: s0_def)
  have "km_init s = Inr (s1\<lparr>km_initialized := True\<rparr>)"
    using S(1) si n(2) by (simp add: km_init_def Let_def flip: s0_def) (simp add: s0_def)
  moreover have "bytes (fold insert_block ?ub []) = (\<Union>(b, k)\<in>set ?ub. span b k)"
    unfolding bytes_fold_insert_block by (auto simp: bytes_def span_def block_end_def)
  ultimately show ?thesis using S(2-4) by (auto simp: pool_def frep_fields)
qed

theorem km_init_builds_pool_witness:
  "\<exists>s'. km_init (sample_kms\<lparr>k_mem := sample_map\<rparr>) = Inr s' \<and> pool s' (span 0x100000 4)"
proof -
  let ?s = "sample_kms\<lparr>k_mem := sample_map\<rparr>"
  have L: "load32 sample_map 0x2d00 = 1" "load32 sample_map 0x2d04 = 0x100000" "load32 sample_map 0x2d08 = 0"
    "load32 sample_map 0x2d0c = 0x4000" "load32 sample_map 0x2d10 = 0" "load32 sample_map 0x2d14 = 1"
    "load32 sample_map 0x2d18 = 1"
    by (simp_all add: sample_map_def load32_store32_apart apart_def) (simp_all add: load32_def)
  have r: "load_region (k_mem ?s) (MMAP_ADDR + 4) = \<lparr>r_base = 0x100000, r_length = 0x4000, r_type = 1, r_acpi = 1\<rparr>"
    by (simp add: load_region_def load64_def L)
  have u: "usable_blocks (k_mem ?s) 1 (MMAP_ADDR + 4) = [(0x100000, 4)]"
    using r by (simp add: usable_part_def B2P_def)
  show ?thesis using km_init_builds_pool [of ?s 1] r u L(1) by (auto simp: disjoint_blocks_def)
qed

text \<open>Slices are cut from a page on demand. On an empty slice list, \<^verbatim>\<open>km_slice_alloc\<close> takes the
  first free page, returns its last quarter, cleared, and leaves the other three quarters on the
  slice list; the page list is the one that allocating a page leaves. \<^verbatim>\<open>n_slices\<close> grows by 7 although
  only 3 slices are left, because \<^verbatim>\<open>carve_slices\<close> counts each slice a second time.\<close>

theorem km_slice_alloc_from_page:
  assumes "frep s xs" "km_initialized s" "free_slices s = 0" "first_fit 1 xs = Some (p, ys)"
  shows "\<exists>s'. km_slice_alloc s = Inr (p + 3072, s') \<and> frep s' ys \<and> srep s' [p + 2048, p + 1024, p] \<and>
           (\<forall>x. inr (p + 3072) SZ_SLICE x \<longrightarrow> k_mem s' x = 0) \<and> n_slices s' = n_slices s + 7"
  using km_slice_alloc_carves [OF assms] by metis

theorem km_slice_alloc_from_page_witness:
  "\<exists>s'. km_slice_alloc sample_kms = Inr (0x100c00, s') \<and> srep s' [0x100800, 0x100400, 0x100000] \<and> n_slices s' = 7"
proof -
  have "first_fit 1 [(0x100000, 4)] = Some (0x100000, [(0x101000, 3)])" by (simp add: P2B_def)
  moreover have "n_slices sample_kms = 0" by (simp add: sample_kms_def)
  ultimately show ?thesis using km_slice_alloc_from_page [OF sample_frep] by fastforce
qed

text \<open>A freed slice is the next one handed out, cleared, and the list behind it is unchanged.\<close>

theorem km_slice_free_then_alloc:
  assumes init: "km_initialized s" and a: "a \<noteq> 0" and far: "\<forall>b\<in>set ss. apart a SZ_SLICE b 8"
    and rep: "srep s ss"
  shows "\<exists>s1 s2. km_slice_free a s = Inr s1 \<and> srep s1 (a # ss) \<and> km_slice_alloc s1 = Inr (a, s2) \<and>
           srep s2 ss \<and> n_slices s2 = n_slices s \<and> (\<forall>x. k_mem s2 x = (if inr a SZ_SLICE x then 0 else k_mem s x))"
proof -
  define m1 where "m1 = store32 (store32 (k_mem s) a 1024) (a + 4) (free_slices s)"
  define s1 where "s1 = s\<lparr>k_mem := m1, free_slices := a, n_slices := n_slices s + 1\<rparr>"
  define s2 where "s2 = s1\<lparr>n_slices := n_slices s1 - 1, free_slices := unptr (hd_opt ss),
    k_mem := memclr (k_mem s1) a (of_nat SZ_SLICE)\<rparr>"
  have fr: "km_slice_free a s = Inr s1" using init by (simp add: km_slice_free_def s1_def m1_def)
  have far8: "far a b" if "b \<in> set ss" for b using far that by (auto simp: apart_def)
  have r1: "chain (bnext m1) (ptr (free_slices s)) ss"
    using rep far8 unfolding srep_def by (subst chain_cong [where h' = "bnext (k_mem s)"]) (auto simp: m1_def bnext_store)
  then have rep1: "srep s1 (a # ss)" using a by (simp add: srep_def s1_def m1_def bnext_store)
  from km_slice_alloc_pops [OF _ rep1] have al: "km_slice_alloc s1 = Inr (a, s2)"
    using init by (simp add: s2_def s1_def)
  have mem: "k_mem s2 x = (if inr a SZ_SLICE x then 0 else k_mem s x)" for x
  proof (cases "inr a SZ_SLICE x")
    case False
    then have "\<not> inr a 4 x" "\<not> inr (a + 4) 4 x" 
      using inr_mono [of a 4 x SZ_SLICE] inr_mono [OF inr_next_word [of a x], of SZ_SLICE] by auto
    with False show ?thesis by (simp add: s2_def s1_def m1_def memclr_eq store32_other)
  qed (simp add: s2_def memclr_eq)
  have hd: "ptr (unptr (hd_opt ss)) = ptr (free_slices s)"
    using chain_hd_opt [OF r1] by (metis unptr_ptr)
  have "bnext (k_mem s2) b = bnext (k_mem s) b" if "b \<in> set ss" for b
    unfolding bnext_def
    using far that apart_inr [of a SZ_SLICE b 8]
    by (intro arg_cong [where f = ptr] load32_cong) (auto simp: mem dest: inr_next_word)
  then have "srep s2 ss"
    using rep hd unfolding srep_def by (subst chain_cong [where h' = "bnext (k_mem s)"]) (auto simp: s2_def)
  then show ?thesis using fr rep1 al mem by (auto simp: s2_def s1_def)
qed

theorem km_slice_free_then_alloc_witness:
  "\<exists>s1 s2. km_slice_free 0x200000 sample_kms = Inr s1 \<and> km_slice_alloc s1 = Inr (0x200000, s2) \<and> srep s2 []"
  using km_slice_free_then_alloc [of sample_kms "0x200000" "[]"] sample_frep by (auto simp: srep_def)

end
