(* ===== verification/Procs.thy ===== *)
theory Procs
  imports Pcb_Queue Kmem
begin

text \<open>
  Process management: the rest of \<^verbatim>\<open>procs.c\<close> (creation and release of PCBs and stacks, turning a
  process into a zombie, the scheduler and the dispatcher) and \<^verbatim>\<open>user_cleanup\<close> of
  \<^verbatim>\<open>user.c\<close>. The state joins the process table and queues with the memory allocator, whose
  memory also holds the saved contexts: \<^verbatim>\<open>RET\<close> and \<^verbatim>\<open>ARG\<close> read and write it there.
\<close>

section \<open>State\<close>

record kstate =
  kp :: procs
  km :: kms

definition mem_upd :: "(mem \<Rightarrow> mem) \<Rightarrow> kstate \<Rightarrow> kstate" where
  "mem_upd f s = s\<lparr>km := (km s)\<lparr>k_mem := f (k_mem (km s))\<rparr>\<rparr>"

definition kp_upd :: "(procs \<Rightarrow> procs) \<Rightarrow> kstate \<Rightarrow> kstate" where
  "kp_upd f s = s\<lparr>kp := f (kp s)\<rparr>"

text \<open>A queue operation on the whole state, and one inside an assertion that it succeeds.\<close>

definition onP :: "(procs \<Rightarrow> (status \<times> procs) res) \<Rightarrow> kstate \<Rightarrow> (status \<times> kstate) res" where
  "onP f s = bindR (f (kp s)) (\<lambda>(st, p). Inr (st, s\<lparr>kp := p\<rparr>))"

definition assert_ok :: "failure \<Rightarrow> (procs \<Rightarrow> (status \<times> procs) res) \<Rightarrow> kstate \<Rightarrow> kstate res" where
  "assert_ok e f s = bindR (onP f s) (\<lambda>(st, s'). if st = SUCCESS then Inr s' else Inl e)"

text \<open>The context save area: eighteen words, the registers in the order \<^verbatim>\<open>context_s\<close> has them;
  the return address and the system call arguments follow.\<close>

abbreviation SZ_CONTEXT :: addr where "SZ_CONTEXT \<equiv> 72"

definition get_RET :: "kstate \<Rightarrow> nat \<Rightarrow> u32" where
  "get_RET s p = load32 (k_mem (km s)) (p_context (ptable (kp s) p) + 48)"

definition set_RET :: "nat \<Rightarrow> u32 \<Rightarrow> kstate \<Rightarrow> kstate" where
  "set_RET p v s = mem_upd (\<lambda>m. store32 m (p_context (ptable (kp s) p) + 48) v) s"

definition ARG :: "kstate \<Rightarrow> nat \<Rightarrow> u32 \<Rightarrow> u32" where
  "ARG s p n = load32 (k_mem (km s)) (p_context (ptable (kp s) p) + SZ_CONTEXT + 4 * n)"

text \<open>\<^verbatim>\<open>if( ptr != NULL ) *ptr = value;\<close>\<close>

definition store_opt :: "addr \<Rightarrow> u32 \<Rightarrow> kstate \<Rightarrow> kstate" where
  "store_opt a v s = (if a \<noteq> 0 then mem_upd (\<lambda>m. store32 m a v) s else s)"

section \<open>Creating and releasing PCBs and stacks\<close>

abbreviation PID_INIT :: u32 where "PID_INIT \<equiv> 1"
abbreviation FIRST_USER_PID :: u32 where "FIRST_USER_PID \<equiv> 2"
abbreviation QUANTUM_STANDARD :: u32 where "QUANTUM_STANDARD \<equiv> 3"

definition pcb_free :: "nat option \<Rightarrow> procs \<Rightarrow> procs res" where
  "pcb_free pcb s =
     (case pcb of
        None \<Rightarrow> Inr s
      | Some p \<Rightarrow>
          bindR (pcb_queue_insert Q_freelist (Some p)
                   (set_next p None (upd_pcb p (\<lambda>c. c\<lparr>p_state := STATE_UNUSED\<rparr>) s)))
            (\<lambda>(st, s'). if st \<noteq> SUCCESS then Inl (Kpanic ''pcb_free: queue insert'') else Inr s'))"

definition QINIT :: "qid \<Rightarrow> u32 \<Rightarrow> procs \<Rightarrow> procs res" where
  "QINIT q ord s =
     bindR (pcb_queue_reset q ord s)
       (\<lambda>(st, s'). if st \<noteq> SUCCESS then Inl (Assert ''pcb_init can't reset queue'') else Inr s')"

fun free_all :: "nat list \<Rightarrow> procs \<Rightarrow> procs res" where
  "free_all [] s = Inr s"
| "free_all (i # is) s = bindR (pcb_free (Some i) s) (free_all is)"

definition pcb_init :: "procs \<Rightarrow> procs res" where
  "pcb_init s =
     bindR (QINIT Q_freelist O_FIFO (s\<lparr>current := None, next_pid := FIRST_USER_PID\<rparr>)) (\<lambda>s.
     bindR (QINIT Q_ready O_PRIO s) (\<lambda>s.
     bindR (QINIT Q_waiting O_PID s) (\<lambda>s.
     bindR (QINIT Q_sleeping O_WAKEUP s) (\<lambda>s.
     bindR (QINIT Q_zombie O_PID s) (\<lambda>s.
     bindR (QINIT Q_sioread O_FIFO s)
       (free_all [0..<N_PROCS]))))))"

definition pcb_alloc :: "procs \<Rightarrow> (status \<times> nat option \<times> procs) res" where
  "pcb_alloc s =
     bindR (pcb_queue_remove Q_freelist s)
       (\<lambda>(st, tmp, s'). if st \<noteq> SUCCESS then Inr (E_NO_PCBS, None, s') else Inr (SUCCESS, tmp, s'))"

definition pcb_stack_alloc :: "u32 \<Rightarrow> kms \<Rightarrow> (addr \<times> kms) res" where
  "pcb_stack_alloc sz s =
     (let sz' = (if sz = 0 then N_USTKPAGES else sz)
      in bindR (km_page_alloc sz' s)
           (\<lambda>(p, s'). Inr (p, if p \<noteq> 0 then s'\<lparr>k_mem := memclr (k_mem s') p (sz' * of_nat SZ_PAGE)\<rparr>
                               else s')))"

definition pcb_stack_free :: "addr \<Rightarrow> u32 \<Rightarrow> kms \<Rightarrow> kms res" where
  "pcb_stack_free stk sz s =
     (if stk = 0 then Inl (Assert ''stk != NULL'')
      else km_page_free_multi stk (if sz = 0 then N_USTKPAGES else sz) s)"

definition user_cleanup :: "nat option \<Rightarrow> kstate \<Rightarrow> kstate res" where
  "user_cleanup pcb s =
     (case pcb of
        None \<Rightarrow> Inr s
      | Some p \<Rightarrow>
          bindR (pcb_stack_free (p_stack (ptable (kp s) p)) (p_stkpgs (ptable (kp s) p)) (km s))
            (\<lambda>k. Inr (s\<lparr>km := k\<rparr>)))"

definition pcb_cleanup :: "nat option \<Rightarrow> kstate \<Rightarrow> kstate res" where
  "pcb_cleanup pcb s =
     (if pcb = None then Inr s
      else bindR (user_cleanup pcb s)
        (\<lambda>s1. bindR (pcb_free pcb (kp s1)) (\<lambda>p. Inr (s1\<lparr>kp := p\<rparr>))))"

section \<open>Searching the table\<close>

definition pcb_find_pid :: "u32 \<Rightarrow> procs \<Rightarrow> nat option" where
  "pcb_find_pid pid s =
     (if pid < 1 then None
      else find (\<lambda>p. p_pid (ptable s p) = pid \<and> p_state (ptable s p) \<noteq> STATE_UNUSED) [0..<N_PROCS])"

fun find_ppid_loop :: "u32 \<Rightarrow> procs \<Rightarrow> nat list \<Rightarrow> nat option res" where
  "find_ppid_loop pid s [] = Inr None"
| "find_ppid_loop pid s (p # ps) =
     (case p_parent (ptable s p) of
        None \<Rightarrow> Inl (Assert ''p->parent != NULL'')
      | Some q \<Rightarrow>
          if p_pid (ptable s q) = pid \<and> p_state (ptable s q) \<noteq> STATE_UNUSED then Inr (Some p)
          else find_ppid_loop pid s ps)"

definition pcb_find_ppid :: "u32 \<Rightarrow> procs \<Rightarrow> nat option res" where
  "pcb_find_ppid pid s = (if pid < 1 then Inr None else find_ppid_loop pid s [0..<N_PROCS])"

definition ptable_counts :: "procs \<Rightarrow> state_e \<Rightarrow> u32" where
  "ptable_counts s = fold (\<lambda>p nums. nums(p_state (ptable s p) := nums (p_state (ptable s p)) + 1))
     [0..<N_PROCS] (\<lambda>_. 0)"

section \<open>Zombies and the scheduler\<close>

text \<open>One round of the reparenting loop, and the loop: the last zombie child found is remembered.\<close>

definition reparent_step :: "nat \<Rightarrow> nat \<Rightarrow> nat \<Rightarrow> nat option \<times> procs \<Rightarrow> nat option \<times> procs" where
  "reparent_step victim parent cur = (\<lambda>(zchild, s).
     if p_state (ptable s cur) = STATE_UNUSED then (zchild, s)
     else if cur = parent then (zchild, s)
     else if p_parent (ptable s cur) = Some victim then
       (if p_state (ptable s cur) = STATE_ZOMBIE then Some cur else zchild,
        upd_pcb cur (\<lambda>c. c\<lparr>p_parent := init_pcb s\<rparr>) s)
     else (zchild, s))"

definition reparent :: "nat \<Rightarrow> nat \<Rightarrow> procs \<Rightarrow> nat option \<times> procs" where
  "reparent victim parent s = fold (reparent_step victim parent) [0..<N_PROCS] (None, s)"

text \<open>The return value and, if asked for, the exit status of \<open>child\<close> for a waiting \<open>parent\<close>.\<close>

definition report_child :: "nat \<Rightarrow> nat \<Rightarrow> kstate \<Rightarrow> kstate" where
  "report_child parent child s =
     (let s1 = set_RET parent (p_pid (ptable (kp s) child)) s
      in store_opt (ARG s1 parent 2) (p_exit_status (ptable (kp s1) child)) s1)"

text \<open>The last part of \<^verbatim>\<open>pcb_zombify\<close>.\<close>

definition become_zombie :: "nat \<Rightarrow> kstate \<Rightarrow> kstate res" where
  "become_zombie victim s =
     assert_ok (Assert ''pcb_queue_insert(zombie,victim) == SUCCESS'')
       (pcb_queue_insert Q_zombie (Some victim))
       (kp_upd (\<lambda>p. set_next victim None (upd_pcb victim (\<lambda>c. c\<lparr>p_state := STATE_ZOMBIE\<rparr>) p)) s)"

text \<open>The first call of the assertions: both removals must succeed.\<close>

definition detach_for_init :: "nat \<Rightarrow> nat \<Rightarrow> kstate \<Rightarrow> kstate res" where
  "detach_for_init zchild ini s =
     bindR (assert_ok (Assert ''pcb_queue_remove_this(zombie,zchild) == SUCCESS'')
              (pcb_queue_remove_this Q_zombie (Some zchild)) s)
       (assert_ok (Assert ''pcb_queue_remove_this(waiting,init_pcb) == SUCCESS'')
          (pcb_queue_remove_this Q_waiting (Some ini)))"

lemma kp_mem_upd [simp]: "kp (mem_upd f s) = kp s" "kp (set_RET p v s) = kp s" "kp (store_opt a v s) = kp s"
  "kp (report_child p c s) = kp s"
  by (simp_all add: mem_upd_def set_RET_def store_opt_def report_child_def Let_def)

lemma assert_ok_Inr:
  "assert_ok e f s = Inr s' \<longleftrightarrow> (\<exists>p. f (kp s) = Inr (SUCCESS, p) \<and> s' = s\<lparr>kp := p\<rparr>)"
  by (auto simp: assert_ok_def onP_def bindR_eq_Inr)

lemma detach_for_init_state:
  assumes "detach_for_init z i s = Inr s'"
  shows "p_state (ptable (kp s') x) = p_state (ptable (kp s) x)"
proof -
  obtain p1 p2 where "pcb_queue_remove_this Q_zombie (Some z) (kp s) = Inr (SUCCESS, p1)"
    "pcb_queue_remove_this Q_waiting (Some i) p1 = Inr (SUCCESS, p2)" "kp s' = p2"
    using assms by (auto simp: detach_for_init_def bindR_eq_Inr assert_ok_Inr)
  then show ?thesis using frame_data(4) [OF frame_remove_this] by metis
qed

text \<open>\<^verbatim>\<open>schedule\<close> and \<^verbatim>\<open>pcb_zombify\<close> call each other. The recursion ends because \<^verbatim>\<open>pcb_zombify\<close>
  only schedules processes whose state is Waiting, and \<^verbatim>\<open>schedule\<close> only zombifies killed
  ones.\<close>

function schedule :: "nat option \<Rightarrow> kstate \<Rightarrow> kstate res"
  and pcb_zombify :: "nat option \<Rightarrow> kstate \<Rightarrow> kstate res" where
  "schedule pcb s =
     (case pcb of
        None \<Rightarrow> Inl (Assert ''pcb != NULL'')
      | Some p \<Rightarrow>
          if p_state (ptable (kp s) p) = STATE_KILLED then pcb_zombify (Some p) s
          else assert_ok (Kpanic ''schedule: queue insert'') (pcb_queue_insert Q_ready (Some p))
                 (kp_upd (\<lambda>ps. set_next p None (upd_pcb p (\<lambda>c. c\<lparr>p_state := STATE_READY\<rparr>) ps)) s))"
| "pcb_zombify pcb s =
     (case pcb of
        None \<Rightarrow> Inr s
      | Some victim \<Rightarrow>
          (case p_parent (ptable (kp s) victim) of
             None \<Rightarrow> Inl (Assert ''victim->parent != NULL'')
           | Some parent \<Rightarrow>
               let vicpid = p_pid (ptable (kp s) victim);
                   (zchild, ps) = reparent victim parent (kp s);
                   s1 = s\<lparr>kp := ps\<rparr>
               in bindR
                    (case zchild of
                       None \<Rightarrow> Inr s1
                     | Some z \<Rightarrow>
                         (case init_pcb ps of
                            None \<Rightarrow> Inl Wild
                          | Some ini \<Rightarrow>
                              if p_state (ptable ps ini) = STATE_WAITING then
                                bindR (detach_for_init z ini s1)
                                  (\<lambda>s2. bindR (schedule (Some ini) (report_child ini z s2))
                                    (pcb_cleanup (Some z)))
                              else Inr s1))
                    (\<lambda>s2.
                       let target = ARG s2 parent 1
                       in if p_state (ptable (kp s2) parent) = STATE_WAITING \<and>
                             (target = 0 \<or> target = vicpid)
                          then bindR (schedule (Some parent) (report_child parent victim s2))
                                 (pcb_cleanup (Some victim))
                          else become_zombie victim s2)))"
  by pat_completeness auto
termination
proof (relation "measure (\<lambda>x. case x of
    Inl (pcb, s) \<Rightarrow> (case pcb of None \<Rightarrow> 0 | Some p \<Rightarrow> if p_state (ptable (kp s) p) = STATE_KILLED then 2 else 0)
  | Inr _ \<Rightarrow> 1)", goal_cases)
qed (auto simp: detach_for_init_state)

declare schedule.simps [simp del] pcb_zombify.simps [simp del]

definition dispatch :: "procs \<Rightarrow> procs res" where
  "dispatch s =
     (if current s \<noteq> None then Inl (Assert ''current == NULL'')
      else bindR (pcb_queue_remove Q_ready s)
        (\<lambda>(st, tmp, s').
           case tmp of
             None \<Rightarrow> Inl (Kpanic ''dispatch: queue remove'')
           | Some p \<Rightarrow>
               if st \<noteq> SUCCESS then Inl (Kpanic ''dispatch: queue remove'')
               else Inr (upd_pcb p (\<lambda>c. c\<lparr>p_state := STATE_RUNNING, p_ticks := QUANTUM_STANDARD\<rparr>)
                           (s'\<lparr>current := Some p\<rparr>))))"

section \<open>Small facts\<close>

text \<open>The two assignments before a PCB is put on a queue: its state, and a NULL link.\<close>

definition retire :: "state_e \<Rightarrow> nat \<Rightarrow> procs \<Rightarrow> procs" where
  "retire st p s = set_next p None (upd_pcb p (\<lambda>c. c\<lparr>p_state := st\<rparr>) s)"

lemma links_upd_gen: "links (upd_pcb i f s) = (links s)(i := p_next (f (ptable s i)))"
  by (auto simp: links_def upd_pcb_def)

lemma qreps_cong: "queues s' = queues s \<Longrightarrow> links s' = links s \<Longrightarrow> qreps s' L = qreps s L"
  by (simp add: qreps_def qrep_def)

lemma qreps_upd_pcb:
  "qreps s L \<Longrightarrow> p_next (f (ptable s p)) = p_next (ptable s p) \<Longrightarrow> qreps (upd_pcb p f s) L"
  by (subst qreps_cong [of _ s]) (auto simp: links_upd_gen links_def)

lemma qreps_globals [simp]:
  "qreps (s\<lparr>current := c\<rparr>) L = qreps s L" "qreps (s\<lparr>next_pid := n\<rparr>) L = qreps s L"
  "qreps (s\<lparr>init_pcb := i\<rparr>) L = qreps s L"
  by (rule qreps_cong; simp add: links_def fun_eq_iff)+

lemma qreps_retire:
  assumes "qreps s L" "p < N_PROCS" "\<And>q. p \<notin> set (L q)"
  shows "qreps (retire st p s) L"
  using assms qrepsD(4) [OF assms] unfolding retire_def
  by (intro qreps_upd_pcb) (simp_all add: links_def)

lemma qins_retire [simp]: "qins (retire st p s) q x xs = qins s q x xs"
  by (auto simp: qins_def retire_def queue_key_def fun_upd_def cong: if_cong intro!: arg_cong [where f = "\<lambda>k. insert_after k x xs"])

text \<open>Two PCBs that differ in their links only.\<close>

definition same_pcb :: "pcb \<Rightarrow> pcb \<Rightarrow> bool" where
  "same_pcb a b \<longleftrightarrow> a\<lparr>p_next := None\<rparr> = b\<lparr>p_next := None\<rparr>"

lemma same_pcb_iff:
  "same_pcb a b \<longleftrightarrow> p_state a = p_state b \<and> p_pid a = p_pid b \<and> p_parent a = p_parent b \<and>
     p_context a = p_context b \<and> p_stack a = p_stack b \<and> p_stkpgs a = p_stkpgs b \<and>
     p_exit_status a = p_exit_status b \<and> p_priority a = p_priority b \<and> p_wakeup a = p_wakeup b \<and>
     p_ticks a = p_ticks b"
  unfolding same_pcb_def by (cases a; cases b) auto

lemma same_pcbD:
  assumes "same_pcb a b"
  shows "p_state a = p_state b" "p_pid a = p_pid b" "p_parent a = p_parent b" "p_context a = p_context b"
    "p_stack a = p_stack b" "p_stkpgs a = p_stkpgs b" "p_exit_status a = p_exit_status b"
    "p_priority a = p_priority b" "p_wakeup a = p_wakeup b" "p_ticks a = p_ticks b"
  using assms by (simp_all add: same_pcb_iff)

lemma same_pcb_trans: "same_pcb a b \<Longrightarrow> same_pcb b c \<Longrightarrow> same_pcb a c"
  by (simp add: same_pcb_def)

text \<open>Retiring a PCB and queueing it, which is what \<^verbatim>\<open>pcb_free\<close>, \<^verbatim>\<open>schedule\<close> and \<^verbatim>\<open>pcb_zombify\<close>
  end with.\<close>

lemma retire_insert:
  assumes "qreps s L" "p < N_PROCS" "\<And>q. p \<notin> set (L q)"
  obtains s' where "pcb_queue_insert q (Some p) (retire st p s) = Inr (SUCCESS, s')"
    "qreps s' (L(q := qins s q p (L q)))"
    "\<forall>x. same_pcb (ptable s' x) (if x = p then (ptable s x)\<lparr>p_state := st\<rparr> else ptable s x)"
    "current s' = current s" "next_pid s' = next_pid s" "init_pcb s' = init_pcb s"
proof -
  from qreps_insert [OF qreps_retire [OF assms] assms(2,3)] obtain s' where
    S: "pcb_queue_insert q (Some p) (retire st p s) = Inr (SUCCESS, s')"
      "qreps s' (L(q := qins s q p (L q)))" "frame q (insert p (set (L q))) (retire st p s) s'"
    unfolding qins_retire by metis
  have "(ptable s' x)\<lparr>p_next := None\<rparr> = (ptable (retire st p s) x)\<lparr>p_next := None\<rparr>" for x
    using S(3) by (simp add: frame_def)
  then have "same_pcb (ptable s' x) (if x = p then (ptable s x)\<lparr>p_state := st\<rparr> else ptable s x)" for x
    by (simp add: retire_def same_pcb_def)
  moreover have "current s' = current s" "next_pid s' = next_pid s" "init_pcb s' = init_pcb s"
    using S(3) by (simp_all add: frame_def retire_def)
  ultimately show ?thesis using S that by blast
qed

section \<open>PCBs and the free list\<close>

lemma pcb_free_qreps:
  assumes "qreps s L" "p < N_PROCS" "\<And>q. p \<notin> set (L q)"
  obtains s' where "pcb_free (Some p) s = Inr s'" "qreps s' (L(Q_freelist := L Q_freelist @ [p]))"
    "\<forall>x. same_pcb (ptable s' x) (if x = p then (ptable s x)\<lparr>p_state := STATE_UNUSED\<rparr> else ptable s x)"
    "current s' = current s" "next_pid s' = next_pid s" "init_pcb s' = init_pcb s"
proof -
  have "qins s Q_freelist p (L Q_freelist) = L Q_freelist @ [p]"
    using qrepsD(2) [OF assms(1), of Q_freelist] by (simp add: qins_def)
  with retire_insert [OF assms, of Q_freelist STATE_UNUSED] obtain s' where
    "pcb_queue_insert Q_freelist (Some p) (retire STATE_UNUSED p s) = Inr (SUCCESS, s')"
    "qreps s' (L(Q_freelist := L Q_freelist @ [p]))"
    "\<forall>x. same_pcb (ptable s' x) (if x = p then (ptable s x)\<lparr>p_state := STATE_UNUSED\<rparr> else ptable s x)"
    "current s' = current s" "next_pid s' = next_pid s" "init_pcb s' = init_pcb s" by metis
  with that show ?thesis by (simp add: pcb_free_def retire_def)
qed

text \<open>\<^verbatim>\<open>pcb_init\<close> may run on any table, so its queues are not well formed before: it resets the
  links one PCB at a time.\<close>

lemma pcb_free_fifo:
  assumes rep: "qrep s Q_freelist xs" and ord: "q_order (queues s Q_freelist) = O_FIFO"
    and p: "p < N_PROCS" "p \<notin> set xs"
  obtains s' where "pcb_free (Some p) s = Inr s'" "qrep s' Q_freelist (xs @ [p])"
    "\<forall>q. q \<noteq> Q_freelist \<longrightarrow> queues s' q = queues s q" "q_order (queues s' Q_freelist) = O_FIFO"
    "\<forall>x. same_pcb (ptable s' x) (if x = p then (ptable s x)\<lparr>p_state := STATE_UNUSED\<rparr> else ptable s x)"
    "current s' = current s" "next_pid s' = next_pid s" "init_pcb s' = init_pcb s"
    "\<forall>x. x \<notin> insert p (set xs) \<longrightarrow> ptable s' x = ptable s x"
proof -
  let ?r = "retire STATE_UNUSED p s"
  have "chain (links ?r) (q_head (queues s Q_freelist)) xs"
    using rep p(2) unfolding qrep_def by (subst chain_cong [where h' = "links s"]) (auto simp: retire_def links_upd_gen)
  then have "qrep ?r Q_freelist xs" using rep by (simp add: qrep_def retire_def)
  moreover have "q_order (queues ?r Q_freelist) = O_FIFO" "links ?r p = None" using ord by (simp_all add: retire_def)
  ultimately obtain s' where S: "pcb_queue_insert Q_freelist (Some p) ?r = Inr (SUCCESS, s')"
    "qrep s' Q_freelist (qins ?r Q_freelist p xs)" "frame Q_freelist (insert p (set xs)) ?r s'"
    using pcb_queue_insert_qrep [of ?r Q_freelist xs p] p by (metis order.refl word_zero_le)
  moreover have "qins ?r Q_freelist p xs = xs @ [p]" unfolding qins_retire using ord by (simp add: qins_def)
  moreover have "same_pcb (ptable s' x) (if x = p then (ptable s x)\<lparr>p_state := STATE_UNUSED\<rparr> else ptable s x)" for x
    using S(3) by (simp add: frame_def same_pcb_def retire_def)
  moreover have "pcb_free (Some p) s = Inr s'" using S(1) by (simp add: pcb_free_def retire_def)
  ultimately show ?thesis using that ord by (simp add: frame_def retire_def)
qed

lemma free_all_fifo:
  assumes "qrep s Q_freelist xs" "q_order (queues s Q_freelist) = O_FIFO" "distinct (xs @ ps)"
    "set ps \<subseteq> {..<N_PROCS}"
  shows "\<exists>s'. free_all ps s = Inr s' \<and> qrep s' Q_freelist (xs @ ps) \<and>
    (\<forall>q. q \<noteq> Q_freelist \<longrightarrow> queues s' q = queues s q) \<and> q_order (queues s' Q_freelist) = O_FIFO \<and>
    (\<forall>x\<in>set ps. p_state (ptable s' x) = STATE_UNUSED) \<and> current s' = current s \<and> next_pid s' = next_pid s \<and>
    (\<forall>x. x \<notin> set ps \<longrightarrow> p_state (ptable s' x) = p_state (ptable s x))"
  using assms
proof (induction ps arbitrary: s xs)
  case (Cons p ps)
  from Cons.prems obtain s1 where S: "pcb_free (Some p) s = Inr s1" "qrep s1 Q_freelist (xs @ [p])"
    "\<forall>q. q \<noteq> Q_freelist \<longrightarrow> queues s1 q = queues s q" "q_order (queues s1 Q_freelist) = O_FIFO"
    "\<forall>x. same_pcb (ptable s1 x) (if x = p then (ptable s x)\<lparr>p_state := STATE_UNUSED\<rparr> else ptable s x)"
    "current s1 = current s" "next_pid s1 = next_pid s"
    by (metis pcb_free_fifo distinct_append insert_subset lessThan_iff list.set(2) disjoint_insert(1))
  have st: "p_state (ptable s1 x) = (if x = p then STATE_UNUSED else p_state (ptable s x))" for x
    using same_pcbD(1) [OF S(5) [rule_format, of x]] by simp
  from Cons.IH [OF S(2,4)] Cons.prems obtain s2 where "free_all ps s1 = Inr s2" "qrep s2 Q_freelist (xs @ p # ps)"
    "\<forall>q. q \<noteq> Q_freelist \<longrightarrow> queues s2 q = queues s1 q" "q_order (queues s2 Q_freelist) = O_FIFO"
    "\<forall>x\<in>set ps. p_state (ptable s2 x) = STATE_UNUSED" "current s2 = current s1" "next_pid s2 = next_pid s1"
    "\<forall>x. x \<notin> set ps \<longrightarrow> p_state (ptable s2 x) = p_state (ptable s1 x)" by auto
  with S st Cons.prems show ?case by auto
qed simp

definition boot_lists :: "qid \<Rightarrow> nat list" where
  "boot_lists = (\<lambda>_. [])(Q_freelist := [0..<N_PROCS])"

lemma QINIT_ok: "ord \<le> O_WAKEUP \<Longrightarrow>
  QINIT q ord s = Inr (upd_queue q (\<lambda>qu. qu\<lparr>q_head := None, q_tail := None, q_order := ord, q_length := 0\<rparr>) s)"
  by (auto simp: QINIT_def pcb_queue_reset_def not_le)

lemma pcb_init_ok:
  obtains s' where "pcb_init s = Inr s'" "qreps s' boot_lists" "current s' = None" "next_pid s' = FIRST_USER_PID"
    "\<forall>p<N_PROCS. p_state (ptable s' p) = STATE_UNUSED"
proof -
  let ?r = "\<lambda>ord qu. qu\<lparr>q_head := None, q_tail := None, q_order := ord, q_length := (0 :: u32)\<rparr>"
  define s0 where "s0 = upd_queue Q_sioread (?r O_FIFO) (upd_queue Q_zombie (?r O_PID)
    (upd_queue Q_sleeping (?r O_WAKEUP) (upd_queue Q_waiting (?r O_PID) (upd_queue Q_ready (?r O_PRIO)
    (upd_queue Q_freelist (?r O_FIFO) (s\<lparr>current := None, next_pid := FIRST_USER_PID\<rparr>))))))"
  have init: "pcb_init s = free_all [0..<N_PROCS] s0" by (simp add: pcb_init_def QINIT_ok s0_def)
  have q0: "queues s0 q = ?r (init_order q) (queues s q)" for q by (cases q) (simp_all add: s0_def)
  have "qrep s0 Q_freelist []" "q_order (queues s0 Q_freelist) = O_FIFO" by (simp_all add: qrep_def q0)
  moreover have "set [0..<N_PROCS] \<subseteq> {..<N_PROCS}" by auto
  ultimately obtain s' where
    S: "free_all [0..<N_PROCS] s0 = Inr s'" "qrep s' Q_freelist [0..<N_PROCS]"
    "\<forall>q. q \<noteq> Q_freelist \<longrightarrow> queues s' q = queues s0 q" "q_order (queues s' Q_freelist) = O_FIFO"
    "\<forall>x\<in>set [0..<N_PROCS]. p_state (ptable s' x) = STATE_UNUSED" "current s' = current s0" "next_pid s' = next_pid s0"
    using free_all_fifo [of s0 "[]" "[0..<N_PROCS]"] unfolding append_Nil by (metis distinct_upt)
  have "qrep s' q (boot_lists q) \<and> q_order (queues s' q) = init_order q" for q
  proof (cases "q = Q_freelist")
    case True
    then show ?thesis using S(2,4) by (simp add: boot_lists_def del: upt_rec_numeral)
  next
    case False
    then have "boot_lists q = []" "queues s' q = ?r (init_order q) (queues s q)"
      using S(3) q0 by (simp_all add: boot_lists_def)
    then show ?thesis by (simp add: qrep_def)
  qed
  moreover have "p \<in> set (boot_lists Q_freelist)" if "p < N_PROCS" for p
    using that by (simp add: boot_lists_def del: upt_rec_numeral)
  moreover have "set (boot_lists q) \<inter> set (boot_lists q') = {}" if "q \<noteq> q'" for q q'
    using that by (cases "q = Q_freelist") (simp_all add: boot_lists_def del: upt_rec_numeral)
  ultimately have "qreps s' boot_lists" unfolding qreps_def by blast
  with S init that show ?thesis by (simp add: s0_def)
qed


lemma pcb_alloc_qreps:
  assumes "qreps s L" "L Q_freelist = p # ps"
  obtains s' where "pcb_alloc s = Inr (SUCCESS, Some p, s')" "qreps s' (L(Q_freelist := ps))"
    "frame Q_freelist (set (L Q_freelist)) s s'"
proof -
  from qreps_remove [of s L Q_freelist p ps, OF assms] obtain s' where
    "pcb_queue_remove Q_freelist s = Inr (SUCCESS, Some p, s')" "qreps s' (L(Q_freelist := ps))"
    "frame Q_freelist (set (L Q_freelist)) s s'" .
  with that show ?thesis by (simp add: pcb_alloc_def)
qed

lemma pcb_alloc_none: "qreps s L \<Longrightarrow> L Q_freelist = [] \<Longrightarrow> pcb_alloc s = Inr (E_NO_PCBS, None, s)"
  by (simp add: pcb_alloc_def pq.rem_empty_law)

section \<open>Stacks\<close>

text \<open>The four bytes at \<open>a\<close> are not free memory.\<close>

definition word_outside :: "nat set \<Rightarrow> addr \<Rightarrow> bool" where
  "word_outside B a \<longleftrightarrow> unat a + 4 \<le> 2 ^ 32 \<and> {unat a ..< unat a + 4} \<inter> B = {}"

lemma pool_write:
  assumes "pool k B" "\<And>x. unat x \<in> B \<Longrightarrow> m x = k_mem k x"
  shows "pool (k\<lparr>k_mem := m\<rparr>) B"
proof -
  from assms(1) obtain xs where "frep k xs" "bytes xs = B" "km_initialized k" by (auto simp: pool_def)
  with frep_outside [of k xs m] assms(2) show ?thesis by (auto simp: pool_def)
qed

lemma pool_store32:
  assumes "pool k B" "word_outside B a"
  shows "pool (k\<lparr>k_mem := store32 (k_mem k) a v\<rparr>) B"
proof (rule pool_write [OF assms(1)])
  fix x :: addr assume "unat x \<in> B"
  then have "\<not> inr a 4 x" using assms(2) by (auto simp: word_outside_def inr_nowrap)
  then show "store32 (k_mem k) a v x = k_mem k x" by (rule store32_other)
qed

text \<open>How many pages a stack has, with 0 for the default.\<close>

definition stk_pages :: "u32 \<Rightarrow> u32" where
  "stk_pages n = (if n = 0 then N_USTKPAGES else n)"

lemma stk_pages_ge_1: "1 \<le> stk_pages n"
  by (auto simp: stk_pages_def one_le_u32 unat_gt_0)

text \<open>A stack that may be given back: it lies outside the free memory.\<close>

definition stack_ok :: "nat set \<Rightarrow> addr \<Rightarrow> u32 \<Rightarrow> bool" where
  "stack_ok B stk n \<longleftrightarrow> stk \<noteq> 0 \<and> unat stk + SZ_PAGE * unat (stk_pages n) \<le> 2 ^ 32 \<and>
     span stk (stk_pages n) \<inter> B = {}"

lemma pcb_stack_free_pool:
  assumes "pool k B" "stack_ok B stk n"
  shows "\<exists>k'. pcb_stack_free stk n k = Inr k' \<and> pool k' (B \<union> span stk (stk_pages n)) \<and>
    (\<forall>x. unat x \<notin> B \<union> span stk (stk_pages n) \<longrightarrow> k_mem k' x = k_mem k x)"
  using assms pool_release [OF assms(1), of stk "stk_pages n"] stk_pages_ge_1
  by (simp add: stack_ok_def pcb_stack_free_def stk_pages_def)

lemma unat_stack_bytes:
  assumes "unat (p :: addr) + SZ_PAGE * unat n \<le> 2 ^ 32" "p \<noteq> 0"
  shows "unat (n * of_nat SZ_PAGE :: u32) = SZ_PAGE * unat n"
proof -
  have "0 < unat p" using assms(2) by (simp add: unat_gt_0)
  then have "SZ_PAGE * unat n < 2 ^ 32" using assms(1) by simp
  then show ?thesis by (simp add: unat_word_ariths mult.commute)
qed

lemma pcb_stack_alloc_pool:
  assumes "pool k B" "pcb_stack_alloc n k = Inr (p, k')" "p \<noteq> 0"
  shows "span p (stk_pages n) \<subseteq> B" "pool k' (B - span p (stk_pages n))" "stack_ok (B - span p (stk_pages n)) p n"
    "\<And>x. unat x \<in> span p (stk_pages n) \<Longrightarrow> k_mem k' x = 0"
    "\<And>x. unat x \<notin> B \<Longrightarrow> k_mem k' x = k_mem k x"
proof -
  let ?n = "stk_pages n"
  obtain k1 where k1: "km_page_alloc ?n k = Inr (p, k1)"
    "k' = k1\<lparr>k_mem := memclr (k_mem k1) p (?n * of_nat SZ_PAGE)\<rparr>"
    using assms(2,3) by (auto simp: pcb_stack_alloc_def stk_pages_def Let_def bindR_eq_Inr)
  from pool_alloc [OF assms(1) stk_pages_ge_1, of n] k1(1) assms(3)
  have A: "span p ?n \<subseteq> B" "unat p + SZ_PAGE * unat ?n \<le> 2 ^ 32" "pool k1 (B - span p ?n)"
    "\<forall>x. unat x \<notin> B \<longrightarrow> k_mem k1 x = k_mem k x" by auto
  have mem: "k_mem k' x = (if unat x \<in> span p ?n then 0 else k_mem k1 x)" for x
    using unat_stack_bytes [OF A(2) assms(3)] A(2) by (simp add: k1(2) memclr_eq inr_nowrap span_def)
  show "span p ?n \<subseteq> B" by (fact A(1))
  show "pool k' (B - span p ?n)" using pool_write [OF A(3), of "k_mem k'"] mem k1(2) by simp
  show "stack_ok (B - span p ?n) p n" using A(2) assms(3) by (auto simp: stack_ok_def)
  show "k_mem k' x = 0" if "unat x \<in> span p ?n" for x using mem that by simp
  show "k_mem k' x = k_mem k x" if "unat x \<notin> B" for x using mem A(1,4) that by auto
qed

lemma pcb_cleanup_ok:
  assumes "qreps (kp s) L" "p < N_PROCS" "\<And>q. p \<notin> set (L q)" "pool (km s) B"
    "stack_ok B (p_stack (ptable (kp s) p)) (p_stkpgs (ptable (kp s) p))"
  obtains s' where "pcb_cleanup (Some p) s = Inr s'" "qreps (kp s') (L(Q_freelist := L Q_freelist @ [p]))"
    "\<forall>x. same_pcb (ptable (kp s') x) (if x = p then (ptable (kp s) x)\<lparr>p_state := STATE_UNUSED\<rparr> else ptable (kp s) x)"
    "pool (km s') (B \<union> span (p_stack (ptable (kp s) p)) (stk_pages (p_stkpgs (ptable (kp s) p))))"
    "\<forall>x. unat x \<notin> B \<union> span (p_stack (ptable (kp s) p)) (stk_pages (p_stkpgs (ptable (kp s) p))) \<longrightarrow>
      k_mem (km s') x = k_mem (km s) x"
    "current (kp s') = current (kp s)" "init_pcb (kp s') = init_pcb (kp s)"
proof -
  from pcb_stack_free_pool [OF assms(4,5)] obtain k' where
    K: "pcb_stack_free (p_stack (ptable (kp s) p)) (p_stkpgs (ptable (kp s) p)) (km s) = Inr k'"
      "pool k' (B \<union> span (p_stack (ptable (kp s) p)) (stk_pages (p_stkpgs (ptable (kp s) p))))"
      "\<forall>x. unat x \<notin> B \<union> span (p_stack (ptable (kp s) p)) (stk_pages (p_stkpgs (ptable (kp s) p))) \<longrightarrow>
        k_mem k' x = k_mem (km s) x" by blast
  from pcb_free_qreps [OF assms(1-3)] obtain p' where
    P: "pcb_free (Some p) (kp s) = Inr p'" "qreps p' (L(Q_freelist := L Q_freelist @ [p]))"
    "\<forall>x. same_pcb (ptable p' x) (if x = p then (ptable (kp s) x)\<lparr>p_state := STATE_UNUSED\<rparr> else ptable (kp s) x)"
    "current p' = current (kp s)" "init_pcb p' = init_pcb (kp s)" by metis
  have "pcb_cleanup (Some p) s = Inr (s\<lparr>km := k', kp := p'\<rparr>)"
    using K P by (simp add: pcb_cleanup_def user_cleanup_def)
  with that [of "s\<lparr>km := k', kp := p'\<rparr>"] K P show ?thesis by simp
qed

section \<open>The scheduler\<close>

lemma schedule_not_killed:
  assumes "qreps (kp s) L" "p < N_PROCS" "\<And>q. p \<notin> set (L q)" "p_state (ptable (kp s) p) \<noteq> STATE_KILLED"
  obtains s' where "schedule (Some p) s = Inr s'" "km s' = km s"
    "qreps (kp s') (L(Q_ready := qins (kp s) Q_ready p (L Q_ready)))"
    "\<forall>x. same_pcb (ptable (kp s') x) (if x = p then (ptable (kp s) x)\<lparr>p_state := STATE_READY\<rparr> else ptable (kp s) x)"
    "current (kp s') = current (kp s)" "next_pid (kp s') = next_pid (kp s)" "init_pcb (kp s') = init_pcb (kp s)"
proof -
  from retire_insert [OF assms(1-3), of Q_ready STATE_READY] obtain p' where
    P: "pcb_queue_insert Q_ready (Some p) (retire STATE_READY p (kp s)) = Inr (SUCCESS, p')"
    "qreps p' (L(Q_ready := qins (kp s) Q_ready p (L Q_ready)))"
    "\<forall>x. same_pcb (ptable p' x) (if x = p then (ptable (kp s) x)\<lparr>p_state := STATE_READY\<rparr> else ptable (kp s) x)"
    "current p' = current (kp s)" "next_pid p' = next_pid (kp s)" "init_pcb p' = init_pcb (kp s)" by metis
  have "schedule (Some p) s = Inr (s\<lparr>kp := p'\<rparr>)"
    using assms(4) P(1) unfolding retire_def by (simp add: schedule.simps assert_ok_def onP_def kp_upd_def)
  with that [of "s\<lparr>kp := p'\<rparr>"] P show ?thesis by simp
qed

lemma dispatch_qreps:
  assumes "qreps s L" "L Q_ready = p # ps" "current s = None"
  obtains s' where "dispatch s = Inr s'" "qreps s' (L(Q_ready := ps))" "current s' = Some p"
    "\<forall>x. same_pcb (ptable s' x) (if x = p then (ptable s x)\<lparr>p_state := STATE_RUNNING, p_ticks := QUANTUM_STANDARD\<rparr> else ptable s x)"
    "next_pid s' = next_pid s" "init_pcb s' = init_pcb s"
proof -
  from qreps_remove [of s L Q_ready p ps, OF assms(1,2)] obtain s1 where
    S: "pcb_queue_remove Q_ready s = Inr (SUCCESS, Some p, s1)" "qreps s1 (L(Q_ready := ps))"
    "frame Q_ready (set (L Q_ready)) s s1" .
  let ?s' = "upd_pcb p (\<lambda>c. c\<lparr>p_state := STATE_RUNNING, p_ticks := QUANTUM_STANDARD\<rparr>) (s1\<lparr>current := Some p\<rparr>)"
  have "same_pcb (ptable s1 x) (ptable s x)" for x using S(3) by (simp add: frame_def same_pcb_def)
  then have "same_pcb (ptable ?s' x) (if x = p then (ptable s x)\<lparr>p_state := STATE_RUNNING, p_ticks := QUANTUM_STANDARD\<rparr> else ptable s x)" for x
    by (simp add: same_pcb_iff)
  moreover have "dispatch s = Inr ?s'" using assms(3) S(1) by (simp add: dispatch_def)
  moreover have "qreps ?s' (L(Q_ready := ps))" using S(2) by (intro qreps_upd_pcb) simp_all
  ultimately show ?thesis using that S(3) by (simp add: frame_def)
qed


section \<open>Orphans\<close>

text \<open>The children that the loop hands over to \<^verbatim>\<open>init\<close>.\<close>

definition orphan :: "nat \<Rightarrow> nat \<Rightarrow> procs \<Rightarrow> nat \<Rightarrow> bool" where
  "orphan victim parent s c \<longleftrightarrow>
     p_state (ptable s c) \<noteq> STATE_UNUSED \<and> c \<noteq> parent \<and> p_parent (ptable s c) = Some victim"

lemma reparent_fold:
  "distinct xs \<Longrightarrow> fold (reparent_step v pa) xs (z, s) =
     (last_opt z (filter (\<lambda>c. orphan v pa s c \<and> p_state (ptable s c) = STATE_ZOMBIE) xs),
      s\<lparr>ptable := \<lambda>c. if c \<in> set xs \<and> orphan v pa s c then (ptable s c)\<lparr>p_parent := init_pcb s\<rparr> else ptable s c\<rparr>)"
proof (induction xs arbitrary: z s)
  case (Cons x xs)
  show ?case
  proof (cases "orphan v pa s x")
    case False
    then have "reparent_step v pa x (z, s) = (z, s)" by (auto simp: reparent_step_def orphan_def)
    then show ?thesis using Cons False by (auto intro!: arg_cong [where f = "\<lambda>t. s\<lparr>ptable := t\<rparr>"])
  next
    case True
    let ?z = "if p_state (ptable s x) = STATE_ZOMBIE then Some x else z"
    let ?s = "upd_pcb x (\<lambda>c. c\<lparr>p_parent := init_pcb s\<rparr>) s"
    have step: "reparent_step v pa x (z, s) = (?z, ?s)"
      using True by (auto simp: reparent_step_def orphan_def)
    have same: "orphan v pa ?s c = orphan v pa s c" "p_state (ptable ?s c) = p_state (ptable s c)"
      "c \<in> set xs \<Longrightarrow> ptable ?s c = ptable s c" if "c \<noteq> x" for c
      using that by (auto simp: orphan_def)
    have x: "x \<notin> set xs" using Cons.prems by simp
    have f: "filter (\<lambda>c. orphan v pa ?s c \<and> p_state (ptable ?s c) = STATE_ZOMBIE) xs =
        filter (\<lambda>c. orphan v pa s c \<and> p_state (ptable s c) = STATE_ZOMBIE) xs"
      using x same by (intro filter_cong refl) metis
    have "?s\<lparr>ptable := \<lambda>c. if c \<in> set xs \<and> orphan v pa ?s c then (ptable ?s c)\<lparr>p_parent := init_pcb ?s\<rparr> else ptable ?s c\<rparr> =
      s\<lparr>ptable := \<lambda>c. if c \<in> set (x # xs) \<and> orphan v pa s c then (ptable s c)\<lparr>p_parent := init_pcb s\<rparr> else ptable s c\<rparr>"
      using x True by (auto simp: upd_pcb_def orphan_def intro!: arg_cong [where f = "\<lambda>t. s\<lparr>ptable := t\<rparr>"])
    with Cons step f True show ?thesis by auto
  qed
qed (simp add: last_opt_def)

definition adopted :: "nat \<Rightarrow> nat \<Rightarrow> procs \<Rightarrow> procs" where
  "adopted v pa s = s\<lparr>ptable := \<lambda>c. if c < N_PROCS \<and> orphan v pa s c
     then (ptable s c)\<lparr>p_parent := init_pcb s\<rparr> else ptable s c\<rparr>"

definition zombie_orphans :: "nat \<Rightarrow> nat \<Rightarrow> procs \<Rightarrow> nat list" where
  "zombie_orphans v pa s =
     filter (\<lambda>c. orphan v pa s c \<and> p_state (ptable s c) = STATE_ZOMBIE) [0..<N_PROCS]"

lemma reparent_eq: "reparent v pa s = (last_opt None (zombie_orphans v pa s), adopted v pa s)"
  unfolding reparent_def zombie_orphans_def adopted_def by (subst reparent_fold) (simp_all del: upt_rec_numeral)

lemma adopted_simps [simp]:
  "queues (adopted v pa s) = queues s" "links (adopted v pa s) = links s" "current (adopted v pa s) = current s"
  "init_pcb (adopted v pa s) = init_pcb s" "next_pid (adopted v pa s) = next_pid s"
  "p_state (ptable (adopted v pa s) c) = p_state (ptable s c)" "p_pid (ptable (adopted v pa s) c) = p_pid (ptable s c)"
  "p_context (ptable (adopted v pa s) c) = p_context (ptable s c)" "p_stack (ptable (adopted v pa s) c) = p_stack (ptable s c)"
  "p_stkpgs (ptable (adopted v pa s) c) = p_stkpgs (ptable s c)" "p_next (ptable (adopted v pa s) c) = p_next (ptable s c)"
  "p_exit_status (ptable (adopted v pa s) c) = p_exit_status (ptable s c)"
  "p_priority (ptable (adopted v pa s) c) = p_priority (ptable s c)"
  "p_wakeup (ptable (adopted v pa s) c) = p_wakeup (ptable s c)"
  by (auto simp: adopted_def links_def)

lemma qreps_adopted [simp]: "qreps (adopted v pa s) L = qreps s L"
  by (rule qreps_cong) simp_all

lemma qins_adopted [simp]: "qins (adopted v pa s) q x xs = qins s q x xs"
  unfolding qins_def queue_key_def adopted_simps ..

lemma zombie_orphansD:
  assumes "z \<in> set (zombie_orphans v pa s)"
  shows "z < N_PROCS" "p_state (ptable s z) = STATE_ZOMBIE" "p_parent (ptable s z) = Some v" "z \<noteq> pa"
  using assms by (auto simp: zombie_orphans_def orphan_def simp del: upt_rec_numeral)

text \<open>What \<^verbatim>\<open>pcb_zombify\<close> does for the parent, once the orphans are taken care of.\<close>

definition wakes_parent :: "nat \<Rightarrow> u32 \<Rightarrow> kstate \<Rightarrow> bool" where
  "wakes_parent parent vicpid s \<longleftrightarrow> p_state (ptable (kp s) parent) = STATE_WAITING \<and>
     (ARG s parent 1 = 0 \<or> ARG s parent 1 = vicpid)"

lemma pcb_zombify_unfold:
  assumes "p_parent (ptable (kp s) v) = Some pa"
  shows "pcb_zombify (Some v) s =
    bindR (case last_opt None (zombie_orphans v pa (kp s)) of
             None \<Rightarrow> Inr (s\<lparr>kp := adopted v pa (kp s)\<rparr>)
           | Some z \<Rightarrow>
               (case init_pcb (kp s) of
                  None \<Rightarrow> Inl Wild
                | Some ini \<Rightarrow>
                    if p_state (ptable (kp s) ini) = STATE_WAITING then
                      bindR (detach_for_init z ini (s\<lparr>kp := adopted v pa (kp s)\<rparr>))
                        (\<lambda>s2. bindR (schedule (Some ini) (report_child ini z s2)) (pcb_cleanup (Some z)))
                    else Inr (s\<lparr>kp := adopted v pa (kp s)\<rparr>)))
      (\<lambda>s2. if wakes_parent pa (p_pid (ptable (kp s) v)) s2
            then bindR (schedule (Some pa) (report_child pa v s2)) (pcb_cleanup (Some v))
            else become_zombie v s2)"
  by (subst pcb_zombify.simps)
    (simp only: assms reparent_eq wakes_parent_def Let_def option.case prod.case adopted_simps)

lemma become_zombie_ok:
  assumes "qreps (kp s) L" "v < N_PROCS" "\<And>q. v \<notin> set (L q)"
  obtains s' where "become_zombie v s = Inr s'" "km s' = km s"
    "qreps (kp s') (L(Q_zombie := qins (kp s) Q_zombie v (L Q_zombie)))"
    "\<forall>x. same_pcb (ptable (kp s') x) (if x = v then (ptable (kp s) x)\<lparr>p_state := STATE_ZOMBIE\<rparr> else ptable (kp s) x)"
    "current (kp s') = current (kp s)" "init_pcb (kp s') = init_pcb (kp s)"
proof -
  from retire_insert [OF assms, of Q_zombie STATE_ZOMBIE] obtain p' where
    P: "pcb_queue_insert Q_zombie (Some v) (retire STATE_ZOMBIE v (kp s)) = Inr (SUCCESS, p')"
    "qreps p' (L(Q_zombie := qins (kp s) Q_zombie v (L Q_zombie)))"
    "\<forall>x. same_pcb (ptable p' x) (if x = v then (ptable (kp s) x)\<lparr>p_state := STATE_ZOMBIE\<rparr> else ptable (kp s) x)"
    "current p' = current (kp s)" "init_pcb p' = init_pcb (kp s)" by metis
  have "become_zombie v s = Inr (s\<lparr>kp := p'\<rparr>)"
    using P(1) unfolding retire_def by (simp add: become_zombie_def assert_ok_def onP_def kp_upd_def)
  with that [of "s\<lparr>kp := p'\<rparr>"] P show ?thesis by simp
qed


lemma ARG_kp: "p_context (ptable q p) = p_context (ptable (kp s) p) \<Longrightarrow> ARG (s\<lparr>kp := q\<rparr>) p n = ARG s p n"
  by (simp add: ARG_def)

lemma wakes_parent_adopted [simp]: "wakes_parent pa n (s\<lparr>kp := adopted v pb (kp s)\<rparr>) = wakes_parent pa n s"
  by (simp add: wakes_parent_def ARG_kp)

text \<open>The stores for a waiting parent keep the pool when they hit memory that is in use.\<close>

lemma report_child_pool:
  assumes "pool (km s) B" "word_outside B (p_context (ptable (kp s) pa) + 48)"
    "ARG s pa 2 = 0 \<or> word_outside B (ARG s pa 2)"
  shows "pool (km (report_child pa c s)) B"
proof -
  let ?s1 = "set_RET pa (p_pid (ptable (kp s) c)) s"
  have "apart (p_context (ptable (kp s) pa) + 48) 4 (p_context (ptable (kp s) pa) + SZ_CONTEXT + 4 * 2) 4"
    by (simp add: apart_def)
  then have "ARG ?s1 pa 2 = ARG s pa 2"
    by (simp add: ARG_def set_RET_def mem_upd_def load32_store32_apart)
  moreover have "pool (km ?s1) B"
    using pool_store32 [OF assms(1,2)] by (simp add: set_RET_def mem_upd_def)
  ultimately show ?thesis
    using assms(3) pool_store32 [of "km ?s1" B "ARG s pa 2"]
    by (auto simp: report_child_def Let_def store_opt_def mem_upd_def)
qed

text \<open>The table after \<open>v\<close> has become a zombie.\<close>

definition zombified :: "nat \<Rightarrow> nat \<Rightarrow> procs \<Rightarrow> nat \<Rightarrow> pcb" where
  "zombified v pa s x =
     (let c = ptable (adopted v pa s) x in if x = v then c\<lparr>p_state := STATE_ZOMBIE\<rparr> else c)"

lemma pcb_zombify_unwatched:
  assumes reps: "qreps (kp s) L" "v < N_PROCS" "\<And>q. v \<notin> set (L q)" and pa: "p_parent (ptable (kp s) v) = Some pa"
    and busy: "\<not> wakes_parent pa (p_pid (ptable (kp s) v)) s"
    and ini: "zombie_orphans v pa (kp s) = [] \<or>
      (\<exists>i. init_pcb (kp s) = Some i \<and> p_state (ptable (kp s) i) \<noteq> STATE_WAITING)"
  obtains s' where "pcb_zombify (Some v) s = Inr s'" "km s' = km s"
    "qreps (kp s') (L(Q_zombie := qins (kp s) Q_zombie v (L Q_zombie)))"
    "\<forall>x. same_pcb (ptable (kp s') x) (zombified v pa (kp s) x)"
    "current (kp s') = current (kp s)" "init_pcb (kp s') = init_pcb (kp s)"
proof -
  let ?s1 = "s\<lparr>kp := adopted v pa (kp s)\<rparr>"
  have first: "(case last_opt None (zombie_orphans v pa (kp s)) of None \<Rightarrow> Inr ?s1
     | Some z \<Rightarrow> (case init_pcb (kp s) of None \<Rightarrow> Inl Wild
        | Some i \<Rightarrow> if p_state (ptable (kp s) i) = STATE_WAITING then
            bindR (detach_for_init z i ?s1)
              (\<lambda>s2. bindR (schedule (Some i) (report_child i z s2)) (pcb_cleanup (Some z)))
          else Inr ?s1)) = Inr ?s1"
    using ini by (auto split: option.split)
  have "pcb_zombify (Some v) s = become_zombie v ?s1"
    unfolding pcb_zombify_unfold [OF pa] first using busy by simp
  moreover have reps1: "qreps (kp ?s1) L" using reps(1) by simp
  from become_zombie_ok [OF reps1 reps(2,3)] obtain s' where "become_zombie v ?s1 = Inr s'" "km s' = km ?s1"
    "qreps (kp s') (L(Q_zombie := qins (kp ?s1) Q_zombie v (L Q_zombie)))"
    "\<forall>x. same_pcb (ptable (kp s') x) (if x = v then (ptable (kp ?s1) x)\<lparr>p_state := STATE_ZOMBIE\<rparr> else ptable (kp ?s1) x)"
    "current (kp s') = current (kp ?s1)" "init_pcb (kp s') = init_pcb (kp ?s1)" .
  ultimately show ?thesis using that by (simp add: zombified_def Let_def cong: if_cong)
qed

text \<open>The handover of a zombie orphan to a waiting \<^verbatim>\<open>init\<close>.\<close>

lemma detach_for_init_ok:
  assumes "qreps (kp s) L" "z \<in> set (L Q_zombie)" "i \<in> set (L Q_waiting)"
  obtains s' where "detach_for_init z i s = Inr s'" "km s' = km s"
    "qreps (kp s') (L(Q_zombie := remove1 z (L Q_zombie), Q_waiting := remove1 i (L Q_waiting)))"
    "\<forall>x. same_pcb (ptable (kp s') x) (ptable (kp s) x)"
    "current (kp s') = current (kp s)" "init_pcb (kp s') = init_pcb (kp s)"
proof -
  from qreps_remove_this [OF assms(1,2)] obtain p1 where
    P: "pcb_queue_remove_this Q_zombie (Some z) (kp s) = Inr (SUCCESS, p1)"
    "qreps p1 (L(Q_zombie := remove1 z (L Q_zombie)))" "frame Q_zombie (set (L Q_zombie)) (kp s) p1" .
  have L2: "(L(Q_zombie := remove1 z (L Q_zombie))) Q_waiting = L Q_waiting" by simp
  have "i \<in> set ((L(Q_zombie := remove1 z (L Q_zombie))) Q_waiting)" using assms(3) by simp
  from qreps_remove_this [OF P(2) this, unfolded L2] obtain p2 where
    Q: "pcb_queue_remove_this Q_waiting (Some i) p1 = Inr (SUCCESS, p2)"
    "qreps p2 (L(Q_zombie := remove1 z (L Q_zombie), Q_waiting := remove1 i (L Q_waiting)))"
    "frame Q_waiting (set (L Q_waiting)) p1 p2" .
  have "same_pcb (ptable p2 x) (ptable (kp s) x)" for x
    using P(3) Q(3) by (simp add: frame_def same_pcb_def)
  moreover have "detach_for_init z i s = Inr (s\<lparr>kp := p2\<rparr>)"
    using P(1) Q(1) by (simp add: detach_for_init_def assert_ok_def onP_def)
  ultimately show ?thesis using that [of "s\<lparr>kp := p2\<rparr>"] P(3) Q(2,3) by (simp add: frame_def)
qed


text \<open>A waiting parent has been told about \<open>child\<close>: its return value is the PID, and the exit status is
  stored where it asked for it.\<close>

definition reported :: "kstate \<Rightarrow> nat \<Rightarrow> addr \<Rightarrow> u32 \<Rightarrow> u32 \<Rightarrow> bool" where
  "reported s pa buf pid st \<longleftrightarrow>
     get_RET s pa = pid \<and> (buf \<noteq> 0 \<longrightarrow> load32 (k_mem (km s)) buf = st)"

text \<open>The words the report goes to are in use (outside \<open>U\<close>) and do not overlap.\<close>

definition report_ok :: "nat set \<Rightarrow> kstate \<Rightarrow> nat \<Rightarrow> bool" where
  "report_ok U s pa \<longleftrightarrow> word_outside U (p_context (ptable (kp s) pa) + 48) \<and>
     (ARG s pa 2 = 0 \<or> word_outside U (ARG s pa 2) \<and>
        apart (ARG s pa 2) 4 (p_context (ptable (kp s) pa) + 48) 4)"

lemma word_outside_mono: "word_outside U a \<Longrightarrow> B \<subseteq> U \<Longrightarrow> word_outside B a"
  by (auto simp: word_outside_def)

lemma load32_outside:
  assumes "word_outside U a" "\<forall>x. unat x \<notin> U \<longrightarrow> m x = m' x"
  shows "load32 m a = load32 m' a"
proof (rule load32_cong)
  fix x assume "inr a 4 x"
  then have "unat x \<in> {unat a ..< unat a + 4}" using assms(1) by (auto simp: word_outside_def inr_nowrap)
  then have "unat x \<notin> U" using assms(1) by (auto simp: word_outside_def)
  with assms(2) show "m x = m' x" by blast
qed

lemma ARG_set_RET: "ARG (set_RET pa v s) pa 2 = ARG s pa 2"
proof -
  have "apart (p_context (ptable (kp s) pa) + 48) 4 (p_context (ptable (kp s) pa) + SZ_CONTEXT + 4 * 2) 4"
    by (simp add: apart_def)
  then show ?thesis by (simp add: ARG_def set_RET_def mem_upd_def load32_store32_apart)
qed

lemma report_child_reported:
  assumes "report_ok U s pa"
  shows "reported (report_child pa c s) pa (ARG s pa 2) (p_pid (ptable (kp s) c)) (p_exit_status (ptable (kp s) c))"
  using assms ARG_set_RET [of pa _ s]
  by (auto simp: reported_def report_ok_def report_child_def Let_def store_opt_def get_RET_def)
    (simp_all add: set_RET_def mem_upd_def load32_store32_apart)

lemma reported_frame:
  assumes "reported s pa buf pid st" "p_context (ptable (kp s') pa) = p_context (ptable (kp s) pa)"
    "word_outside U (p_context (ptable (kp s) pa) + 48)" "buf \<noteq> 0 \<Longrightarrow> word_outside U buf"
    "\<forall>x. unat x \<notin> U \<longrightarrow> k_mem (km s') x = k_mem (km s) x"
  shows "reported s' pa buf pid st"
  using assms load32_outside [OF assms(3,5)] load32_outside [OF assms(4,5)]
  by (auto simp: reported_def get_RET_def)

lemma qins_cong:
  assumes "q_order (queues s' q) = q_order (queues s q)"
    "\<forall>x. queue_key (q_order (queues s q)) (ptable s' x) = queue_key (q_order (queues s q)) (ptable s x)"
  shows "qins s' q = qins s q"
  using assms by (simp add: qins_def fun_eq_iff)

lemma same_pcb_key: "same_pcb a b \<Longrightarrow> queue_key ord a = queue_key ord b"
  by (simp add: queue_key_def same_pcb_iff)

lemma queue_key_state [simp]: "queue_key ord (c\<lparr>p_state := st\<rparr>) = queue_key ord c"
  by (simp add: queue_key_def)

lemma qins_same:
  assumes "qreps s L" "qreps s' L'" "\<forall>x. same_pcb (ptable s' x) (if x = p then (ptable s x)\<lparr>p_state := st\<rparr> else ptable s x)"
  shows "qins s' q = qins s q"
proof (rule qins_cong)
  show "q_order (queues s' q) = q_order (queues s q)" using qrepsD(2) assms(1,2) by simp
  show "\<forall>x. queue_key (q_order (queues s q)) (ptable s' x) = queue_key (q_order (queues s q)) (ptable s x)"
  proof
    fix x show "queue_key (q_order (queues s q)) (ptable s' x) = queue_key (q_order (queues s q)) (ptable s x)"
      using same_pcb_key [OF assms(3) [rule_format, of x], of "q_order (queues s q)"] by (cases "x = p") simp_all
  qed
qed


lemma qins_same_all:
  assumes "qreps s L" "qreps s' L'" "\<forall>x. same_pcb (ptable s' x) (ptable s x)"
  shows "qins s' q = qins s q"
  using assms by (intro qins_cong) (auto simp: qrepsD(2) intro: same_pcb_key)

text \<open>Waking \<^verbatim>\<open>init\<close> for a zombie it has just inherited, up to the point where the parent of the victim
  is considered.\<close>

lemma init_collects:
  assumes reps: "qreps (kp s) L" and z: "z \<in> set (L Q_zombie)" "p_state (ptable (kp s) z) = STATE_ZOMBIE"
    and i: "i \<in> set (L Q_waiting)" "p_state (ptable (kp s) i) = STATE_WAITING"
    and k: "pool (km s) B" "stack_ok B (p_stack (ptable (kp s) z)) (p_stkpgs (ptable (kp s) z))"
    and rep: "report_ok (B \<union> span (p_stack (ptable (kp s) z)) (stk_pages (p_stkpgs (ptable (kp s) z)))) s i"
  obtains s' where
    "bindR (detach_for_init z i s) (\<lambda>s2. bindR (schedule (Some i) (report_child i z s2)) (pcb_cleanup (Some z))) = Inr s'"
    "qreps (kp s') (L(Q_zombie := remove1 z (L Q_zombie), Q_waiting := remove1 i (L Q_waiting),
       Q_ready := qins (kp s) Q_ready i (L Q_ready), Q_freelist := L Q_freelist @ [z]))"
    "\<forall>x. same_pcb (ptable (kp s') x) ((ptable (kp s) x)\<lparr>p_state :=
        if x = z then STATE_UNUSED else if x = i then STATE_READY else p_state (ptable (kp s) x)\<rparr>)"
    "pool (km s') (B \<union> span (p_stack (ptable (kp s) z)) (stk_pages (p_stkpgs (ptable (kp s) z))))"
    "reported s' i (ARG s i 2) (p_pid (ptable (kp s) z)) (p_exit_status (ptable (kp s) z))"
    "current (kp s') = current (kp s)" "init_pcb (kp s') = init_pcb (kp s)"
proof -
  let ?U = "B \<union> span (p_stack (ptable (kp s) z)) (stk_pages (p_stkpgs (ptable (kp s) z)))"
  have zi: "z \<noteq> i" using z(2) i(2) by auto
  have uniq: "z \<in> set (L q) \<longleftrightarrow> q = Q_zombie" "i \<in> set (L q) \<longleftrightarrow> q = Q_waiting" for q
    using qreps_unique_queue [OF reps] z(1) i(1) by blast+
  have dist: "distinct (L q)" for q by (rule pq.contents_once [OF reps])
  obtain s2 where D: "detach_for_init z i s = Inr s2" "km s2 = km s"
    "qreps (kp s2) (L(Q_zombie := remove1 z (L Q_zombie), Q_waiting := remove1 i (L Q_waiting)))" (is "qreps _ ?L2")
    "\<forall>x. same_pcb (ptable (kp s2) x) (ptable (kp s) x)"
    "current (kp s2) = current (kp s)" "init_pcb (kp s2) = init_pcb (kp s)"
    by (rule detach_for_init_ok [OF reps z(1) i(1)])
  note same2 = same_pcbD [OF D(4) [rule_format]]
  define s3 where "s3 = report_child i z s2"
  have kp3: "kp s3 = kp s2" by (simp add: s3_def)
  have arg: "ARG s2 i 2 = ARG s i 2" using same2(4) D(2) by (simp add: ARG_def)
  have rok: "report_ok ?U s2 i" using rep same2(4) arg by (simp add: report_ok_def)
  then have "word_outside B (p_context (ptable (kp s2) i) + 48)" "ARG s2 i 2 = 0 \<or> word_outside B (ARG s2 i 2)"
    unfolding report_ok_def using word_outside_mono [of ?U _ B] by blast+
  then have pool3: "pool (km s3) B" using report_child_pool [of s2 B i z] k(1) D(2) by (simp add: s3_def)
  have rep3: "reported s3 i (ARG s i 2) (p_pid (ptable (kp s) z)) (p_exit_status (ptable (kp s) z))"
    using report_child_reported [OF rok, of z] same2 arg by (simp add: s3_def)
  have reps3: "qreps (kp s3) ?L2" using D(3) kp3 by simp
  have iL: "i < N_PROCS" "\<And>q. i \<notin> set (?L2 q)"
    using qreps_member [OF reps i(1)] uniq dist by auto
  have ik: "p_state (ptable (kp s3) i) \<noteq> STATE_KILLED" using i(2) same2(1) kp3 by simp
  obtain s4 where S4: "schedule (Some i) s3 = Inr s4" "km s4 = km s3"
    "qreps (kp s4) (?L2(Q_ready := qins (kp s3) Q_ready i (?L2 Q_ready)))" (is "qreps _ ?L3")
    "\<forall>x. same_pcb (ptable (kp s4) x) (if x = i then (ptable (kp s3) x)\<lparr>p_state := STATE_READY\<rparr> else ptable (kp s3) x)"
    "current (kp s4) = current (kp s3)" "next_pid (kp s4) = next_pid (kp s3)" "init_pcb (kp s4) = init_pcb (kp s3)"
    by (rule schedule_not_killed [OF reps3 iL ik])
  have zz: "z < N_PROCS" "\<And>q. z \<notin> set (?L3 q)"
    using qreps_member [OF reps z(1)] uniq dist zi by (auto simp: pq.set_place)
  have same4: "same_pcb (ptable (kp s4) x) ((ptable (kp s) x)\<lparr>p_state := if x = i then STATE_READY else p_state (ptable (kp s) x)\<rparr>)" for x
    using S4(4) [rule_format, of x] D(4) [rule_format, of x] kp3 by (auto simp: same_pcb_iff)
  have stk: "p_stack (ptable (kp s4) z) = p_stack (ptable (kp s) z)" "p_stkpgs (ptable (kp s4) z) = p_stkpgs (ptable (kp s) z)"
    using same4 [of z] by (simp_all add: same_pcb_iff)
  have k4: "pool (km s4) B" "stack_ok B (p_stack (ptable (kp s4) z)) (p_stkpgs (ptable (kp s4) z))"
    using pool3 S4(2) k(2) stk by simp_all
  obtain s5 where S5: "pcb_cleanup (Some z) s4 = Inr s5" "qreps (kp s5) (?L3(Q_freelist := ?L3 Q_freelist @ [z]))"
    "\<forall>x. same_pcb (ptable (kp s5) x) (if x = z then (ptable (kp s4) x)\<lparr>p_state := STATE_UNUSED\<rparr> else ptable (kp s4) x)"
    "pool (km s5) ?U" "\<forall>x. unat x \<notin> ?U \<longrightarrow> k_mem (km s5) x = k_mem (km s4) x"
    "current (kp s5) = current (kp s4)" "init_pcb (kp s5) = init_pcb (kp s4)"
    unfolding stk [symmetric] by (rule pcb_cleanup_ok [OF S4(3) zz k4])
  have same5: "same_pcb (ptable (kp s5) x) ((ptable (kp s) x)\<lparr>p_state :=
      if x = z then STATE_UNUSED else if x = i then STATE_READY else p_state (ptable (kp s) x)\<rparr>)" for x
    using S5(3) [rule_format, of x] same4 [of x] by (auto simp: same_pcb_iff)
  have "qins (kp s3) Q_ready = qins (kp s) Q_ready"
    using qins_same_all [OF reps reps3] D(4) kp3 by simp
  then have "?L3(Q_freelist := ?L3 Q_freelist @ [z]) = L(Q_zombie := remove1 z (L Q_zombie), Q_waiting := remove1 i (L Q_waiting),
       Q_ready := qins (kp s) Q_ready i (L Q_ready), Q_freelist := L Q_freelist @ [z])" by simp
  moreover have "reported s5 i (ARG s i 2) (p_pid (ptable (kp s) z)) (p_exit_status (ptable (kp s) z))"
  proof (rule reported_frame [OF rep3])
    show "p_context (ptable (kp s5) i) = p_context (ptable (kp s3) i)"
      using same5 [of i] same2(4) [of i] kp3 by (simp add: same_pcb_iff)
    show "word_outside ?U (p_context (ptable (kp s3) i) + 48)" using rok kp3 by (simp add: report_ok_def)
    show "word_outside ?U (ARG s i 2)" if "ARG s i 2 \<noteq> 0" using rep that by (simp add: report_ok_def)
    show "\<forall>x. unat x \<notin> ?U \<longrightarrow> k_mem (km s5) x = k_mem (km s3) x" using S5(5) S4(2) by simp
  qed
  moreover have "bindR (detach_for_init z i s) (\<lambda>s2. bindR (schedule (Some i) (report_child i z s2)) (pcb_cleanup (Some z))) = Inr s5"
    using D(1) S4(1) S5(1) by (simp add: s3_def)
  moreover have "current (kp s5) = current (kp s)" "init_pcb (kp s5) = init_pcb (kp s)"
    using S5(6,7) S4(5,7) D(5,6) kp3 by simp_all
  ultimately show ?thesis using that S5(2,4) same5 by metis
qed


lemma pcb_zombify_init_wakes:
  assumes reps: "qreps (kp s) L" "v < N_PROCS" "\<And>q. v \<notin> set (L q)" and pa: "p_parent (ptable (kp s) v) = Some pa"
    and z: "last_opt None (zombie_orphans v pa (kp s)) = Some z" "z \<in> set (L Q_zombie)"
    and i: "init_pcb (kp s) = Some i" "i \<in> set (L Q_waiting)" "p_state (ptable (kp s) i) = STATE_WAITING"
    and busy: "pa = i \<or> p_state (ptable (kp s) pa) \<noteq> STATE_WAITING"
    and k: "pool (km s) B" "stack_ok B (p_stack (ptable (kp s) z)) (p_stkpgs (ptable (kp s) z))"
    and rep: "report_ok (B \<union> span (p_stack (ptable (kp s) z)) (stk_pages (p_stkpgs (ptable (kp s) z)))) s i"
  obtains s' where "pcb_zombify (Some v) s = Inr s'"
    "qreps (kp s') (L(Q_zombie := qins (kp s) Q_zombie v (remove1 z (L Q_zombie)), Q_waiting := remove1 i (L Q_waiting),
       Q_ready := qins (kp s) Q_ready i (L Q_ready), Q_freelist := L Q_freelist @ [z]))"
    "\<forall>x. same_pcb (ptable (kp s') x) ((zombified v pa (kp s) x)\<lparr>p_state :=
        if x = z then STATE_UNUSED else if x = i then STATE_READY else p_state (zombified v pa (kp s) x)\<rparr>)"
    "pool (km s') (B \<union> span (p_stack (ptable (kp s) z)) (stk_pages (p_stkpgs (ptable (kp s) z))))"
    "reported s' i (ARG s i 2) (p_pid (ptable (kp s) z)) (p_exit_status (ptable (kp s) z))"
proof -
  define s1 where "s1 = s\<lparr>kp := adopted v pa (kp s)\<rparr>"
  let ?U = "B \<union> span (p_stack (ptable (kp s) z)) (stk_pages (p_stkpgs (ptable (kp s) z)))"
  have s1: "kp s1 = adopted v pa (kp s)" "km s1 = km s" "ARG s1 i 2 = ARG s i 2"
    by (simp_all add: s1_def ARG_kp)
  have zset: "z \<in> set (zombie_orphans v pa (kp s))" using z(1) by (metis last_in_set last_opt_eq_Some)
  note zD = zombie_orphansD [OF zset]
  have hyps: "qreps (kp s1) L" "p_state (ptable (kp s1) z) = STATE_ZOMBIE" "p_state (ptable (kp s1) i) = STATE_WAITING"
    "pool (km s1) B" "stack_ok B (p_stack (ptable (kp s1) z)) (p_stkpgs (ptable (kp s1) z))"
    "report_ok (B \<union> span (p_stack (ptable (kp s1) z)) (stk_pages (p_stkpgs (ptable (kp s1) z)))) s1 i"
    using reps(1) zD(2) i(3) k rep s1 by (simp_all add: report_ok_def)
  obtain s2 where S2:
    "bindR (detach_for_init z i s1) (\<lambda>s2. bindR (schedule (Some i) (report_child i z s2)) (pcb_cleanup (Some z))) = Inr s2"
    "qreps (kp s2) (L(Q_zombie := remove1 z (L Q_zombie), Q_waiting := remove1 i (L Q_waiting),
       Q_ready := qins (kp s1) Q_ready i (L Q_ready), Q_freelist := L Q_freelist @ [z]))" (is "qreps _ ?L2")
    "\<forall>x. same_pcb (ptable (kp s2) x) ((ptable (kp s1) x)\<lparr>p_state :=
        if x = z then STATE_UNUSED else if x = i then STATE_READY else p_state (ptable (kp s1) x)\<rparr>)"
    "pool (km s2) ?U"
    "reported s2 i (ARG s i 2) (p_pid (ptable (kp s) z)) (p_exit_status (ptable (kp s) z))"
    by (rule init_collects [OF hyps(1) z(2) hyps(2) i(2) hyps(3-6)]) (simp add: s1)
  have vz: "v \<noteq> z" "v \<noteq> i" using reps(3) z(2) i(2) by auto
  have notin: "v \<notin> set (?L2 q)" for q
    using reps(3) vz set_remove1_subset [of z "L Q_zombie"] set_remove1_subset [of i "L Q_waiting"]
    by (auto simp: pq.set_place)
  have "p_state (ptable (kp s2) pa) \<noteq> STATE_WAITING"
    using same_pcbD(1) [OF S2(3) [rule_format, of pa]] busy zD(4) s1 by auto
  then have busy2: "\<not> wakes_parent pa (p_pid (ptable (kp s) v)) s2" by (simp add: wakes_parent_def)
  obtain s3 where S3: "become_zombie v s2 = Inr s3" "km s3 = km s2"
    "qreps (kp s3) (?L2(Q_zombie := qins (kp s2) Q_zombie v (?L2 Q_zombie)))"
    "\<forall>x. same_pcb (ptable (kp s3) x) (if x = v then (ptable (kp s2) x)\<lparr>p_state := STATE_ZOMBIE\<rparr> else ptable (kp s2) x)"
    by (rule become_zombie_ok [OF S2(2) reps(2) notin])
  have key: "queue_key ord (ptable (kp s2) x) = queue_key ord (ptable (kp s) x)" for ord x
    using same_pcb_key [OF S2(3) [rule_format, of x], of ord] s1 by (simp add: queue_key_def)
  have "qins (kp s2) Q_zombie = qins (kp s) Q_zombie"
    by (rule qins_cong) (simp_all add: qrepsD(2) [OF S2(2)] qrepsD(2) [OF reps(1)] key)
  then have "?L2(Q_zombie := qins (kp s2) Q_zombie v (?L2 Q_zombie)) =
     L(Q_zombie := qins (kp s) Q_zombie v (remove1 z (L Q_zombie)), Q_waiting := remove1 i (L Q_waiting),
       Q_ready := qins (kp s) Q_ready i (L Q_ready), Q_freelist := L Q_freelist @ [z])"
    by (auto simp: s1 fun_eq_iff)
  moreover have "same_pcb (ptable (kp s3) x) ((zombified v pa (kp s) x)\<lparr>p_state :=
        if x = z then STATE_UNUSED else if x = i then STATE_READY else p_state (zombified v pa (kp s) x)\<rparr>)" for x
    using S3(4) [rule_format, of x] S2(3) [rule_format, of x] vz s1
    by (auto simp: zombified_def Let_def same_pcb_iff)
  moreover have "reported s3 i (ARG s i 2) (p_pid (ptable (kp s) z)) (p_exit_status (ptable (kp s) z))"
    using S2(5) S3(2) same_pcbD(4) [OF S3(4) [rule_format, of i]] vz by (auto simp: reported_def get_RET_def)
  moreover have "pcb_zombify (Some v) s = Inr s3"
    unfolding pcb_zombify_unfold [OF pa] using z(1) i(1,3) S2(1) busy2 S3(1) by (simp flip: s1_def)
  ultimately show ?thesis using that S3(2,3) S2(4) by metis
qed


text \<open>The same for a parent that waits for the victim. \<^verbatim>\<open>schedule\<close> puts it into the ready queue,
  but nothing takes it out of the waiting queue.\<close>

lemma qreps_retire_last:
  assumes "qreps s L" "links s p = None"
  shows "qreps (retire st p s) L"
  using assms unfolding retire_def by (intro qreps_upd_pcb) (simp_all add: links_def)

lemma qrep_local:
  assumes "qrep s q xs" "queues s' q = queues s q" "\<forall>x\<in>set xs. ptable s' x = ptable s x"
  shows "qrep s' q xs"
proof -
  have "chain (links s') (q_head (queues s q)) xs = chain (links s) (q_head (queues s q)) xs"
    using assms(3) by (intro chain_cong) (simp add: links_def)
  with assms show ?thesis by (simp add: qrep_def)
qed

lemma pcb_zombify_parent_waiting:
  assumes reps: "qreps (kp s) L" "v < N_PROCS" "\<And>q. v \<notin> set (L q)" and pa: "p_parent (ptable (kp s) v) = Some pa"
    and w: "L Q_waiting = [pa]" "wakes_parent pa (p_pid (ptable (kp s) v)) s"
    and none: "zombie_orphans v pa (kp s) = []"
    and k: "pool (km s) B" "stack_ok B (p_stack (ptable (kp s) v)) (p_stkpgs (ptable (kp s) v))"
    and rep: "report_ok (B \<union> span (p_stack (ptable (kp s) v)) (stk_pages (p_stkpgs (ptable (kp s) v)))) s pa"
  obtains s' where "pcb_zombify (Some v) s = Inr s'"
    "qrep (kp s') Q_ready (qins (kp s) Q_ready pa (L Q_ready))" "qrep (kp s') Q_freelist (L Q_freelist @ [v])"
    "q_head (queues (kp s') Q_waiting) = Some pa" "p_state (ptable (kp s') pa) = STATE_READY"
    "reported s' pa (ARG s pa 2) (p_pid (ptable (kp s) v)) (p_exit_status (ptable (kp s) v))"
proof -
  define s1 where "s1 = s\<lparr>kp := adopted v pa (kp s)\<rparr>"
  let ?U = "B \<union> span (p_stack (ptable (kp s) v)) (stk_pages (p_stkpgs (ptable (kp s) v)))"
  have s1: "kp s1 = adopted v pa (kp s)" "km s1 = km s" "ARG s1 pa 2 = ARG s pa 2" "report_ok ?U s1 pa" "qreps (kp s1) L"
    using rep reps(1) by (simp_all add: s1_def ARG_kp report_ok_def)
  have vpa: "v \<noteq> pa" using reps(3) [of Q_waiting] w(1) by auto
  have wq: "qrep (kp s1) Q_waiting [pa]" using qrepsD(1) [OF s1(5), of Q_waiting] w(1) by simp
  have paN: "pa < N_PROCS" "pa \<notin> set (L Q_ready)" "pa \<notin> set (L Q_freelist)"
    using qreps_member [OF reps(1), of pa Q_waiting] qreps_unique_queue [OF reps(1), of pa Q_waiting] w(1) by auto
  have lk: "links (kp s1) pa = None" and hd: "q_head (queues (kp s1) Q_waiting) = Some pa"
    using wq by (auto simp: qrep_def)
  define s2 where "s2 = report_child pa v s1"
  have word: "word_outside ?U (p_context (ptable (kp s1) pa) + 48)" "ARG s1 pa 2 = 0 \<or> word_outside ?U (ARG s1 pa 2)"
    using s1(4) unfolding report_ok_def by blast+
  have pool2: "pool (km s2) B"
    unfolding s2_def using word k(1) s1(2) by (intro report_child_pool) (auto intro: word_outside_mono)
  have rep2: "reported s2 pa (ARG s pa 2) (p_pid (ptable (kp s) v)) (p_exit_status (ptable (kp s) v))"
    using report_child_reported [OF s1(4), of v] s1 by (simp add: s2_def)
  define r where "r = retire STATE_READY pa (kp s1)"
  have rr: "qreps r L" "links r pa = None" using qreps_retire_last [OF s1(5) lk] by (simp_all add: r_def retire_def)
  obtain p1 where P1: "pcb_queue_insert Q_ready (Some pa) r = Inr (SUCCESS, p1)"
    "qrep p1 Q_ready (qins r Q_ready pa (L Q_ready))" "frame Q_ready (insert pa (set (L Q_ready))) r p1"
    using pcb_queue_insert_qrep [OF qrepsD(1) [OF rr(1)], of Q_ready pa] qrepsD(2) [OF rr(1)] paN rr(2)
    by (metis init_order_valid)
  have free1: "qrep p1 Q_freelist (L Q_freelist)" "q_order (queues p1 Q_freelist) = O_FIFO"
    using qrep_frame [OF qrepsD(1) [OF rr(1)] P1(3), of Q_freelist] paN(3) qrepsD(3) [OF rr(1), of Q_freelist Q_ready]
      P1(3) qrepsD(2) [OF rr(1), of Q_freelist] by (auto simp: frame_def)
  obtain p2 where P2: "pcb_free (Some v) p1 = Inr p2" "qrep p2 Q_freelist (L Q_freelist @ [v])"
    "\<forall>q. q \<noteq> Q_freelist \<longrightarrow> queues p2 q = queues p1 q"
    "\<forall>x. same_pcb (ptable p2 x) (if x = v then (ptable p1 x)\<lparr>p_state := STATE_UNUSED\<rparr> else ptable p1 x)"
    "\<forall>x. x \<notin> insert v (set (L Q_freelist)) \<longrightarrow> ptable p2 x = ptable p1 x"
    using pcb_free_fifo [OF free1 reps(2,3)] by metis
  have stk: "p_stack (ptable p1 v) = p_stack (ptable (kp s) v)" "p_stkpgs (ptable p1 v) = p_stkpgs (ptable (kp s) v)"
    using frame_data(7,8) [OF P1(3)] vpa s1(1) by (simp_all add: r_def retire_def)
  obtain k3 where K: "pcb_stack_free (p_stack (ptable (kp s) v)) (p_stkpgs (ptable (kp s) v)) (km s2) = Inr k3"
    "\<forall>x. unat x \<notin> ?U \<longrightarrow> k_mem k3 x = k_mem (km s2) x" using pcb_stack_free_pool [OF pool2 k(2)] by blast
  define s' where "s' = s2\<lparr>kp := p2, km := k3\<rparr>"
  have kp2: "kp s2 = kp s1" by (simp add: s2_def)
  have "schedule (Some pa) s2 = Inr (s2\<lparr>kp := p1\<rparr>)"
    using w(2) P1(1) kp2 s1(1) unfolding r_def retire_def
    by (simp add: schedule.simps assert_ok_def onP_def kp_upd_def wakes_parent_def)
  then have "pcb_zombify (Some v) s = Inr s'"
    unfolding pcb_zombify_unfold [OF pa] none using w(2) K(1) P2(1) stk
    by (simp add: s1_def [symmetric] s2_def [symmetric] pcb_cleanup_def user_cleanup_def s'_def)
      (simp add: s1_def)
  moreover have "qrep p2 Q_ready (qins (kp s) Q_ready pa (L Q_ready))"
  proof -
    have eq: "qins r Q_ready pa (L Q_ready) = qins (kp s) Q_ready pa (L Q_ready)" by (simp add: r_def s1(1))
    have "x \<notin> insert v (set (L Q_freelist))" if "x \<in> insert pa (set (L Q_ready))" for x
      using that paN(3) vpa reps(3) [of Q_ready] qrepsD(3) [OF reps(1), of Q_ready Q_freelist] by auto
    then show ?thesis
      using P2(3,5) by (intro qrep_local [OF P1(2) [unfolded eq]]) (simp_all add: pq.set_place)
  qed
  moreover have "q_head (queues p2 Q_waiting) = Some pa"
    using P2(3) P1(3) hd by (simp add: frame_def r_def retire_def)
  moreover have "p_state (ptable p2 pa) = STATE_READY"
    using same_pcbD(1) [OF P2(4) [rule_format, of pa]] vpa frame_data(4) [OF P1(3), of pa] by (simp add: r_def retire_def)
  moreover have "reported s' pa (ARG s pa 2) (p_pid (ptable (kp s) v)) (p_exit_status (ptable (kp s) v))"
  proof (rule reported_frame [OF rep2])
    show "p_context (ptable (kp s') pa) = p_context (ptable (kp s2) pa)"
      using same_pcbD(4) [OF P2(4) [rule_format, of pa]] vpa frame_data(6) [OF P1(3), of pa] kp2
      by (simp add: s'_def r_def retire_def)
  qed (use word kp2 s1(3) K(2) in \<open>auto simp: s'_def\<close>)
  ultimately show ?thesis using that P2(2) by (simp add: s'_def)
qed


section \<open>Counting and searching\<close>

lemma counts_fold:
  "fold (\<lambda>p nums. nums(f p := nums (f p) + 1)) ps g st = (g st :: u32) + of_nat (length (filter (\<lambda>p. f p = st) ps))"
  by (induction ps arbitrary: g) auto

section \<open>Properties\<close>

text \<open>C22. Whatever the process table held before, \<^verbatim>\<open>pcb_init\<close> succeeds and leaves no current
  process, every PCB unused and on the free list in table order, and the five other queues empty with
  their orderings.\<close>

theorem pcb_init_establishes:
  "\<exists>s'. pcb_init s = Inr s' \<and> qreps s' ((\<lambda>_. [])(Q_freelist := [0..<N_PROCS])) \<and>
     current s' = None \<and> next_pid s' = FIRST_USER_PID \<and>
     map (\<lambda>p. p_state (ptable s' p)) [0..<N_PROCS] = replicate N_PROCS STATE_UNUSED"
proof -
  obtain s' where "pcb_init s = Inr s'" "qreps s' boot_lists" "current s' = None" "next_pid s' = FIRST_USER_PID"
    "\<forall>p<N_PROCS. p_state (ptable s' p) = STATE_UNUSED" by (rule pcb_init_ok)
  moreover from this have "map (\<lambda>p. p_state (ptable s' p)) [0..<N_PROCS] = replicate N_PROCS STATE_UNUSED"
    by (intro replicate_eqI) auto
  ultimately show ?thesis unfolding boot_lists_def by blast
qed

text \<open>\<^verbatim>\<open>pcb_alloc\<close> takes the first free PCB and fails with \<^verbatim>\<open>E_NO_PCBS\<close>, changing nothing, exactly
  when there is none; giving an allocated PCB back with \<^verbatim>\<open>pcb_free\<close> appends it to the free list
  as an unused one.\<close>

theorem pcb_alloc_then_free:
  assumes "qreps s L"
  shows "case L Q_freelist of
      [] \<Rightarrow> pcb_alloc s = Inr (E_NO_PCBS, None, s)
    | p # ps \<Rightarrow> \<exists>s1 s2. pcb_alloc s = Inr (SUCCESS, Some p, s1) \<and> qreps s1 (L(Q_freelist := ps)) \<and>
        pcb_free (Some p) s1 = Inr s2 \<and> qreps s2 (L(Q_freelist := ps @ [p])) \<and>
        p_state (ptable s2 p) = STATE_UNUSED"
proof (cases "L Q_freelist")
  case Nil
  then show ?thesis using pcb_alloc_none [OF assms] by simp
next
  case (Cons p ps)
  obtain s1 where S: "pcb_alloc s = Inr (SUCCESS, Some p, s1)" "qreps s1 (L(Q_freelist := ps))"
    by (rule pcb_alloc_qreps [OF assms Cons])
  have "p < N_PROCS" using qreps_member [OF assms, of p Q_freelist] Cons by simp
  moreover have "p \<notin> set ((L(Q_freelist := ps)) q)" for q
    using pq.contents_once [OF assms, of Q_freelist] qreps_unique_queue [OF assms, of p Q_freelist q] Cons by auto
  ultimately obtain s2 where "pcb_free (Some p) s1 = Inr s2" "qreps s2 (L(Q_freelist := ps @ [p]))"
    "\<forall>x. same_pcb (ptable s2 x) (if x = p then (ptable s1 x)\<lparr>p_state := STATE_UNUSED\<rparr> else ptable s1 x)"
    using pcb_free_qreps [OF S(2)] unfolding fun_upd_same fun_upd_upd by metis
  with S Cons show ?thesis by (auto simp: same_pcb_iff)
qed

theorem pcb_alloc_then_free_witness:
  "\<exists>s s1 s2. qreps s boot_lists \<and> pcb_alloc s = Inr (SUCCESS, Some 0, s1) \<and> pcb_free (Some 0) s1 = Inr s2 \<and>
     pcb_alloc sample_procs = Inr (E_NO_PCBS, None, sample_procs)"
proof -
  obtain s where s: "qreps s boot_lists" using pcb_init_ok by metis
  have "boot_lists Q_freelist = 0 # [1..<N_PROCS]" unfolding boot_lists_def by (simp del: upt_rec_numeral add: upt_conv_Cons)
  with pcb_alloc_then_free [OF s] pcb_alloc_then_free [OF sample_qreps] s show ?thesis by auto
qed

text \<open>Scheduling a process that was not killed marks it ready and puts it into the ready queue
  behind every process of the same or a better priority; no other queue, no memory and no other
  process changes.\<close>

theorem schedule_by_priority:
  assumes "qreps (kp s) L" "p < N_PROCS" "\<forall>q. p \<notin> set (L q)" "p_state (ptable (kp s) p) \<noteq> STATE_KILLED"
  shows "\<exists>s'. schedule (Some p) s = Inr s' \<and> km s' = km s \<and>
     qreps (kp s') (L(Q_ready := insert_after (\<lambda>x. p_priority (ptable (kp s) x)) p (L Q_ready))) \<and>
     p_state (ptable (kp s') p) = STATE_READY \<and>
     (\<forall>x. x \<noteq> p \<longrightarrow> same_pcb (ptable (kp s') x) (ptable (kp s) x)) \<and> current (kp s') = current (kp s)"
proof -
  have "qins (kp s) Q_ready p (L Q_ready) = insert_after (\<lambda>x. p_priority (ptable (kp s) x)) p (L Q_ready)"
    using qrepsD(2) [OF assms(1), of Q_ready] by (simp add: qins_def queue_key_def)
  moreover obtain s' where "schedule (Some p) s = Inr s'" "km s' = km s"
    "qreps (kp s') (L(Q_ready := qins (kp s) Q_ready p (L Q_ready)))"
    "\<forall>x. same_pcb (ptable (kp s') x) (if x = p then (ptable (kp s) x)\<lparr>p_state := STATE_READY\<rparr> else ptable (kp s) x)"
    "current (kp s') = current (kp s)"
    using schedule_not_killed [OF assms(1,2) _ assms(4)] assms(3) by metis
  ultimately show ?thesis by (auto simp: same_pcb_iff)
qed

definition sample_kstate :: kstate where
  "sample_kstate = \<lparr>kp = sample_procs, km = sample_kms\<rparr>"

theorem schedule_by_priority_witness:
  "\<exists>s'. schedule (Some 4) sample_kstate = Inr s' \<and> qreps (kp s') (sample_lists(Q_ready := [4, 5]))"
proof -
  have "qreps (kp sample_kstate) sample_lists" using sample_qreps by (simp add: sample_kstate_def)
  moreover have "insert_after (\<lambda>x. p_priority (ptable (kp sample_kstate) x)) 4 [5] = [4, 5]"
    by (simp add: insert_after_def sample_kstate_def sample_procs_def sample_pcb_def)
  moreover have "p_state (ptable (kp sample_kstate) 4) \<noteq> STATE_KILLED"
    by (simp add: sample_kstate_def sample_procs_def sample_pcb_def)
  ultimately show ?thesis using schedule_by_priority [of sample_kstate sample_lists 4] by auto
qed

text \<open>The dispatcher gives the CPU to the head of the ready queue: when the queue is sorted, that
  is a process no other ready process has priority over, and it runs with a full quantum. With an
  empty ready queue, or while some process is current, the kernel panics.\<close>

theorem dispatch_selects_best:
  assumes "qreps s L" "qsorted s Q_ready (L Q_ready)"
  shows "if current s \<noteq> None then dispatch s = Inl (Assert ''current == NULL'')
    else case L Q_ready of
      [] \<Rightarrow> dispatch s = Inl (Kpanic ''dispatch: queue remove'')
    | p # ps \<Rightarrow> \<exists>s'. dispatch s = Inr s' \<and> qreps s' (L(Q_ready := ps)) \<and> current s' = Some p \<and>
        p_state (ptable s' p) = STATE_RUNNING \<and> p_ticks (ptable s' p) = QUANTUM_STANDARD \<and>
        (\<forall>x\<in>set ps. p_priority (ptable s' p) \<le> p_priority (ptable s' x))"
proof (cases "current s \<noteq> None")
  case True
  then show ?thesis by (simp add: dispatch_def)
next
  case False
  show ?thesis
  proof (cases "L Q_ready")
    case Nil
    then show ?thesis using False pq.rem_empty_law [OF assms(1) Nil] by (simp add: dispatch_def)
  next
    case (Cons p ps)
    obtain s' where S: "dispatch s = Inr s'" "qreps s' (L(Q_ready := ps))" "current s' = Some p"
      "\<forall>x. same_pcb (ptable s' x) (if x = p then (ptable s x)\<lparr>p_state := STATE_RUNNING, p_ticks := QUANTUM_STANDARD\<rparr> else ptable s x)"
      using dispatch_qreps [OF assms(1) Cons] False by auto
    have "p_priority (ptable s p) \<le> p_priority (ptable s x)" if "x \<in> set ps" for x
      using assms(2) Cons qrepsD(2) [OF assms(1), of Q_ready] that by (auto simp: qsorted_def queue_key_def)
    moreover have "p_priority (ptable s' x) = p_priority (ptable s x)" for x
      using S(4) [rule_format, of x] by (auto simp: same_pcb_iff split: if_splits)
    moreover have "p_state (ptable s' p) = STATE_RUNNING" "p_ticks (ptable s' p) = QUANTUM_STANDARD"
      using S(4) [rule_format, of p] by (simp_all add: same_pcb_iff)
    ultimately show ?thesis using False Cons S by auto
  qed
qed

theorem dispatch_selects_best_witness:
  "\<exists>s'. dispatch sample_procs = Inr s' \<and> current s' = Some 5"
proof -
  have "qsorted sample_procs Q_ready (sample_lists Q_ready)" "current sample_procs = None"
    by (simp_all add: qsorted_def sample_procs_def)
  with dispatch_selects_best [OF sample_qreps] show ?thesis by auto
qed

text \<open>Stacks: an allocated stack is cleared, lies in what was free memory and leaves the other
  memory in use unchanged; freeing it makes the free memory what it was.\<close>

theorem pcb_stack_roundtrip:
  assumes "pool k B" "pcb_stack_alloc n k = Inr (p, k1)" "p \<noteq> 0"
  shows "span p (stk_pages n) \<subseteq> B \<and> (\<forall>x. unat x \<in> span p (stk_pages n) \<longrightarrow> k_mem k1 x = 0) \<and>
     (\<forall>x. unat x \<notin> B \<longrightarrow> k_mem k1 x = k_mem k x) \<and> pool k1 (B - span p (stk_pages n)) \<and>
     (\<exists>k2. pcb_stack_free p n k1 = Inr k2 \<and> pool k2 B)"
proof -
  note A = pcb_stack_alloc_pool [OF assms]
  have "B - span p (stk_pages n) \<union> span p (stk_pages n) = B" using A(1) by blast
  then show ?thesis using A pcb_stack_free_pool [OF A(2,3)] by auto
qed

theorem pcb_stack_roundtrip_witness:
  "\<exists>k1 k2. pcb_stack_alloc 0 sample_kms = Inr (0x100000, k1) \<and> k_mem k1 0x100004 = 0 \<and>
     pcb_stack_free 0x100000 0 k1 = Inr k2 \<and> pool k2 {0x100000 ..< 0x104000}"
proof -
  obtain s1 where "km_page_alloc 2 sample_kms = Inr (0x100000, s1)" using sample_alloc by blast
  then obtain k1 where k1: "pcb_stack_alloc 0 sample_kms = Inr (0x100000, k1)" by (simp add: pcb_stack_alloc_def)
  have "unat (0x100004 :: addr) \<in> span 0x100000 (stk_pages 0)" by (simp add: span_def stk_pages_def)
  with pcb_stack_roundtrip [OF sample_pool k1] k1 show ?thesis by auto
qed


text \<open>A sample family for the witnesses: \<^verbatim>\<open>init\<close> (PCB 2) waits for any child, PCB 3 runs, PCB 4 is a
  zombie, PCB 5 is ready; \<open>a\<close> and \<open>b\<close> are the parents of 3 and 4.\<close>

definition sample_family :: "nat \<Rightarrow> nat \<Rightarrow> kstate" where
  "sample_family a b =
    \<lparr>kp = \<lparr>ptable = (\<lambda>_. sample_pcb)(
         2 := sample_pcb\<lparr>p_state := STATE_WAITING, p_pid := 1, p_context := 0x200000\<rparr>,
         3 := sample_pcb\<lparr>p_state := STATE_RUNNING, p_pid := 7, p_parent := Some a, p_stack := 0x300000, p_stkpgs := 2\<rparr>,
         4 := sample_pcb\<lparr>p_state := STATE_ZOMBIE, p_pid := 8, p_parent := Some b, p_stack := 0x400000, p_stkpgs := 2\<rparr>,
         5 := sample_pcb\<lparr>p_state := STATE_READY, p_pid := 5, p_priority := 1\<rparr>),
       queues = (\<lambda>q. \<lparr>q_head = None, q_tail = None, q_length = 0, q_order = init_order q\<rparr>)
         (Q_waiting := \<lparr>q_head = Some 2, q_tail = Some 2, q_length = 1, q_order = O_PID\<rparr>,
          Q_zombie := \<lparr>q_head = Some 4, q_tail = Some 4, q_length = 1, q_order = O_PID\<rparr>,
          Q_ready := \<lparr>q_head = Some 5, q_tail = Some 5, q_length = 1, q_order = O_PRIO\<rparr>),
       current = Some 3, next_pid = 9, init_pcb = Some 2\<rparr>, km = sample_kms\<rparr>"

definition family_lists :: "qid \<Rightarrow> nat list" where
  "family_lists = (\<lambda>_. [])(Q_waiting := [2], Q_zombie := [4], Q_ready := [5])"

lemma family_lists_simps [simp]:
  "family_lists Q_waiting = [2]" "family_lists Q_zombie = [4]" "family_lists Q_ready = [5]"
  by (simp_all add: family_lists_def)

lemma family_qreps: "qreps (kp (sample_family a b)) family_lists"
  by (auto simp: qreps_def qrep_def sample_family_def links_def sample_pcb_def last_opt_def family_lists_def)

lemma family_simps:
  "p_parent (ptable (kp (sample_family a b)) 3) = Some a" "p_state (ptable (kp (sample_family a b)) 2) = STATE_WAITING"
  "p_state (ptable (kp (sample_family a b)) 5) = STATE_READY" "init_pcb (kp (sample_family a b)) = Some 2"
  "p_context (ptable (kp (sample_family a b)) 2) = 0x200000" "p_pid (ptable (kp (sample_family a b)) 3) = 7"
  "p_pid (ptable (kp (sample_family a b)) 4) = 8" "p_stack (ptable (kp (sample_family a b)) 3) = 0x300000"
  "p_stkpgs (ptable (kp (sample_family a b)) 3) = 2" "p_stack (ptable (kp (sample_family a b)) 4) = 0x400000"
  "p_stkpgs (ptable (kp (sample_family a b)) 4) = 2" "km (sample_family a b) = sample_kms"
  by (simp_all add: sample_family_def sample_pcb_def)

lemma family_ARG: "ARG (sample_family a b) 2 1 = 0" "ARG (sample_family a b) 2 2 = 0"
  by (simp_all add: ARG_def family_simps sample_kms_def load32_store32_apart apart_def) (simp_all add: load32_def)

lemma family_orphans: "zombie_orphans 3 a (kp (sample_family a 5)) = []"
  "zombie_orphans 3 5 (kp (sample_family 5 3)) = [4]"
  by (simp_all add: zombie_orphans_def orphan_def sample_family_def sample_pcb_def upt_rec)

lemma family_running: "\<forall>q. 3 \<notin> set (family_lists q)"
  by (simp add: family_lists_def)

lemma family_memory:
  assumes "p = 0x300000 \<or> p = 0x400000"
  shows "stack_ok {0x100000 ..< 0x104000} p 2" "report_ok ({0x100000 ..< 0x104000} \<union> span p 2) (sample_family a b) 2"
  using assms
  by (auto simp: stack_ok_def stk_pages_def span_def report_ok_def word_outside_def family_simps family_ARG)

text \<open>C21. A process that ends while its parent is not waiting for it, and leaves no zombie child to a
  waiting \<^verbatim>\<open>init\<close>, becomes a zombie: it joins the zombie queue in PID order, each of its children
  has \<^verbatim>\<open>init\<close> as its parent, and neither memory nor any other queue changes.\<close>

theorem pcb_zombify_becomes_zombie:
  assumes "qreps (kp s) L" "v < N_PROCS" "\<forall>q. v \<notin> set (L q)" "p_parent (ptable (kp s) v) = Some pa"
    "\<not> wakes_parent pa (p_pid (ptable (kp s) v)) s"
    "zombie_orphans v pa (kp s) = [] \<or> (\<exists>i. init_pcb (kp s) = Some i \<and> p_state (ptable (kp s) i) \<noteq> STATE_WAITING)"
  shows "\<exists>s'. pcb_zombify (Some v) s = Inr s' \<and> km s' = km s \<and>
     qreps (kp s') (L(Q_zombie := insert_after (\<lambda>x. p_pid (ptable (kp s) x)) v (L Q_zombie))) \<and>
     p_state (ptable (kp s') v) = STATE_ZOMBIE \<and>
     (\<forall>c<N_PROCS. orphan v pa (kp s) c \<longrightarrow> p_parent (ptable (kp s') c) = init_pcb (kp s)) \<and>
     (\<forall>c. \<not> orphan v pa (kp s) c \<and> c \<noteq> v \<longrightarrow> same_pcb (ptable (kp s') c) (ptable (kp s) c))"
proof -
  obtain s' where S: "pcb_zombify (Some v) s = Inr s'" "km s' = km s"
    "qreps (kp s') (L(Q_zombie := qins (kp s) Q_zombie v (L Q_zombie)))"
    "\<forall>x. same_pcb (ptable (kp s') x) (zombified v pa (kp s) x)"
    using pcb_zombify_unwatched [OF assms(1,2) _ assms(4-6)] assms(3) by metis
  have "qins (kp s) Q_zombie v (L Q_zombie) = insert_after (\<lambda>x. p_pid (ptable (kp s) x)) v (L Q_zombie)"
    using qrepsD(2) [OF assms(1), of Q_zombie] by (simp add: qins_def queue_key_def)
  moreover have "p_parent (ptable (kp s') c) = init_pcb (kp s)" if "c < N_PROCS" "orphan v pa (kp s) c" for c
    using S(4) [rule_format, of c] that by (auto simp: same_pcb_iff zombified_def adopted_def Let_def)
  moreover have "same_pcb (ptable (kp s') c) (ptable (kp s) c)" if "\<not> orphan v pa (kp s) c" "c \<noteq> v" for c
    using S(4) [rule_format, of c] that by (simp add: zombified_def adopted_def Let_def)
  moreover have "p_state (ptable (kp s') v) = STATE_ZOMBIE"
    using S(4) [rule_format, of v] by (simp add: same_pcb_iff zombified_def Let_def)
  ultimately show ?thesis using S by auto
qed

theorem pcb_zombify_becomes_zombie_witness:
  "\<exists>s'. pcb_zombify (Some 3) (sample_family 5 5) = Inr s' \<and> qreps (kp s') (family_lists(Q_zombie := [3, 4]))"
proof -
  have "insert_after (\<lambda>x. p_pid (ptable (kp (sample_family 5 5)) x)) 3 [4] = [3, 4]"
    by (simp add: insert_after_def sample_family_def)
  moreover have "\<not> wakes_parent 5 (p_pid (ptable (kp (sample_family 5 5)) 3)) (sample_family 5 5)"
    by (simp add: wakes_parent_def family_simps)
  ultimately show ?thesis
    using pcb_zombify_becomes_zombie [of "sample_family 5 5" family_lists 3 5] family_qreps family_running
      family_orphans(1) [of 5]
    by (auto simp: family_simps)
qed

text \<open>C8. A process that ends and leaves a zombie child while \<^verbatim>\<open>init\<close> waits: \<^verbatim>\<open>init\<close> leaves the
  waiting queue for the ready queue with the PID and the exit status of that child as the result of
  its call, the child's PCB and stack are free, and the victim becomes a zombie. All queues are
  well formed again.\<close>

theorem pcb_zombify_wakes_init:
  assumes "qreps (kp s) L" "v < N_PROCS" "\<forall>q. v \<notin> set (L q)" "p_parent (ptable (kp s) v) = Some pa"
    "last_opt None (zombie_orphans v pa (kp s)) = Some z" "z \<in> set (L Q_zombie)"
    "init_pcb (kp s) = Some i" "i \<in> set (L Q_waiting)" "p_state (ptable (kp s) i) = STATE_WAITING"
    "pa = i \<or> p_state (ptable (kp s) pa) \<noteq> STATE_WAITING"
    "pool (km s) B" "stack_ok B (p_stack (ptable (kp s) z)) (p_stkpgs (ptable (kp s) z))"
    "report_ok (B \<union> span (p_stack (ptable (kp s) z)) (stk_pages (p_stkpgs (ptable (kp s) z)))) s i"
  shows "\<exists>s'. pcb_zombify (Some v) s = Inr s' \<and>
    qreps (kp s') (L(Q_zombie := qins (kp s) Q_zombie v (remove1 z (L Q_zombie)), Q_waiting := remove1 i (L Q_waiting),
       Q_ready := qins (kp s) Q_ready i (L Q_ready), Q_freelist := L Q_freelist @ [z])) \<and>
    reported s' i (ARG s i 2) (p_pid (ptable (kp s) z)) (p_exit_status (ptable (kp s) z)) \<and>
    pool (km s') (B \<union> span (p_stack (ptable (kp s) z)) (stk_pages (p_stkpgs (ptable (kp s) z)))) \<and>
    p_state (ptable (kp s') z) = STATE_UNUSED \<and> p_state (ptable (kp s') i) = STATE_READY \<and>
    p_state (ptable (kp s') v) = STATE_ZOMBIE"
proof -
  have v: "\<And>q. v \<notin> set (L q)" using assms(3) by blast
  obtain s' where S: "pcb_zombify (Some v) s = Inr s'"
    "qreps (kp s') (L(Q_zombie := qins (kp s) Q_zombie v (remove1 z (L Q_zombie)), Q_waiting := remove1 i (L Q_waiting),
       Q_ready := qins (kp s) Q_ready i (L Q_ready), Q_freelist := L Q_freelist @ [z]))"
    "\<forall>x. same_pcb (ptable (kp s') x) ((zombified v pa (kp s) x)\<lparr>p_state :=
        if x = z then STATE_UNUSED else if x = i then STATE_READY else p_state (zombified v pa (kp s) x)\<rparr>)"
    "pool (km s') (B \<union> span (p_stack (ptable (kp s) z)) (stk_pages (p_stkpgs (ptable (kp s) z))))"
    "reported s' i (ARG s i 2) (p_pid (ptable (kp s) z)) (p_exit_status (ptable (kp s) z))"
    by (rule pcb_zombify_init_wakes [OF assms(1,2) v assms(4-13)])
  have "z \<noteq> i" "v \<noteq> z" "v \<noteq> i"
    using qreps_unique_queue [OF assms(1,6), of Q_waiting] assms(3,6,8) by auto
  then show ?thesis using S S(3) [rule_format, of z] S(3) [rule_format, of i] S(3) [rule_format, of v]
    by (simp add: same_pcb_iff zombified_def Let_def)
qed

theorem pcb_zombify_wakes_init_witness:
  "\<exists>s'. pcb_zombify (Some 3) (sample_family 5 3) = Inr s' \<and> reported s' 2 0 8 0 \<and>
     p_state (ptable (kp s') 2) = STATE_READY"
proof -
  let ?s = "sample_family 5 3"
  have st: "p_exit_status (ptable (kp ?s) 4) = 0" by (simp add: sample_family_def sample_pcb_def)
  have "pool (km ?s) {0x100000 ..< 0x104000}" using sample_pool by (simp add: family_simps)
  moreover have "stack_ok {0x100000 ..< 0x104000} (p_stack (ptable (kp ?s) 4)) (p_stkpgs (ptable (kp ?s) 4))"
    "report_ok ({0x100000 ..< 0x104000} \<union> span (p_stack (ptable (kp ?s) 4)) (stk_pages (p_stkpgs (ptable (kp ?s) 4)))) ?s 2"
    using family_memory(1) [of "0x400000"] family_memory(2) [of "0x400000" 5 3] by (simp_all add: family_simps stk_pages_def)
  ultimately show ?thesis
    using pcb_zombify_wakes_init [of ?s family_lists 3 5 4 2 "{0x100000 ..< 0x104000}"] family_qreps family_running
      family_orphans(2) st
    by (auto simp: family_simps family_ARG last_opt_def)
qed

text \<open>A process that ends while its parent waits for it: the parent gets the PID and the exit
  status and is put into the ready queue, and the victim's PCB is free at once. But the parent is
  not taken out of the waiting queue, as it is in the corresponding code for \<^verbatim>\<open>init\<close>: it heads
  the waiting queue and is in the ready queue, and the queues are not well formed any more.\<close>

theorem pcb_zombify_parent_in_two_queues:
  assumes "qreps (kp s) L" "v < N_PROCS" "\<forall>q. v \<notin> set (L q)" "p_parent (ptable (kp s) v) = Some pa"
    "L Q_waiting = [pa]" "wakes_parent pa (p_pid (ptable (kp s) v)) s" "zombie_orphans v pa (kp s) = []"
    "pool (km s) B" "stack_ok B (p_stack (ptable (kp s) v)) (p_stkpgs (ptable (kp s) v))"
    "report_ok (B \<union> span (p_stack (ptable (kp s) v)) (stk_pages (p_stkpgs (ptable (kp s) v)))) s pa"
  shows "\<exists>s'. pcb_zombify (Some v) s = Inr s' \<and>
    reported s' pa (ARG s pa 2) (p_pid (ptable (kp s) v)) (p_exit_status (ptable (kp s) v)) \<and>
    qrep (kp s') Q_freelist (L Q_freelist @ [v]) \<and>
    p_state (ptable (kp s') pa) = STATE_READY \<and> qrep (kp s') Q_ready (qins (kp s) Q_ready pa (L Q_ready)) \<and>
    q_head (queues (kp s') Q_waiting) = Some pa \<and> (\<nexists>L'. qreps (kp s') L')"
proof -
  have v: "\<And>q. v \<notin> set (L q)" using assms(3) by blast
  obtain s' where S: "pcb_zombify (Some v) s = Inr s'"
    "qrep (kp s') Q_ready (qins (kp s) Q_ready pa (L Q_ready))" "qrep (kp s') Q_freelist (L Q_freelist @ [v])"
    "q_head (queues (kp s') Q_waiting) = Some pa" "p_state (ptable (kp s') pa) = STATE_READY"
    "reported s' pa (ARG s pa 2) (p_pid (ptable (kp s) v)) (p_exit_status (ptable (kp s) v))"
    by (rule pcb_zombify_parent_waiting [OF assms(1,2) v assms(4-10)])
  have "\<not> qreps (kp s') L'" for L'
  proof
    assume L': "qreps (kp s') L'"
    have "pa \<in> set (L' Q_ready)" using qrep_det [OF qrepsD(1) [OF L'] S(2)] by (simp add: pq.set_place)
    moreover have "pa \<in> set (L' Q_waiting)"
      using qrep_head [OF qrepsD(1) [OF L'], of Q_waiting] S(4) by (cases "L' Q_waiting") auto
    ultimately show False using qreps_unique_queue [OF L'] by blast
  qed
  with S show ?thesis by blast
qed

theorem pcb_zombify_parent_in_two_queues_witness:
  "\<exists>s'. pcb_zombify (Some 3) (sample_family 2 5) = Inr s' \<and> reported s' 2 0 7 0 \<and>
     p_state (ptable (kp s') 2) = STATE_READY \<and> q_head (queues (kp s') Q_waiting) = Some 2"
proof -
  let ?s = "sample_family 2 5"
  have st: "p_exit_status (ptable (kp ?s) 3) = 0" by (simp add: sample_family_def sample_pcb_def)
  have "pool (km ?s) {0x100000 ..< 0x104000}" using sample_pool by (simp add: family_simps)
  moreover have "stack_ok {0x100000 ..< 0x104000} (p_stack (ptable (kp ?s) 3)) (p_stkpgs (ptable (kp ?s) 3))"
    "report_ok ({0x100000 ..< 0x104000} \<union> span (p_stack (ptable (kp ?s) 3)) (stk_pages (p_stkpgs (ptable (kp ?s) 3)))) ?s 2"
    using family_memory(1) [of "0x300000"] family_memory(2) [of "0x300000" 2 5] by (simp_all add: family_simps stk_pages_def)
  moreover have "wakes_parent 2 (p_pid (ptable (kp ?s) 3)) ?s"
    by (simp add: wakes_parent_def family_simps family_ARG)
  ultimately show ?thesis
    using pcb_zombify_parent_in_two_queues [of ?s family_lists 3 2 "{0x100000 ..< 0x104000}"] family_qreps family_running
      family_orphans(1) [of 2] st
    by (auto simp: family_simps family_ARG)
qed

text \<open>The state counts: each is the number of table entries in that state, so they add up to the
  size of the table.\<close>

theorem ptable_counts_complete:
  "(\<forall>st. ptable_counts s st = of_nat (card {p. p < N_PROCS \<and> p_state (ptable s p) = st})) \<and>
   (\<Sum>st\<in>{STATE_UNUSED, STATE_NEW, STATE_READY, STATE_RUNNING, STATE_SLEEPING, STATE_BLOCKED,
      STATE_WAITING, STATE_KILLED, STATE_ZOMBIE}. ptable_counts s st) = of_nat N_PROCS"
proof -
  have c: "ptable_counts s st = of_nat (length (filter (\<lambda>p. p_state (ptable s p) = st) [0..<N_PROCS]))" for st
    unfolding ptable_counts_def by (subst counts_fold) simp
  have "length (filter (\<lambda>p. p_state (ptable s p) = st) [0..<N_PROCS]) = card {p. p < N_PROCS \<and> p_state (ptable s p) = st}" for st
    by (subst distinct_card [symmetric]) (auto simp del: upt_rec_numeral intro: arg_cong [where f = card])
  moreover have "(\<Sum>st\<in>{STATE_UNUSED, STATE_NEW, STATE_READY, STATE_RUNNING, STATE_SLEEPING, STATE_BLOCKED,
      STATE_WAITING, STATE_KILLED, STATE_ZOMBIE}. length (filter (\<lambda>p. p_state (ptable s p) = st) ps)) = length ps" for ps
  proof (induction ps)
    case (Cons p ps)
    then show ?case by (cases "p_state (ptable s p)") (simp_all)
  qed simp
  from this [of "[0..<N_PROCS]"] have "(\<Sum>st\<in>{STATE_UNUSED, STATE_NEW, STATE_READY, STATE_RUNNING, STATE_SLEEPING, STATE_BLOCKED,
      STATE_WAITING, STATE_KILLED, STATE_ZOMBIE}. length (filter (\<lambda>p. p_state (ptable s p) = st) [0..<N_PROCS])) = N_PROCS"
    by (simp del: upt_rec_numeral)
  ultimately show ?thesis unfolding c of_nat_sum [symmetric] by simp
qed


end
