(* ===== verification/Klib.thy ===== *)
theory Klib
  imports Memory "HOL-Library.Signed_Division"
begin

unbundle bit_operations_syntax

text \<open>
  The string and conversion routines of \<^verbatim>\<open>klibc.c\<close>. A buffer under construction is the list of the
  bytes stored so far, so that \<^verbatim>\<open>*buf++ = c\<close> appends to it and the length of the result is what
  the \<^verbatim>\<open>cvt\<close> routines return; a C \<^verbatim>\<open>int\<close> is an \<open>int\<close> on which \<open>wrap32\<close> marks the
  places where the arithmetic may leave the 32-bit range. The \<^verbatim>\<open>str\<close> routines work on memory; on a
  string that has no end they do not return, which is the value \<open>None\<close>.
\<close>

section \<open>Integers\<close>

definition wrap32 :: "int \<Rightarrow> int" where
  "wrap32 v = signed_take_bit 31 v"

definition bound :: "u32 \<Rightarrow> u32 \<Rightarrow> u32 \<Rightarrow> u32" where
  "bound mn v mx = (let v1 = (if v < mn then mn else v) in if v1 > mx then mx else v1)"

section \<open>Conversions\<close>

function cvtdec0 :: "u8 list \<Rightarrow> int \<Rightarrow> u8 list" where
  "cvtdec0 buf v =
     (let quotient = v sdiv 10;
          (q, v') = (if quotient < 0 then (214748364, 8) else (quotient, v));
          buf' = (if q \<noteq> 0 then cvtdec0 buf q else buf)
      in buf' @ [word_of_int (v' smod 10 + 48)])"
  by pat_completeness auto
termination
proof (relation "measure (\<lambda>(buf, v). if v < 0 then 2147483648 else nat v)", goal_cases)
  case (2 buf v quotient x q v')
  then show ?case
    by (auto simp: signed_divide_int_def sgn_if split: if_splits)
qed simp

declare cvtdec0.simps [simp del]

definition cvtdec :: "int \<Rightarrow> u8 list" where
  "cvtdec v = (let (bp, v') = (if v < 0 then ([45], wrap32 (- v)) else ([], v)) in cvtdec0 bp v')"

definition cvtuns0 :: "u8 list \<Rightarrow> u32 \<Rightarrow> u8 list" where
  "cvtuns0 buf v =
     (let quotient = v div 10;
          buf' = (if quotient \<noteq> 0 then cvtdec0 buf (sint quotient) else buf)
      in buf' @ [ucast (v mod 10 + 48)])"

definition cvtuns :: "u32 \<Rightarrow> u8 list" where
  "cvtuns v = cvtuns0 [] v"

definition hexdigits :: "u8 list" where
  "hexdigits = [48, 49, 50, 51, 52, 53, 54, 55, 56, 57, 65, 66, 67, 68, 69, 70]"

definition cvthex_step :: "nat \<Rightarrow> u8 list \<times> nat \<times> u32 \<Rightarrow> u8 list \<times> nat \<times> u32" where
  "cvthex_step i = (\<lambda>(buf, chars_stored, v).
     let val = v AND 0xf0000000
     in if chars_stored \<noteq> 0 \<or> val \<noteq> 0 \<or> i = 7
        then (buf @ [hexdigits ! unat (drop_bit 28 val AND 0xf)], chars_stored + 1, push_bit 4 v)
        else (buf, chars_stored, push_bit 4 v))"

definition cvthex :: "u32 \<Rightarrow> u8 list" where
  "cvthex v = fst (fold cvthex_step [0..<8] ([], 0, v))"

definition cvtbin :: "u32 \<Rightarrow> u8 list" where
  "cvtbin v = map (\<lambda>i. if drop_bit (32 - 1 - i) v AND 1 = 0 then 48 else 49) [0..<32]"

definition cvtoct_step :: "nat \<Rightarrow> u8 list \<times> bool \<times> u32 \<times> u32 \<Rightarrow> u8 list \<times> bool \<times> u32 \<times> u32" where
  "cvtoct_step i = (\<lambda>(bp, chars_stored, val, v).
     let (bp', cs') = (if i = 10 \<or> val \<noteq> 0 \<or> chars_stored
                       then (bp @ [ucast ((val AND 7) + 48)], True) else (bp, chars_stored));
         v' = push_bit 3 v
     in (bp', cs', drop_bit 29 (v' AND 0xe0000000), v'))"

definition cvtoct :: "u32 \<Rightarrow> u8 list" where
  "cvtoct v = fst (fold cvtoct_step [0..<11] ([], False, drop_bit 30 (v AND 0xc0000000), v))"

section \<open>Strings in memory\<close>

partial_function (option) strlen_loop :: "mem \<Rightarrow> addr \<Rightarrow> u32 \<Rightarrow> u32 option" where
  "strlen_loop m str len = (if m str = 0 then Some len else strlen_loop m (str + 1) (len + 1))"

definition strlen :: "mem \<Rightarrow> addr \<Rightarrow> u32 option" where
  "strlen m str = strlen_loop m str 0"

partial_function (option) strcpy_loop :: "mem \<Rightarrow> addr \<Rightarrow> addr \<Rightarrow> mem option" where
  "strcpy_loop m dst src =
     (let c = m src; m' = m(dst := c)
      in if c = 0 then Some m' else strcpy_loop m' (dst + 1) (src + 1))"

definition strcpy :: "mem \<Rightarrow> addr \<Rightarrow> addr \<Rightarrow> mem option" where
  "strcpy m dst src = strcpy_loop m dst src"

partial_function (option) find_nul :: "mem \<Rightarrow> addr \<Rightarrow> addr option" where
  "find_nul m dst = (if m dst = 0 then Some dst else find_nul m (dst + 1))"

definition strcat :: "mem \<Rightarrow> addr \<Rightarrow> addr \<Rightarrow> mem option" where
  "strcat m dst src = (case find_nul m dst of None \<Rightarrow> None | Some d \<Rightarrow> strcpy_loop m d src)"

partial_function (option) strcmp :: "mem \<Rightarrow> addr \<Rightarrow> addr \<Rightarrow> int option" where
  "strcmp m s1 s2 =
     (if m s1 \<noteq> 0 \<and> m s1 = m s2 then strcmp m (s1 + 1) (s2 + 1)
      else Some (sint (m s1) - sint (m s2)))"

partial_function (option) str2int_loop :: "mem \<Rightarrow> addr \<Rightarrow> int \<Rightarrow> u8 \<Rightarrow> int \<Rightarrow> int option" where
  "str2int_loop m str base bchar num =
     (if m str = 0 \<or> sint (m str) < 48 \<or> sint (m str) > sint bchar then Some num
      else str2int_loop m (str + 1) base bchar (wrap32 (num * base + sint (m str) - 48)))"

definition str2int :: "mem \<Rightarrow> addr \<Rightarrow> int \<Rightarrow> int option" where
  "str2int m str base =
     (let (sign, str') = (if m str = 45 then (- 1, str + 1) else (1, str));
          bchar = (if base \<noteq> 10 then word_of_int (48 + base - 1) else 57)
      in map_option (\<lambda>num. wrap32 (num * sign)) (str2int_loop m str' base bchar 0))"

section \<open>Formatted output\<close>

function pad :: "u8 list \<Rightarrow> int \<Rightarrow> u8 \<Rightarrow> u8 list" where
  "pad dst extra padchar = (if extra > 0 then pad (dst @ [padchar]) (extra - 1) padchar else dst)"
  by pat_completeness auto
termination by (relation "measure (\<lambda>(dst, extra, padchar). nat extra)") auto

declare pad.simps [simp del]

text \<open>The characters of \<open>str\<close> up to its NUL are a list, so that a negative \<open>len\<close> stands for its
  length.\<close>

definition padstr :: "u8 list \<Rightarrow> u8 list \<Rightarrow> int \<Rightarrow> int \<Rightarrow> bool \<Rightarrow> u8 \<Rightarrow> u8 list" where
  "padstr dst str len width leftadjust padchar =
     (let len' = (if len < 0 then int (length str) else len);
          extra = wrap32 (width - len');
          d1 = (if extra > 0 \<and> \<not> leftadjust then pad dst extra padchar else dst);
          d2 = d1 @ take (nat len') str
      in if extra > 0 \<and> leftadjust then pad d2 extra padchar else d2)"

text \<open>Reading the next character of the format; \<open>fmt\<close> includes the terminating NUL, and reading past it is
  reading whatever follows the string.\<close>

definition next_ch :: "u8 list \<Rightarrow> (u8 \<times> u8 list) res" where
  "next_ch fmt = (case fmt of [] \<Rightarrow> Inl Wild | c # f \<Rightarrow> Inr (c, f))"

fun fmt_width :: "int \<Rightarrow> u8 \<Rightarrow> u8 list \<Rightarrow> (int \<times> u8 \<times> u8 list) res" where
  "fmt_width width ch [] = (if 48 \<le> ch \<and> ch \<le> 57 then Inl Wild else Inr (width, ch, []))"
| "fmt_width width ch (c # f) =
     (if 48 \<le> ch \<and> ch \<le> 57 then fmt_width (wrap32 (width * 10 + (uint ch - 48))) c f
      else Inr (width, ch, c # f))"

text \<open>The part of \<^verbatim>\<open>sprint\<close> and \<^verbatim>\<open>do_printf\<close> after a percent sign: alignment, fill, width and the
  conversion character.\<close>

definition fmt_opts :: "u8 list \<Rightarrow> (bool \<times> u8 \<times> int \<times> u8 \<times> u8 list) res" where
  "fmt_opts fmt =
     bindR (next_ch fmt) (\<lambda>(ch, f).
     bindR (if ch = 45 then bindR (next_ch f) (\<lambda>(c, f). Inr (True, c, f)) else Inr (False, ch, f)) (\<lambda>(left, ch, f).
     bindR (if ch = 48 then bindR (next_ch f) (\<lambda>(c, f). Inr (48, c, f)) else Inr (32, ch, f)) (\<lambda>(padchar, ch, f).
     bindR (fmt_width 0 ch f) (\<lambda>(width, ch, f). Inr (left, padchar, width, ch, f)))))"

text \<open>The characters of the string at \<open>p\<close>, up to its NUL.\<close>

partial_function (option) getstr :: "mem \<Rightarrow> addr \<Rightarrow> u8 list option" where
  "getstr m p =
     (if m p = 0 then Some []
      else Option.bind (getstr m (p + 1)) (\<lambda>s. Some (m p # s)))"

text \<open>One conversion: the characters and the length given to \<^verbatim>\<open>padstr\<close>, \<open>None\<close> for an unknown
  conversion character, which prints nothing and uses no argument.\<close>

definition convert :: "mem \<Rightarrow> u8 \<Rightarrow> u32 list \<Rightarrow> ((u8 list \<times> int) option \<times> u32 list) res" where
  "convert m ch ap =
     (if ch \<in> set [99, 100, 115, 120, 111, 117] then
        (case ap of
           [] \<Rightarrow> Inl Wild
         | a # ap' \<Rightarrow>
             bindR
               (if ch = 99 then Inr ([ucast a], 1)
                else if ch = 100 then (let b = cvtdec (sint a) in Inr (b, int (length b)))
                else if ch = 115 then (case getstr m a of None \<Rightarrow> Inl Hang | Some s \<Rightarrow> Inr (s, - 1))
                else if ch = 120 then (let b = cvthex a in Inr (b, int (length b)))
                else if ch = 111 then (let b = cvtoct a in Inr (b, int (length b)))
                else (let b = cvtuns a in Inr (b, int (length b))))
               (\<lambda>r. Inr (Some r, ap')))
      else Inr (None, ap))"

lemma fmt_width_shorter: "fmt_width w ch f = Inr (w', ch', f') \<Longrightarrow> length f' \<le> length f"
  by (induction w ch f rule: fmt_width.induct) (auto split: if_splits)

lemma fmt_opts_shorter: "fmt_opts f = Inr (l, p, w, ch, f') \<Longrightarrow> length f' < length f"
  unfolding fmt_opts_def
  by (auto simp: bindR_eq_Inr next_ch_def split: list.splits if_splits dest: fmt_width_shorter)

function sprint_loop :: "mem \<Rightarrow> u8 list \<Rightarrow> u8 list \<Rightarrow> u32 list \<Rightarrow> u8 list res" where
  "sprint_loop m dst [] ap = Inl Wild"
| "sprint_loop m dst (ch # fmt) ap =
     (if ch = 0 then Inr dst
      else if ch = 37 then
        bindR (fmt_opts fmt) (\<lambda>(left, padchar, width, c, f).
        bindR (convert m c ap) (\<lambda>(r, ap').
          case r of
            None \<Rightarrow> sprint_loop m dst f ap'
          | Some (str, len) \<Rightarrow> sprint_loop m (padstr dst str len width left padchar) f ap'))
      else sprint_loop m (dst @ [ch]) fmt ap)"
  by pat_completeness auto
termination
  by (relation "measure (\<lambda>(m, dst, fmt, ap). length fmt)") (auto dest: fmt_opts_shorter)

text \<open>What \<^verbatim>\<open>sprint\<close> puts in the destination buffer, without the NUL.\<close>

definition sprint :: "mem \<Rightarrow> u8 list \<Rightarrow> u32 list \<Rightarrow> u8 list res" where
  "sprint m fmt ap = sprint_loop m [] fmt ap"

section \<open>Digit strings\<close>

text \<open>The numeral of \<open>n\<close> in base \<open>b\<close>, most significant digit first.\<close>

function digs :: "nat \<Rightarrow> nat \<Rightarrow> nat list" where
  "digs b n = (if b < 2 \<or> n < b then [n] else digs b (n div b) @ [n mod b])"
  by pat_completeness auto
termination by (relation "measure snd") auto

declare digs.simps [simp del]

definition numeral_str :: "nat \<Rightarrow> nat \<Rightarrow> u8 list" where
  "numeral_str b n = map (\<lambda>d. hexdigits ! d) (digs b n)"

lemma digs_less: "n < b \<Longrightarrow> digs b n = [n]"
  by (simp add: digs.simps)

lemma digs_step: "2 \<le> b \<Longrightarrow> b \<le> n \<Longrightarrow> digs b n = digs b (n div b) @ [n mod b]"
  by (subst digs.simps) simp

lemma digs_not_Nil [simp]: "digs b n \<noteq> []"
  by (subst digs.simps) simp

lemma digs_bound: "2 \<le> b \<Longrightarrow> d \<in> set (digs b n) \<Longrightarrow> d < b"
proof (induction b n rule: digs.induct)
  case (1 b n)
  then show ?case
    by (cases "n < b") (auto simp: digs_less digs_step)
qed

lemma length_digs: "2 \<le> b \<Longrightarrow> n < b ^ k \<Longrightarrow> 0 < k \<Longrightarrow> length (digs b n) \<le> k"
proof (induction k arbitrary: n)
  case (Suc k)
  show ?case
  proof (cases "n < b")
    case True
    then show ?thesis by (simp add: digs_less)
  next
    case False
    then have "k \<noteq> 0" using Suc.prems by (cases k) auto
    moreover have "n div b < b ^ k" using Suc.prems by (simp add: less_mult_imp_div_less mult.commute)
    ultimately show ?thesis using Suc False by (simp add: digs_step)
  qed
qed simp

text \<open>Reading a numeral back: Horner's rule.\<close>

definition horner :: "nat \<Rightarrow> nat \<Rightarrow> nat list \<Rightarrow> nat" where
  "horner b = foldl (\<lambda>acc d. acc * b + d)"

lemma horner_digs: "2 \<le> b \<Longrightarrow> horner b 0 (digs b n) = n"
proof (induction b n rule: digs.induct)
  case (1 b n)
  then show ?case
    by (cases "n < b") (simp_all add: digs_less digs_step horner_def)
qed

lemma hexdigits_dec: "d < 10 \<Longrightarrow> hexdigits ! d = of_nat (d + 48)"
proof -
  assume "d < 10"
  then have "d \<in> {0, 1, 2, 3, 4, 5, 6, 7, 8, 9}" by auto
  then show ?thesis by (auto simp: hexdigits_def)
qed

section \<open>The conversions print numerals\<close>

lemma cvtdec0_step:
  assumes "0 \<le> v"
  shows "cvtdec0 buf v = (if v div 10 \<noteq> 0 then cvtdec0 buf (v div 10) else buf) @ [word_of_int (v mod 10 + 48)]"
proof -
  have "v sdiv 10 = v div 10" "v smod 10 = v mod 10"
    using assms by (auto simp: signed_divide_int_def signed_modulo_int_def sgn_if)
  moreover have "\<not> v div 10 < 0" using assms by (simp add: not_less pos_imp_zdiv_nonneg_iff)
  ultimately show ?thesis by (subst cvtdec0.simps) (simp add: Let_def)
qed

lemma cvtdec0_eq: "0 \<le> v \<Longrightarrow> cvtdec0 buf v = buf @ numeral_str 10 (nat v)"
proof (induction "nat v" arbitrary: v rule: less_induct)
  case less
  have d: "word_of_int (v mod 10 + 48) = hexdigits ! (nat v mod 10)"
  proof -
    have "v mod 10 = int (nat v mod 10)" using less.prems by (simp add: zmod_int)
    then show ?thesis by (simp add: hexdigits_dec)
  qed
  show ?case
  proof (cases "v < 10")
    case True
    then have "v div 10 = 0" "nat v mod 10 = nat v" using less.prems by auto
    with d True show ?thesis by (subst cvtdec0_step [OF less.prems]) (simp add: numeral_str_def digs_less)
  next
    case False
    then have *: "v div 10 \<noteq> 0" "0 \<le> v div 10" "nat (v div 10) < nat v" by auto
    have "nat (v div 10) = nat v div 10" by (simp add: nat_div_distrib)
    moreover have "10 \<le> nat v" using False by simp
    ultimately have "numeral_str 10 (nat v) = numeral_str 10 (nat (v div 10)) @ [hexdigits ! (nat v mod 10)]"
      by (simp add: numeral_str_def digs_step)
    then show ?thesis
      using less.hyps [OF *(3,2)] *(1) d by (subst cvtdec0_step [OF less.prems]) simp
  qed
qed

lemma cvtdec0_min: "cvtdec0 buf (- 2147483648) = buf @ numeral_str 10 2147483648"
proof -
  have "cvtdec0 buf (- 2147483648) = cvtdec0 buf 214748364 @ [56]"
    by (subst cvtdec0.simps) (simp add: Let_def signed_divide_int_def signed_modulo_int_def)
  also have "\<dots> = buf @ numeral_str 10 2147483648"
    by (simp add: cvtdec0_eq numeral_str_def digs_step [of 10 2147483648] hexdigits_def)
  finally show ?thesis .
qed

lemma wrap32_id: "- (2 ^ 31) \<le> v \<Longrightarrow> v < 2 ^ 31 \<Longrightarrow> wrap32 v = v"
  by (simp add: wrap32_def signed_take_bit_int_eq_self)

lemma wrap32_min: "wrap32 2147483648 = - 2147483648"
  by (simp add: wrap32_def signed_take_bit_eq_take_bit_shift take_bit_eq_mod)

lemma cvtdec_eq:
  assumes "- (2 ^ 31) \<le> v" "v < 2 ^ 31"
  shows "cvtdec v = (if v < 0 then [45] else []) @ numeral_str 10 (nat \<bar>v\<bar>)"
proof (cases "v = - 2147483648")
  case True
  then show ?thesis by (simp add: cvtdec_def wrap32_min cvtdec0_min)
next
  case False
  then have "wrap32 (- v) = - v" if "v < 0" using that assms by (intro wrap32_id) auto
  then show ?thesis using cvtdec0_eq by (auto simp: cvtdec_def)
qed

lemma sint_small: "unat (w :: u32) < 2 ^ 31 \<Longrightarrow> sint w = int (unat w)"
  unfolding sint_uint by (subst signed_take_bit_int_eq_self) (simp_all add: uint_nat del: of_nat_unat)

lemma cvtuns_eq: "cvtuns v = numeral_str 10 (unat v)"
proof -
  have q: "sint (v div 10) = int (unat v div 10)"
  proof -
    have "unat (v div 10) < 2 ^ 31" using unat_u32 [of v] by (simp add: unat_div)
    then show ?thesis by (simp add: sint_small unat_div)
  qed
  have m: "ucast (v mod 10 + 48) = hexdigits ! (unat v mod 10)"
  proof -
    have "unat (v mod 10) = unat v mod 10" by (simp add: unat_mod)
    then have "v mod 10 + 48 = of_nat (unat v mod 10) + 48" by (metis of_nat_unat ucast_id)
    moreover have "ucast (of_nat n + 48 :: u32) = (hexdigits ! n :: u8)" if "n < 10" for n
    proof -
      have "n \<in> {0, 1, 2, 3, 4, 5, 6, 7, 8, 9}" using that by auto
      then show ?thesis by (auto simp: hexdigits_def)
    qed
    ultimately show ?thesis by simp
  qed
  have z: "v div 10 = 0 \<longleftrightarrow> unat v < 10"
    by (simp add: word_unat_eq_iff unat_div div_eq_0_iff)
  show ?thesis
  proof (cases "unat v < 10")
    case True
    with z m show ?thesis by (simp add: cvtuns_def cvtuns0_def numeral_str_def digs_less)
  next
    case False
    then have "numeral_str 10 (unat v) = numeral_str 10 (unat v div 10) @ [hexdigits ! (unat v mod 10)]"
      by (simp add: numeral_str_def digs_step)
    with False z m show ?thesis by (simp add: cvtuns_def cvtuns0_def q cvtdec0_eq)
  qed
qed

text \<open>The fixed-width numeral with its leading zeros removed is the numeral.\<close>

definition fixed_digs :: "nat \<Rightarrow> nat \<Rightarrow> nat \<Rightarrow> nat list" where
  "fixed_digs b k n = map (\<lambda>i. n div b ^ (k - 1 - i) mod b) [0..<k]"

lemma fixed_digs_Suc: "fixed_digs b (Suc k) n = fixed_digs b k (n div b) @ [n mod b]"
proof -
  have "n div b ^ (k - i) mod b = n div b div b ^ (k - 1 - i) mod b" if "i < k" for i
  proof -
    have "k - i = Suc (k - 1 - i)" using that by simp
    then show ?thesis by (simp add: div_mult2_eq)
  qed
  then show ?thesis by (simp add: fixed_digs_def)
qed

lemma dropWhile_fixed_digs:
  assumes "2 \<le> b" "n < b ^ k"
  shows "dropWhile (\<lambda>d. d = 0) (fixed_digs b k n) = (if n = 0 then [] else digs b n)"
  using assms(2)
proof (induction k arbitrary: n)
  case (Suc k)
  have IH: "dropWhile (\<lambda>d. d = 0) (fixed_digs b k (n div b)) = (if n div b = 0 then [] else digs b (n div b))"
    using Suc assms(1) by (simp add: less_mult_imp_div_less mult.commute)
  show ?case
  proof (cases "n < b")
    case True
    then have "set (fixed_digs b k (n div b)) \<subseteq> {0}" by (auto simp: fixed_digs_def)
    then have "\<forall>d\<in>set (fixed_digs b k (n div b)). d = 0" by blast
    with True show ?thesis by (simp add: fixed_digs_Suc dropWhile_append2 digs_less)
  next
    case False
    then have "n div b \<noteq> 0" using assms(1) by (simp add: div_eq_0_iff)
    with IH have "dropWhile (\<lambda>d. d = 0) (fixed_digs b k (n div b)) \<noteq> []" by simp
    then have "\<exists>d\<in>set (fixed_digs b k (n div b)). d \<noteq> 0" by (meson dropWhile_eq_Nil_conv)
    then show ?thesis using IH False assms(1) \<open>n div b \<noteq> 0\<close>
      by (auto simp: fixed_digs_Suc dropWhile_append1 digs_step)
  qed
qed (simp add: fixed_digs_def)

text \<open>Printing the digits of a list, all but the leading zeros, and the last one in any case.\<close>

definition emit :: "nat list \<Rightarrow> u8 list" where
  "emit ds = map (\<lambda>d. hexdigits ! d) (dropWhile (\<lambda>d. d = 0) (butlast ds) @ (if ds = [] then [] else [last ds]))"

lemma emit_fixed_digs:
  assumes "2 \<le> b" "n < b ^ Suc k"
  shows "emit (fixed_digs b (Suc k) n) = numeral_str b n"
proof -
  have "dropWhile (\<lambda>d. d = 0) (fixed_digs b k (n div b)) = (if n div b = 0 then [] else digs b (n div b))"
    using assms by (intro dropWhile_fixed_digs) (simp_all add: less_mult_imp_div_less mult.commute)
  then show ?thesis
    using assms by (cases "n < b") (auto simp: emit_def fixed_digs_Suc numeral_str_def digs_less digs_step div_eq_0_iff)
qed

lemma drop_top:
  fixes y :: u32
  shows "drop_bit 28 y AND 0xf = drop_bit 28 y" "drop_bit 29 y AND 7 = drop_bit 29 y"
proof -
  have m: "(0xf :: u32) = mask 4" "(7 :: u32) = mask 3" by (simp_all add: mask_eq_exp_minus_1)
  show "drop_bit 28 y AND 0xf = drop_bit 28 y" "drop_bit 29 y AND 7 = drop_bit 29 y"
    unfolding m by (rule bit_word_eqI, auto simp: bit_simps dest: bit_imp_le_length)+
qed

lemma top_nibble:
  fixes y :: u32
  shows "drop_bit 28 (y AND 0xf0000000) AND 0xf = drop_bit 28 y" "y AND 0xf0000000 = 0 \<longleftrightarrow> drop_bit 28 y = 0"
proof -
  have m: "(0xf0000000 :: u32) = push_bit 28 (mask 4)" by (simp add: mask_eq_exp_minus_1 push_bit_eq_mult)
  have f: "(0xf :: u32) = mask 4" by (simp add: mask_eq_exp_minus_1)
  show "drop_bit 28 (y AND 0xf0000000) AND 0xf = drop_bit 28 y"
    unfolding m f by (rule bit_word_eqI) (auto simp: bit_simps dest: bit_imp_le_length)
  have "y AND 0xf0000000 = push_bit 28 (drop_bit 28 y)"
    unfolding m by (rule bit_word_eqI) (auto simp: bit_simps)
  moreover have "drop_bit 28 (push_bit 28 (drop_bit 28 y)) = drop_bit 28 y"
    by (rule bit_word_eqI) (auto simp: bit_simps dest: bit_imp_le_length)
  ultimately show "y AND 0xf0000000 = 0 \<longleftrightarrow> drop_bit 28 y = 0"
    by (metis drop_bit_of_0 push_bit_of_0)
qed

lemma hex_digit:
  fixes v :: u32
  assumes "i < 8"
  shows "unat (drop_bit 28 (push_bit (4 * i) v)) = unat v div 16 ^ (7 - i) mod 16"
proof -
  have eq: "drop_bit 28 (push_bit (4 * i) v) = take_bit 4 (drop_bit (4 * (7 - i)) v)"
  proof (rule bit_word_eqI)
    fix n assume "n < LENGTH(32)"
    have "28 + n - 4 * i = 4 * (7 - i) + n" using assms by simp
    then show "bit (drop_bit 28 (push_bit (4 * i) v)) n = bit (take_bit 4 (drop_bit (4 * (7 - i)) v)) n"
      using assms by (auto simp: bit_simps)
  qed
  have "unat (take_bit 4 (drop_bit (4 * (7 - i)) v)) = take_bit 4 (drop_bit (4 * (7 - i)) (unat v))"
    using unat_u32 [of v] by (simp only: unsigned_take_bit_eq unsigned_drop_bit_eq) (simp add: take_bit_eq_mod)
  then show ?thesis unfolding eq by (simp add: take_bit_eq_mod drop_bit_eq_div power_mult)
qed

lemma fold_cvthex:
  "i \<le> 7 \<Longrightarrow> fold cvthex_step [0..<i] ([], 0, v) =
     (let ds = dropWhile (\<lambda>d. d = 0) (map (\<lambda>j. unat v div 16 ^ (7 - j) mod 16) [0..<i])
      in (map (\<lambda>d. hexdigits ! d) ds, length ds, push_bit (4 * i) v))"
proof (induction i)
  case (Suc i)
  let ?ds = "map (\<lambda>j. unat v div 16 ^ (7 - j) mod 16) [0..<i]" and ?d = "unat v div 16 ^ (7 - i) mod 16"
  have d: "unat (drop_bit 28 (push_bit (4 * i) v AND 0xf0000000) AND 0xf) = ?d"
    "push_bit (4 * i) v AND 0xf0000000 = 0 \<longleftrightarrow> ?d = 0"
    unfolding top_nibble using Suc.prems hex_digit [of i v] unat_eq_zero [of "drop_bit 28 (push_bit (4 * i) v)"] by auto
  have "push_bit 4 (push_bit (4 * i) v) = push_bit (4 * Suc i) v" by (simp add: add.commute)
  moreover have "dropWhile (\<lambda>d. d = 0) (?ds @ [?d]) =
      (if dropWhile (\<lambda>d. d = 0) ?ds \<noteq> [] \<or> ?d \<noteq> 0 then dropWhile (\<lambda>d. d = 0) ?ds @ [?d] else [])"
    by (cases "\<exists>x\<in>set ?ds. x \<noteq> 0") (auto simp: dropWhile_append dropWhile_eq_Nil_conv)
  ultimately show ?case
    using Suc.IH Suc.prems d by (simp add: cvthex_step_def Let_def)
qed simp

lemma cvthex_eq: "cvthex v = numeral_str 16 (unat v)"
proof -
  let ?d = "\<lambda>j. unat v div 16 ^ (7 - j) mod 16"
  have "8 = Suc 7" by simp
  then have upt: "[0..<8] = [0..<7] @ [7]" using upt_Suc_append [OF le0, of 7] by (simp only:)
  have fd: "fixed_digs 16 8 (unat v) = map ?d [0..<7] @ [?d 7]"
    unfolding fixed_digs_def upt by simp
  from upt have "cvthex v = fst (cvthex_step 7 (fold cvthex_step [0..<7] ([], 0, v)))"
    unfolding cvthex_def by (simp only: fold_append fold_simps comp_apply)
  also have "\<dots> = emit (fixed_digs 16 8 (unat v))"
    unfolding fold_cvthex [OF order.refl] fd emit_def using hex_digit [of 7 v]
    by (simp add: cvthex_step_def Let_def top_nibble drop_top)
  also have "\<dots> = numeral_str 16 (unat v)"
    using emit_fixed_digs [of 16 "unat v" 7] unat_u32 [of v] by simp
  finally show ?thesis .
qed

text \<open>The octal digits: the code takes the first two bits and then shifts by three, so it prints the
  numeral of the double.\<close>

lemma octal_char:
  fixes val :: u32
  assumes "unat val = d" "d < 8"
  shows "ucast ((val AND 7) + 48) = hexdigits ! d"
proof -
  have "d \<in> {0, 1, 2, 3, 4, 5, 6, 7}" using assms(2) by auto
  moreover have "val = of_nat d" using assms(1) by (metis of_nat_unat ucast_id)
  ultimately show ?thesis by (auto simp: hexdigits_def)
qed

lemma oct_digit:
  fixes v :: u32
  assumes "i \<le> 10"
  shows "unat (drop_bit 29 (push_bit (3 * i) v)) = 2 * unat v div 8 ^ (10 - i) mod 8"
proof (cases "i = 10")
  case True
  have "unat (push_bit 30 v) = unat v * 1073741824 mod (4 * 1073741824)"
    by (simp only: unsigned_push_bit_eq) (simp add: push_bit_eq_mult take_bit_eq_mod)
  also have "\<dots> = unat v mod 4 * 1073741824" by (rule mod_mult_mult2)
  finally have "unat (drop_bit 29 (push_bit 30 v)) = 2 * (unat v mod 4)"
    by (simp only: unsigned_drop_bit_eq) (simp add: drop_bit_eq_div take_bit_eq_mod)
  also have "\<dots> = 2 * unat v mod 8" using mod_mult_mult1 [of 2 "unat v" 4] by simp
  finally show ?thesis using True by simp
next
  case False
  let ?k = "29 - 3 * i"
  have eq: "drop_bit 29 (push_bit (3 * i) v) = take_bit 3 (drop_bit ?k v)"
  proof (rule bit_word_eqI)
    fix n assume "n < LENGTH(32)"
    have "29 + n - 3 * i = ?k + n" using assms False by simp
    then show "bit (drop_bit 29 (push_bit (3 * i) v)) n = bit (take_bit 3 (drop_bit ?k v)) n"
      using assms False by (auto simp: bit_simps)
  qed
  have "(8 :: nat) ^ (10 - i) = 2 * 2 ^ ?k"
  proof -
    have "3 * (10 - i) = Suc ?k" using assms False by simp
    then have "(2 :: nat) ^ (3 * (10 - i)) = 2 * 2 ^ ?k" by (simp only: power_Suc)
    then show ?thesis by (simp add: power_mult)
  qed
  then have "2 * unat v div 8 ^ (10 - i) = unat v div 2 ^ ?k" by (simp add: div_mult2_eq)
  moreover have "unat (take_bit 3 (drop_bit ?k v)) = unat v div 2 ^ ?k mod 8"
    using unat_u32 [of v] by (simp only: unsigned_take_bit_eq unsigned_drop_bit_eq) (simp add: take_bit_eq_mod drop_bit_eq_div)
  ultimately show ?thesis unfolding eq by simp
qed

lemma fold_cvtoct:
  assumes "unat v < 2 ^ 29"
  shows "i \<le> 10 \<Longrightarrow> fold cvtoct_step [0..<i] ([], False, drop_bit 30 (v AND 0xc0000000), v) =
     (let ds = dropWhile (\<lambda>d. d = 0) (map (\<lambda>j. 2 * unat v div 8 ^ (10 - j) mod 8) [0..<i])
      in (map (\<lambda>d. hexdigits ! d) ds, ds \<noteq> [], drop_bit 29 (push_bit (3 * i) v), push_bit (3 * i) v))"
proof (induction i)
  case 0
  have "drop_bit 29 v = 0"
    using assms unat_u32 [of v] by (simp only: word_unat_eq_iff unsigned_drop_bit_eq) (simp add: drop_bit_eq_div take_bit_eq_mod)
  moreover have "drop_bit 30 (v AND 0xc0000000) = drop_bit 1 (drop_bit 29 v) AND drop_bit 30 0xc0000000"
    by (simp add: drop_bit_and)
  ultimately show ?case by simp
next
  case (Suc i)
  let ?ds = "map (\<lambda>j. 2 * unat v div 8 ^ (10 - j) mod 8) [0..<i]" and ?d = "2 * unat v div 8 ^ (10 - i) mod 8"
  let ?val = "drop_bit 29 (push_bit (3 * i) v)"
  have d: "unat ?val = ?d" using Suc.prems by (intro oct_digit) simp
  have z: "?val = 0 \<longleftrightarrow> ?d = 0" using d by (metis unat_eq_zero)
  have c: "ucast ((?val AND 7) + 48) = hexdigits ! ?d" by (rule octal_char [OF d]) simp
  have p: "push_bit 3 (push_bit (3 * i) v) = push_bit (3 * Suc i) v" by (simp add: add.commute)
  have "dropWhile (\<lambda>d. d = 0) (?ds @ [?d]) =
      (if dropWhile (\<lambda>d. d = 0) ?ds \<noteq> [] \<or> ?d \<noteq> 0 then dropWhile (\<lambda>d. d = 0) ?ds @ [?d] else [])"
    by (cases "\<exists>x\<in>set ?ds. x \<noteq> 0") (auto simp: dropWhile_append dropWhile_eq_Nil_conv)
  then show ?case
    using Suc.IH Suc.prems z c p by (simp add: cvtoct_step_def Let_def drop_top)
qed

lemma cvtoct_double:
  assumes "unat v < 2 ^ 29"
  shows "cvtoct v = numeral_str 8 (2 * unat v)"
proof -
  let ?d = "\<lambda>j. 2 * unat v div 8 ^ (10 - j) mod 8"
  have "11 = Suc 10" by simp
  then have upt: "[0..<11] = [0..<10] @ [10]" using upt_Suc_append [OF le0, of 10] by (simp only:)
  have fd: "fixed_digs 8 11 (2 * unat v) = map ?d [0..<10] @ [?d 10]"
    unfolding fixed_digs_def upt by simp
  have d: "unat (drop_bit 29 (push_bit (3 * 10) v)) = ?d 10" by (rule oct_digit) simp
  have c: "ucast ((drop_bit 29 (push_bit (3 * 10) v) AND 7) + 48) = hexdigits ! ?d 10" by (rule octal_char [OF d]) simp
  from upt have "cvtoct v = fst (cvtoct_step 10 (fold cvtoct_step [0..<10] ([], False, drop_bit 30 (v AND 0xc0000000), v)))"
    unfolding cvtoct_def by (simp only: fold_append fold_simps comp_apply)
  also have "\<dots> = emit (fixed_digs 8 11 (2 * unat v))"
    unfolding fold_cvtoct [OF assms order.refl] fd emit_def using c by (simp add: cvtoct_step_def Let_def)
  also have "\<dots> = numeral_str 8 (2 * unat v)"
    using emit_fixed_digs [of 8 "2 * unat v" 10] assms by simp
  finally show ?thesis .
qed

section \<open>NUL-terminated strings\<close>

fun cstr :: "mem \<Rightarrow> addr \<Rightarrow> u8 list \<Rightarrow> bool" where
  "cstr m p [] \<longleftrightarrow> m p = 0"
| "cstr m p (c # cs) \<longleftrightarrow> c \<noteq> 0 \<and> m p = c \<and> cstr m (p + 1) cs"

lemma cstr_cong:
  "(\<And>i. i \<le> length s \<Longrightarrow> m (p + of_nat i) = m' (p + of_nat i)) \<Longrightarrow> cstr m p s = cstr m' p s"
proof (induction s arbitrary: p)
  case (Cons c cs)
  have "m (p + 1 + of_nat i) = m' (p + 1 + of_nat i)" if "i \<le> length cs" for i
    using Cons.prems [of "Suc i"] that by (simp add: add.assoc)
  then have "cstr m (p + 1) cs = cstr m' (p + 1) cs" by (rule Cons.IH)
  moreover have "m p = m' p" using Cons.prems [of 0] by simp
  ultimately show ?case by simp
qed (use cstr.simps(1) in force)

lemma strlen_loop_cstr: "cstr m p s \<Longrightarrow> strlen_loop m p n = Some (n + of_nat (length s))"
proof (induction s arbitrary: p n)
  case Nil
  then show ?case by (subst strlen_loop.simps) simp
next
  case (Cons c cs)
  then show ?case by (subst strlen_loop.simps) (simp add: algebra_simps)
qed

lemma strlen_cstr: "cstr m p s \<Longrightarrow> strlen m p = Some (of_nat (length s))"
  by (simp add: strlen_def strlen_loop_cstr)

lemma getstr_cstr: "cstr m p s \<Longrightarrow> getstr m p = Some s"
  by (induction s arbitrary: p) (subst getstr.simps, simp)+

lemma strcpy_loop_cstr:
  assumes "cstr m src s" "apart dst (Suc (length s)) src (Suc (length s))" "length s < 2 ^ 31"
  shows "strcpy_loop m dst src = Some (store_bytes dst (s @ [0]) m)"
  using assms
proof (induction s arbitrary: m dst src)
  case Nil
  then show ?case by (subst strcpy_loop.simps) (simp add: store_bytes_Cons)
next
  case (Cons c cs)
  have "src + 1 + of_nat i \<noteq> dst" if "i \<le> length cs" for i
  proof
    assume "src + 1 + of_nat i = dst"
    then have "dst - src = of_nat (Suc i)" by (simp add: algebra_simps)
    then have "unat (dst - src) = Suc i" using that Cons.prems(3) by (simp only: unat_of_nat) simp
    with Cons.prems(2) that show False by (simp add: apart_def)
  qed
  then have "cstr (m(dst := c)) (src + 1) cs = cstr m (src + 1) cs" by (intro cstr_cong) simp
  then have str: "cstr (m(dst := c)) (src + 1) cs" using Cons.prems(1) by simp
  have "strcpy_loop (m(dst := c)) (dst + 1) (src + 1) = Some (store_bytes (dst + 1) (cs @ [0]) (m(dst := c)))"
    by (rule Cons.IH [OF str]) (use Cons.prems in \<open>auto simp: apart_def\<close>)
  then show ?case using Cons.prems by (subst strcpy_loop.simps) (simp add: store_bytes_Cons Let_def)
qed

lemma strcmp_cstr:
  assumes "cstr m p s" "cstr m q t"
  shows "\<exists>r. strcmp m p q = Some r \<and> (r = 0 \<longleftrightarrow> s = t) \<and>
    (r < 0 \<longleftrightarrow> (s @ [0], t @ [0]) \<in> lexord {(a, b). sint a < sint b})"
  using assms
proof (induction s arbitrary: p q t)
  case Nil
  then show ?case
    by (cases t) (subst strcmp.simps, auto simp: signed_eq_0_iff)+
next
  case (Cons a s)
  show ?case
  proof (cases "\<exists>t'. t = a # t'")
    case True
    then obtain t' where t: "t = a # t'" by blast
    with Cons obtain r where "strcmp m (p + 1) (q + 1) = Some r" "r = 0 \<longleftrightarrow> s = t'"
      "r < 0 \<longleftrightarrow> (s @ [0], t' @ [0]) \<in> lexord {(a, b). sint a < sint b}" by fastforce
    moreover have "strcmp m p q = strcmp m (p + 1) (q + 1)"
      using Cons.prems t by (subst strcmp.simps) auto
    ultimately show ?thesis using t by auto
  next
    case False
    then have "m p \<noteq> m q" using Cons.prems by (cases t) auto
    then have "strcmp m p q = Some (sint (m p) - sint (m q))" by (subst strcmp.simps) simp
    moreover have "m p = a" "m q = hd (t @ [0])" using Cons.prems by (cases t; simp)+
    moreover have "sint (m p) \<noteq> sint (m q)" using \<open>m p \<noteq> m q\<close> by (metis signed_word_eqI)
    ultimately show ?thesis using False by (cases t) auto
  qed
qed

section \<open>Reading numbers\<close>

lemma wrap32_eq_iff: "wrap32 a = wrap32 b \<longleftrightarrow> a mod 2 ^ 32 = b mod 2 ^ 32"
  by (simp add: wrap32_def signed_take_bit_eq_iff_take_bit_eq take_bit_eq_mod)

lemma wrap32_mod: "wrap32 a mod 2 ^ 32 = a mod 2 ^ 32"
  unfolding wrap32_def take_bit_eq_mod [symmetric] by (simp add: take_bit_signed_take_bit)

lemma wrap32_mult_add: "wrap32 (wrap32 a * b + c) = wrap32 (a * b + c)"
  unfolding wrap32_eq_iff by (metis mod_add_left_eq mod_mult_left_eq wrap32_mod)

lemma str2int_loop_digits:
  assumes "cstr m p (map (\<lambda>d. hexdigits ! d) ds)" "\<And>d. d \<in> set ds \<Longrightarrow> d < 10"
  shows "str2int_loop m p 10 57 (wrap32 (int n)) = Some (wrap32 (int (horner 10 n ds)))"
  using assms
proof (induction ds arbitrary: p n)
  case Nil
  then show ?case by (subst str2int_loop.simps) (simp add: horner_def)
next
  case (Cons d ds)
  have d: "d \<in> {0, 1, 2, 3, 4, 5, 6, 7, 8, 9}" using Cons.prems(2) [of d] by auto
  have c: "m p = hexdigits ! d" using Cons.prems(1) by simp
  have "sint (m p) = 48 + int d" "m p \<noteq> 0" unfolding c using d by (auto simp: hexdigits_def)
  then have "str2int_loop m p 10 57 (wrap32 (int n)) = str2int_loop m (p + 1) 10 57 (wrap32 (wrap32 (int n) * 10 + int d))"
    using Cons.prems(2) [of d] by (subst str2int_loop.simps) simp
  also have "wrap32 (wrap32 (int n) * 10 + int d) = wrap32 (int (n * 10 + d))" by (simp add: wrap32_mult_add)
  also have "str2int_loop m (p + 1) 10 57 \<dots> = Some (wrap32 (int (horner 10 (n * 10 + d) ds)))"
    by (rule Cons.IH) (use Cons.prems in auto)
  finally show ?case by (simp add: horner_def)
qed

lemma str2int_cvtdec:
  assumes "cstr m p (cvtdec v)" "- (2 ^ 31) \<le> v" "v < 2 ^ 31"
  shows "str2int m p 10 = Some v"
proof -
  let ?n = "nat \<bar>v\<bar>"
  have s: "cstr m p ((if v < 0 then [45] else []) @ map (\<lambda>d. hexdigits ! d) (digs 10 ?n))"
    using assms by (simp add: cvtdec_eq numeral_str_def)
  have loop: "str2int_loop m q 10 57 0 = Some (wrap32 (int ?n))" if "cstr m q (map (\<lambda>d. hexdigits ! d) (digs 10 ?n))" for q
    using str2int_loop_digits [OF that, of 0] digs_bound [of 10] horner_digs [of 10 ?n] by (simp add: wrap32_def)
  show ?thesis
  proof (cases "v < 0")
    case True
    then have "m p = 45" "cstr m (p + 1) (map (\<lambda>d. hexdigits ! d) (digs 10 ?n))" using s by auto
    moreover have "wrap32 (wrap32 (int ?n) * - 1) = v"
      using wrap32_mult_add [of "int ?n" "- 1" 0] True wrap32_id [OF assms(2,3)] by simp
    ultimately show ?thesis using loop by (simp add: str2int_def)
  next
    case False
    obtain d ds where d: "digs 10 ?n = d # ds" by (meson digs_not_Nil neq_Nil_conv)
    then have "d < 10" using digs_bound [of 10 d ?n] by simp
    then have "d \<in> {0, 1, 2, 3, 4, 5, 6, 7, 8, 9}" by auto
    then have "hexdigits ! d \<noteq> 45" by (auto simp: hexdigits_def)
    moreover have str: "cstr m p (map (\<lambda>d. hexdigits ! d) (digs 10 ?n))" using s False by simp
    then have "m p = hexdigits ! d" using d by simp
    ultimately show ?thesis
      using False loop [OF str] wrap32_id [OF assms(2,3)] by (simp add: str2int_def)
  qed
qed

section \<open>Padding and formats\<close>

lemma pad_eq: "pad dst extra c = dst @ replicate (nat extra) c"
proof (induction dst extra c rule: pad.induct)
  case (1 dst extra c)
  show ?case
  proof (cases "extra > 0")
    case True
    then have "nat extra = Suc (nat (extra - 1))" by simp
    with 1 True show ?thesis by (subst pad.simps) simp
  qed (subst pad.simps, simp)
qed

lemma padstr_eq:
  assumes "len < 0 \<or> len = int (length str)" "- (2 ^ 31) \<le> width - int (length str)" "width - int (length str) < 2 ^ 31"
  shows "padstr dst str len width left c =
    (let fill = replicate (nat width - length str) c in dst @ (if left then str @ fill else fill @ str))"
proof -
  have "(if len < 0 then int (length str) else len) = int (length str)" using assms(1) by auto
  moreover have "wrap32 (width - int (length str)) = width - int (length str)" using assms(2,3) by (rule wrap32_id)
  moreover have "nat (width - int (length str)) = nat width - length str" by (simp add: nat_diff_distrib')
  ultimately show ?thesis by (simp add: padstr_def Let_def pad_eq)
qed

lemma sprint_loop_literal:
  assumes "0 \<notin> set lit" "37 \<notin> set lit"
  shows "sprint_loop m dst (lit @ rest) ap = sprint_loop m (dst @ lit) rest ap"
  using assms by (induction lit arbitrary: dst) auto

lemma length_numeral_str: "2 \<le> b \<Longrightarrow> n < b ^ k \<Longrightarrow> 0 < k \<Longrightarrow> length (numeral_str b n) \<le> k"
  by (simp add: numeral_str_def length_digs)

text \<open>The escape \<^verbatim>\<open>\x%02x\<close> that the console uses for characters that do not print.\<close>

definition hex_escape :: "u8 list" where
  "hex_escape = [92, 120, 37, 48, 50, 120, 0]"

lemma sprint_hex_escape:
  assumes "c < 256"
  shows "\<exists>ds. sprint m hex_escape [c] = Inr ([92, 120] @ ds) \<and> length ds = 2"
proof -
  have c: "unat c < 256" using assms by (simp add: word_less_nat_alt)
  then have l: "length (cvthex c) \<le> 2" unfolding cvthex_eq by (intro length_numeral_str) simp_all
  have opts: "fmt_opts [48, 50, 120, 0] = Inr (False, 48, 2, 120, [0])"
    by (simp add: fmt_opts_def next_ch_def wrap32_def)
  have "sprint m hex_escape [c] = Inr (padstr [92, 120] (cvthex c) (int (length (cvthex c))) 2 False 48)"
    by (simp add: sprint_def hex_escape_def opts convert_def Let_def)
  also have "\<dots> = Inr ([92, 120] @ replicate (2 - length (cvthex c)) 48 @ cvthex c)"
    using l by (subst padstr_eq) (simp_all add: Let_def)
  finally show ?thesis using l by (intro exI [of _ "replicate (2 - length (cvthex c)) 48 @ cvthex c"]) simp
qed

section \<open>Properties\<close>

text \<open>The number printers are inverse to the number reader: whatever 32-bit signed value \<^verbatim>\<open>cvtdec\<close>
  prints, the most negative one included, \<^verbatim>\<open>str2int\<close> in base ten reads back from the NUL-terminated
  string.\<close>

theorem cvtdec_str2int_roundtrip:
  assumes "cstr m p (cvtdec (sint v))"
  shows "str2int m p 10 = Some (sint (v :: u32))"
  using assms sint_greater_eq [of v] sint_less [of v] by (intro str2int_cvtdec) simp_all

theorem cvtdec_str2int_roundtrip_witness:
  "cstr (store_bytes 100 ([45, 50, 49, 52, 55, 52, 56, 51, 54, 52, 56, 0]) (\<lambda>_. 0)) 100 (cvtdec (sint (0x80000000 :: u32))) \<and>
   str2int (store_bytes 100 ([45, 50, 49, 52, 55, 52, 56, 51, 54, 52, 56, 0]) (\<lambda>_. 0)) 100 10 = Some (- 2147483648)"
proof -
  have "sint (0x80000000 :: u32) = - 2147483648" by simp
  moreover have "cvtdec (- 2147483648) = [45, 50, 49, 52, 55, 52, 56, 51, 54, 52, 56]"
    by (simp add: cvtdec_eq numeral_str_def digs.simps hexdigits_def)
  ultimately have "cstr (store_bytes 100 ([45, 50, 49, 52, 55, 52, 56, 51, 54, 52, 56, 0]) (\<lambda>_. 0)) 100 (cvtdec (sint (0x80000000 :: u32)))"
    by (simp add: store_bytes_def inr_def)
  from this cvtdec_str2int_roundtrip [OF this] show ?thesis by simp
qed

lemma length_cvtoct: "length (cvtoct v) \<le> 11"
proof -
  have "length (fst (fold cvtoct_step xs st)) \<le> length xs + length (fst st)" for xs st
    by (induction xs arbitrary: st) (fastforce simp: cvtoct_step_def Let_def intro: order.trans)+
  from this [of "[0..<11]" "([], False, drop_bit 30 (v AND 0xc0000000), v)"] show ?thesis by (simp add: cvtoct_def)
qed

text \<open>The decimal and hexadecimal conversions print the numeral of their argument, without leading
  zeros and with a minus sign in front for a negative \<^verbatim>\<open>%d\<close>, and the result of every conversion of
  \<^verbatim>\<open>sprint\<close> with its NUL fits the twelve bytes of its local buffer.\<close>

theorem conversions_print_numerals:
  "cvtdec (sint (v :: u32)) = (if sint v < 0 then [45] else []) @ numeral_str 10 (nat \<bar>sint v\<bar>) \<and>
   cvtuns v = numeral_str 10 (unat v) \<and> cvthex v = numeral_str 16 (unat v) \<and>
   length (cvtdec (sint v)) + 1 \<le> 12 \<and> length (cvtuns v) + 1 \<le> 12 \<and> length (cvthex v) + 1 \<le> 12 \<and>
   length (cvtoct v) + 1 \<le> 12"
proof -
  have v: "- (2 ^ 31) \<le> sint v" "sint v < 2 ^ 31" using sint_greater_eq [of v] sint_less [of v] by simp_all
  have dec: "cvtdec (sint v) = (if sint v < 0 then [45] else []) @ numeral_str 10 (nat \<bar>sint v\<bar>)"
    using v by (rule cvtdec_eq)
  have "nat \<bar>sint v\<bar> < 10 ^ 10" using v by simp
  then have "length (numeral_str 10 (nat \<bar>sint v\<bar>)) \<le> 10" by (intro length_numeral_str) simp_all
  then have "length (cvtdec (sint v)) + 1 \<le> 12" unfolding dec by (cases "sint v < 0") (auto simp del: abs_if)
  moreover have "length (cvtuns v) \<le> 10" unfolding cvtuns_eq
    using unat_u32 [of v] by (intro length_numeral_str) simp_all
  moreover have "length (cvthex v) \<le> 8" unfolding cvthex_eq
    using unat_u32 [of v] by (intro length_numeral_str) simp_all
  ultimately show ?thesis using dec cvtuns_eq cvthex_eq length_cvtoct [of v] by simp
qed

text \<open>\<^verbatim>\<open>cvtoct\<close> does not print its argument: after the first two bits it shifts by three, one bit too
  far, and so it prints the octal numeral of twice the value (for values below two to the 29).\<close>

theorem cvtoct_prints_double:
  assumes "v < 0x20000000"
  shows "cvtoct v = numeral_str 8 (2 * unat v)"
  using assms by (intro cvtoct_double) (simp add: word_less_nat_alt)

theorem cvtoct_prints_double_witness: "cvtoct 8 = [50, 48]"
  using cvtoct_prints_double [of 8] by (simp add: numeral_str_def digs.simps hexdigits_def)

end
