(* ===== verification/Sio.thy ===== *)
theory Sio
  imports Klib
begin

unbundle bit_operations_syntax

text \<open>
  The serial driver, \<^verbatim>\<open>sio.c\<close>. Its two buffers are arrays of \<^verbatim>\<open>BUF_SIZE\<close> bytes with indices in
  place of the pointers \<^verbatim>\<open>innext\<close>, \<^verbatim>\<open>inlast\<close>, \<^verbatim>\<open>outnext\<close> and \<^verbatim>\<open>outlast\<close>; an access outside
  the array is the failure \<open>Wild\<close>. The bytes that port reads return are an argument of the
  operations that read ports, in the order in which the code reads them (an operation that reads
  beyond the end of that list is waiting for the device: \<open>Hang\<close>); port writes are
  recorded in \<open>uart_out\<close>, the latest last.
\<close>

section \<open>State\<close>

abbreviation BUF_SIZE :: nat where "BUF_SIZE \<equiv> 2048"

record sio_state =
  inbuffer :: "nat \<Rightarrow> u8"
  inlast :: nat
  innext :: nat
  incount :: u32
  outbuffer :: "nat \<Rightarrow> u8"
  outlast :: nat
  outnext :: nat
  outcount :: u32
  sending :: bool
  ier :: u8
  uart_out :: "(u16 \<times> u8) list"

abbreviation UA4_TXD :: u16 where "UA4_TXD \<equiv> 0x3f8"
abbreviation UA4_IER :: u16 where "UA4_IER \<equiv> 0x3f9"
abbreviation UA5_FCR :: u16 where "UA5_FCR \<equiv> 0x3fa"
abbreviation UA4_LCR :: u16 where "UA4_LCR \<equiv> 0x3fb"
abbreviation UA4_MCR :: u16 where "UA4_MCR \<equiv> 0x3fc"
abbreviation UA4_PORT2 :: u16 where "UA4_PORT2 \<equiv> 0x2f8"
abbreviation PIC1_CMD :: u16 where "PIC1_CMD \<equiv> 0x20"
abbreviation PIC_EOI :: u8 where "PIC_EOI \<equiv> 0x20"

abbreviation SIO_TX :: u8 where "SIO_TX \<equiv> 1"
abbreviation SIO_RX :: u8 where "SIO_RX \<equiv> 2"
abbreviation UA4_IER_RX_IE :: u8 where "UA4_IER_RX_IE \<equiv> 1"
abbreviation UA4_IER_TX_IE :: u8 where "UA4_IER_TX_IE \<equiv> 2"
abbreviation UA4_LSR_RXDA :: u8 where "UA4_LSR_RXDA \<equiv> 1"
abbreviation UA4_IIR_NO_INT :: u8 where "UA4_IIR_NO_INT \<equiv> 1"
abbreviation UA4_IIR_LINE_STATUS :: u8 where "UA4_IIR_LINE_STATUS \<equiv> 6"
abbreviation UA4_IIR_RX :: u8 where "UA4_IIR_RX \<equiv> 4"
abbreviation UA5_IIR_RX_FIFO :: u8 where "UA5_IIR_RX_FIFO \<equiv> 12"
abbreviation UA4_IIR_TX :: u8 where "UA4_IIR_TX \<equiv> 2"
abbreviation UA4_IIR_MODEM_STATUS :: u8 where "UA4_IIR_MODEM_STATUS \<equiv> 0"
abbreviation LF :: u8 where "LF \<equiv> 10"
abbreviation CR :: u8 where "CR \<equiv> 13"

definition outb :: "u16 \<Rightarrow> u8 \<Rightarrow> sio_state \<Rightarrow> sio_state" where
  "outb port v s = s\<lparr>uart_out := uart_out s @ [(port, v)]\<rparr>"

section \<open>Control\<close>

definition sio_init :: "sio_state \<Rightarrow> sio_state" where
  "sio_init s =
     fold (\<lambda>(p, v). outb p v)
       [(UA5_FCR, 0x20), (UA5_FCR, 0), (UA5_FCR, 1), (UA5_FCR, 3), (UA5_FCR, 7),
        (UA4_IER, 0), (UA4_PORT2 + 1, 0),
        (UA4_LCR, 0x80), (UA4_TXD, 12), (UA4_IER, 0),
        (UA4_PORT2 + 3, 0x80), (UA4_PORT2, 1), (UA4_PORT2 + 1, 0),
        (UA4_LCR, 3), (UA4_PORT2 + 3, 3), (UA4_MCR, 0xb)]
       (s\<lparr>inbuffer := \<lambda>_. 0, inlast := 0, innext := 0, incount := 0,
          outbuffer := \<lambda>_. 0, outlast := 0, outnext := 0, outcount := 0, sending := False, ier := 0\<rparr>)"

definition sio_enable :: "u8 \<Rightarrow> sio_state \<Rightarrow> u8 \<times> sio_state" where
  "sio_enable which s =
     (let old = ier s;
          i1 = (if which AND SIO_TX \<noteq> 0 then ier s OR UA4_IER_TX_IE else ier s);
          i2 = (if which AND SIO_RX \<noteq> 0 then i1 OR UA4_IER_RX_IE else i1);
          s1 = s\<lparr>ier := i2\<rparr>
      in (old, if old \<noteq> i2 then outb UA4_IER i2 s1 else s1))"

definition sio_disable :: "u8 \<Rightarrow> sio_state \<Rightarrow> u8 \<times> sio_state" where
  "sio_disable which s =
     (let old = ier s;
          i1 = (if which AND SIO_TX \<noteq> 0 then ier s AND NOT UA4_IER_TX_IE else ier s);
          i2 = (if which AND SIO_RX \<noteq> 0 then i1 AND NOT UA4_IER_RX_IE else i1);
          s1 = s\<lparr>ier := i2\<rparr>
      in (old, if old \<noteq> i2 then outb UA4_IER i2 s1 else s1))"

text \<open>\<^verbatim>\<open>while( (lsr & UA4_LSR_RXDA) != 0 )\<close>: every round reads the data and then the status again.\<close>

fun discard_loop :: "u8 \<Rightarrow> u8 list \<Rightarrow> u8 list res" where
  "discard_loop lsr bs =
     (if lsr AND UA4_LSR_RXDA \<noteq> 0 then
        (case bs of ch # lsr' # bs' \<Rightarrow> discard_loop lsr' bs' | _ \<Rightarrow> Inl Hang)
      else Inr bs)"

definition sio_flush :: "u8 list \<Rightarrow> u8 \<Rightarrow> sio_state \<Rightarrow> (u8 list \<times> sio_state) res" where
  "sio_flush bs which s =
     bindR
       (if which AND SIO_RX \<noteq> 0
        then (case bs of
                [] \<Rightarrow> Inl Hang
              | lsr # bs' \<Rightarrow> bindR (discard_loop lsr bs')
                  (\<lambda>r. Inr (r, s\<lparr>incount := 0, inlast := 0, innext := 0\<rparr>)))
        else Inr (bs, s))
       (\<lambda>(r, s1).
          Inr (r, if which AND SIO_TX \<noteq> 0
                  then s1\<lparr>outcount := 0, outlast := 0, outnext := 0, sending := False\<rparr> else s1))"

section \<open>Input\<close>

definition sio_inq_length :: "sio_state \<Rightarrow> u32" where
  "sio_inq_length s = incount s"

definition sio_readc :: "sio_state \<Rightarrow> (int \<times> sio_state) res" where
  "sio_readc s =
     (if incount s > 0 then
        (if innext s \<ge> BUF_SIZE then Inl Wild
         else
           let ch = uint (inbuffer s (innext s));
               s1 = s\<lparr>innext := innext s + 1, incount := incount s - 1\<rparr>;
               s2 = (if incount s1 < 1 then s1\<lparr>inlast := 0, innext := 0\<rparr> else s1)
           in Inr (ch, s2))
      else Inr (-1, s))"

text \<open>The copy loop of \<^verbatim>\<open>sio_read\<close>; note that it wraps \<^verbatim>\<open>innext\<close> only when it is beyond
  \<^verbatim>\<open>inbuffer + BUF_SIZE\<close>.\<close>

function sio_read_loop :: "addr \<Rightarrow> int \<Rightarrow> int \<Rightarrow> mem \<Rightarrow> sio_state \<Rightarrow> (int \<times> mem \<times> sio_state) res" where
  "sio_read_loop p ncopied len m s =
     (if incount s > 0 \<and> ncopied < len then
        (if innext s \<ge> BUF_SIZE then Inl Wild
         else sio_read_loop (p + 1) (ncopied + 1) len (m(p := inbuffer s (innext s)))
                (s\<lparr>innext := (if innext s + 1 > BUF_SIZE then 0 else innext s + 1),
                   incount := incount s - 1\<rparr>))
      else Inr (ncopied, m, s))"
  by pat_completeness auto
termination
  by (relation "measure (\<lambda>(p, ncopied, len, m, s). unat (incount s))")
    (auto simp: unat_minus_one unat_gt_0 word_neq_0_conv)

definition sio_read :: "addr \<Rightarrow> int \<Rightarrow> mem \<Rightarrow> sio_state \<Rightarrow> (int \<times> mem \<times> sio_state) res" where
  "sio_read buf len m s =
     (if incount s < 1 then Inr (0, m, s)
      else bindR (sio_read_loop buf 0 len m s)
        (\<lambda>(n, m', s'). Inr (n, m', if incount s' < 1 then s'\<lparr>inlast := 0, innext := 0\<rparr> else s')))"

section \<open>Output\<close>

text \<open>\<^verbatim>\<open>sio_writec\<close> for a character other than line feed, and its recursive call for line feed.\<close>

definition put_out :: "u8 \<Rightarrow> sio_state \<Rightarrow> sio_state res" where
  "put_out ch s =
     (if sending s then
        (if outlast s \<ge> BUF_SIZE then Inl Wild
         else Inr (s\<lparr>outbuffer := (outbuffer s)(outlast s := ch), outlast := outlast s + 1,
                     outcount := outcount s + 1\<rparr>))
      else Inr (snd (sio_enable SIO_TX (outb UA4_TXD ch (s\<lparr>sending := True\<rparr>)))))"

definition sio_writec :: "u8 \<Rightarrow> sio_state \<Rightarrow> sio_state res" where
  "sio_writec ch s = bindR (if ch = LF then put_out CR s else Inr s) (put_out ch)"

function sio_write_loop :: "mem \<Rightarrow> addr \<Rightarrow> int \<Rightarrow> int \<Rightarrow> sio_state \<Rightarrow> (int \<times> sio_state) res" where
  "sio_write_loop m p ncopied len s =
     (if ncopied < len \<and> unat (outcount s) < BUF_SIZE then
        (if outlast s \<ge> BUF_SIZE then Inl Wild
         else sio_write_loop m (p + 1) (ncopied + 1) len
                (s\<lparr>outbuffer := (outbuffer s)(outlast s := m p),
                   outlast := (if outlast s + 1 \<ge> BUF_SIZE then 0 else outlast s + 1),
                   outcount := outcount s + 1\<rparr>))
      else Inr (ncopied, s))"
  by pat_completeness auto
termination
  by (relation "measure (\<lambda>(m, p, ncopied, len, s). nat (len - ncopied))") auto

definition sio_write :: "mem \<Rightarrow> addr \<Rightarrow> int \<Rightarrow> sio_state \<Rightarrow> (int \<times> sio_state) res" where
  "sio_write m buf len s =
     (let first = m buf;
          (p, ncopied) = (if sending s then (buf, 0) else (buf + 1, 1))
      in bindR (sio_write_loop m p ncopied len s)
           (\<lambda>(n, s1). bindR (if sending s1 then Inr s1 else sio_writec first s1) (\<lambda>s2. Inr (n, s2))))"

definition sio_puts :: "mem \<Rightarrow> addr \<Rightarrow> sio_state \<Rightarrow> (int \<times> sio_state) res" where
  "sio_puts m buf s =
     (case strlen m buf of
        None \<Rightarrow> Inl Hang
      | Some n \<Rightarrow> bindR (sio_write m buf (sint n) s) (\<lambda>(_, s'). Inr (sint n, s')))"

section \<open>The interrupt handler\<close>

text \<open>The receiver loop: status, then data, as long as the status says there is some.\<close>

fun rx_loop :: "u8 list \<Rightarrow> sio_state \<Rightarrow> (u8 list \<times> sio_state) res" where
  "rx_loop [] s = Inl Hang"
| "rx_loop (lsr # bs) s =
     (if lsr AND UA4_LSR_RXDA \<noteq> 0 then
        (case bs of
           [] \<Rightarrow> Inl Hang
         | b # bs' \<Rightarrow>
             let ch = (if b = CR then LF else b)
             in if unat (incount s) < BUF_SIZE then
                  (if inlast s \<ge> BUF_SIZE then Inl Wild
                   else rx_loop bs' (s\<lparr>inbuffer := (inbuffer s)(inlast s := ch),
                                       inlast := inlast s + 1, incount := incount s + 1\<rparr>))
                else rx_loop bs' s)
      else Inr (bs, s))"

text \<open>Copying to the buffer of a process that was blocked; here \<^verbatim>\<open>innext\<close> does not wrap at all.\<close>

function deliver :: "addr \<Rightarrow> u32 \<Rightarrow> u32 \<Rightarrow> mem \<Rightarrow> sio_state \<Rightarrow> (u32 \<times> mem \<times> sio_state) res" where
  "deliver buf len num m s =
     (if len > 0 \<and> incount s > 0 then
        (if innext s \<ge> BUF_SIZE then Inl Wild
         else deliver (buf + 1) (len - 1) (num + 1) (m(buf := inbuffer s (innext s)))
                (s\<lparr>innext := innext s + 1, incount := incount s - 1\<rparr>))
      else Inr (num, m, s))"
  by pat_completeness auto
termination
  by (relation "measure (\<lambda>(buf, len, num, m, s). unat len)")
    (auto simp: unat_minus_one unat_gt_0 word_neq_0_conv)

declare sio_read_loop.simps [simp del] sio_write_loop.simps [simp del] deliver.simps [simp del]

definition sio_tx :: "sio_state \<Rightarrow> sio_state res" where
  "sio_tx s =
     (if sending s \<and> outcount s > 0 then
        (if outnext s \<ge> BUF_SIZE then Inl Wild
         else
           let s1 = outb UA4_TXD (outbuffer s (outnext s)) s
           in Inr (s1\<lparr>outnext := (if outnext s + 1 \<ge> BUF_SIZE then 0 else outnext s + 1),
                      outcount := outcount s - 1\<rparr>))
      else Inr (snd (sio_disable SIO_TX
                  (s\<lparr>outcount := 0, outlast := 0, outnext := 0, sending := False\<rparr>))))"

lemma rx_loop_shorter: "rx_loop bs s = Inr (bs', s') \<Longrightarrow> length bs' < length bs"
proof (induction bs s rule: rx_loop.induct)
  case (2 lsr bs s)
  then show ?case by (fastforce simp: Let_def split: if_splits list.splits)
qed simp

section \<open>The input buffer\<close>

definition in_ok :: "sio_state \<Rightarrow> bool" where
  "in_ok s \<longleftrightarrow> innext s \<le> inlast s \<and> inlast s \<le> BUF_SIZE \<and> unat (incount s) = inlast s - innext s"

definition inq :: "sio_state \<Rightarrow> u8 list" where
  "inq s = map (inbuffer s) [innext s..<inlast s]"

lemma length_inq: "in_ok s \<Longrightarrow> length (inq s) = unat (incount s)"
  by (simp add: inq_def in_ok_def)

definition crlf :: "u8 \<Rightarrow> u8" where
  "crlf b = (if b = CR then LF else b)"

text \<open>What the ports say when the characters \<open>cs\<close> arrive.\<close>

definition rx_script :: "u8 list \<Rightarrow> u8 list" where
  "rx_script cs = concat (map (\<lambda>c. [UA4_LSR_RXDA, c]) cs) @ [0]"

lemma rx_script_simps: "rx_script [] = [0]" "rx_script (c # cs) = UA4_LSR_RXDA # c # rx_script cs"
  by (simp_all add: rx_script_def)

lemma word_gt_0_unat: "(0 :: u32) < w \<longleftrightarrow> 0 < unat w"
  by (simp add: word_less_nat_alt)

lemma unat_plus_1: "unat (w :: u32) < BUF_SIZE \<Longrightarrow> unat (w + 1) = unat w + 1"
  using unat_add_nowrap [of w 1] by simp

lemma rx_loop_script:
  assumes "in_ok s" "inlast s + length cs \<le> BUF_SIZE"
  shows "\<exists>s'. rx_loop (rx_script cs @ rest) s = Inr (rest, s') \<and> in_ok s' \<and>
    inq s' = inq s @ map crlf cs \<and> innext s' = innext s \<and>
    s' = s\<lparr>inbuffer := inbuffer s', inlast := inlast s + length cs, incount := incount s'\<rparr>"
  using assms
proof (induction cs arbitrary: s)
  case Nil
  then show ?case by (simp add: rx_script_simps)
next
  case (Cons c cs)
  define s1 where "s1 = s\<lparr>inbuffer := (inbuffer s)(inlast s := crlf c), inlast := inlast s + 1, incount := incount s + 1\<rparr>"
  have lt: "unat (incount s) < BUF_SIZE" using Cons.prems by (auto simp: in_ok_def)
  have ok1: "in_ok s1" using Cons.prems(1) unat_plus_1 [OF lt] Cons.prems(2) by (auto simp: in_ok_def s1_def)
  have q1: "inq s1 = inq s @ [crlf c]" using Cons.prems(1) by (auto simp: inq_def s1_def in_ok_def)
  have step: "rx_loop (rx_script (c # cs) @ rest) s = rx_loop (rx_script cs @ rest) s1"
    using lt Cons.prems(2) by (simp add: rx_script_simps s1_def crlf_def)
  from Cons.IH [OF ok1] Cons.prems(2) obtain s' where
    S: "rx_loop (rx_script cs @ rest) s1 = Inr (rest, s')" "in_ok s'" "inq s' = inq s1 @ map crlf cs"
      "innext s' = innext s1"
      "s' = s1\<lparr>inbuffer := inbuffer s', inlast := inlast s1 + length cs, incount := incount s'\<rparr>"
    by (auto simp: s1_def)
  have "s' = s\<lparr>inbuffer := inbuffer s', inlast := inlast s + length (c # cs), incount := incount s'\<rparr>"
    by (subst S(5)) (simp add: s1_def)
  with S step q1 show ?case by (auto simp: s1_def)
qed

lemma inq_pop:
  assumes "in_ok s" "0 < incount s"
  shows "innext s < BUF_SIZE" "inq s = inbuffer s (innext s) # inq (s\<lparr>innext := innext s + 1, incount := incount s - 1\<rparr>)"
    "in_ok (s\<lparr>innext := innext s + 1, incount := incount s - 1\<rparr>)"
proof -
  have lt: "innext s < inlast s" using assms by (auto simp: in_ok_def word_gt_0_unat)
  then show "innext s < BUF_SIZE" using assms(1) by (simp add: in_ok_def)
  show "inq s = inbuffer s (innext s) # inq (s\<lparr>innext := innext s + 1, incount := incount s - 1\<rparr>)"
    using lt by (simp add: inq_def upt_conv_Cons)
  show "in_ok (s\<lparr>innext := innext s + 1, incount := incount s - 1\<rparr>)"
    using assms lt unat_minus_one [of "incount s"] by (auto simp: in_ok_def)
qed

lemma sio_read_loop_eq:
  assumes "in_ok s" "n \<le> len"
  shows "\<exists>s'. sio_read_loop p n len m s =
      Inr (n + int (length (take (nat (len - n)) (inq s))), store_bytes p (take (nat (len - n)) (inq s)) m, s') \<and>
    in_ok s' \<and> inq s' = drop (nat (len - n)) (inq s) \<and> s' = s\<lparr>innext := innext s', incount := incount s'\<rparr>"
  using assms
proof (induction p n len m s rule: sio_read_loop.induct)
  case (1 p n len m s)
  show ?case
  proof (cases "0 < incount s \<and> n < len")
    case False
    then have t: "take (nat (len - n)) (inq s) = []" and d: "drop (nat (len - n)) (inq s) = inq s"
      using 1(2,3) length_inq [OF 1(2)] by (auto simp: word_gt_0_unat)
    have "sio_read_loop p n len m s = Inr (n, m, s)" using False by (subst sio_read_loop.simps) auto
    then show ?thesis unfolding t d using 1(2) by simp
  next
    case True
    note pop = inq_pop [OF 1(2) conjunct1 [OF True]]
    let ?s = "s\<lparr>innext := innext s + 1, incount := incount s - 1\<rparr>"
    have wrap: "(if innext s + 1 > BUF_SIZE then 0 else innext s + 1) = innext s + 1" using pop(1) by simp
    have nn: "nat (len - n) = Suc (nat (len - (n + 1)))" using conjunct2 [OF True] by linarith
    have "length (inq s) \<le> BUF_SIZE" using 1(2) by (auto simp: inq_def in_ok_def)
    then have short: "length (take (nat (len - (n + 1))) (inq ?s)) < 2 ^ 32 - 1" using pop(2) by simp
    have nb: "\<not> innext s \<ge> BUF_SIZE" and le: "n + 1 \<le> len" using pop(1) True by simp_all
    from 1(1) [OF True nb, unfolded wrap, OF pop(3) le] obtain s' where
      "sio_read_loop (p + 1) (n + 1) len (m(p := inbuffer s (innext s))) ?s =
         Inr (n + 1 + int (length (take (nat (len - (n + 1))) (inq ?s))),
              store_bytes (p + 1) (take (nat (len - (n + 1))) (inq ?s)) (m(p := inbuffer s (innext s))), s')"
      "in_ok s'" "inq s' = drop (nat (len - (n + 1))) (inq ?s)" "s' = ?s\<lparr>innext := innext s', incount := incount s'\<rparr>"
      by blast
    then show ?thesis
      using True pop(1) wrap store_bytes_Cons [OF short, of p "inbuffer s (innext s)" m]
      by (subst sio_read_loop.simps) (simp add: pop(2) nn)
  qed
qed

lemma deliver_eq:
  assumes "in_ok s"
  shows "\<exists>s'. deliver p len n m s =
      Inr (n + of_nat (length (take (unat len) (inq s))), store_bytes p (take (unat len) (inq s)) m, s') \<and>
    in_ok s' \<and> inq s' = drop (unat len) (inq s) \<and> s' = s\<lparr>innext := innext s', incount := incount s'\<rparr>"
  using assms
proof (induction p len n m s rule: deliver.induct)
  case (1 p len n m s)
  show ?case
  proof (cases "0 < len \<and> 0 < incount s")
    case False
    then have t: "take (unat len) (inq s) = []" and d: "drop (unat len) (inq s) = inq s"
      using length_inq [OF 1(2)] by (auto simp: word_gt_0_unat)
    have "deliver p len n m s = Inr (n, m, s)" using False by (subst deliver.simps) auto
    then show ?thesis unfolding t d using 1(2) by simp
  next
    case True
    note pop = inq_pop [OF 1(2) conjunct2 [OF True]]
    let ?s = "s\<lparr>innext := innext s + 1, incount := incount s - 1\<rparr>"
    have nn: "unat len = Suc (unat (len - 1))" using True by (simp add: unat_minus_one word_gt_0_unat unat_gt_0)
    have "length (inq s) \<le> BUF_SIZE" using 1(2) by (auto simp: inq_def in_ok_def)
    then have short: "length (take (unat (len - 1)) (inq ?s)) < 2 ^ 32 - 1" using pop(2) by simp
    have nb: "\<not> innext s \<ge> BUF_SIZE" using pop(1) by simp
    from 1(1) [OF True nb pop(3)] obtain s' where
      "deliver (p + 1) (len - 1) (n + 1) (m(p := inbuffer s (innext s))) ?s =
         Inr (n + 1 + of_nat (length (take (unat (len - 1)) (inq ?s))),
              store_bytes (p + 1) (take (unat (len - 1)) (inq ?s)) (m(p := inbuffer s (innext s))), s')"
      "in_ok s'" "inq s' = drop (unat (len - 1)) (inq ?s)" "s' = ?s\<lparr>innext := innext s', incount := incount s'\<rparr>" by blast
    then show ?thesis
      using True pop(1) store_bytes_Cons [OF short, of p "inbuffer s (innext s)" m]
      by (subst deliver.simps) (simp add: pop(2) nn algebra_simps)
  qed
qed


lemma sio_read_eq:
  assumes "in_ok s" "0 \<le> len"
  shows "\<exists>s'. sio_read buf len m s =
      Inr (int (length (take (nat len) (inq s))), store_bytes buf (take (nat len) (inq s)) m, s') \<and>
    in_ok s' \<and> inq s' = drop (nat len) (inq s)"
proof (cases "incount s < 1")
  case True
  then have "inq s = []" using length_inq [OF assms(1)] by (simp add: word_less_nat_alt)
  then show ?thesis using True assms by (simp add: sio_read_def)
next
  case False
  obtain s' where S: "sio_read_loop buf 0 len m s =
      Inr (int (length (take (nat len) (inq s))), store_bytes buf (take (nat len) (inq s)) m, s')"
    "in_ok s'" "inq s' = drop (nat len) (inq s)"
    using sio_read_loop_eq [OF assms, of buf m] by auto
  have "incount s' < 1 \<Longrightarrow> inq s' = []" using length_inq [OF S(2)] by (simp add: word_less_nat_alt)
  then show ?thesis using False S
    by (intro exI [of _ "if incount s' < 1 then s'\<lparr>inlast := 0, innext := 0\<rparr> else s'"])
      (auto simp: sio_read_def in_ok_def inq_def word_less_nat_alt)
qed

section \<open>The output ring\<close>

definition out_ok :: "sio_state \<Rightarrow> bool" where
  "out_ok s \<longleftrightarrow> outnext s < BUF_SIZE \<and> unat (outcount s) \<le> BUF_SIZE \<and>
     outlast s = (outnext s + unat (outcount s)) mod BUF_SIZE"

definition outq :: "sio_state \<Rightarrow> u8 list" where
  "outq s = map (\<lambda>i. outbuffer s ((outnext s + i) mod BUF_SIZE)) [0..<unat (outcount s)]"

definition tx_bytes :: "sio_state \<Rightarrow> u8 list" where
  "tx_bytes s = map snd (filter (\<lambda>(p, v). p = UA4_TXD) (uart_out s))"

lemma length_outq: "length (outq s) = unat (outcount s)"
  by (simp add: outq_def)

lemma mod_wrap: "n < BUF_SIZE \<Longrightarrow> (n + 1) mod BUF_SIZE = (if n + 1 \<ge> BUF_SIZE then 0 else n + 1)"
  by (cases "n + 1 = BUF_SIZE") auto

text \<open>Adding one byte at the tail, with the wrap of \<^verbatim>\<open>sio_write\<close>.\<close>

definition out_pushed :: "u8 \<Rightarrow> sio_state \<Rightarrow> sio_state" where
  "out_pushed b s = s\<lparr>outbuffer := (outbuffer s)(outlast s := b),
     outlast := (if outlast s + 1 \<ge> BUF_SIZE then 0 else outlast s + 1), outcount := outcount s + 1\<rparr>"

lemma out_push:
  assumes "out_ok s" "unat (outcount s) < BUF_SIZE"
  shows "outlast s < BUF_SIZE" "out_ok (out_pushed b s)" "outq (out_pushed b s) = outq s @ [b]"
proof -
  let ?s1 = "out_pushed b s"
  show lt: "outlast s < BUF_SIZE" using assms(1) by (simp add: out_ok_def)
  have c: "unat (outcount s + 1) = Suc (unat (outcount s))" using unat_plus_1 [OF assms(2)] by simp
  have "(outlast s + 1) mod BUF_SIZE = (outnext s + (unat (outcount s) + 1)) mod BUF_SIZE"
    using assms(1) by (simp add: out_ok_def mod_simps)
  then show "out_ok ?s1" using assms(1,2) c mod_wrap [OF lt] by (auto simp: out_ok_def out_pushed_def)
  have "(outnext s + i) mod BUF_SIZE \<noteq> outlast s" if "i < unat (outcount s)" for i
  proof
    assume "(outnext s + i) mod BUF_SIZE = outlast s"
    then have "(outnext s + i) mod BUF_SIZE = (outnext s + unat (outcount s)) mod BUF_SIZE"
      using assms(1) by (simp add: out_ok_def)
    then have "BUF_SIZE dvd (outnext s + unat (outcount s)) - (outnext s + i)"
      using that by (subst mod_eq_dvd_iff_nat [symmetric]) simp_all
    then show False using that assms(2) by (auto dest: dvd_imp_le)
  qed
  then have "map (\<lambda>i. ((outbuffer s)(outlast s := b)) ((outnext s + i) mod BUF_SIZE)) [0..<unat (outcount s)] = outq s"
    by (simp add: outq_def)
  then show "outq ?s1 = outq s @ [b]"
    using assms(1) c by (simp add: outq_def out_pushed_def out_ok_def)
qed

lemma sio_write_loop_eq:
  assumes "out_ok s" "n \<le> len"
  shows "\<exists>s'. sio_write_loop m p n len s =
      Inr (n + int (min (nat (len - n)) (BUF_SIZE - unat (outcount s))), s') \<and> out_ok s' \<and>
    outq s' = outq s @ map (\<lambda>i. m (p + of_nat i)) [0..<min (nat (len - n)) (BUF_SIZE - unat (outcount s))] \<and>
    sending s' = sending s \<and> uart_out s' = uart_out s \<and> ier s' = ier s \<and> outnext s' = outnext s"
  using assms
proof (induction m p n len s rule: sio_write_loop.induct)
  case (1 m p n len s)
  show ?case
  proof (cases "n < len \<and> unat (outcount s) < BUF_SIZE")
    case False
    then have z: "min (nat (len - n)) (BUF_SIZE - unat (outcount s)) = 0" using 1(2,3) by (auto simp: out_ok_def)
    have "sio_write_loop m p n len s = Inr (n, s)" using False by (subst sio_write_loop.simps) auto
    then show ?thesis unfolding z using 1(2) by simp
  next
    case True
    define s1 where "s1 = out_pushed (m p) s"
    note P = out_push(1) [OF 1(2) conjunct2 [OF True]]
      out_push(2,3) [OF 1(2) conjunct2 [OF True], of "m p", folded s1_def]
    have c: "unat (outcount s1) = Suc (unat (outcount s))" using unat_plus_1 [OF conjunct2 [OF True]] by (simp add: s1_def out_pushed_def)
    have nb: "\<not> outlast s \<ge> BUF_SIZE" and le: "n + 1 \<le> len" using P(1) True by simp_all
    let ?k = "min (nat (len - (n + 1))) (BUF_SIZE - unat (outcount s1))"
    have k: "min (nat (len - n)) (BUF_SIZE - unat (outcount s)) = Suc ?k" using True c by auto
    obtain s' where S: "sio_write_loop m (p + 1) (n + 1) len s1 = Inr (n + 1 + int ?k, s')" "out_ok s'"
      "outq s' = outq s1 @ map (\<lambda>i. m (p + 1 + of_nat i)) [0..<?k]" "sending s' = sending s1"
      "uart_out s' = uart_out s1" "ier s' = ier s1" "outnext s' = outnext s1"
      using 1(1) [OF True nb, folded out_pushed_def s1_def, OF P(2) le] by blast
    have "sio_write_loop m p n len s = sio_write_loop m (p + 1) (n + 1) len s1"
      using True P(1) by (subst sio_write_loop.simps) (simp add: s1_def out_pushed_def)
    moreover have "map (\<lambda>i. m (p + of_nat i)) [0..<Suc ?k] = m p # map (\<lambda>i. m (p + 1 + of_nat i)) [0..<?k]"
      by (simp add: map_upt_Suc add.assoc del: upt_Suc)
    ultimately show ?thesis using S P(3) unfolding k by (simp add: s1_def out_pushed_def del: upt_Suc)
  qed
qed

lemma sio_tx_send:
  assumes "out_ok s" "sending s" "outq s = b # bs"
  shows "\<exists>s'. sio_tx s = Inr s' \<and> out_ok s' \<and> outq s' = bs \<and> sending s' \<and> tx_bytes s' = tx_bytes s @ [b] \<and> ier s' = ier s"
proof -
  have c: "0 < unat (outcount s)" using length_outq [of s] assms(3) by simp
  then have oc: "outcount s > 0" and u: "unat (outcount s - 1) = unat (outcount s) - 1"
    using unat_minus_one [of "outcount s"] by (auto simp: word_gt_0_unat simp flip: unat_gt_0)
  let ?n = "if outnext s + 1 \<ge> BUF_SIZE then 0 else outnext s + 1"
  have lt: "outnext s < BUF_SIZE" using assms(1) by (simp add: out_ok_def)
  have n: "?n = (outnext s + 1) mod BUF_SIZE" using mod_wrap [OF lt] by simp
  define s' where "s' = (outb UA4_TXD (outbuffer s (outnext s)) s)\<lparr>outnext := ?n, outcount := outcount s - 1\<rparr>"
  have eq: "sio_tx s = Inr s'" using assms(2) oc lt by (simp add: sio_tx_def s'_def)
  have "outq s = outbuffer s (outnext s) # map (\<lambda>i. outbuffer s ((outnext s + Suc i) mod BUF_SIZE)) [0..<unat (outcount s) - 1]"
    using c lt unfolding outq_def by (cases "unat (outcount s)") (simp_all add: map_upt_Suc del: upt_Suc)
  then have b: "b = outbuffer s (outnext s)" "bs = map (\<lambda>i. outbuffer s ((outnext s + Suc i) mod BUF_SIZE)) [0..<unat (outcount s) - 1]"
    using assms(3) by simp_all
  have sh: "(?n + i) mod BUF_SIZE = (outnext s + Suc i) mod BUF_SIZE" for i unfolding n by (simp add: mod_simps)
  then have q: "outq s' = bs" using b(2) u by (simp add: outq_def s'_def outb_def)
  have "(?n + unat (outcount s - 1)) mod BUF_SIZE = outlast s"
    using sh [of "unat (outcount s) - 1"] u c assms(1) by (simp add: out_ok_def)
  then have "out_ok s'" using assms(1) u by (auto simp: out_ok_def s'_def outb_def)
  then show ?thesis using eq q b(1) assms(2) by (auto simp: s'_def outb_def tx_bytes_def)
qed

lemma sio_tx_done:
  assumes "outq s = []"
  shows "\<exists>s'. sio_tx s = Inr s' \<and> out_ok s' \<and> outq s' = [] \<and> \<not> sending s' \<and> tx_bytes s' = tx_bytes s \<and>
    ier s' = ier s AND NOT UA4_IER_TX_IE"
proof -
  have "unat (outcount s) = 0" using length_outq [of s] assms by simp
  then have "outcount s = 0" by (simp add: unat_eq_zero)
  then show ?thesis
    by (auto simp: sio_tx_def sio_disable_def Let_def outb_def out_ok_def outq_def tx_bytes_def)
qed


lemma sio_enable_tx: "out_ok (snd (sio_enable SIO_TX s)) = out_ok s" "outq (snd (sio_enable SIO_TX s)) = outq s"
  "sending (snd (sio_enable SIO_TX s)) = sending s" "tx_bytes (snd (sio_enable SIO_TX s)) = tx_bytes s"
  "outlast (snd (sio_enable SIO_TX s)) = outlast s" "outcount (snd (sio_enable SIO_TX s)) = outcount s"
  by (simp_all add: sio_enable_def Let_def outb_def out_ok_def outq_def tx_bytes_def)

definition sio_idle :: "sio_state \<Rightarrow> bool" where
  "sio_idle s \<longleftrightarrow> \<not> sending s \<and> out_ok s \<and> outq s = []"

text \<open>The state after the first character has been handed to the device.\<close>

lemma prime_pump:
  assumes "out_ok s" "\<not> sending s"
  obtains s' where "put_out ch s = Inr s'" "out_ok s'" "outq s' = outq s" "sending s'"
    "tx_bytes s' = tx_bytes s @ [ch]" "outlast s' = outlast s" "outcount s' = outcount s"
proof -
  let ?s = "outb UA4_TXD ch (s\<lparr>sending := True\<rparr>)"
  have "out_ok ?s" "outq ?s = outq s" "sending ?s" "tx_bytes ?s = tx_bytes s @ [ch]" "outlast ?s = outlast s"
    "outcount ?s = outcount s"
    using assms(1) by (auto simp: outb_def out_ok_def outq_def tx_bytes_def)
  then show ?thesis using that [of "snd (sio_enable SIO_TX ?s)"] assms(2) by (simp add: put_out_def sio_enable_tx)
qed

lemma sio_write_idle:
  assumes "sio_idle s" "1 \<le> len" "len \<le> int BUF_SIZE + 1"
  obtains s1 where "out_ok s1" "\<not> sending s1" "tx_bytes s1 = tx_bytes s"
    "outq s1 = map (\<lambda>i. m (buf + 1 + of_nat i)) [0..<nat len - 1]" "outnext s1 = outnext s"
    "sio_write m buf len s = bindR (sio_writec (m buf) s1) (\<lambda>s2. Inr (len, s2))"
proof -
  have I: "out_ok s" "\<not> sending s" "outq s = []" using assms(1) by (simp_all add: sio_idle_def)
  have c: "unat (outcount s) = 0" using length_outq [of s] I(3) by simp
  have n: "min (nat (len - 1)) (BUF_SIZE - unat (outcount s)) = nat len - 1" "1 + int (nat len - 1) = len"
    using c assms(2,3) by auto
  from sio_write_loop_eq [OF I(1) assms(2), of m "buf + 1", unfolded n] obtain s1 where
    S: "sio_write_loop m (buf + 1) 1 len s = Inr (len, s1)" "out_ok s1"
      "outq s1 = outq s @ map (\<lambda>i. m (buf + 1 + of_nat i)) [0..<nat len - 1]"
      "sending s1 = sending s" "uart_out s1 = uart_out s" "outnext s1 = outnext s" by blast
  show ?thesis
    using that [of s1] S I by (simp add: sio_write_def tx_bytes_def)
qed

section \<open>Properties\<close>

definition sample_sio :: sio_state where
  "sample_sio = \<lparr>inbuffer = \<lambda>_. 0, inlast = 0, innext = 0, incount = 0, outbuffer = \<lambda>_. 0, outlast = 0,
     outnext = 0, outcount = 0, sending = False, ier = 0, uart_out = []\<rparr>"

definition sample_msg :: mem where
  "sample_msg = (\<lambda>_. 0)(100 := 72, 101 := 105)"

lemma sample_sio_simps: "tx_bytes sample_sio = []" "outlast sample_sio = 0"
  "inlast sample_sio = 0"
  by (simp_all add: sample_sio_def tx_bytes_def)

lemma sample_sio_ok: "sio_idle sample_sio" "in_ok sample_sio" "inq sample_sio = []"
  by (simp_all add: sio_idle_def sample_sio_def out_ok_def outq_def in_ok_def inq_def)

text \<open>C24. Serial input: what arrives while the buffer has room is kept in order (with carriage
  returns turned into line feeds) behind what is pending, and reading hands out the pending bytes
  in order, as many as the caller has room for.\<close>

theorem sio_receive_then_read:
  assumes "in_ok s" "inlast s + length cs \<le> BUF_SIZE" "0 \<le> len"
  shows "\<exists>s1 s2. rx_loop (rx_script cs @ rest) s = Inr (rest, s1) \<and>
    (let data = inq s @ map crlf cs; n = min (nat len) (length data)
     in sio_read buf len m s1 = Inr (int n, store_bytes buf (take n data) m, s2) \<and>
        inq s2 = drop n data) \<and> in_ok s2"
proof -
  obtain s1 where S: "rx_loop (rx_script cs @ rest) s = Inr (rest, s1)" "in_ok s1" "inq s1 = inq s @ map crlf cs"
    using rx_loop_script [OF assms(1,2)] by blast
  obtain s2 where R: "sio_read buf len m s1 =
      Inr (int (length (take (nat len) (inq s1))), store_bytes buf (take (nat len) (inq s1)) m, s2)"
    "in_ok s2" "inq s2 = drop (nat len) (inq s1)" using sio_read_eq [OF S(2) assms(3)] by blast
  have "take (min (nat len) (length xs)) xs = take (nat len) xs" "drop (min (nat len) (length xs)) xs = drop (nat len) xs"
    "length (take (nat len) xs) = min (nat len) (length xs)" for xs :: "u8 list"
    by (auto simp: min_def)
  with S R show ?thesis unfolding Let_def by metis
qed

theorem sio_receive_then_read_witness:
  "\<exists>s1 s2. rx_loop [1, 72, 1, 13, 0] sample_sio = Inr ([], s1) \<and>
     sio_read 500 10 (\<lambda>_. 0) s1 = Inr (2, store_bytes 500 [72, 10] (\<lambda>_. 0), s2) \<and> inq s2 = []"
  using sio_receive_then_read [of sample_sio "[72, 13]" 10 "[]" 500 "\<lambda>_. 0"] sample_sio_ok(2)
  by (auto simp: sample_sio_simps rx_script_simps crlf_def sample_sio_ok(3) simp del: rx_loop.simps)


text \<open>The input buffer can be overrun. The write index of the receiver only returns to the start of
  the buffer when the buffer is emptied, but the test for room counts the pending characters: after
  \<^verbatim>\<open>BUF_SIZE\<close> characters have arrived and one of them was read, the next one is stored behind
  the end of the array.\<close>

theorem sio_input_overrun:
  assumes "length cs = BUF_SIZE"
  shows "\<exists>s1 s2. rx_loop (rx_script cs @ rest) (sio_init s) = Inr (rest, s1) \<and>
    sio_read buf 1 m s1 = Inr (1, m(buf := crlf (hd cs)), s2) \<and>
    unat (incount s2) < BUF_SIZE \<and> rx_loop (UA4_LSR_RXDA # c # bs) s2 = Inl Wild"
proof -
  have init: "in_ok (sio_init s)" "inlast (sio_init s) = 0" "innext (sio_init s) = 0" "inq (sio_init s) = []"
    by (simp_all add: sio_init_def outb_def in_ok_def inq_def)
  obtain s1 where S: "rx_loop (rx_script cs @ rest) (sio_init s) = Inr (rest, s1)" "in_ok s1"
    "inq s1 = map crlf cs" "innext s1 = 0"
    using rx_loop_script [OF init(1), of cs rest] init assms by auto
  have full: "unat (incount s1) = BUF_SIZE" "inlast s1 = BUF_SIZE"
    using length_inq [OF S(2)] S(2-4) assms by (auto simp: in_ok_def)
  then have pos: "0 < incount s1" by (simp add: word_gt_0_unat)
  define s2 where "s2 = s1\<lparr>innext := 1, incount := incount s1 - 1\<rparr>"
  have c2: "unat (incount s2) = BUF_SIZE - 1" using full(1) pos unat_minus_one [of "incount s1"] by (simp add: s2_def)
  have first: "inbuffer s1 0 = crlf (hd cs)"
    using inq_pop(2) [OF S(2) pos] S(3,4) assms by (cases cs) auto
  have "sio_read_loop buf 0 1 m s1 = Inr (1, m(buf := crlf (hd cs)), s2)"
    using pos S(4) first by (subst sio_read_loop.simps, simp, subst sio_read_loop.simps) (simp add: s2_def)
  moreover have "\<not> incount s1 < 1" "\<not> incount s2 < 1" using full(1) c2 by (simp_all add: word_less_nat_alt)
  ultimately have "sio_read buf 1 m s1 = Inr (1, m(buf := crlf (hd cs)), s2)" by (simp add: sio_read_def)
  moreover have "rx_loop (UA4_LSR_RXDA # c # bs) s2 = Inl Wild" using c2 full(2) by (simp add: s2_def)
  ultimately show ?thesis using S(1) c2 by (intro exI [of _ s1] exI [of _ s2]) simp
qed

theorem sio_input_overrun_witness:
  "\<exists>s1 s2. rx_loop (rx_script (replicate BUF_SIZE 65)) (sio_init sample_sio) = Inr ([], s1) \<and>
     sio_read 500 1 (\<lambda>_. 0) s1 = Inr (1, (\<lambda>_. 0)(500 := crlf (hd (replicate BUF_SIZE 65))), s2) \<and>
     rx_loop [UA4_LSR_RXDA, 66] s2 = Inl Wild"
  using sio_input_overrun [of "replicate BUF_SIZE 65" "[]" sample_sio 500 "\<lambda>_. 0" 66 "[]"]
  by (metis append_Nil2 length_replicate)


end
