(* ===== verification/Cio.thy ===== *)
theory Cio
  imports Sio
begin

unbundle bit_operations_syntax

text \<open>
  The console, \<^verbatim>\<open>cio.c\<close>: the screen with its scrolling region, formatted output, and the keyboard with
  its ring of input characters. The kernel is built with \<^verbatim>\<open>CIO_DUP2_SIO\<close>, so what is printed inside
  the scrolling region also goes to the serial driver; the state of the operations that print is
  the pair of both drivers. The screen is the array of character cells at \<^verbatim>\<open>VID_BASE_ADDR\<close>, indexed
  by \<open>80 * y + x\<close>, and is kept apart from the rest of memory. \<^verbatim>\<open>setcursor\<close> writes no port (its
  \<^verbatim>\<open>outb\<close> calls are commented out) and changes nothing. The scan codes that the keyboard delivers
  while the code waits for them are a list argument; waiting beyond its end is \<open>Hang\<close>.
\<close>

section \<open>State\<close>

record cio_state =
  scroll_min_x :: u32
  scroll_min_y :: u32
  scroll_max_x :: u32
  scroll_max_y :: u32
  curr_x :: u32
  curr_y :: u32
  min_x :: u32
  min_y :: u32
  max_x :: u32
  max_y :: u32
  video :: "u32 \<Rightarrow> u16"
  input_buffer :: "nat \<Rightarrow> u8"
  next_char :: nat
  next_space :: nat
  shift :: nat
  ctrl_mask :: u8

type_synonym con = "cio_state \<times> sio_state"

abbreviation C_BUFSIZE :: nat where "C_BUFSIZE \<equiv> 200"
abbreviation EOT :: u8 where "EOT \<equiv> 4"
abbreviation NO_POS :: u32 where "NO_POS \<equiv> - 1"
abbreviation BLANK :: u16 where "BLANK \<equiv> 0x0720"

text \<open>A \<^verbatim>\<open>char\<close> passed as an \<^verbatim>\<open>unsigned int\<close>: the sign is extended.\<close>

definition sx :: "u8 \<Rightarrow> u32" where
  "sx c = scast c"

definition vid_index :: "u32 \<Rightarrow> u32 \<Rightarrow> u32" where
  "vid_index x y = y * 80 + x"

definition isprint :: "u32 \<Rightarrow> bool" where
  "isprint c \<longleftrightarrow> 32 \<le> c \<and> c < 0x7f \<or> c = 10 \<or> c = 9"

text \<open>The values a loop variable takes from \<open>a\<close> up to and including \<open>b\<close>; no bound of the console
  is the largest word.\<close>

definition upto_u32 :: "u32 \<Rightarrow> u32 \<Rightarrow> u32 list" where
  "upto_u32 a b = map of_nat [unat a..<Suc (unat b)]"

text \<open>A local character array, seen as memory at address zero.\<close>

definition local_buf :: "u8 list \<Rightarrow> mem" where
  "local_buf bs = (\<lambda>a. if unat a < length bs then bs ! unat a else 0)"

section \<open>Output of characters\<close>

definition putchar_at :: "u32 \<Rightarrow> u32 \<Rightarrow> u32 \<Rightarrow> con \<Rightarrow> con res" where
  "putchar_at x y c = (\<lambda>(ci, d).
     let (c1, ci1) =
       (if x \<le> max_x ci \<and> y \<le> max_y ci then
          let c' = c AND 0xffff
          in (c', ci\<lparr>video := (video ci)(vid_index x y :=
                (if c' > 0xff then ucast c' else ucast c' OR 0x0700))\<rparr>)
        else (c, ci))
     in if x < scroll_min_x ci \<or> x > scroll_max_x ci \<or> y < scroll_min_y ci \<or> y > scroll_max_y ci
        then Inr (ci1, d)
        else if isprint c1 then bindR (sio_writec (ucast (c1 AND 0xff)) d) (\<lambda>d'. Inr (ci1, d'))
        else bindR (sprint (\<lambda>_. 0) hex_escape [c1 AND 0xff])
               (\<lambda>buf. bindR (sio_write (local_buf buf) 0 4 d) (\<lambda>(_, d'). Inr (ci1, d'))))"

definition cio_setscroll :: "u32 \<Rightarrow> u32 \<Rightarrow> u32 \<Rightarrow> u32 \<Rightarrow> cio_state \<Rightarrow> cio_state" where
  "cio_setscroll s_min_x s_min_y s_max_x s_max_y ci =
     (let ci1 = ci\<lparr>scroll_min_x := bound (min_x ci) s_min_x (max_x ci),
                   scroll_min_y := bound (min_y ci) s_min_y (max_y ci)\<rparr>;
          ci2 = ci1\<lparr>scroll_max_x := bound (scroll_min_x ci1) s_max_x (max_x ci),
                    scroll_max_y := bound (scroll_min_y ci1) s_max_y (max_y ci)\<rparr>
      in ci2\<lparr>curr_x := scroll_min_x ci2, curr_y := scroll_min_y ci2\<rparr>)"

definition cio_moveto :: "u32 \<Rightarrow> u32 \<Rightarrow> cio_state \<Rightarrow> cio_state" where
  "cio_moveto x y ci =
     ci\<lparr>curr_x := bound (scroll_min_x ci) (x + scroll_min_x ci) (scroll_max_x ci),
        curr_y := bound (scroll_min_y ci) (y + scroll_min_y ci) (scroll_max_y ci)\<rparr>"

fun put_spaces :: "u32 list \<Rightarrow> u32 \<Rightarrow> con \<Rightarrow> con res" where
  "put_spaces [] y s = Inr s"
| "put_spaces (x # xs) y s = bindR (putchar_at x y 32 s) (put_spaces xs y)"

definition cio_putchar_at :: "u32 \<Rightarrow> u32 \<Rightarrow> u32 \<Rightarrow> con \<Rightarrow> con res" where
  "cio_putchar_at x y c s =
     (if c AND 0x7f = 10 then
        let ci = fst s;
            limit = (if x > scroll_max_x ci then max_x ci
                     else if x \<ge> scroll_min_x ci then scroll_max_x ci
                     else scroll_min_x ci - 1)
        in put_spaces (upto_u32 x limit) y s
      else putchar_at x y c s)"

text \<open>Blanks in \<open>n\<close> cells from index \<open>to\<close> on, and the copy of \<open>n\<close> cells, one after the other.\<close>

definition blank_cells :: "u32 \<Rightarrow> nat \<Rightarrow> (u32 \<Rightarrow> u16) \<Rightarrow> u32 \<Rightarrow> u16" where
  "blank_cells to n v = fold (\<lambda>c v. v(to + of_nat c := BLANK)) [0..<n] v"

definition copy_cells :: "u32 \<Rightarrow> u32 \<Rightarrow> nat \<Rightarrow> (u32 \<Rightarrow> u16) \<Rightarrow> u32 \<Rightarrow> u16" where
  "copy_cells to from n v = fold (\<lambda>c v. v(to + of_nat c := v (from + of_nat c))) [0..<n] v"

definition cio_clearscroll :: "cio_state \<Rightarrow> cio_state" where
  "cio_clearscroll ci =
     (let nchars = scroll_max_x ci - scroll_min_x ci + 1
      in ci\<lparr>video := fold (\<lambda>l. blank_cells (vid_index (scroll_min_x ci) l) (unat nchars))
              (upto_u32 (scroll_min_y ci) (scroll_max_y ci)) (video ci)\<rparr>)"

definition cio_clearscreen :: "cio_state \<Rightarrow> cio_state" where
  "cio_clearscreen ci =
     (let nchars = (max_y ci - min_y ci + 1) * (max_x ci - min_x ci + 1)
      in ci\<lparr>video := blank_cells (vid_index (min_x ci) (min_y ci)) (unat nchars) (video ci)\<rparr>)"

definition cio_scroll :: "u32 \<Rightarrow> cio_state \<Rightarrow> cio_state" where
  "cio_scroll nlines ci =
     (if nlines > scroll_max_y ci - scroll_min_y ci then
        (cio_clearscroll ci)\<lparr>curr_x := scroll_min_x ci, curr_y := scroll_min_y ci\<rparr>
      else
        let nchars = unat (scroll_max_x ci - scroll_min_x ci + 1);
            v1 = fold (\<lambda>line. copy_cells (vid_index (scroll_min_x ci) line)
                                (vid_index (scroll_min_x ci) (line + nlines)) nchars)
                   (upto_u32 (scroll_min_y ci) (scroll_max_y ci - nlines)) (video ci);
            v2 = fold (\<lambda>line. blank_cells (vid_index (scroll_min_x ci) line) nchars)
                   (upto_u32 (scroll_max_y ci - nlines + 1) (scroll_max_y ci)) v1
        in ci\<lparr>video := v2\<rparr>)"

definition cio_putchar :: "u32 \<Rightarrow> con \<Rightarrow> con res" where
  "cio_putchar c s0 =
     (let (ci0, d) = s0;
          ci = (if curr_y ci0 > scroll_max_y ci0
                then (cio_scroll (curr_y ci0 - scroll_max_y ci0) ci0)\<lparr>curr_y := scroll_max_y ci0\<rparr>
                else ci0)
      in if c AND 0xff = 10 then
           bindR (put_spaces (upto_u32 (curr_x ci) (scroll_max_x ci)) (curr_y ci) (ci, d))
             (\<lambda>(ci', d'). Inr (ci'\<lparr>curr_x := scroll_min_x ci', curr_y := curr_y ci' + 1\<rparr>, d'))
         else if c AND 0xff = 13 then Inr (ci\<lparr>curr_x := scroll_min_x ci\<rparr>, d)
         else
           bindR (putchar_at (curr_x ci) (curr_y ci) c (ci, d))
             (\<lambda>(ci', d').
                let x = curr_x ci' + 1
                in Inr (if x > scroll_max_x ci'
                        then (ci'\<lparr>curr_x := scroll_min_x ci', curr_y := curr_y ci' + 1\<rparr>, d')
                        else (ci'\<lparr>curr_x := x\<rparr>, d'))))"

fun cio_puts_at :: "u32 \<Rightarrow> u32 \<Rightarrow> u8 list \<Rightarrow> con \<Rightarrow> con res" where
  "cio_puts_at x y [] s = Inr s"
| "cio_puts_at x y (ch # str) s =
     (if x \<le> max_x (fst s) then bindR (cio_putchar_at x y (sx ch) s) (cio_puts_at (x + 1) y str)
      else Inr s)"

fun cio_puts :: "u8 list \<Rightarrow> con \<Rightarrow> con res" where
  "cio_puts [] s = Inr s"
| "cio_puts (ch # str) s = bindR (cio_putchar (sx ch) s) (cio_puts str)"

definition cio_write :: "mem \<Rightarrow> addr \<Rightarrow> int \<Rightarrow> con \<Rightarrow> con res" where
  "cio_write m buf len s = cio_puts (map (\<lambda>i. m (buf + of_nat i)) [0..<nat len]) s"

section \<open>Formatted output\<close>

fun pad_loop :: "nat \<Rightarrow> u32 \<Rightarrow> u32 \<Rightarrow> u8 \<Rightarrow> con \<Rightarrow> (u32 \<times> con) res" where
  "pad_loop 0 x y padchar s = Inr (x, s)"
| "pad_loop (Suc extra) x y padchar s =
     (if x \<noteq> NO_POS \<or> y \<noteq> NO_POS
      then bindR (cio_putchar_at x y (sx padchar) s) (pad_loop extra (x + 1) y padchar)
      else bindR (cio_putchar (sx padchar) s) (pad_loop extra x y padchar))"

definition mypad :: "u32 \<Rightarrow> u32 \<Rightarrow> int \<Rightarrow> u8 \<Rightarrow> con \<Rightarrow> (u32 \<times> con) res" where
  "mypad x y extra padchar s = pad_loop (nat extra) x y padchar s"

definition mypadstr :: "u32 \<Rightarrow> u32 \<Rightarrow> u8 list \<Rightarrow> int \<Rightarrow> int \<Rightarrow> bool \<Rightarrow> u8 \<Rightarrow> con \<Rightarrow> (u32 \<times> con) res" where
  "mypadstr x y str len width leftadjust padchar s =
     (let len' = (if len < 0 then int (length str) else len);
          extra = wrap32 (width - len')
      in bindR (if extra > 0 \<and> \<not> leftadjust then mypad x y extra padchar s else Inr (x, s)) (\<lambda>(x, s).
         bindR (if x \<noteq> NO_POS \<or> y \<noteq> NO_POS
                then bindR (cio_puts_at x y str s) (\<lambda>s'. Inr (x + word_of_int len', s'))
                else bindR (cio_puts str s) (\<lambda>s'. Inr (x, s'))) (\<lambda>(x, s).
         if extra > 0 \<and> leftadjust then mypad x y extra padchar s else Inr (x, s))))"

text \<open>\<^verbatim>\<open>do_printf\<close> also converts to binary.\<close>

definition convert_b :: "mem \<Rightarrow> u8 \<Rightarrow> u32 list \<Rightarrow> ((u8 list \<times> int) option \<times> u32 list) res" where
  "convert_b m ch ap =
     (if ch = 98 then
        (case ap of
           [] \<Rightarrow> Inl Wild
         | a # ap' \<Rightarrow> let b = cvtbin a in Inr (Some (b, int (length b)), ap'))
      else convert m ch ap)"

function do_printf :: "mem \<Rightarrow> u32 \<Rightarrow> u32 \<Rightarrow> u8 list \<Rightarrow> u32 list \<Rightarrow> con \<Rightarrow> con res" where
  "do_printf m x y [] ap s = Inl Wild"
| "do_printf m x y (ch # fmt) ap s =
     (if ch = 0 then Inr s
      else if ch = 37 then
        bindR (fmt_opts fmt) (\<lambda>(left, padchar, width, c, f).
        bindR (convert_b m c ap) (\<lambda>(r, ap').
          case r of
            None \<Rightarrow> do_printf m x y f ap' s
          | Some (str, len) \<Rightarrow>
              bindR (mypadstr x y str len width left padchar s) (\<lambda>(x', s'). do_printf m x' y f ap' s')))
      else if x \<noteq> NO_POS \<or> y \<noteq> NO_POS then
        bindR (cio_putchar_at x y (sx ch) s) (\<lambda>s'.
          if ch = 10 then do_printf m (scroll_min_x (fst s')) (y + 1) fmt ap s'
          else if ch = 13 then do_printf m (scroll_min_x (fst s')) y fmt ap s'
          else do_printf m (x + 1) y fmt ap s')
      else bindR (cio_putchar (sx ch) s) (do_printf m x y fmt ap))"
  by pat_completeness auto
termination
  by (relation "measure (\<lambda>(m, x, y, fmt, ap, s). length fmt)") (auto dest: fmt_opts_shorter)

definition cio_printf_at :: "mem \<Rightarrow> u32 \<Rightarrow> u32 \<Rightarrow> u8 list \<Rightarrow> u32 list \<Rightarrow> con \<Rightarrow> con res" where
  "cio_printf_at m x y fmt ap s = do_printf m x y fmt ap s"

definition cio_printf :: "mem \<Rightarrow> u8 list \<Rightarrow> u32 list \<Rightarrow> con \<Rightarrow> con res" where
  "cio_printf m fmt ap s = do_printf m NO_POS NO_POS fmt ap s"

definition put_char_or_code :: "mem \<Rightarrow> u32 \<Rightarrow> con \<Rightarrow> con res" where
  "put_char_or_code m ch s =
     (if 32 \<le> sint ch \<and> sint ch < 0x7f then cio_putchar ch s else cio_printf m hex_escape [ch] s)"

section \<open>The keyboard\<close>

definition scan_code :: "u8 list list" where
  "scan_code = [
     [255, 27, 49, 50, 51, 52, 53, 54, 55, 56, 57, 48, 45, 61, 8, 9,
     113, 119, 101, 114, 116, 121, 117, 105, 111, 112, 91, 93, 10, 255, 97, 115,
     100, 102, 103, 104, 106, 107, 108, 59, 39, 96, 255, 92, 122, 120, 99, 118,
     98, 110, 109, 44, 46, 47, 255, 42, 255, 32, 255, 255, 255, 255, 255, 255,
     255, 255, 255, 255, 255, 255, 255, 55, 56, 57, 45, 52, 53, 54, 43, 49,
     50, 51, 48, 46] @ replicate 44 255,
     [255, 27, 33, 64, 35, 36, 37, 94, 38, 42, 40, 41, 95, 43, 8, 9,
     81, 87, 69, 82, 84, 89, 85, 73, 79, 80, 123, 125, 10, 255, 65, 83,
     68, 70, 71, 72, 74, 75, 76, 58, 34, 126, 255, 124, 90, 88, 67, 86,
     66, 78, 77, 60, 62, 63, 255, 42, 255, 32, 255, 255, 255, 255, 255, 255,
     255, 255, 255, 255, 255, 255, 255, 55, 56, 57, 45, 52, 53, 54, 43, 49,
     50, 51, 48, 46] @ replicate 44 255]"

definition increment :: "nat \<Rightarrow> nat" where
  "increment pointer = (if pointer + 1 \<ge> C_BUFSIZE then 0 else pointer + 1)"

text \<open>The test for undefined scan codes compares an \<^verbatim>\<open>unsigned char\<close> with the \<^verbatim>\<open>char\<close> constant 377 (octal),
  which is negative on this machine: it never excludes a code.\<close>

definition input_scan_code :: "u8 \<Rightarrow> cio_state \<Rightarrow> int \<times> cio_state" where
  "input_scan_code code ci =
     (if code = 0x2a \<or> code = 0x36 then (- 1, ci\<lparr>shift := 1\<rparr>)
      else if code = 0xaa \<or> code = 0xb6 then (- 1, ci\<lparr>shift := 0\<rparr>)
      else if code = 0x1d then (- 1, ci\<lparr>ctrl_mask := 0x1f\<rparr>)
      else if code = 0x9d then (- 1, ci\<lparr>ctrl_mask := 0xff\<rparr>)
      else if code AND 0x80 = 0 then
        let c = scan_code ! shift ci ! unat code;
            nxt = increment (next_space ci);
            rval = c AND ctrl_mask ci
        in (uint rval,
            if nxt \<noteq> next_char ci
            then ci\<lparr>input_buffer := (input_buffer ci)(next_space ci := rval), next_space := nxt\<rparr>
            else ci)
      else (- 1, ci))"

text \<open>\<open>notify\<close> is the callback given to \<^verbatim>\<open>cio_init\<close>, if there is one; the result is the state before the
  end of interrupt is signalled.\<close>

definition keyboard_isr :: "(int \<Rightarrow> con \<Rightarrow> con res) option \<Rightarrow> u8 \<Rightarrow> con \<Rightarrow> con res" where
  "keyboard_isr notify data = (\<lambda>(ci, d).
     let (val, ci') = input_scan_code data ci
     in if val \<noteq> - 1 then (case notify of None \<Rightarrow> Inr (ci', d) | Some f \<Rightarrow> f val (ci', d))
        else Inr (ci', d))"

fun wait_key :: "u8 list \<Rightarrow> cio_state \<Rightarrow> (u8 list \<times> cio_state) res" where
  "wait_key [] ci = (if next_char ci = next_space ci then Inl Hang else Inr ([], ci))"
| "wait_key (b # kbd) ci =
     (if next_char ci = next_space ci then wait_key kbd (snd (input_scan_code b ci))
      else Inr (b # kbd, ci))"

definition cio_getchar :: "u8 list \<Rightarrow> con \<Rightarrow> (u8 \<times> u8 list \<times> con) res" where
  "cio_getchar kbd = (\<lambda>(ci0, d).
     bindR (wait_key kbd ci0) (\<lambda>(kbd', ci).
       let c = input_buffer ci (next_char ci);
           ci' = ci\<lparr>next_char := increment (next_char ci)\<rparr>
       in bindR (if c \<noteq> EOT then cio_putchar (sx c) (ci', d) else Inr (ci', d))
            (\<lambda>s. Inr (c, kbd', s))))"

lemma dec_less: "1 < (sz :: u32) \<Longrightarrow> unat (sz - 1) < unat sz"
  by (cases "sz = 0") (simp_all add: unat_minus_one unat_gt_0)

function gets_loop :: "u8 list \<Rightarrow> addr \<Rightarrow> u32 \<Rightarrow> int \<Rightarrow> mem \<Rightarrow> con \<Rightarrow> (addr \<times> int \<times> mem \<times> u8 list \<times> con) res" where
  "gets_loop kbd buf sz count m s =
     (if sz > 1 then
        bindR (cio_getchar kbd s) (\<lambda>(ch, kbd', s').
          if ch = EOT then Inr (buf, count, m, kbd', s')
          else if ch = 10 then Inr (buf + 1, count + 1, m(buf := ch), kbd', s')
          else gets_loop kbd' (buf + 1) (sz - 1) (count + 1) (m(buf := ch)) s')
      else Inr (buf, count, m, kbd, s))"
  by pat_completeness auto
termination
  by (relation "measure (\<lambda>(kbd, buf, sz, count, m, s). unat sz)")
    (auto simp: dec_less)

declare gets_loop.simps [simp del]

definition cio_gets :: "u8 list \<Rightarrow> addr \<Rightarrow> u32 \<Rightarrow> mem \<Rightarrow> con \<Rightarrow> (int \<times> mem \<times> u8 list \<times> con) res" where
  "cio_gets kbd buffer sz m s =
     bindR (gets_loop kbd buffer sz 0 m s) (\<lambda>(buf, count, m', kbd', s'). Inr (count, m'(buf := 0), kbd', s'))"

definition cio_input_queue :: "cio_state \<Rightarrow> int" where
  "cio_input_queue ci =
     (let n_chars = int (next_space ci) - int (next_char ci)
      in if n_chars < 0 then n_chars + int C_BUFSIZE else n_chars)"

definition cio_kbhit :: "cio_state \<Rightarrow> bool" where
  "cio_kbhit ci \<longleftrightarrow> next_char ci \<noteq> next_space ci"

definition cio_init :: "cio_state \<Rightarrow> cio_state" where
  "cio_init ci =
     ci\<lparr>min_x := 0, min_y := 0, max_x := 79, max_y := 24,
        scroll_min_x := 0, scroll_min_y := 0, scroll_max_x := 79, scroll_max_y := 24,
        curr_y := 0, curr_x := 0\<rparr>"

section \<open>Output outside the scrolling region\<close>

text \<open>A routine that changes cells of the screen and nothing else.\<close>

definition quiet :: "con \<Rightarrow> con res \<Rightarrow> bool" where
  "quiet s r \<longleftrightarrow> (\<exists>v. r = Inr ((fst s)\<lparr>video := v\<rparr>, snd s))"

lemma quiet_Inr: "quiet s (Inr s)"
  unfolding quiet_def by (intro exI [of _ "video (fst s)"]) (cases s, simp)

lemma quiet_bind:
  assumes "quiet s r" "\<And>v. quiet ((fst s)\<lparr>video := v\<rparr>, snd s) (f ((fst s)\<lparr>video := v\<rparr>, snd s))"
  shows "quiet s (bindR r f)"
proof -
  obtain v where r: "r = Inr ((fst s)\<lparr>video := v\<rparr>, snd s)" using assms(1) by (auto simp: quiet_def)
  with assms(2) [of v] show ?thesis by (auto simp: quiet_def)
qed

definition above :: "u32 \<Rightarrow> con \<Rightarrow> bool" where
  "above y s \<longleftrightarrow> y < scroll_min_y (fst s)"

lemma above_video [simp]: "above y (ci\<lparr>video := v\<rparr>, d) = above y (ci, d)"
  by (simp add: above_def)

lemma putchar_at_quiet: "above y s \<Longrightarrow> quiet s (putchar_at x y c s)"
  by (cases s) (auto simp: above_def putchar_at_def quiet_def Let_def intro: exI [of _ "video (fst s)"])

lemma put_spaces_quiet: "above y s \<Longrightarrow> quiet s (put_spaces xs y s)"
proof (induction xs arbitrary: s)
  case (Cons x xs)
  then show ?case by (cases s) (auto intro!: quiet_bind putchar_at_quiet)
qed (simp add: quiet_Inr)

lemma cio_putchar_at_quiet: "above y s \<Longrightarrow> quiet s (cio_putchar_at x y c s)"
  by (simp add: cio_putchar_at_def Let_def put_spaces_quiet putchar_at_quiet)

lemma cio_puts_at_quiet: "above y s \<Longrightarrow> quiet s (cio_puts_at x y str s)"
proof (induction str arbitrary: x s)
  case (Cons ch str)
  then show ?case by (cases s) (auto intro!: quiet_bind cio_putchar_at_quiet quiet_Inr)
qed (simp add: quiet_Inr)

text \<open>The same for routines that also return the column they stopped at.\<close>

definition quiet_at :: "con \<Rightarrow> (u32 \<times> con) res \<Rightarrow> bool" where
  "quiet_at s r \<longleftrightarrow> (\<exists>x v. r = Inr (x, (fst s)\<lparr>video := v\<rparr>, snd s))"

lemma quiet_at_Inr: "quiet_at s (Inr (x, s))"
  unfolding quiet_at_def by (intro exI [of _ x] exI [of _ "video (fst s)"]) (cases s, simp)

lemma quiet_at_bind:
  assumes "quiet s r" "\<And>v. quiet_at ((fst s)\<lparr>video := v\<rparr>, snd s) (f ((fst s)\<lparr>video := v\<rparr>, snd s))"
  shows "quiet_at s (bindR r f)"
proof -
  obtain v where r: "r = Inr ((fst s)\<lparr>video := v\<rparr>, snd s)" using assms(1) by (auto simp: quiet_def)
  with assms(2) [of v] show ?thesis by (auto simp: quiet_at_def)
qed

lemma quiet_at_bind_at:
  assumes "quiet_at s r" "\<And>x v. quiet_at ((fst s)\<lparr>video := v\<rparr>, snd s) (f (x, (fst s)\<lparr>video := v\<rparr>, snd s))"
  shows "quiet_at s (bindR r f)"
proof -
  obtain x v where r: "r = Inr (x, (fst s)\<lparr>video := v\<rparr>, snd s)" using assms(1) by (auto simp: quiet_at_def)
  with assms(2) [of v x] show ?thesis by (auto simp: quiet_at_def)
qed

lemma quiet_bind_at:
  assumes "quiet_at s r" "\<And>x v. quiet ((fst s)\<lparr>video := v\<rparr>, snd s) (f (x, (fst s)\<lparr>video := v\<rparr>, snd s))"
  shows "quiet s (bindR r f)"
proof -
  obtain x v where r: "r = Inr (x, (fst s)\<lparr>video := v\<rparr>, snd s)" using assms(1) by (auto simp: quiet_at_def)
  with assms(2) [of v x] show ?thesis by (auto simp: quiet_def)
qed

lemma pad_loop_quiet: "above y s \<Longrightarrow> y \<noteq> NO_POS \<Longrightarrow> quiet_at s (pad_loop n x y c s)"
proof (induction n arbitrary: x s)
  case (Suc n)
  then show ?case by (cases s) (auto intro!: quiet_at_bind cio_putchar_at_quiet)
qed (simp add: quiet_at_Inr)

lemma mypadstr_quiet: "above y s \<Longrightarrow> y \<noteq> NO_POS \<Longrightarrow> quiet_at s (mypadstr x y str len width left c s)"
  by (cases s) (auto simp: mypadstr_def Let_def mypad_def
    intro!: quiet_at_bind_at quiet_at_bind pad_loop_quiet cio_puts_at_quiet quiet_at_Inr)

text \<open>Formats of literal text on one line and \<^verbatim>\<open>%u\<close>, with enough arguments.\<close>

fun simple_fmt :: "u8 list \<Rightarrow> nat \<Rightarrow> bool" where
  "simple_fmt [] n \<longleftrightarrow> False"
| "simple_fmt [ch] n \<longleftrightarrow> ch = 0"
| "simple_fmt (ch # c # f) n \<longleftrightarrow>
     (if ch = 0 then True
      else if ch = 37 then c = 117 \<and> 0 < n \<and> simple_fmt f (n - 1)
      else ch \<noteq> 10 \<and> ch \<noteq> 13 \<and> simple_fmt (c # f) n)"

lemma fmt_width_stop: "\<not> (48 \<le> ch \<and> ch \<le> 57) \<Longrightarrow> fmt_width w ch f = Inr (w, ch, f)"
  by (cases f) auto

lemma do_printf_quiet:
  assumes "simple_fmt fmt n" "n = length ap" "above y s" "y \<noteq> NO_POS"
  shows "quiet s (do_printf m x y fmt ap s)"
  using assms
proof (induction fmt n arbitrary: x ap s rule: simple_fmt.induct)
  case (3 ch c f n)
  consider "ch = 0" | "ch = 37" | "ch \<noteq> 0" "ch \<noteq> 37" by blast
  then show ?case
  proof cases
    case 2
    then have ok: "c = 117" "0 < n" "simple_fmt f (n - 1)" using "3.prems"(1) by simp_all
    then obtain a ap' where ap: "ap = a # ap'" "n - 1 = length ap'" using "3.prems"(2) by (cases ap) auto
    have "fmt_opts (117 # f) = Inr (False, 32, 0, 117, f)" by (simp add: fmt_opts_def next_ch_def fmt_width_stop)
    then have "do_printf m x y (ch # c # f) ap s =
        bindR (mypadstr x y (cvtuns a) (int (length (cvtuns a))) 0 False 32 s) (\<lambda>(x', s'). do_printf m x' y f ap' s')"
      using 2 ok ap by (simp add: convert_b_def convert_def Let_def)
    then show ?thesis
      using "3.IH"(1) [of ap'] ok ap(2) 2 "3.prems"(3,4) by (cases s) (auto intro!: quiet_bind_at mypadstr_quiet)
  next
    case 3
    then have "do_printf m x y (ch # c # f) ap s = bindR (cio_putchar_at x y (sx ch) s) (do_printf m (x + 1) y (c # f) ap)"
      using "3.prems" by (subst do_printf.simps(2)) (auto simp del: do_printf.simps)
    then show ?thesis
      using "3.IH"(2) [OF 3] "3.prems" 3 by (cases s) (auto intro!: quiet_bind cio_putchar_at_quiet simp del: do_printf.simps)
  qed (simp add: quiet_Inr)
qed (simp_all add: quiet_Inr)

section \<open>The screen\<close>

text \<open>The scrolling region lies within the screen and the cursor within the region, or at the start of the
  line below it, where the next character scrolls.\<close>

definition screen_ok :: "cio_state \<Rightarrow> bool" where
  "screen_ok ci \<longleftrightarrow> min_x ci \<le> scroll_min_x ci \<and> scroll_min_x ci \<le> scroll_max_x ci \<and> scroll_max_x ci \<le> max_x ci \<and>
     min_y ci \<le> scroll_min_y ci \<and> scroll_min_y ci \<le> scroll_max_y ci \<and> scroll_max_y ci \<le> max_y ci \<and>
     max_x ci \<le> 79 \<and> max_y ci \<le> 24 \<and>
     scroll_min_x ci \<le> curr_x ci \<and> curr_x ci \<le> scroll_max_x ci \<and>
     scroll_min_y ci \<le> curr_y ci \<and> curr_y ci \<le> scroll_max_y ci + 1"

lemma bound_range: "mn \<le> mx \<Longrightarrow> mn \<le> bound mn v mx \<and> bound mn v mx \<le> mx"
  by (auto simp: bound_def Let_def)

text \<open>What output leaves alone.\<close>

definition same_geometry :: "cio_state \<Rightarrow> cio_state \<Rightarrow> bool" where
  "same_geometry ci ci' \<longleftrightarrow> (\<exists>v. ci' = ci\<lparr>video := v\<rparr>)"

lemma same_geometry_refl [simp]: "same_geometry ci ci"
  unfolding same_geometry_def by (intro exI [of _ "video ci"]) simp

lemma same_geometry_trans: "same_geometry a b \<Longrightarrow> same_geometry b c \<Longrightarrow> same_geometry a c"
  by (auto simp: same_geometry_def)

lemma putchar_at_geometry: "putchar_at x y c (ci, d) = Inr (ci', d') \<Longrightarrow> same_geometry ci ci'"
  by (auto simp: putchar_at_def Let_def bindR_eq_Inr same_geometry_def split: if_splits prod.splits intro: exI [of _ "video ci"])

lemma put_spaces_geometry: "put_spaces xs y (ci, d) = Inr (ci', d') \<Longrightarrow> same_geometry ci ci'"
proof (induction xs arbitrary: ci d)
  case (Cons x xs)
  then show ?case by (auto simp: bindR_eq_Inr dest: putchar_at_geometry intro: same_geometry_trans)
qed simp

lemma cio_scroll_geometry:
  "\<exists>v cx cy. cio_scroll n ci = ci\<lparr>video := v, curr_x := cx, curr_y := cy\<rparr> \<and> (cx = curr_x ci \<or> cx = scroll_min_x ci)"
proof (cases "n > scroll_max_y ci - scroll_min_y ci")
  case True
  then show ?thesis by (auto simp: cio_scroll_def cio_clearscroll_def Let_def)
next
  case False
  then have "\<exists>v. cio_scroll n ci = ci\<lparr>video := v\<rparr>" unfolding cio_scroll_def Let_def by auto
  then obtain v where "cio_scroll n ci = ci\<lparr>video := v\<rparr>" by blast
  then show ?thesis by (intro exI [of _ v] exI [of _ "curr_x ci"] exI [of _ "curr_y ci"]) simp
qed

lemma screen_ok_geometry:
  assumes "same_geometry ci ci'"
  shows "screen_ok ci' = screen_ok ci"
  using assms by (auto simp: same_geometry_def screen_ok_def)

lemma inc_le:
  assumes "(a :: u32) \<le> b" "b \<le> 79"
  shows "a + 1 \<le> b + 1" "a < a + 1"
proof -
  have "unat a \<le> unat b" "unat b \<le> 79" using assms by (simp_all add: word_le_nat_alt)
  moreover from this have "unat (a + 1) = unat a + 1" "unat (b + 1) = unat b + 1" by (simp_all add: unat_word_ariths)
  ultimately show "a + 1 \<le> b + 1" "a < a + 1" by (simp_all add: word_le_nat_alt word_less_nat_alt)
qed

text \<open>The state in which \<^verbatim>\<open>cio_putchar\<close> puts a character: scrolled if need be.\<close>

definition scrolled :: "cio_state \<Rightarrow> cio_state" where
  "scrolled ci = (if curr_y ci > scroll_max_y ci
     then (cio_scroll (curr_y ci - scroll_max_y ci) ci)\<lparr>curr_y := scroll_max_y ci\<rparr> else ci)"

lemma scrolled_ok:
  assumes "screen_ok ci"
  shows "screen_ok (scrolled ci)" "curr_y (scrolled ci) \<le> scroll_max_y (scrolled ci)"
proof -
  obtain v cx cy where S: "cio_scroll (curr_y ci - scroll_max_y ci) ci = ci\<lparr>video := v, curr_x := cx, curr_y := cy\<rparr>"
    "cx = curr_x ci \<or> cx = scroll_min_x ci" using cio_scroll_geometry by metis
  have "scroll_max_y ci \<le> 79" using assms by (auto simp: screen_ok_def intro: order.trans)
  then have "scroll_max_y ci \<le> scroll_max_y ci + 1" using inc_le(2) [OF order.refl, of "scroll_max_y ci"] by simp
  then show "screen_ok (scrolled ci)" "curr_y (scrolled ci) \<le> scroll_max_y (scrolled ci)"
    using assms S by (auto simp: scrolled_def screen_ok_def)
qed

lemma cio_putchar_cases:
  "cio_putchar c (ci0, d) =
     (let ci = scrolled ci0
      in if c AND 0xff = 10 then
           bindR (put_spaces (upto_u32 (curr_x ci) (scroll_max_x ci)) (curr_y ci) (ci, d))
             (\<lambda>(ci', d'). Inr (ci'\<lparr>curr_x := scroll_min_x ci', curr_y := curr_y ci' + 1\<rparr>, d'))
         else if c AND 0xff = 13 then Inr (ci\<lparr>curr_x := scroll_min_x ci\<rparr>, d)
         else bindR (putchar_at (curr_x ci) (curr_y ci) c (ci, d))
             (\<lambda>(ci', d'). Inr (if curr_x ci' + 1 > scroll_max_x ci'
                then ci'\<lparr>curr_x := scroll_min_x ci', curr_y := curr_y ci' + 1\<rparr> else ci'\<lparr>curr_x := curr_x ci' + 1\<rparr>, d')))"
  by (auto simp: cio_putchar_def scrolled_def Let_def if_distrib split: prod.splits intro!: arg_cong [where f = "bindR _"])

lemma screen_ok_line:
  assumes "screen_ok ci" "curr_y ci \<le> scroll_max_y ci"
  shows "screen_ok (ci\<lparr>curr_x := scroll_min_x ci, curr_y := curr_y ci + 1\<rparr>)"
    "curr_x ci + 1 \<le> scroll_max_x ci \<Longrightarrow> screen_ok (ci\<lparr>curr_x := curr_x ci + 1\<rparr>)"
proof -
  have b: "scroll_max_y ci \<le> 79" "scroll_max_x ci \<le> 79" "curr_x ci \<le> 79"
    using assms(1) by (auto simp: screen_ok_def intro: order.trans)
  have "curr_y ci + 1 \<le> scroll_max_y ci + 1" "curr_y ci < curr_y ci + 1" "curr_x ci < curr_x ci + 1"
    using inc_le [OF assms(2) b(1)] inc_le [of "curr_x ci" "scroll_max_x ci"] assms(1) b by (auto simp: screen_ok_def)
  then show "screen_ok (ci\<lparr>curr_x := scroll_min_x ci, curr_y := curr_y ci + 1\<rparr>)"
    "curr_x ci + 1 \<le> scroll_max_x ci \<Longrightarrow> screen_ok (ci\<lparr>curr_x := curr_x ci + 1\<rparr>)"
    using assms by (auto simp: screen_ok_def)
qed

lemma cio_putchar_screen_ok:
  assumes "screen_ok ci0" "cio_putchar c (ci0, d) = Inr (ci', d')"
  shows "screen_ok ci'"
proof -
  let ?ci = "scrolled ci0"
  note ok = scrolled_ok [OF assms(1)]
  have geo: "screen_ok ci1 \<and> curr_y ci1 \<le> scroll_max_y ci1" if "same_geometry ?ci ci1" for ci1
    using ok that screen_ok_geometry [OF that] by (auto simp: same_geometry_def)
  have x: "screen_ok (?ci\<lparr>curr_x := scroll_min_x ?ci\<rparr>)" using ok(1) by (simp add: screen_ok_def)
  show ?thesis
    using assms(2) x screen_ok_line geo
    by (auto simp: cio_putchar_cases Let_def bindR_eq_Inr not_less split: if_splits dest!: put_spaces_geometry putchar_at_geometry)
qed

section \<open>Scrolling\<close>

text \<open>The index of the cell in column \<open>x\<close> of row \<open>y\<close>.\<close>

definition cell :: "nat \<Rightarrow> nat \<Rightarrow> u32" where
  "cell x y = of_nat (80 * y + x)"

lemma vid_index_cell: "vid_index (of_nat x) (of_nat y) = cell x y"
  by (simp add: vid_index_def cell_def)

lemma cell_add: "cell x y + of_nat n = cell (x + n) y"
  by (simp add: cell_def)

lemma cell_eq_iff:
  assumes "x < 80" "x' < 80" "y < 25" "y' < 25"
  shows "cell x y = cell x' y' \<longleftrightarrow> x = x' \<and> y = y'"
proof -
  have "unat (cell a b) = 80 * b + a" if "a < 80" "b < 25" for a b
    unfolding cell_def using that by (subst unat_of_nat) simp
  then have "cell x y = cell x' y' \<longleftrightarrow> 80 * y + x = 80 * y' + x'"
    using assms by (simp add: word_unat_eq_iff)
  also have "\<dots> \<longleftrightarrow> x = x' \<and> y = y'"
  proof -
    have "(80 * b + a) div 80 = b" "(80 * b + a) mod 80 = a" if "a < 80" for a b :: nat using that by simp_all
    then show ?thesis using assms(1,2) by metis
  qed
  finally show ?thesis .
qed

lemma blank_cells_cell:
  assumes "x0 + n \<le> 80" "y0 < 25" "x < 80" "y < 25"
  shows "blank_cells (cell x0 y0) n v (cell x y) =
    (if y = y0 \<and> x0 \<le> x \<and> x < x0 + n then BLANK else v (cell x y))"
  using assms(1)
proof (induction n)
  case (Suc n)
  then show ?case using assms(2-4) cell_eq_iff [of x "x0 + n" y y0]
    by (auto simp: blank_cells_def cell_add less_Suc_eq)
qed (auto simp: blank_cells_def)

lemma copy_cells_cell:
  assumes "x0 + n \<le> 80" "y0 < 25" "y1 < 25" "y0 \<noteq> y1" "x < 80" "y < 25"
  shows "copy_cells (cell x0 y0) (cell x0 y1) n v (cell x y) =
    (if y = y0 \<and> x0 \<le> x \<and> x < x0 + n then v (cell x y1) else v (cell x y))"
  using assms(1,5,6)
proof (induction n arbitrary: x y)
  case (Suc n)
  have "copy_cells (cell x0 y0) (cell x0 y1) (Suc n) v (cell x y) =
     (if cell x y = cell (x0 + n) y0 then copy_cells (cell x0 y0) (cell x0 y1) n v (cell (x0 + n) y1)
      else copy_cells (cell x0 y0) (cell x0 y1) n v (cell x y))"
    by (simp add: copy_cells_def cell_add)
  moreover have "copy_cells (cell x0 y0) (cell x0 y1) n v (cell (x0 + n) y1) = v (cell (x0 + n) y1)"
    using Suc.IH [of "x0 + n" y1] Suc.prems assms(3,4) by simp
  ultimately show ?case
    using Suc.IH [of x y] Suc.prems cell_eq_iff [of x "x0 + n" y y0] assms(2) by (auto simp: less_Suc_eq)
qed (auto simp: copy_cells_def)

lemma fold_copy_rows:
  assumes "x0 + n \<le> 80" "0 < k" "b + k \<le> 25" "x < 80" "y < 25" "a \<le> b"
  shows "fold (\<lambda>l. copy_cells (cell x0 l) (cell x0 (l + k)) n) [a..<b] v (cell x y) =
    (if a \<le> y \<and> y < b \<and> x0 \<le> x \<and> x < x0 + n then v (cell x (y + k)) else v (cell x y))"
  using assms(6,3,4,5)
proof (induction b arbitrary: x y rule: dec_induct)
  case (step b)
  let ?f = "fold (\<lambda>l. copy_cells (cell x0 l) (cell x0 (l + k)) n) [a..<b] v"
  have "fold (\<lambda>l. copy_cells (cell x0 l) (cell x0 (l + k)) n) [a..<Suc b] v (cell x y) =
    (if y = b \<and> x0 \<le> x \<and> x < x0 + n then ?f (cell x (b + k)) else ?f (cell x y))"
    using step assms(1,2) by (simp add: copy_cells_cell)
  then show ?case using step.IH [of x "b + k"] step.IH [of x y] step.prems step.hyps by auto
qed auto

lemma fold_blank_rows:
  assumes "x0 + n \<le> 80" "b \<le> 25" "x < 80" "y < 25"
  shows "fold (\<lambda>l. blank_cells (cell x0 l) n) [a..<b] v (cell x y) =
    (if a \<le> y \<and> y < b \<and> x0 \<le> x \<and> x < x0 + n then BLANK else v (cell x y))"
  using assms(2,3,4)
proof (induction b)
  case (Suc b)
  then show ?case using assms(1) by (cases "a \<le> b") (auto simp: blank_cells_cell less_Suc_eq)
qed simp

text \<open>The extent of the region in numbers.\<close>

lemma screen_ok_nat:
  assumes "screen_ok ci"
  shows "unat (scroll_min_x ci) \<le> unat (scroll_max_x ci)" "unat (scroll_max_x ci) < 80"
    "unat (scroll_min_y ci) \<le> unat (scroll_max_y ci)" "unat (scroll_max_y ci) < 25"
    "unat (scroll_max_x ci - scroll_min_x ci + 1) = unat (scroll_max_x ci) - unat (scroll_min_x ci) + 1"
proof -
  have le: "unat (scroll_min_x ci) \<le> unat (scroll_max_x ci)" "unat (scroll_max_x ci) \<le> unat (79 :: u32)"
    "unat (scroll_min_y ci) \<le> unat (scroll_max_y ci)" "unat (scroll_max_y ci) \<le> unat (24 :: u32)"
    using assms unfolding screen_ok_def word_le_nat_alt [symmetric] by (auto intro: order.trans)
  then show "unat (scroll_min_x ci) \<le> unat (scroll_max_x ci)" "unat (scroll_max_x ci) < 80"
    "unat (scroll_min_y ci) \<le> unat (scroll_max_y ci)" "unat (scroll_max_y ci) < 25" by simp_all
  have "unat (scroll_max_x ci - scroll_min_x ci) = unat (scroll_max_x ci) - unat (scroll_min_x ci)"
    using le(1) by (simp add: unat_sub_if')
  then show "unat (scroll_max_x ci - scroll_min_x ci + 1) = unat (scroll_max_x ci) - unat (scroll_min_x ci) + 1"
    using le by (simp add: unat_word_ariths)
qed

lemma fold_rows: "fold g (upto_u32 a b) v = fold (\<lambda>l. g (of_nat l)) [unat a..<Suc (unat b)] v"
  by (simp add: upto_u32_def fold_map comp_def)

lemma vid_index_row: "vid_index x0 (of_nat l) = cell (unat x0) l"
  using vid_index_cell [of "unat x0" l] by simp

lemma cio_clearscroll_cell:
  assumes "screen_ok ci" "x < 80" "y < 25"
  shows "video (cio_clearscroll ci) (cell x y) =
    (if unat (scroll_min_x ci) \<le> x \<and> x \<le> unat (scroll_max_x ci) \<and> unat (scroll_min_y ci) \<le> y \<and> y \<le> unat (scroll_max_y ci)
     then BLANK else video ci (cell x y))"
proof -
  note n = screen_ok_nat [OF assms(1)]
  show ?thesis
    unfolding cio_clearscroll_def Let_def cio_state.select_convs cio_state.update_convs
    using n assms(2,3) by (simp add: fold_rows vid_index_row fold_blank_rows less_Suc_eq_le del: upt_Suc)
qed

lemma cio_scroll_cell:
  assumes "screen_ok ci" "0 < n" "x < 80" "y < 25"
  shows "video (cio_scroll n ci) (cell x y) =
    (if unat (scroll_min_x ci) \<le> x \<and> x \<le> unat (scroll_max_x ci) \<and> unat (scroll_min_y ci) \<le> y \<and> y \<le> unat (scroll_max_y ci)
     then (if y + unat n \<le> unat (scroll_max_y ci) then video ci (cell x (y + unat n)) else BLANK)
     else video ci (cell x y))"
proof (cases "n > scroll_max_y ci - scroll_min_y ci")
  case True
  then have "unat (scroll_max_y ci) < unat (scroll_min_y ci) + unat n"
    using screen_ok_nat(3) [OF assms(1)] by (simp add: word_less_nat_alt unat_sub_if')
  with True show ?thesis using cio_clearscroll_cell [OF assms(1,3,4)] by (auto simp: cio_scroll_def)
next
  case False
  note u = screen_ok_nat [OF assms(1)]
  have n: "0 < unat n" "unat (scroll_min_y ci) + unat n \<le> unat (scroll_max_y ci)"
    using False assms(2) u(3) by (auto simp: not_less word_le_nat_alt unat_sub_if' word_gt_0_unat)
  have e: "unat (scroll_max_y ci - n) = unat (scroll_max_y ci) - unat n"
    "unat (scroll_max_y ci - n + 1) = Suc (unat (scroll_max_y ci) - unat n)"
    using n u(4) by (simp_all add: unat_sub_if' unat_word_ariths)
  have row: "vid_index (scroll_min_x ci) (of_nat l + n) = cell (unat (scroll_min_x ci)) (l + unat n)" for l
    using vid_index_row [of "scroll_min_x ci" "l + unat n"] by simp
  show ?thesis
    using False n u assms(3,4)
    by (simp add: cio_scroll_def Let_def fold_rows vid_index_row row e fold_blank_rows fold_copy_rows less_Suc_eq_le
        del: upt_Suc) auto
qed

section \<open>The input ring\<close>

definition kb_ok :: "cio_state \<Rightarrow> bool" where
  "kb_ok ci \<longleftrightarrow> next_char ci < C_BUFSIZE \<and> next_space ci < C_BUFSIZE"

definition kbq :: "cio_state \<Rightarrow> u8 list" where
  "kbq ci = map (\<lambda>i. input_buffer ci ((next_char ci + i) mod C_BUFSIZE)) [0..<nat (cio_input_queue ci)]"

lemma queue_nat:
  assumes "kb_ok ci"
  shows "nat (cio_input_queue ci) = (if next_char ci \<le> next_space ci then next_space ci - next_char ci
    else next_space ci + C_BUFSIZE - next_char ci)"
  using assms by (auto simp: kb_ok_def cio_input_queue_def Let_def)

lemma cio_input_queue_bounds:
  assumes "kb_ok ci"
  shows "0 \<le> cio_input_queue ci" "cio_input_queue ci < int C_BUFSIZE"
    "(next_char ci + nat (cio_input_queue ci)) mod C_BUFSIZE = next_space ci"
proof -
  show "0 \<le> cio_input_queue ci" "cio_input_queue ci < int C_BUFSIZE"
    using assms by (auto simp: kb_ok_def cio_input_queue_def Let_def)
  have "a < C_BUFSIZE \<Longrightarrow> b < C_BUFSIZE \<Longrightarrow> (a + (if a \<le> b then b - a else b + C_BUFSIZE - a)) mod C_BUFSIZE = b" for a b
    by simp
  then show "(next_char ci + nat (cio_input_queue ci)) mod C_BUFSIZE = next_space ci"
    using assms unfolding queue_nat [OF assms] kb_ok_def by blast
qed

lemma length_kbq: "kb_ok ci \<Longrightarrow> int (length (kbq ci)) = cio_input_queue ci"
  using cio_input_queue_bounds(1) by (simp add: kbq_def)

lemma length_kbq_nat: "length (kbq ci) = nat (cio_input_queue ci)"
  by (simp add: kbq_def)

lemma increment_mod: "n < C_BUFSIZE \<Longrightarrow> increment n = (n + 1) mod C_BUFSIZE"
  by (simp add: increment_def mod_if)

lemma increment_less: "n < C_BUFSIZE \<Longrightarrow> increment n < C_BUFSIZE"
  by (simp add: increment_def)

lemma kbq_full: "kb_ok ci \<Longrightarrow> increment (next_space ci) = next_char ci \<longleftrightarrow> length (kbq ci) = C_BUFSIZE - 1"
  unfolding length_kbq_nat by (simp add: queue_nat) (auto simp: kb_ok_def increment_def)

text \<open>The state after the character \<open>c\<close> has been stored, and after the first one has been taken.\<close>

definition kb_put :: "u8 \<Rightarrow> cio_state \<Rightarrow> cio_state" where
  "kb_put c ci = ci\<lparr>input_buffer := (input_buffer ci)(next_space ci := c), next_space := increment (next_space ci)\<rparr>"

definition kb_take :: "cio_state \<Rightarrow> cio_state" where
  "kb_take ci = ci\<lparr>next_char := increment (next_char ci)\<rparr>"

lemma kb_put_kbq:
  assumes "kb_ok ci" "length (kbq ci) < C_BUFSIZE - 1"
  shows "kbq (kb_put c ci) = kbq ci @ [c]" "kb_ok (kb_put c ci)"
proof -
  let ?n = "nat (cio_input_queue ci)"
  show ok': "kb_ok (kb_put c ci)" using assms(1) by (simp add: kb_ok_def kb_put_def increment_less)
  have n: "?n < C_BUFSIZE - 1" using assms(2) by (simp add: kbq_def)
  have q: "nat (cio_input_queue (kb_put c ci)) = Suc ?n"
    using n unfolding queue_nat [OF assms(1)] queue_nat [OF ok']
    using assms(1) by (auto simp: kb_ok_def kb_put_def increment_def split: if_splits)
  have last: "(next_char ci + ?n) mod C_BUFSIZE = next_space ci" by (rule cio_input_queue_bounds(3) [OF assms(1)])
  have old: "(next_char ci + i) mod C_BUFSIZE \<noteq> next_space ci" if "i < ?n" for i
    using last that n assms(1) by (auto simp: kb_ok_def mod_if split: if_splits)
  have "kbq (kb_put c ci) = map (\<lambda>i. ((input_buffer ci)(next_space ci := c)) ((next_char ci + i) mod C_BUFSIZE)) [0..<Suc ?n]"
    unfolding kbq_def q by (simp add: kb_put_def)
  also have "\<dots> = kbq ci @ [c]" using last old by (simp add: kbq_def)
  finally show "kbq (kb_put c ci) = kbq ci @ [c]" .
qed

lemma kb_take_kbq:
  assumes "kb_ok ci" "kbq ci = c # cs"
  shows "kbq (kb_take ci) = cs" "kb_ok (kb_take ci)" "input_buffer ci (next_char ci) = c" "next_char ci \<noteq> next_space ci"
proof -
  let ?n = "nat (cio_input_queue ci)"
  have n: "?n = Suc (length cs)" using arg_cong [OF assms(2), of length] by (simp add: length_kbq_nat)
  show ok': "kb_ok (kb_take ci)" using assms(1) by (simp add: kb_ok_def kb_take_def increment_less)
  have q: "nat (cio_input_queue (kb_take ci)) = length cs"
    using n unfolding queue_nat [OF assms(1)] queue_nat [OF ok']
    using assms(1) by (auto simp: kb_ok_def kb_take_def increment_def split: if_splits)
  have "kbq ci = map (\<lambda>i. input_buffer ci ((next_char ci + i) mod C_BUFSIZE)) [0..<Suc (length cs)]"
    unfolding kbq_def n ..
  also have "\<dots> = input_buffer ci (next_char ci mod C_BUFSIZE) #
      map (\<lambda>i. input_buffer ci ((next_char ci + Suc i) mod C_BUFSIZE)) [0..<length cs]"
    by (simp add: map_upt_Suc del: upt_Suc)
  finally have "c = input_buffer ci (next_char ci mod C_BUFSIZE)"
    "cs = map (\<lambda>i. input_buffer ci ((next_char ci + Suc i) mod C_BUFSIZE)) [0..<length cs]" using assms(2) by simp_all
  moreover have "next_char ci mod C_BUFSIZE = next_char ci" using assms(1) by (simp add: kb_ok_def)
  moreover have "kbq (kb_take ci) = map (\<lambda>i. input_buffer ci ((next_char ci + Suc i) mod C_BUFSIZE)) [0..<length cs]"
    using assms(1) unfolding kbq_def q by (simp add: kb_take_def increment_mod kb_ok_def mod_add_left_eq)
  ultimately show "kbq (kb_take ci) = cs" "input_buffer ci (next_char ci) = c" by simp_all
  show "next_char ci \<noteq> next_space ci" using n by (auto simp: cio_input_queue_def)
qed

lemma kb_cong [simp]:
  "kbq (ci\<lparr>video := v\<rparr>) = kbq ci" "kbq (ci\<lparr>curr_x := x\<rparr>) = kbq ci" "kbq (ci\<lparr>curr_y := x\<rparr>) = kbq ci"
  "kbq (ci\<lparr>shift := n\<rparr>) = kbq ci" "kbq (ci\<lparr>ctrl_mask := b\<rparr>) = kbq ci"
  by (simp_all add: kbq_def cio_input_queue_def)

text \<open>The scan codes of the keys other than shift and control, and the character of such a key.\<close>

definition key_press :: "u8 \<Rightarrow> bool" where
  "key_press code \<longleftrightarrow> code AND 0x80 = 0 \<and> code \<notin> set [0x2a, 0x36, 0x1d]"

definition key_char :: "cio_state \<Rightarrow> u8 \<Rightarrow> u8" where
  "key_char ci code = scan_code ! shift ci ! unat code AND ctrl_mask ci"

lemma input_scan_code_press:
  assumes "key_press code" "kb_ok ci"
  shows "input_scan_code code ci =
    (uint (key_char ci code), if length (kbq ci) < C_BUFSIZE - 1 then kb_put (key_char ci code) ci else ci)"
proof -
  have "length (kbq ci) \<le> C_BUFSIZE - 1"
    using cio_input_queue_bounds(2) [OF assms(2)] length_kbq [OF assms(2)] by simp
  then have "increment (next_space ci) \<noteq> next_char ci \<longleftrightarrow> length (kbq ci) < C_BUFSIZE - 1"
    using kbq_full [OF assms(2)] by auto
  moreover have "code \<noteq> 0xaa" "code \<noteq> 0xb6" "code \<noteq> 0x9d" using assms(1) by (auto simp: key_press_def)
  ultimately show ?thesis
    using assms(1) by (simp add: input_scan_code_def key_press_def Let_def key_char_def kb_put_def)
qed

section \<open>Properties\<close>

definition sample_cio :: cio_state where
  "sample_cio = cio_init \<lparr>scroll_min_x = 0, scroll_min_y = 0, scroll_max_x = 0, scroll_max_y = 0, curr_x = 0, curr_y = 0,
     min_x = 0, min_y = 0, max_x = 0, max_y = 0, video = \<lambda>_. 0, input_buffer = \<lambda>_. 0, next_char = 0, next_space = 0,
     shift = 0, ctrl_mask = 0xff\<rparr>"

lemma sample_cio_ok: "screen_ok sample_cio" "kb_ok sample_cio" "kbq sample_cio = []"
  by (simp_all add: sample_cio_def cio_init_def screen_ok_def kb_ok_def kbq_def cio_input_queue_def)



text \<open>C26. \<^verbatim>\<open>cio_scroll\<close> moves the lines of the scrolling region up: each cell of the region gets what was
  \<open>n\<close> lines below it, the lines at the bottom (all of them, if \<open>n\<close> is too large) become blank, and
  nothing outside the region changes.\<close>

theorem cio_scroll_moves_up:
  assumes "screen_ok ci" "0 < n" "x < 80" "y < 25"
  shows "video (cio_scroll n ci) (vid_index (of_nat x) (of_nat y)) =
    (if unat (scroll_min_x ci) \<le> x \<and> x \<le> unat (scroll_max_x ci) \<and> unat (scroll_min_y ci) \<le> y \<and> y \<le> unat (scroll_max_y ci)
     then (if y + unat n \<le> unat (scroll_max_y ci) then video ci (vid_index (of_nat x) (of_nat (y + unat n))) else BLANK)
     else video ci (vid_index (of_nat x) (of_nat y)))"
  unfolding vid_index_cell by (rule cio_scroll_cell [OF assms])

theorem cio_scroll_moves_up_witness:
  "video (cio_scroll 3 (cio_setscroll 0 7 99 99 (sample_cio\<lparr>video := \<lambda>i. ucast i\<rparr>))) (vid_index (of_nat 5) (of_nat 10)) = 1045"
proof -
  let ?ci = "cio_setscroll 0 7 99 99 (sample_cio\<lparr>video := \<lambda>i. ucast i\<rparr>)"
  have "screen_ok ?ci" by (simp add: sample_cio_def cio_init_def cio_setscroll_def bound_def screen_ok_def)
  from cio_scroll_moves_up [OF this, of 3 5 10] show ?thesis
    by (simp add: sample_cio_def cio_init_def cio_setscroll_def bound_def vid_index_def)
qed

text \<open>C27. The input characters form a queue of at most 199: a key press appends the character of the key
  (under shift and control) if there is room and is lost otherwise, \<^verbatim>\<open>cio_input_queue\<close> is the length of
  the queue, and \<^verbatim>\<open>cio_getchar\<close> takes its first character, which it echoes unless it is EOT.\<close>

theorem keyboard_queue:
  assumes "kb_ok ci"
  shows "cio_input_queue ci = int (length (kbq ci)) \<and>
    (key_press code \<longrightarrow>
       kbq (snd (input_scan_code code ci)) =
         (if length (kbq ci) < C_BUFSIZE - 1 then kbq ci @ [key_char ci code] else kbq ci)) \<and>
    (kbq ci = c # cs \<longrightarrow>
       (\<exists>ci'. kbq ci' = cs \<and> kb_ok ci' \<and>
          cio_getchar kbd (ci, d) =
            bindR (if c \<noteq> EOT then cio_putchar (sx c) (ci', d) else Inr (ci', d)) (\<lambda>s. Inr (c, kbd, s))))"
proof (intro conjI impI)
  show "cio_input_queue ci = int (length (kbq ci))" using length_kbq [OF assms] by simp
  show "kbq (snd (input_scan_code code ci)) =
      (if length (kbq ci) < C_BUFSIZE - 1 then kbq ci @ [key_char ci code] else kbq ci)" if "key_press code"
    using input_scan_code_press [OF that assms] kb_put_kbq(1) [OF assms] by simp
  assume q: "kbq ci = c # cs"
  note T = kb_take_kbq [OF assms q]
  have "wait_key kbd ci = Inr (kbd, ci)" using T(4) by (cases kbd) simp_all
  then show "\<exists>ci'. kbq ci' = cs \<and> kb_ok ci' \<and> cio_getchar kbd (ci, d) =
      bindR (if c \<noteq> EOT then cio_putchar (sx c) (ci', d) else Inr (ci', d)) (\<lambda>s. Inr (c, kbd, s))"
    using T by (intro exI [of _ "kb_take ci"]) (simp add: cio_getchar_def Let_def kb_take_def)
qed

theorem keyboard_queue_witness:
  "kbq (snd (input_scan_code 0x1e sample_cio)) = [97] \<and> cio_input_queue (snd (input_scan_code 0x1e sample_cio)) = 1"
proof -
  have k: "key_press 0x1e" by (simp add: key_press_def)
  have "key_char sample_cio 0x1e = 97" by (simp add: key_char_def sample_cio_def cio_init_def scan_code_def)
  then have "kbq (snd (input_scan_code 0x1e sample_cio)) = [97]"
    using keyboard_queue [OF sample_cio_ok(2), of "0x1e"] k sample_cio_ok(3) by simp
  moreover have "kb_ok (snd (input_scan_code 0x1e sample_cio))"
    using k sample_cio_ok kb_put_kbq(2) by (simp add: input_scan_code_press)
  ultimately show ?thesis using keyboard_queue [of "snd (input_scan_code 0x1e sample_cio)"] by simp
qed

lemma all_ones: "255 AND b = (b :: u8)"
proof -
  have m: "(255 :: u8) = mask 8" by (simp add: mask_eq_exp_minus_1)
  show ?thesis unfolding m by (rule bit_word_eqI) (simp add: bit_simps)
qed

text \<open>Scan codes without a character are not ignored: the table marks them with 255, and the press of such
  a key puts the byte 255 (masked under control) into the input queue and reports it to the callback.\<close>

theorem undefined_key_is_stored:
  assumes "kb_ok ci" "key_press code" "scan_code ! shift ci ! unat code = 255" "length (kbq ci) < C_BUFSIZE - 1"
  shows "\<exists>ci'. input_scan_code code ci = (uint (ctrl_mask ci), ci') \<and> kbq ci' = kbq ci @ [ctrl_mask ci]"
proof -
  have "key_char ci code = ctrl_mask ci" unfolding key_char_def assms(3) by (rule all_ones)
  then show ?thesis using input_scan_code_press [OF assms(2,1)] kb_put_kbq(1) [OF assms(1,4)] assms(4) by simp
qed

theorem undefined_key_is_stored_witness:
  "\<exists>ci'. input_scan_code 0x3b sample_cio = (255, ci') \<and> kbq ci' = [255]"
proof -
  have "scan_code ! shift sample_cio ! unat (0x3b :: u8) = 255" by (simp add: sample_cio_def cio_init_def scan_code_def)
  moreover have "key_press 0x3b" by (simp add: key_press_def)
  moreover have "ctrl_mask sample_cio = 0xff" by (simp add: sample_cio_def cio_init_def)
  ultimately show ?thesis using undefined_key_is_stored [OF sample_cio_ok(2), of "0x3b"] sample_cio_ok(3) by simp
qed

end
