(* ===== verification/Nic.thy ===== *)
theory Nic
  imports Prelude
begin

text \<open>
  The state of the Ethernet driver, \<^verbatim>\<open>intel8255x.c\<close>, and of \<^verbatim>\<open>net.c\<close>: the descriptor rings, which the
  driver shares with the device, the index of the next receive descriptor, the hardware address,
  and the writes to the registers of the device, the latest last.
\<close>

record tx_desc =
  td_addr :: u64
  td_length :: u16
  td_cso :: u8
  td_cmd :: u8
  td_status :: u8
  td_css :: u8
  td_special :: u16

record rx_desc =
  rd_addr :: u64
  rd_length :: u16
  rd_csum :: u16
  rd_status :: u8
  rd_errors :: u8
  rd_special :: u16

record i8255x =
  dev_addr :: addr  \<comment> \<open>where the structure lies\<close>
  mmio_base :: u32
  rx_ring :: "nat \<Rightarrow> rx_desc"
  tx_ring :: "nat \<Rightarrow> tx_desc"

record nic_state =
  global_dev :: "i8255x option"
  rx_next :: u32
  net_src_mac :: "nat \<Rightarrow> u8"
  mmio_out :: "(u32 \<times> u32) list"

abbreviation I8255X_RX_RING_SIZE :: nat where "I8255X_RX_RING_SIZE \<equiv> 16"
abbreviation I8255X_TX_RING_SIZE :: nat where "I8255X_TX_RING_SIZE \<equiv> 16"

text \<open>\<^verbatim>\<open>write_reg\<close>\<close>

definition write_reg :: "i8255x \<Rightarrow> u32 \<Rightarrow> u32 \<Rightarrow> nic_state \<Rightarrow> nic_state" where
  "write_reg dev off v n = n\<lparr>mmio_out := mmio_out n @ [(mmio_base dev + off, v)]\<rparr>"

end
