(* ===== verification/Sio_Isr.thy ===== *)
theory Sio_Isr
  imports Procs Cio Nic
begin

unbundle bit_operations_syntax

text \<open>
  The state of the whole kernel, and the interrupt handler of the serial driver, which works on all of
  it: it moves characters between the device and the buffers, wakes readers and prints messages
  on the console. The bytes its port reads return are a list argument, in the order in which the
  code reads them.
\<close>

section \<open>The kernel state\<close>

text \<open>What system calls and interrupt handlers work on: processes and memory, the serial driver, the console,
  the clock variables of \<^verbatim>\<open>clock.c\<close>, the network interface, and the writes to other ports, the latest last.\<close>

record kernel =
  kst :: kstate
  sio :: sio_state
  cio :: cio_state
  pinwheel :: u32
  pindex :: u32
  system_time :: u32
  nic :: nic_state
  port_out :: "(u16 \<times> u8) list"

definition on_con :: "(con \<Rightarrow> con res) \<Rightarrow> kernel \<Rightarrow> kernel res" where
  "on_con f k = bindR (f (cio k, sio k)) (\<lambda>(ci, d). Inr (k\<lparr>cio := ci, sio := d\<rparr>))"

text \<open>A string constant of the code, with its NUL.\<close>

definition cstring :: "string \<Rightarrow> u8 list" where
  "cstring s = map of_char s @ [0]"

definition pic_eoi :: "kernel \<Rightarrow> kernel" where
  "pic_eoi k = k\<lparr>port_out := port_out k @ [(PIC1_CMD, PIC_EOI)]\<rparr>"

section \<open>The handler\<close>

definition wake_reader :: "kernel \<Rightarrow> kernel res" where
  "wake_reader k =
     bindR (pcb_queue_remove Q_sioread (kp (kst k)))
       (\<lambda>(st, pcb, ps).
          if st \<noteq> SUCCESS then Inl (Assert ''pcb_queue_remove == SUCCESS'')
          else
            (case pcb of
               None \<Rightarrow> Inl (Assert ''pcb'')
             | Some p \<Rightarrow>
                 let s1 = (kst k)\<lparr>kp := ps\<rparr>
                 in bindR (deliver (ARG s1 p 2) (ARG s1 p 3) 0 (k_mem (km s1)) (sio k))
                      (\<lambda>(num, m, d).
                         bindR (schedule (Some p) (set_RET p num (mem_upd (\<lambda>_. m) s1)))
                           (\<lambda>s2. Inr (k\<lparr>kst := s2,
                                       sio := (if incount d < 1
                                               then d\<lparr>inlast := 0, innext := 0, incount := 0\<rparr>
                                               else d)\<rparr>)))))"

definition sio_rx :: "u8 list \<Rightarrow> kernel \<Rightarrow> (u8 list \<times> kernel) res" where
  "sio_rx bs k =
     bindR (rx_loop bs (sio k))
       (\<lambda>(bs', d).
          let k1 = k\<lparr>sio := d\<rparr>
          in if pcb_queue_empty Q_sioread (kp (kst k1)) then Inr (bs', k1)
             else bindR (wake_reader k1) (\<lambda>k2. Inr (bs', k2)))"

text \<open>A message on the console that an interrupt was unexpected, with the byte read from a port.\<close>

definition odd_event :: "string \<Rightarrow> u8 list \<Rightarrow> kernel \<Rightarrow> (u8 list \<times> kernel) res" where
  "odd_event msg bs k =
     (case bs of
        [] \<Rightarrow> Inl Hang
      | b # bs' \<Rightarrow>
          bindR (on_con (cio_printf (k_mem (km (kst k))) (cstring (msg @ ''%02x'' @ [CHR 0x0A])) [ucast b]) k)
            (\<lambda>k'. Inr (bs', k')))"

text \<open>One round of the outer loop for the event \<open>iir\<close>, which is not \<^verbatim>\<open>UA4_IIR_NO_INT\<close>.\<close>

definition sio_event :: "u8 \<Rightarrow> u8 list \<Rightarrow> kernel \<Rightarrow> (u8 list \<times> kernel) res" where
  "sio_event iir bs k =
     (if iir = UA4_IIR_LINE_STATUS then odd_event ''** SIO int, LSR = '' bs k
      else if iir = UA4_IIR_RX then sio_rx bs k
      else if iir = UA5_IIR_RX_FIFO then odd_event ''** SIO FIFO timeout, RXD = '' bs k
      else if iir = UA4_IIR_TX then bindR (sio_tx (sio k)) (\<lambda>d. Inr (bs, k\<lparr>sio := d\<rparr>))
      else if iir = UA4_IIR_MODEM_STATUS then odd_event ''** SIO int, MSR = '' bs k
      else Inl (Kpanic ''sio isr: IIR''))"

lemma sio_event_shorter: "sio_event iir bs k = Inr (bs', k') \<Longrightarrow> length bs' \<le> length bs"
  unfolding sio_event_def odd_event_def sio_rx_def Let_def
  by (auto simp: bindR_eq_Inr split: if_splits list.splits dest: rx_loop_shorter)

function sio_isr :: "u8 list \<Rightarrow> kernel \<Rightarrow> kernel res" where
  "sio_isr [] k = Inl Hang"
| "sio_isr (b # bs) k =
     (if b AND 0x0f = UA4_IIR_NO_INT then Inr (pic_eoi k)
      else bindR (sio_event (b AND 0x0f) bs k) (\<lambda>(bs', k'). sio_isr bs' k'))"
  by pat_completeness auto
termination
  by (relation "measure (\<lambda>(bs, k). length bs)") (auto dest: sio_event_shorter simp: less_Suc_eq_le)

section \<open>Transmission\<close>

lemma sio_isr_tx:
  assumes "sio_tx (sio k) = Inr d"
  shows "sio_isr (UA4_IIR_TX # bs) k = sio_isr bs (k\<lparr>sio := d\<rparr>)"
  using assms by (simp add: sio_event_def)

text \<open>As many transmitter interrupts as there are bytes, and one more, empty the ring.\<close>

lemma sio_isr_drain:
  assumes "out_ok (sio k)" "sending (sio k)"
  shows "\<exists>k'. sio_isr (replicate (Suc (length (outq (sio k)))) UA4_IIR_TX @ [UA4_IIR_NO_INT]) k = Inr k' \<and>
    tx_bytes (sio k') = tx_bytes (sio k) @ outq (sio k) \<and> \<not> sending (sio k') \<and> out_ok (sio k') \<and>
    outq (sio k') = [] \<and> kst k' = kst k"
  using assms
proof (induction "outq (sio k)" arbitrary: k)
  case Nil
  obtain d where D: "sio_tx (sio k) = Inr d" "out_ok d" "outq d = []" "\<not> sending d" "tx_bytes d = tx_bytes (sio k)"
    using sio_tx_done [of "sio k"] Nil by auto
  have "sio_isr (replicate (Suc (length (outq (sio k)))) UA4_IIR_TX @ [UA4_IIR_NO_INT]) k = Inr (pic_eoi (k\<lparr>sio := d\<rparr>))"
    using Nil(1) sio_isr_tx [OF D(1)] by (simp flip: Nil(1))
  with D Nil(1) show ?case by (auto simp: pic_eoi_def)
next
  case (Cons b bs)
  obtain d where D: "sio_tx (sio k) = Inr d" "out_ok d" "outq d = bs" "sending d" "tx_bytes d = tx_bytes (sio k) @ [b]"
    using sio_tx_send [OF Cons(3,4)] Cons(2) by metis
  from Cons(1) [of "k\<lparr>sio := d\<rparr>"] D obtain k' where
    "sio_isr (replicate (Suc (length bs)) UA4_IIR_TX @ [UA4_IIR_NO_INT]) (k\<lparr>sio := d\<rparr>) = Inr k'"
    "tx_bytes (sio k') = tx_bytes d @ bs" "\<not> sending (sio k')" "out_ok (sio k')" "outq (sio k') = []" "kst k' = kst k"
    by auto
  with D Cons(2) sio_isr_tx [OF D(1)] show ?case by (simp flip: Cons(2))
qed

section \<open>Properties\<close>

definition sample_kernel :: kernel where
  "sample_kernel = \<lparr>kst = sample_kstate, sio = sample_sio, cio = sample_cio, pinwheel = 0, pindex = 0, system_time = 0,
     nic = \<lparr>global_dev = None, rx_next = 0, net_src_mac = (\<lambda>_. 0), mmio_out = []\<rparr>, port_out = []\<rparr>"

lemma sample_kernel_sio: "sio sample_kernel = sample_sio"
  by (simp add: sample_kernel_def)



text \<open>A line feed as the first byte of a buffer of several bytes is sent out of order when the driver
  is idle: the device is given the carriage return, then the rest of the buffer, and the line feed
  last, because \<^verbatim>\<open>sio_write\<close> queues the rest before it calls \<^verbatim>\<open>sio_writec\<close> for the first byte.\<close>

theorem sio_write_line_feed_last:
  assumes "sio_idle (sio k)" "outlast (sio k) = 0" "2 \<le> len" "len < int BUF_SIZE" "m buf = LF"
  shows "\<exists>d k'. sio_write m buf len (sio k) = Inr (len, d) \<and>
    sio_isr (replicate (nat len + 1) UA4_IIR_TX @ [UA4_IIR_NO_INT]) (k\<lparr>sio := d\<rparr>) = Inr k' \<and>
    tx_bytes (sio k') = tx_bytes (sio k) @ [CR] @ map (\<lambda>i. m (buf + 1 + of_nat i)) [0..<nat len - 1] @ [LF]"
proof -
  have "outnext (sio k) = 0" using assms(1,2) length_outq [of "sio k"] by (auto simp: sio_idle_def out_ok_def)
  moreover have len1: "1 \<le> len" "len \<le> int BUF_SIZE + 1" using assms(3,4) by simp_all
  ultimately obtain s1 where S: "out_ok s1" "\<not> sending s1" "tx_bytes s1 = tx_bytes (sio k)"
    "outq s1 = map (\<lambda>i. m (buf + 1 + of_nat i)) [0..<nat len - 1]" "outnext s1 = 0"
    "sio_write m buf len (sio k) = bindR (sio_writec (m buf) s1) (\<lambda>s2. Inr (len, s2))"
    using sio_write_idle [OF assms(1) len1, of m buf] by metis
  obtain s2 where S2: "put_out CR s1 = Inr s2" "out_ok s2" "outq s2 = outq s1" "sending s2" "tx_bytes s2 = tx_bytes s1 @ [CR]"
    "outlast s2 = outlast s1" "outcount s2 = outcount s1"
    by (rule prime_pump [OF S(1,2)])
  have c: "unat (outcount s1) = nat len - 1" using length_outq [of s1] S(4) by simp
  then have last: "outlast s2 + 1 < BUF_SIZE" using S(1,5) S2(6) assms(3,4) by (simp add: out_ok_def)
  define d where "d = out_pushed LF s2"
  have put: "put_out LF s2 = Inr d" using S2(4) last by (simp add: put_out_def d_def out_pushed_def)
  have P: "out_ok d" "outq d = outq s1 @ [LF]"
    using out_push(2,3) [OF S2(2), of LF] c S2(3,7) assms(3,4) by (simp_all add: d_def)
  have keep: "sending d" "tx_bytes d = tx_bytes (sio k) @ [CR]"
    using S2(4,5) S(3) by (simp_all add: d_def out_pushed_def tx_bytes_def)
  have n: "Suc (length (outq d)) = nat len + 1" using P(2) S(4) assms(3) by simp
  obtain k' where "sio_isr (replicate (Suc (length (outq d))) UA4_IIR_TX @ [UA4_IIR_NO_INT]) (k\<lparr>sio := d\<rparr>) = Inr k'"
    "tx_bytes (sio k') = tx_bytes d @ outq d"
    using sio_isr_drain [of "k\<lparr>sio := d\<rparr>"] P(1) keep(1) by auto
  then show ?thesis
    unfolding n using S(4,6) S2(1) put P(2) keep(2) assms(5) by (simp add: sio_writec_def)
qed

theorem sio_write_line_feed_last_witness:
  "\<exists>d k'. sio_write (sample_msg(100 := LF)) 100 2 sample_sio = Inr (2, d) \<and>
     sio_isr [2, 2, 2, 1] (sample_kernel\<lparr>sio := d\<rparr>) = Inr k' \<and> tx_bytes (sio k') = [CR, 105, LF]"
  using sio_write_line_feed_last [of sample_kernel 2 "sample_msg(100 := LF)" 100] sample_sio_ok(1)
  by (auto simp: sample_kernel_sio sample_sio_simps sample_msg_def numeral_2_eq_2 simp del: sio_isr.simps)

text \<open>When input arrives for a process that is blocked in a read, it is woken: it gets the pending
  characters that fit into its buffer, their number as the result of its call, and a place in the
  ready queue; the characters that do not fit stay pending.\<close>

theorem wake_reader_delivers:
  assumes "qreps (kp (kst k)) L" "L Q_sioread = p # ps" "p_state (ptable (kp (kst k)) p) \<noteq> STATE_KILLED"
    "in_ok (sio k)"
  shows "\<exists>k'. wake_reader k = Inr k' \<and>
    qreps (kp (kst k')) (L(Q_sioread := ps, Q_ready := qins (kp (kst k)) Q_ready p (L Q_ready))) \<and>
    p_state (ptable (kp (kst k')) p) = STATE_READY \<and>
    (let data = take (unat (ARG (kst k) p 3)) (inq (sio k))
     in get_RET (kst k') p = of_nat (length data) \<and>
        inq (sio k') = drop (length data) (inq (sio k)) \<and>
        (\<forall>x. \<not> inr (p_context (ptable (kp (kst k)) p) + 48) 4 x \<longrightarrow>
           k_mem (km (kst k')) x = store_bytes (ARG (kst k) p 2) data (k_mem (km (kst k))) x))"
proof -
  let ?s = "kst k"
  obtain ps1 where R: "pcb_queue_remove Q_sioread (kp ?s) = Inr (SUCCESS, Some p, ps1)"
    "qreps ps1 (L(Q_sioread := ps))" "frame Q_sioread (set (L Q_sioread)) (kp ?s) ps1"
    by (rule qreps_remove [OF assms(1,2)])
  define s1 where "s1 = ?s\<lparr>kp := ps1\<rparr>"
  have arg: "ARG s1 p n = ARG ?s p n" "p_context (ptable (kp s1) p) = p_context (ptable (kp ?s) p)" for n
    using frame_data(6) [OF R(3)] by (simp_all add: s1_def ARG_def)
  let ?data = "take (unat (ARG ?s p 3)) (inq (sio k))"
  obtain d where D: "deliver (ARG ?s p 2) (ARG ?s p 3) 0 (k_mem (km ?s)) (sio k) =
      Inr (of_nat (length ?data), store_bytes (ARG ?s p 2) ?data (k_mem (km ?s)), d)"
    "in_ok d" "inq d = drop (unat (ARG ?s p 3)) (inq (sio k))"
    using deliver_eq [OF assms(4), of "ARG ?s p 2" "ARG ?s p 3" 0 "k_mem (km ?s)"] by auto
  define s2 where "s2 = set_RET p (of_nat (length ?data)) (mem_upd (\<lambda>_. store_bytes (ARG ?s p 2) ?data (k_mem (km ?s))) s1)"
  have kp2: "kp s2 = ps1" by (simp add: s2_def s1_def)
  have pL: "p < N_PROCS" "p \<notin> set ((L(Q_sioread := ps)) q)" for q
    using qreps_member [OF assms(1), of p Q_sioread] pq.contents_once [OF assms(1), of Q_sioread]
      qreps_unique_queue [OF assms(1), of p Q_sioread q] assms(2) by auto
  have "qreps (kp s2) (L(Q_sioread := ps))" "p_state (ptable (kp s2) p) \<noteq> STATE_KILLED"
    using R(2) frame_data(4) [OF R(3)] assms(3) kp2 by simp_all
  with pL obtain s3 where S3: "schedule (Some p) s2 = Inr s3" "km s3 = km s2"
    "qreps (kp s3) ((L(Q_sioread := ps))(Q_ready := qins (kp s2) Q_ready p ((L(Q_sioread := ps)) Q_ready)))"
    "\<forall>x. same_pcb (ptable (kp s3) x) (if x = p then (ptable (kp s2) x)\<lparr>p_state := STATE_READY\<rparr> else ptable (kp s2) x)"
    using schedule_not_killed [of s2 "L(Q_sioread := ps)" p] by metis
  define k' where "k' = k\<lparr>kst := s3, sio := (if incount d < 1 then d\<lparr>inlast := 0, innext := 0, incount := 0\<rparr> else d)\<rparr>"
  have wk: "wake_reader k = Inr k'"
    using R(1) D(1) S3(1) arg by (simp add: wake_reader_def s1_def [symmetric] s2_def k'_def Let_def)
  have "qins ps1 Q_ready = qins (kp ?s) Q_ready"
    using frame_key [OF R(3)] by (intro qins_cong) (simp_all add: qrepsD(2) [OF R(2)] qrepsD(2) [OF assms(1)])
  then have "qreps (kp (kst k')) (L(Q_sioread := ps, Q_ready := qins (kp ?s) Q_ready p (L Q_ready)))"
    using S3(3) kp2 by (simp add: k'_def)
  moreover have "inq (sio k') = drop (length ?data) (inq (sio k))"
  proof -
    have "incount d < 1 \<Longrightarrow> inq d = []" using length_inq [OF D(2)] by (simp add: word_less_nat_alt)
    moreover have "drop (length ?data) (inq (sio k)) = drop (unat (ARG ?s p 3)) (inq (sio k))" by (auto simp: min_def)
    ultimately show ?thesis using D(3) by (auto simp: k'_def inq_def)
  qed
  moreover have "p_state (ptable (kp s3) p) = STATE_READY" "p_context (ptable (kp s3) p) = p_context (ptable (kp ?s) p)"
    using S3(4) [rule_format, of p] kp2 arg(2) by (simp_all add: same_pcb_iff s1_def)
  ultimately show ?thesis
    using wk S3(2) arg(2) by (auto simp: k'_def Let_def get_RET_def s2_def set_RET_def mem_upd_def s1_def store32_other)
qed

theorem wake_reader_delivers_witness:
  "\<exists>k k'. wake_reader k = Inr k' \<and> p_state (ptable (kp (kst k')) 5) = STATE_READY"
proof -
  let ?p = "upd_queue Q_sioread (\<lambda>qu. qu\<lparr>q_head := Some 5, q_tail := Some 5, q_length := 1\<rparr>)
    (upd_queue Q_ready (\<lambda>qu. qu\<lparr>q_head := None, q_tail := None, q_length := 0\<rparr>) sample_procs)"
  let ?k = "sample_kernel\<lparr>kst := \<lparr>kp = ?p, km = sample_kms\<rparr>\<rparr>"
  let ?L = "(\<lambda>_. [])(Q_sioread := [5])"
  have "qreps (kp (kst ?k)) ?L"
    by (auto simp: qreps_def qrep_def sample_procs_def links_def sample_pcb_def last_opt_def)
  moreover have "p_state (ptable (kp (kst ?k)) 5) \<noteq> STATE_KILLED" by (simp add: sample_procs_def sample_pcb_def)
  moreover have "in_ok (sio ?k)" using sample_sio_ok(2) by (simp add: sample_kernel_def)
  ultimately show ?thesis using wake_reader_delivers [of ?k ?L 5 "[]"] by (metis fun_upd_same)
qed

end
