(* ===== verification/Clock.thy ===== *)
theory Clock
  imports Sio_Isr
begin

unbundle bit_operations_syntax

text \<open>
  The clock, \<^verbatim>\<open>clock.c\<close>: the timer interrupt advances the time, wakes the sleepers whose time has
  come and charges the current process for the tick.
\<close>

abbreviation CLOCK_FREQ :: u32 where "CLOCK_FREQ \<equiv> 1000"
abbreviation PIT_FREQ :: u32 where "PIT_FREQ \<equiv> 1193182"

definition spinner :: "u32 \<Rightarrow> u8" where
  "spinner i = [124, 47, 45, 92] ! unat (i AND 3)"

definition clk_init :: "kernel \<Rightarrow> kernel" where
  "clk_init k =
     (let divisor = PIT_FREQ div CLOCK_FREQ
      in k\<lparr>pinwheel := CLOCK_FREQ div 10 - 1, pindex := 0, system_time := 0,
           port_out := port_out k @ [(0x43, 0x36), (0x40, ucast (divisor AND 0xff)),
             (0x40, ucast (drop_bit 8 divisor AND 0xff))]\<rparr>)"

text \<open>The loop over the sleep queue. Each round takes one process out of it, so a well-formed queue is
  left after at most \<^verbatim>\<open>N_PROCS\<close> rounds (\<open>wake_loop_ready\<close> below).\<close>

fun wake_loop :: "nat \<Rightarrow> u32 \<Rightarrow> kstate \<Rightarrow> kstate res" where
  "wake_loop n now s =
     (if pcb_queue_empty Q_sleeping (kp s) then Inr s
      else
        (case pcb_queue_peek Q_sleeping (kp s) of
           None \<Rightarrow> Inl (Assert ''tmp != NULL'')
         | Some tmp \<Rightarrow>
             if p_wakeup (ptable (kp s) tmp) > now then Inr s
             else
               (case n of
                  0 \<Rightarrow> Inl Hang
                | Suc n' \<Rightarrow>
                    bindR (pcb_queue_remove Q_sleeping (kp s))
                      (\<lambda>(st, tmp', ps).
                         if st \<noteq> SUCCESS then Inl (Assert ''pcb_queue_remove(sleeping,&tmp) == SUCCESS'')
                         else bindR (schedule tmp' (s\<lparr>kp := ps\<rparr>)) (wake_loop n' now)))))"

declare wake_loop.simps [simp del]

definition spin :: "kernel \<Rightarrow> kernel res" where
  "spin k =
     (let pw = pinwheel k + 1
      in if pw = CLOCK_FREQ div 10
         then on_con (cio_putchar_at 0 0 (sx (spinner (pindex k + 1)))) (k\<lparr>pinwheel := 0, pindex := pindex k + 1\<rparr>)
         else Inr (k\<lparr>pinwheel := pw\<rparr>))"

text \<open>The status line, every ten seconds (\<^verbatim>\<open>SYSTEM_STATUS\<close> is 10).\<close>

definition status_fmt :: "u8 list" where
  "status_fmt = cstring '' queues: R[%u] W[%u] Sl[%u] Z[%u] Si[%u]   ''"

definition show_status :: "kernel \<Rightarrow> kernel res" where
  "show_status k =
     (if system_time k mod (10 * CLOCK_FREQ) = 0
      then on_con (cio_printf_at (k_mem (km (kst k))) 1 0 status_fmt
             (map (\<lambda>q. pcb_queue_length q (kp (kst k))) [Q_ready, Q_waiting, Q_sleeping, Q_zombie, Q_sioread])) k
      else Inr k)"

text \<open>The end of the handler: the tick is charged to the current process, which is replaced when its
  quantum is used up.\<close>

definition charge :: "kstate \<Rightarrow> kstate res" where
  "charge s =
     (case current (kp s) of
        None \<Rightarrow> Inl Wild
      | Some c \<Rightarrow>
          let s1 = kp_upd (upd_pcb c (\<lambda>x. x\<lparr>p_ticks := p_ticks x - 1\<rparr>)) s
          in if p_ticks (ptable (kp s1) c) < 1 then
               bindR (schedule (Some c) s1)
                 (\<lambda>s2. bindR (dispatch ((kp s2)\<lparr>current := None\<rparr>)) (\<lambda>ps. Inr (s2\<lparr>kp := ps\<rparr>)))
             else Inr s1)"

definition clk_isr :: "kernel \<Rightarrow> kernel res" where
  "clk_isr k0 =
     bindR (spin k0) (\<lambda>k. bindR (show_status k) (\<lambda>k1.
       let k2 = k1\<lparr>system_time := system_time k1 + 1\<rparr>
       in bindR (wake_loop N_PROCS (system_time k2) (kst k2))
            (\<lambda>s. bindR (charge s) (\<lambda>s'. Inr (pic_eoi (k2\<lparr>kst := s'\<rparr>))))))"

section \<open>Waking the sleepers\<close>

abbreviation prio_of :: "kstate \<Rightarrow> nat \<Rightarrow> u32" where
  "prio_of s \<equiv> \<lambda>x. p_priority (ptable (kp s) x)"

definition due :: "u32 \<Rightarrow> kstate \<Rightarrow> nat list \<Rightarrow> nat list" where
  "due now s xs = takeWhile (\<lambda>x. p_wakeup (ptable (kp s) x) \<le> now) xs"

text \<open>The ready queue after the processes \<open>ps\<close> have been scheduled one after the other.\<close>

definition readied :: "(nat \<Rightarrow> u32) \<Rightarrow> nat list \<Rightarrow> nat list \<Rightarrow> nat list" where
  "readied prio ps r = fold (insert_after prio) ps r"

lemma wake_loop_stop:
  assumes "qreps (kp s) L" "L Q_sleeping = [] \<or> now < p_wakeup (ptable (kp s) (hd (L Q_sleeping)))"
  shows "wake_loop n now s = Inr s"
  using assms qrep_head [OF qrepsD(1) [OF assms(1)], of Q_sleeping]
  by (cases "L Q_sleeping") (auto simp: wake_loop.simps pcb_queue_empty_def pcb_queue_peek_def)

lemma wake_loop_step:
  assumes reps: "qreps (kp s) L" and L: "L Q_sleeping = x # xs" and x: "p_wakeup (ptable (kp s) x) \<le> now"
    "p_state (ptable (kp s) x) \<noteq> STATE_KILLED"
  obtains s' where "wake_loop (Suc n) now s = wake_loop n now s'" "km s' = km s"
    "qreps (kp s') (L(Q_sleeping := xs, Q_ready := insert_after (prio_of s) x (L Q_ready)))"
    "\<forall>y. same_pcb (ptable (kp s') y) (if y = x then (ptable (kp s) y)\<lparr>p_state := STATE_READY\<rparr> else ptable (kp s) y)"
    "current (kp s') = current (kp s)"
proof -
  obtain ps where R: "pcb_queue_remove Q_sleeping (kp s) = Inr (SUCCESS, Some x, ps)"
    "qreps ps (L(Q_sleeping := xs))" "frame Q_sleeping (set (L Q_sleeping)) (kp s) ps"
    by (rule qreps_remove [OF reps L])
  let ?s1 = "s\<lparr>kp := ps\<rparr>"
  have xL: "x < N_PROCS" "x \<notin> set ((L(Q_sleeping := xs)) q)" for q
    using qreps_member [OF reps, of x Q_sleeping] pq.contents_once [OF reps, of Q_sleeping]
      qreps_unique_queue [OF reps, of x Q_sleeping q] L by auto
  have "qreps (kp ?s1) (L(Q_sleeping := xs))" "p_state (ptable (kp ?s1) x) \<noteq> STATE_KILLED"
    using R(2) frame_data(4) [OF R(3)] x(2) by simp_all
  with xL obtain s' where S: "schedule (Some x) ?s1 = Inr s'" "km s' = km ?s1"
    "qreps (kp s') ((L(Q_sleeping := xs))(Q_ready := qins (kp ?s1) Q_ready x ((L(Q_sleeping := xs)) Q_ready)))"
    "\<forall>y. same_pcb (ptable (kp s') y) (if y = x then (ptable (kp ?s1) y)\<lparr>p_state := STATE_READY\<rparr> else ptable (kp ?s1) y)"
    "current (kp s') = current (kp ?s1)"
    using schedule_not_killed [of ?s1 "L(Q_sleeping := xs)" x] by metis
  have "qins ps Q_ready x (L Q_ready) = insert_after (prio_of s) x (L Q_ready)"
    using qrepsD(2) [OF R(2), of Q_ready] frame_data(3) [OF R(3)] by (simp add: qins_def queue_key_def)
  moreover have "\<forall>y. same_pcb (ptable (kp s') y) (if y = x then (ptable (kp s) y)\<lparr>p_state := STATE_READY\<rparr> else ptable (kp s) y)"
  proof
    fix y
    have "same_pcb (ptable ps y) (ptable (kp s) y)" using R(3) by (simp add: frame_def same_pcb_def)
    then show "same_pcb (ptable (kp s') y) (if y = x then (ptable (kp s) y)\<lparr>p_state := STATE_READY\<rparr> else ptable (kp s) y)"
      using S(4) [rule_format, of y] by (auto simp: same_pcb_iff)
  qed
  moreover have "wake_loop (Suc n) now s = wake_loop n now s'"
    using qrep_head [OF qrepsD(1) [OF reps], of Q_sleeping] L leD [OF x(1)] R(1) S(1)
    by (subst wake_loop.simps) (simp add: pcb_queue_empty_def pcb_queue_peek_def)
  ultimately show ?thesis using that S R(3) by (simp add: frame_def)
qed

lemma wake_loop_ready:
  assumes "qreps (kp s) L" "length (L Q_sleeping) \<le> n" "\<forall>x\<in>set (due now s (L Q_sleeping)). p_state (ptable (kp s) x) \<noteq> STATE_KILLED"
  shows "\<exists>s'. wake_loop n now s = Inr s' \<and> km s' = km s \<and>
    qreps (kp s') (L(Q_sleeping := drop (length (due now s (L Q_sleeping))) (L Q_sleeping),
                     Q_ready := readied (prio_of s) (due now s (L Q_sleeping)) (L Q_ready))) \<and>
    (\<forall>y. same_pcb (ptable (kp s') y)
       (if y \<in> set (due now s (L Q_sleeping)) then (ptable (kp s) y)\<lparr>p_state := STATE_READY\<rparr> else ptable (kp s) y)) \<and>
    current (kp s') = current (kp s)"
  using assms
proof (induction "L Q_sleeping" arbitrary: s L n)
  case Nil
  have d: "due now s (L Q_sleeping) = []" by (simp add: due_def flip: Nil(1))
  show ?case
    unfolding d readied_def list.size(3) drop0 fold.simps(1) id_apply fun_upd_triv
    using wake_loop_stop [OF Nil(2), of now n] Nil(1,2) by (simp add: same_pcb_def)
next
  case (Cons x xs)
  note L = Cons(2) [symmetric]
  show ?case
  proof (cases "p_wakeup (ptable (kp s) x) \<le> now")
    case False
    have d: "due now s (L Q_sleeping) = []" using False L by (simp add: due_def)
    show ?thesis
      unfolding d readied_def list.size(3) drop0 fold.simps(1) id_apply fun_upd_triv
      using False wake_loop_stop [OF Cons(3), of now n] Cons(3) L by (simp add: same_pcb_def)
  next
    case True
    obtain n' where n: "n = Suc n'" using Cons(4) L by (cases n) auto
    have d: "due now s (L Q_sleeping) = x # due now s xs" using True L by (simp add: due_def)
    have "p_state (ptable (kp s) x) \<noteq> STATE_KILLED" using Cons(5) d by simp
    from wake_loop_step [OF Cons(3) L True this, of n'] obtain s1 where
      S: "wake_loop (Suc n') now s = wake_loop n' now s1" "km s1 = km s"
      "qreps (kp s1) (L(Q_sleeping := xs, Q_ready := insert_after (prio_of s) x (L Q_ready)))" (is "qreps _ ?L1")
      "\<forall>y. same_pcb (ptable (kp s1) y) (if y = x then (ptable (kp s) y)\<lparr>p_state := STATE_READY\<rparr> else ptable (kp s) y)"
      "current (kp s1) = current (kp s)" by metis
    have same: "p_wakeup (ptable (kp s1) y) = p_wakeup (ptable (kp s) y)" "prio_of s1 y = prio_of s y"
      "y \<noteq> x \<Longrightarrow> p_state (ptable (kp s1) y) = p_state (ptable (kp s) y)" for y
      using S(4) [rule_format, of y] by (auto simp: same_pcb_iff split: if_splits)
    have due1: "due now s1 xs = due now s xs" "prio_of s1 = prio_of s" using same by (simp_all add: due_def fun_eq_iff)
    have xs: "x \<notin> set xs" using pq.contents_once [OF Cons(3), of Q_sleeping] L by simp
    have dx: "set (due now s xs) \<subseteq> set xs" by (auto simp: due_def dest: set_takeWhileD)
    have "\<forall>y\<in>set (due now s1 (?L1 Q_sleeping)). p_state (ptable (kp s1) y) \<noteq> STATE_KILLED"
      using Cons(5) d same(3) xs dx due1(1) by (simp add: subset_eq) metis
    then obtain s' where S': "wake_loop n' now s1 = Inr s'" "km s' = km s1"
      "qreps (kp s') (?L1(Q_sleeping := drop (length (due now s1 (?L1 Q_sleeping))) (?L1 Q_sleeping),
                     Q_ready := readied (prio_of s1) (due now s1 (?L1 Q_sleeping)) (?L1 Q_ready)))"
      "\<forall>y. same_pcb (ptable (kp s') y)
         (if y \<in> set (due now s1 (?L1 Q_sleeping)) then (ptable (kp s1) y)\<lparr>p_state := STATE_READY\<rparr> else ptable (kp s1) y)"
      "current (kp s') = current (kp s1)"
      using Cons(1) [of ?L1 s1 n'] S(3) Cons(4) L n by auto
    have "?L1(Q_sleeping := drop (length (due now s1 (?L1 Q_sleeping))) (?L1 Q_sleeping),
         Q_ready := readied (prio_of s1) (due now s1 (?L1 Q_sleeping)) (?L1 Q_ready)) =
      L(Q_sleeping := drop (length (x # due now s xs)) (x # xs), Q_ready := readied (prio_of s) (x # due now s xs) (L Q_ready))"
      by (simp add: due1 readied_def fun_upd_twist)
    moreover have "\<forall>y. same_pcb (ptable (kp s') y)
         (if y \<in> set (x # due now s xs) then (ptable (kp s) y)\<lparr>p_state := STATE_READY\<rparr> else ptable (kp s) y)"
    proof
      fix y
      show "same_pcb (ptable (kp s') y) (if y \<in> set (x # due now s xs) then (ptable (kp s) y)\<lparr>p_state := STATE_READY\<rparr> else ptable (kp s) y)"
        using S'(4) [rule_format, of y] S(4) [rule_format, of y] due1(1) xs dx by (auto simp: same_pcb_iff split: if_splits)
    qed
    ultimately show ?thesis using S S' d L n by simp
  qed
qed

section \<open>Charging the current process\<close>

lemma charge_continue:
  assumes "qreps (kp s) L" "current (kp s) = Some c" "p_ticks (ptable (kp s) c) \<noteq> 1"
  shows "\<exists>s'. charge s = Inr s' \<and> km s' = km s \<and> qreps (kp s') L \<and> current (kp s') = Some c \<and>
    p_ticks (ptable (kp s') c) = p_ticks (ptable (kp s) c) - 1"
proof -
  let ?s = "kp_upd (upd_pcb c (\<lambda>x. x\<lparr>p_ticks := p_ticks x - 1\<rparr>)) s"
  have "\<not> p_ticks (ptable (kp s) c) - 1 < 1"
    using assms(3) by simp
  then have "charge s = Inr ?s" using assms(2) by (simp add: charge_def Let_def kp_upd_def)
  moreover have "qreps (kp ?s) L" using assms(1) by (auto simp: kp_upd_def intro: qreps_upd_pcb)
  ultimately show ?thesis using assms(2) by (simp add: kp_upd_def)
qed

lemma charge_preempt:
  assumes "qreps (kp s) L" "current (kp s) = Some c" "p_ticks (ptable (kp s) c) = 1" "c < N_PROCS"
    "\<And>q. c \<notin> set (L q)" "p_state (ptable (kp s) c) \<noteq> STATE_KILLED"
  defines "R \<equiv> insert_after (prio_of s) c (L Q_ready)"
  shows "\<exists>s'. charge s = Inr s' \<and> km s' = km s \<and> qreps (kp s') (L(Q_ready := tl R)) \<and>
    current (kp s') = Some (hd R) \<and> p_ticks (ptable (kp s') (hd R)) = QUANTUM_STANDARD"
proof -
  define s1 where "s1 = kp_upd (upd_pcb c (\<lambda>x. x\<lparr>p_ticks := p_ticks x - 1\<rparr>)) s"
  have s1: "qreps (kp s1) L" "p_state (ptable (kp s1) c) \<noteq> STATE_KILLED" "km s1 = km s" "prio_of s1 = prio_of s"
    using assms(1,6) by (auto simp: s1_def kp_upd_def intro: qreps_upd_pcb)
  obtain s2 where S: "schedule (Some c) s1 = Inr s2" "km s2 = km s1"
    "qreps (kp s2) (L(Q_ready := qins (kp s1) Q_ready c (L Q_ready)))"
    using schedule_not_killed [OF s1(1) assms(4,5) s1(2)] by metis
  have "qins (kp s1) Q_ready c (L Q_ready) = R"
    using qrepsD(2) [OF s1(1), of Q_ready] s1(4) by (simp add: qins_def queue_key_def R_def)
  then have reps2: "qreps ((kp s2)\<lparr>current := None\<rparr>) (L(Q_ready := R))" using S(3) by simp
  have R: "(L(Q_ready := R)) Q_ready = hd R # tl R" by (simp add: R_def insert_after_not_Nil)
  have "current ((kp s2)\<lparr>current := None\<rparr>) = None" by simp
  from dispatch_qreps [OF reps2 R this] obtain ps where D: "dispatch ((kp s2)\<lparr>current := None\<rparr>) = Inr ps" "qreps ps ((L(Q_ready := R))(Q_ready := tl R))"
    "current ps = Some (hd R)"
    "\<forall>x. same_pcb (ptable ps x) (if x = hd R then (ptable ((kp s2)\<lparr>current := None\<rparr>) x)
       \<lparr>p_state := STATE_RUNNING, p_ticks := QUANTUM_STANDARD\<rparr> else ptable ((kp s2)\<lparr>current := None\<rparr>) x)" .
  have "charge s = Inr (s2\<lparr>kp := ps\<rparr>)"
    using assms(2,3) S(1) D(1) by (simp add: charge_def Let_def flip: s1_def) (simp add: s1_def kp_upd_def)
  moreover have "p_ticks (ptable ps (hd R)) = QUANTUM_STANDARD"
    using D(4) [rule_format, of "hd R"] by (simp add: same_pcb_iff)
  ultimately show ?thesis using D(2,3) S(2) s1(3) by simp
qed

section \<open>The display\<close>

text \<open>The pinwheel and the status line are shown above the scrolling region.\<close>

lemma on_con_quiet:
  assumes "quiet (cio k, sio k) (f (cio k, sio k))"
  shows "\<exists>v. on_con f k = Inr (k\<lparr>cio := (cio k)\<lparr>video := v\<rparr>\<rparr>)"
proof -
  obtain v where "f (cio k, sio k) = Inr ((cio k)\<lparr>video := v\<rparr>, sio k)" using assms by (auto simp: quiet_def)
  then show ?thesis by (intro exI [of _ v]) (simp add: on_con_def)
qed

lemma display_quiet:
  assumes "0 < scroll_min_y (cio k)"
  shows "\<exists>v pw pi k1. spin k = Inr k1 \<and> show_status k1 = Inr (k\<lparr>cio := (cio k)\<lparr>video := v\<rparr>, pinwheel := pw, pindex := pi\<rparr>)"
proof -
  have "\<exists>v pw pi. spin k = Inr (k\<lparr>cio := (cio k)\<lparr>video := v\<rparr>, pinwheel := pw, pindex := pi\<rparr>)"
  proof (cases "pinwheel k + 1 = CLOCK_FREQ div 10")
    case True
    let ?k = "k\<lparr>pinwheel := 0, pindex := pindex k + 1\<rparr>"
    obtain v where "on_con (cio_putchar_at 0 0 (sx (spinner (pindex k + 1)))) ?k = Inr (?k\<lparr>cio := (cio ?k)\<lparr>video := v\<rparr>\<rparr>)"
      using on_con_quiet [of ?k "cio_putchar_at 0 0 (sx (spinner (pindex k + 1)))"] assms cio_putchar_at_quiet
      by (auto simp: above_def)
    with True show ?thesis by (intro exI [of _ v] exI [of _ 0] exI [of _ "pindex k + 1"]) (simp add: spin_def)
  next
    case False
    then show ?thesis
      by (intro exI [of _ "video (cio k)"] exI [of _ "pinwheel k + 1"] exI [of _ "pindex k"]) (simp add: spin_def)
  qed
  then obtain v pw pi where S: "spin k = Inr (k\<lparr>cio := (cio k)\<lparr>video := v\<rparr>, pinwheel := pw, pindex := pi\<rparr>)" by blast
  let ?k1 = "k\<lparr>cio := (cio k)\<lparr>video := v\<rparr>, pinwheel := pw, pindex := pi\<rparr>"
  have "\<exists>w. show_status ?k1 = Inr (?k1\<lparr>cio := (cio ?k1)\<lparr>video := w\<rparr>\<rparr>)"
  proof (cases "system_time ?k1 mod (10 * CLOCK_FREQ) = 0")
    case True
    have fmt: "simple_fmt status_fmt 5" by (simp add: status_fmt_def cstring_def)
    let ?f = "cio_printf_at (k_mem (km (kst ?k1))) 1 0 status_fmt
        (map (\<lambda>q. pcb_queue_length q (kp (kst ?k1))) [Q_ready, Q_waiting, Q_sleeping, Q_zombie, Q_sioread])"
    from fmt have "quiet (cio ?k1, sio ?k1) (?f (cio ?k1, sio ?k1))"
      unfolding cio_printf_at_def using assms by (intro do_printf_quiet) (auto simp: above_def eval_nat_numeral)
    with on_con_quiet [of ?k1 ?f] True show ?thesis by (simp add: show_status_def)
  next
    case False
    then show ?thesis by (intro exI [of _ v]) (simp add: show_status_def)
  qed
  then obtain w where "show_status ?k1 = Inr (?k1\<lparr>cio := (cio ?k1)\<lparr>video := w\<rparr>\<rparr>)" by blast
  moreover have "?k1\<lparr>cio := (cio ?k1)\<lparr>video := w\<rparr>\<rparr> = k\<lparr>cio := (cio k)\<lparr>video := w\<rparr>, pinwheel := pw, pindex := pi\<rparr>" by simp
  ultimately show ?thesis using S by metis
qed

section \<open>Properties\<close>

text \<open>A clock tick wakes exactly the sleepers whose wakeup time has come. When the sleep queue
  is sorted by wakeup time, they are scheduled in that order behind the ready processes of the same
  priority, and the others stay asleep in order; nothing else changes, and the loop ends.\<close>

theorem wake_loop_wakes_due:
  assumes "qreps (kp s) L" "sorted (map (\<lambda>x. p_wakeup (ptable (kp s) x)) (L Q_sleeping))"
    "\<forall>x\<in>set (L Q_sleeping). p_state (ptable (kp s) x) \<noteq> STATE_KILLED"
  shows "\<exists>s'. wake_loop N_PROCS now s = Inr s' \<and> km s' = km s \<and> current (kp s') = current (kp s) \<and>
    (let awake = filter (\<lambda>x. p_wakeup (ptable (kp s) x) \<le> now) (L Q_sleeping);
         asleep = filter (\<lambda>x. now < p_wakeup (ptable (kp s) x)) (L Q_sleeping)
     in qreps (kp s') (L(Q_sleeping := asleep, Q_ready := readied (prio_of s) awake (L Q_ready))) \<and>
        (\<forall>x\<in>set awake. p_state (ptable (kp s') x) = STATE_READY) \<and>
        (\<forall>x. x \<notin> set awake \<longrightarrow> same_pcb (ptable (kp s') x) (ptable (kp s) x)))"
proof -
  let ?w = "\<lambda>x. p_wakeup (ptable (kp s) x)" and ?xs = "L Q_sleeping"
  have split: "takeWhile (\<lambda>x. ?w x \<le> now) xs = filter (\<lambda>x. ?w x \<le> now) xs \<and>
      drop (length (takeWhile (\<lambda>x. ?w x \<le> now) xs)) xs = filter (\<lambda>x. now < ?w x) xs"
    if "sorted (map ?w xs)" for xs
    using that
  proof (induction xs)
    case (Cons x xs)
    show ?case
    proof (cases "?w x \<le> now")
      case False
      then have "\<forall>y\<in>set (x # xs). now < ?w y" using Cons.prems by (auto simp: not_le intro: less_le_trans)
      then have "filter (\<lambda>x. ?w x \<le> now) (x # xs) = []" "filter (\<lambda>x. now < ?w x) (x # xs) = x # xs"
        unfolding filter_empty_conv filter_id_conv by (auto simp: not_le)
      with False show ?thesis by simp
    qed (use Cons in \<open>auto simp: not_less\<close>)
  qed simp
  have D: "due now s ?xs = filter (\<lambda>x. ?w x \<le> now) ?xs" "drop (length (due now s ?xs)) ?xs = filter (\<lambda>x. now < ?w x) ?xs"
    unfolding due_def using split [OF assms(2)] by blast+
  have "length ?xs \<le> N_PROCS" using qrep_length [OF qrepsD(1) [OF assms(1)]] .
  moreover have "\<forall>x\<in>set (due now s ?xs). p_state (ptable (kp s) x) \<noteq> STATE_KILLED" using assms(3) D(1) by simp
  ultimately obtain s' where S: "wake_loop N_PROCS now s = Inr s'" "km s' = km s"
    "qreps (kp s') (L(Q_sleeping := drop (length (due now s ?xs)) ?xs, Q_ready := readied (prio_of s) (due now s ?xs) (L Q_ready)))"
    "\<forall>y. same_pcb (ptable (kp s') y)
       (if y \<in> set (due now s ?xs) then (ptable (kp s) y)\<lparr>p_state := STATE_READY\<rparr> else ptable (kp s) y)"
    "current (kp s') = current (kp s)" using wake_loop_ready [OF assms(1)] by metis
  have "x \<in> set (due now s ?xs) \<longrightarrow> p_state (ptable (kp s') x) = STATE_READY"
    "x \<notin> set (due now s ?xs) \<longrightarrow> same_pcb (ptable (kp s') x) (ptable (kp s) x)" for x
    using S(4) [rule_format, of x] by (simp_all add: same_pcb_iff split: if_splits)
  with S D show ?thesis unfolding Let_def by auto
qed

definition sample_sleepers :: kstate where
  "sample_sleepers = \<lparr>kp = \<lparr>ptable = (\<lambda>_. sample_pcb)(3 := sample_pcb\<lparr>p_wakeup := 10, p_next := Some 4\<rparr>,
       4 := sample_pcb\<lparr>p_wakeup := 20\<rparr>, 5 := sample_pcb\<lparr>p_priority := 1\<rparr>),
     queues = (\<lambda>q. \<lparr>q_head = None, q_tail = None, q_length = 0, q_order = init_order q\<rparr>)
        (Q_ready := \<lparr>q_head = Some 5, q_tail = Some 5, q_length = 1, q_order = O_PRIO\<rparr>,
         Q_sleeping := \<lparr>q_head = Some 3, q_tail = Some 4, q_length = 2, q_order = O_WAKEUP\<rparr>),
     current = Some 6, next_pid = 2, init_pcb = None\<rparr>, km = sample_kms\<rparr>"

definition sleeper_lists :: "qid \<Rightarrow> nat list" where
  "sleeper_lists = (\<lambda>_. [])(Q_ready := [5], Q_sleeping := [3, 4])"

lemma sleepers_qreps: "qreps (kp sample_sleepers) sleeper_lists"
  by (auto simp: qreps_def qrep_def sample_sleepers_def links_def sample_pcb_def last_opt_def sleeper_lists_def)

lemma sleepers_simps:
  "sleeper_lists Q_sleeping = [3, 4]" "sleeper_lists Q_ready = [5]" "p_wakeup (ptable (kp sample_sleepers) 3) = 10"
  "p_wakeup (ptable (kp sample_sleepers) 4) = 20" "p_state (ptable (kp sample_sleepers) x) = STATE_UNUSED"
  "prio_of sample_sleepers 3 = 0" "prio_of sample_sleepers 4 = 0" "prio_of sample_sleepers 5 = 1"
  "current (kp sample_sleepers) = Some 6" "p_ticks (ptable (kp sample_sleepers) 6) = 0"
  by (simp_all add: sleeper_lists_def sample_sleepers_def sample_pcb_def)

theorem wake_loop_wakes_due_witness:
  "\<exists>s'. wake_loop N_PROCS 15 sample_sleepers = Inr s' \<and>
     qreps (kp s') (sleeper_lists(Q_sleeping := [4], Q_ready := [3, 5])) \<and> p_state (ptable (kp s') 3) = STATE_READY"
  using wake_loop_wakes_due [OF sleepers_qreps, of 15]
  by (auto simp: sleepers_simps readied_def insert_after_def)

lemma set_readied [simp]: "set (readied f ps r) = set ps \<union> set r"
  unfolding readied_def by (induction ps arbitrary: r) auto

text \<open>The interrupt up to the charge: the display is updated and the due sleepers are ready.\<close>

lemma clk_isr_wakes:
  assumes "qreps (kp (kst k)) L" "\<forall>x\<in>set (L Q_sleeping). p_state (ptable (kp (kst k)) x) \<noteq> STATE_KILLED" "0 < scroll_min_y (cio k)"
    and aw: "awake = due (system_time k + 1) (kst k) (L Q_sleeping)"
  obtains s1 k2 where "clk_isr k = bindR (charge s1) (\<lambda>s'. Inr (pic_eoi (k2\<lparr>kst := s'\<rparr>)))"
    "system_time k2 = system_time k + 1" "scroll_min_y (cio k2) = scroll_min_y (cio k)"
    "km s1 = km (kst k)" "current (kp s1) = current (kp (kst k))"
    "qreps (kp s1) (L(Q_sleeping := drop (length awake) (L Q_sleeping), Q_ready := readied (prio_of (kst k)) awake (L Q_ready)))"
    "\<forall>x. same_pcb (ptable (kp s1) x) (if x \<in> set awake then (ptable (kp (kst k)) x)\<lparr>p_state := STATE_READY\<rparr> else ptable (kp (kst k)) x)"
proof -
  have "length (L Q_sleeping) \<le> N_PROCS" using qrep_length [OF qrepsD(1) [OF assms(1)]] .
  moreover have "\<forall>x\<in>set (due (system_time k + 1) (kst k) (L Q_sleeping)). p_state (ptable (kp (kst k)) x) \<noteq> STATE_KILLED"
    using assms(2) by (auto simp: due_def dest: set_takeWhileD)
  ultimately obtain s1 where W: "wake_loop N_PROCS (system_time k + 1) (kst k) = Inr s1" "km s1 = km (kst k)"
    "qreps (kp s1) (L(Q_sleeping := drop (length awake) (L Q_sleeping), Q_ready := readied (prio_of (kst k)) awake (L Q_ready)))"
    "\<forall>x. same_pcb (ptable (kp s1) x) (if x \<in> set awake then (ptable (kp (kst k)) x)\<lparr>p_state := STATE_READY\<rparr> else ptable (kp (kst k)) x)"
    "current (kp s1) = current (kp (kst k))" using wake_loop_ready [OF assms(1)] unfolding aw by blast
  obtain v pw pi k1 where K: "spin k = Inr k1"
    "show_status k1 = Inr (k\<lparr>cio := (cio k)\<lparr>video := v\<rparr>, pinwheel := pw, pindex := pi\<rparr>)"
    using display_quiet [OF assms(3)] by blast
  let ?k2 = "k\<lparr>cio := (cio k)\<lparr>video := v\<rparr>, pinwheel := pw, pindex := pi, system_time := system_time k + 1\<rparr>"
  have "clk_isr k = bindR (charge s1) (\<lambda>s'. Inr (pic_eoi (?k2\<lparr>kst := s'\<rparr>)))"
    using W(1) K by (simp add: clk_isr_def Let_def)
  then show ?thesis using W(2-) by (intro that [of s1 ?k2]) simp_all
qed

text \<open>C7. One clock interrupt: time advances by one, the due sleepers become ready, and the current
  process loses one tick. If that was its last, it goes to the ready queue behind the processes of its
  priority, the sleepers just woken included, and the head of the ready queue runs with a full
  quantum; otherwise it keeps the CPU.\<close>

theorem clk_isr_tick:
  assumes "qreps (kp (kst k)) L" "current (kp (kst k)) = Some c" "c < N_PROCS" "\<forall>q. c \<notin> set (L q)"
    "p_state (ptable (kp (kst k)) c) \<noteq> STATE_KILLED"
    "\<forall>x\<in>set (L Q_sleeping). p_state (ptable (kp (kst k)) x) \<noteq> STATE_KILLED" "0 < scroll_min_y (cio k)"
  shows "\<exists>k'. clk_isr k = Inr k' \<and> system_time k' = system_time k + 1 \<and> km (kst k') = km (kst k) \<and>
    (let awake = due (system_time k + 1) (kst k) (L Q_sleeping); prio = prio_of (kst k);
         L1 = L(Q_sleeping := drop (length awake) (L Q_sleeping)); R = readied prio awake (L Q_ready);
         R' = insert_after prio c R
     in if p_ticks (ptable (kp (kst k)) c) = 1
        then qreps (kp (kst k')) (L1(Q_ready := tl R')) \<and> current (kp (kst k')) = Some (hd R') \<and>
             p_ticks (ptable (kp (kst k')) (hd R')) = QUANTUM_STANDARD
        else qreps (kp (kst k')) (L1(Q_ready := R)) \<and> current (kp (kst k')) = Some c \<and>
             p_ticks (ptable (kp (kst k')) c) = p_ticks (ptable (kp (kst k)) c) - 1)"
proof -
  let ?s = "kst k" and ?awake = "due (system_time k + 1) (kst k) (L Q_sleeping)"
  from clk_isr_wakes [OF assms(1,6,7) refl] obtain s1 k2 where
    W: "clk_isr k = bindR (charge s1) (\<lambda>s'. Inr (pic_eoi (k2\<lparr>kst := s'\<rparr>)))" "system_time k2 = system_time k + 1"
    "km s1 = km ?s" "current (kp s1) = current (kp ?s)"
    "qreps (kp s1) (L(Q_sleeping := drop (length ?awake) (L Q_sleeping), Q_ready := readied (prio_of ?s) ?awake (L Q_ready)))" (is "qreps _ ?L1")
    "\<forall>x. same_pcb (ptable (kp s1) x) (if x \<in> set ?awake then (ptable (kp ?s) x)\<lparr>p_state := STATE_READY\<rparr> else ptable (kp ?s) x)" .
  have aw: "set ?awake \<subseteq> set (L Q_sleeping)" by (auto simp: due_def dest: set_takeWhileD)
  then have c: "c \<notin> set ?awake" using assms(4) by blast
  have "prio_of s1 y = prio_of ?s y" for y
    using W(6) [rule_format, of y] by (auto simp: same_pcb_iff split: if_splits)
  then have same: "same_pcb (ptable (kp s1) c) (ptable (kp ?s) c)" "prio_of s1 = prio_of ?s"
    using W(6) [rule_format, of c] c by (simp_all add: fun_eq_iff)
  have cL: "c \<notin> set (?L1 q)" for q using assms(4) c by (auto dest: in_set_dropD)
  have cur: "current (kp s1) = Some c" and tick: "p_ticks (ptable (kp s1) c) = p_ticks (ptable (kp ?s) c)"
    and st: "p_state (ptable (kp s1) c) \<noteq> STATE_KILLED"
    using W(4) assms(2,5) same(1) by (simp_all add: same_pcb_iff)
  show ?thesis
  proof (cases "p_ticks (ptable (kp ?s) c) = 1")
    case True
    obtain s' where "charge s1 = Inr s'" "km s' = km s1"
      "qreps (kp s') (?L1(Q_ready := tl (insert_after (prio_of s1) c (?L1 Q_ready))))"
      "current (kp s') = Some (hd (insert_after (prio_of s1) c (?L1 Q_ready)))"
      "p_ticks (ptable (kp s') (hd (insert_after (prio_of s1) c (?L1 Q_ready)))) = QUANTUM_STANDARD"
      using charge_preempt [OF W(5) cur tick [unfolded True] assms(3) cL st] by blast
    with W(1-3) True same(2) show ?thesis by (simp add: Let_def pic_eoi_def)
  next
    case False
    obtain s' where "charge s1 = Inr s'" "km s' = km s1" "qreps (kp s') ?L1" "current (kp s') = Some c"
      "p_ticks (ptable (kp s') c) = p_ticks (ptable (kp s1) c) - 1"
      using charge_continue [OF W(5) cur] tick False by auto
    with W(1-3) False same(1) show ?thesis by (simp add: Let_def pic_eoi_def same_pcb_iff)
  qed
qed

theorem clk_isr_tick_witness:
  "\<exists>k'. clk_isr (sample_kernel\<lparr>kst := sample_sleepers, system_time := 14, cio := cio_setscroll 0 7 99 99 sample_cio\<rparr>) = Inr k' \<and>
     qreps (kp (kst k')) (sleeper_lists(Q_sleeping := [4], Q_ready := [3, 5])) \<and>
     current (kp (kst k')) = Some 6"
proof -
  let ?k = "sample_kernel\<lparr>kst := sample_sleepers, system_time := 14, cio := cio_setscroll 0 7 99 99 sample_cio\<rparr>"
  have top: "0 < scroll_min_y (cio_setscroll 0 7 99 99 sample_cio)"
    by (simp add: cio_setscroll_def sample_cio_def cio_init_def bound_def)
  have reps: "qreps (kp (kst ?k)) sleeper_lists" by (simp add: sleepers_qreps)
  have "\<forall>q. 6 \<notin> set (sleeper_lists q)" by (simp add: sleeper_lists_def)
  with clk_isr_tick [OF reps, of 6] top show ?thesis
    by (auto simp: sleepers_simps due_def readied_def insert_after_def)
qed

end
