(* ===== verification/User.thy ===== *)
theory User
  imports Procs Klib
begin

unbundle bit_operations_syntax

text \<open>
  The initial stack of a process, \<^verbatim>\<open>stack_setup\<close> of \<^verbatim>\<open>user.c\<close>: the argument vector is measured, its
  strings are copied to a local array and then to the top of the stack, and below them go the
  arguments of \<^verbatim>\<open>main\<close>, a return address and the context that the first dispatch restores. The
  local arrays are lists; an index outside them is the failure \<open>Wild\<close>. The address of the
  assembly routine \<^verbatim>\<open>fake_exit\<close> is an argument.
\<close>

section \<open>Definitions\<close>

abbreviation N_ARGS :: nat where "N_ARGS \<equiv> 10"
abbreviation DEFAULT_EFLAGS :: u32 where "DEFAULT_EFLAGS \<equiv> 0x202"
abbreviation GDT_CODE :: u32 where "GDT_CODE \<equiv> 0x10"
abbreviation GDT_DATA :: u32 where "GDT_DATA \<equiv> 0x18"
abbreviation GDT_STACK :: u32 where "GDT_STACK \<equiv> 0x20"

text \<open>The loop over the vector: the address and the length (with NUL) of each string accepted, and their total
  length. \<^verbatim>\<open>argc\<close> is not compared with the size of the arrays. A string of two gigabytes makes the
  length negative, which the size of \<^verbatim>\<open>argstrings\<close> cannot be.\<close>

function arg_scan :: "mem \<Rightarrow> addr \<Rightarrow> nat \<Rightarrow> int \<Rightarrow> (addr \<times> nat) list \<Rightarrow> ((addr \<times> nat) list \<times> int) res" where
  "arg_scan m args argc argbytes strs =
     (let p = load32 m (args + 4 * of_nat argc)
      in if p = 0 then Inr (strs, argbytes)
         else if argc \<ge> N_ARGS then Inl Wild
         else
           (case strlen m p of
              None \<Rightarrow> Inl Hang
            | Some n \<Rightarrow>
                let len = sint (n + 1)
                in if len < 0 then Inl Wild
                   else if argbytes + len > int SZ_PAGE then Inr (strs, argbytes)
                   else arg_scan m args (argc + 1) (argbytes + len) (strs @ [(p, nat len)])))"
  by pat_completeness auto
termination by (relation "measure (\<lambda>(m, args, argc, argbytes, strs). N_ARGS - argc)") auto

declare arg_scan.simps [simp del]

text \<open>\<^verbatim>\<open>strcpy\<close> of each string to its place in the local array; the offsets are remembered.\<close>

fun copy_strings :: "mem \<Rightarrow> (addr \<times> nat) list \<Rightarrow> u8 list \<Rightarrow> nat \<Rightarrow> nat list \<Rightarrow> (u8 list \<times> nat list) res" where
  "copy_strings m [] buf tmp offs = Inr (buf, offs)"
| "copy_strings m ((p, len) # strs) buf tmp offs =
     (case getstr m p of
        None \<Rightarrow> Inl Hang
      | Some s \<Rightarrow>
          if tmp + length s + 1 > length buf then Inl Wild
          else copy_strings m strs (take tmp buf @ (s @ [0]) @ drop (tmp + length s + 1) buf) (tmp + len)
                 (offs @ [tmp]))"

text \<open>\<^verbatim>\<open>*kvavptr++ = v\<close> for each of the values.\<close>

fun store_words :: "addr \<Rightarrow> u32 list \<Rightarrow> mem \<Rightarrow> mem" where
  "store_words a [] m = m"
| "store_words a (v # vs) m = store_words (a + 4) vs (store32 m a v)"

definition init_context :: "addr \<Rightarrow> u32 \<Rightarrow> mem \<Rightarrow> mem" where
  "init_context ctx entry m =
     fold (\<lambda>(off, v) m. store32 m (ctx + off) v)
       [(68, DEFAULT_EFLAGS), (60, entry), (64, GDT_CODE), (0, GDT_STACK),
        (4, GDT_DATA), (8, GDT_DATA), (12, GDT_DATA), (16, GDT_DATA)] m"

definition stack_setup :: "addr \<Rightarrow> nat \<Rightarrow> u32 \<Rightarrow> addr \<Rightarrow> kstate \<Rightarrow> (addr \<times> kstate) res" where
  "stack_setup fake_exit pcb entry args s =
     (let m = k_mem (km s)
      in bindR (arg_scan m args 0 0 []) (\<lambda>(strs, total).
         let argc = length strs; argbytes = 4 * ((nat total + 3) div 4)
         in bindR (copy_strings m strs (replicate argbytes 0) 0 []) (\<lambda>(argstrings, uv_offsets).
            let kvptr = p_stack (ptable (kp s) pcb) + N_USTKPAGES * of_nat SZ_PAGE - 4;
                m1 = store32 m kvptr 0;
                kvstrptr = (kvptr - of_nat argbytes) AND 0xfffffffc;
                m2 = store_bytes kvstrptr argstrings m1;
                kvacptr = (kvstrptr - 4 * of_nat (argc + 3)) AND 0xfffffff0;
                m3 = store32 m2 kvacptr (of_nat argc);
                kvavptr = kvacptr + 8;
                m4 = store32 m3 (kvavptr - 4) kvavptr;
                m5 = store_words kvavptr (map (\<lambda>off. kvstrptr + of_nat off) uv_offsets) m4;
                m6 = store32 m5 (kvavptr + 4 * of_nat argc) 0;
                m7 = store32 m6 (kvacptr - 4) fake_exit;
                kvctx = kvacptr - 4 - SZ_CONTEXT
            in Inr (kvctx, mem_upd (\<lambda>_. init_context kvctx entry m7) s))))"

section \<open>Reading the vector\<close>

fun argv :: "mem \<Rightarrow> addr \<Rightarrow> u8 list list \<Rightarrow> bool" where
  "argv m a [] \<longleftrightarrow> load32 m a = 0"
| "argv m a (s # ss) \<longleftrightarrow> load32 m a \<noteq> 0 \<and> cstr m (load32 m a) s \<and> argv m (a + 4) ss"

fun arg_ptrs :: "mem \<Rightarrow> addr \<Rightarrow> u8 list list \<Rightarrow> (addr \<times> nat) list" where
  "arg_ptrs m a [] = []"
| "arg_ptrs m a (s # ss) = (load32 m a, length s + 1) # arg_ptrs m (a + 4) ss"

definition arg_total :: "u8 list list \<Rightarrow> nat" where
  "arg_total ss = sum_list (map (\<lambda>s. length s + 1) ss)"

lemma arg_total_simps [simp]: "arg_total [] = 0" "arg_total (s # ss) = length s + 1 + arg_total ss"
  by (simp_all add: arg_total_def)

lemma arg_scan_step:
  assumes "load32 m (args + 4 * of_nat argc) \<noteq> 0" "cstr m (load32 m (args + 4 * of_nat argc)) s"
    and "argc < N_ARGS" "n + (length s + 1) \<le> SZ_PAGE"
  shows "arg_scan m args argc (int n) strs =
    arg_scan m args (argc + 1) (int (n + (length s + 1))) (strs @ [(load32 m (args + 4 * of_nat argc), length s + 1)])"
proof -
  have len: "strlen m (load32 m (args + 4 * of_nat argc)) = Some (of_nat (length s))"
    using assms(2) by (rule strlen_cstr)
  have "unat (of_nat (length s) + 1 :: u32) = length s + 1"
    using assms(4) by (simp add: unat_word_ariths unat_of_nat)
  then have si: "sint (of_nat (length s) + 1 :: u32) = int (length s + 1)"
    using assms(4) by (subst sint_small) simp_all
  have "int n + int (length s + 1) \<le> int SZ_PAGE" "\<not> int (length s + 1) < 0" "nat (int (length s + 1)) = length s + 1"
    "int n + int (length s + 1) = int (n + (length s + 1))"
    using assms(4) by simp_all
  then show ?thesis
    using assms(1,3) len si by (subst arg_scan.simps) (simp only: Let_def, simp add: add.left_commute)
qed

lemma arg_scan_argv:
  assumes "argv m (args + 4 * of_nat argc) ss" "argc + length ss \<le> N_ARGS" "n + arg_total ss \<le> SZ_PAGE"
  shows "arg_scan m args argc (int n) strs =
    Inr (strs @ arg_ptrs m (args + 4 * of_nat argc) ss, int (n + arg_total ss))"
  using assms
proof (induction ss arbitrary: argc n strs)
  case Nil
  then show ?case by (subst arg_scan.simps) simp
next
  case (Cons s ss)
  let ?a = "args + 4 * of_nat argc"
  have next_a: "args + 4 * of_nat (argc + 1) = ?a + 4" by (simp add: algebra_simps)
  have "arg_scan m args argc (int n) strs =
      arg_scan m args (argc + 1) (int (n + (length s + 1))) (strs @ [(load32 m ?a, length s + 1)])"
    using Cons.prems by (intro arg_scan_step) simp_all
  also have "\<dots> = Inr (strs @ [(load32 m ?a, length s + 1)] @ arg_ptrs m (?a + 4) ss, int (n + (length s + 1) + arg_total ss))"
  proof -
    have "argv m (?a + 4) ss" using Cons.prems(1) by simp
    moreover have "argc + 1 + length ss \<le> N_ARGS" "n + (length s + 1) + arg_total ss \<le> SZ_PAGE"
      using Cons.prems(2,3) by simp_all
    ultimately show ?thesis
      using Cons.IH [of "argc + 1" "n + (length s + 1)" "strs @ [(load32 m ?a, length s + 1)]"]
      unfolding next_a append_assoc by blast
  qed
  finally show ?case by (simp add: algebra_simps)
qed

lemma length_arg_ptrs [simp]: "length (arg_ptrs m a ss) = length ss"
  by (induction ss arbitrary: a) simp_all

text \<open>The strings one after the other, each with its NUL, and where each begins.\<close>

definition packed :: "u8 list list \<Rightarrow> u8 list" where
  "packed ss = concat (map (\<lambda>s. s @ [0]) ss)"

fun starts :: "nat \<Rightarrow> u8 list list \<Rightarrow> nat list" where
  "starts n [] = []"
| "starts n (s # ss) = n # starts (n + length s + 1) ss"

lemma packed_simps [simp]: "packed [] = []" "packed (s # ss) = s @ [0] @ packed ss" "length (packed ss) = arg_total ss"
proof -
  show "packed [] = []" "packed (s # ss) = s @ [0] @ packed ss" by (simp_all add: packed_def)
  show "length (packed ss) = arg_total ss" by (induction ss) (simp_all add: packed_def)
qed

lemma copy_strings_argv:
  assumes "argv m a ss" "length pre + arg_total ss \<le> n"
  shows "copy_strings m (arg_ptrs m a ss) (pre @ replicate (n - length pre) 0) (length pre) offs =
    Inr (pre @ packed ss @ replicate (n - length pre - arg_total ss) 0, offs @ starts (length pre) ss)"
  using assms
proof (induction ss arbitrary: a pre offs)
  case (Cons s ss)
  have g: "getstr m (load32 m a) = Some s" using Cons.prems(1) by (simp add: getstr_cstr)
  have "copy_strings m (arg_ptrs m a (s # ss)) (pre @ replicate (n - length pre) 0) (length pre) offs =
      copy_strings m (arg_ptrs m (a + 4) ss) ((pre @ s @ [0]) @ replicate (n - length (pre @ s @ [0])) 0) (length (pre @ s @ [0]))
        (offs @ [length pre])"
    using Cons.prems(2) g by simp
  also have "\<dots> = Inr ((pre @ s @ [0]) @ packed ss @ replicate (n - length (pre @ s @ [0]) - arg_total ss) 0,
      (offs @ [length pre]) @ starts (length (pre @ s @ [0])) ss)"
    using Cons by (intro Cons.IH) simp_all
  finally show ?case by simp
qed simp

section \<open>Word stores above an address\<close>

definition words :: "addr \<Rightarrow> (nat \<times> u32) list \<Rightarrow> mem \<Rightarrow> mem" where
  "words b = fold (\<lambda>(k, v) m. store32 m (b + 4 * of_nat k) v)"

lemma words_simps [simp]: "words b [] m = m" "words b ((k, v) # L) m = words b L (store32 m (b + 4 * of_nat k) v)"
  by (simp_all add: words_def)

lemma unat_4: "k < 2 ^ 30 \<Longrightarrow> unat (4 * of_nat k :: u32) = 4 * k"
  by (simp add: unat_word_ariths unat_of_nat)

lemma inr_slot:
  assumes "k < n" "n \<le> 2 ^ 30" "inr (b + 4 * of_nat k) 4 x"
  shows "inr b (4 * n) x" "unat (x - b) div 4 = k"
proof -
  define d where "d = x - (b + 4 * of_nat k)"
  have d: "unat d < 4" using assms(3) by (simp add: inr_def d_def)
  have "x - b = d + 4 * of_nat k" by (simp add: d_def)
  moreover have "unat d + 4 * k < 2 ^ 32" using d assms(1,2) by simp
  ultimately have "unat (x - b) = unat d + 4 * k"
    using unat_4 [of k] assms(1,2) by (simp add: unat_word_ariths)
  with d assms(1) show "inr b (4 * n) x" "unat (x - b) div 4 = k" by (simp_all add: inr_def)
qed

lemma words_other:
  "fst ` set L \<subseteq> {..<n} \<Longrightarrow> n \<le> 2 ^ 30 \<Longrightarrow> \<not> inr b (4 * n) x \<Longrightarrow> words b L m x = m x"
proof (induction L arbitrary: m)
  case (Cons e L)
  obtain k v where e: "e = (k, v)" by force
  have "\<not> inr (b + 4 * of_nat k) 4 x" using Cons.prems e inr_slot(1) [of k n b x] by auto
  then show ?case using Cons e by (auto simp: store32_other)
qed simp

lemma words_skip:
  assumes "k \<notin> fst ` set L" "fst ` set L \<subseteq> {..<n}" "k < n" "n \<le> 2 ^ 30"
  shows "load32 (words b L m) (b + 4 * of_nat k) = load32 m (b + 4 * of_nat k)"
  using assms
proof (induction L arbitrary: m)
  case (Cons e L)
  obtain j v where e: "e = (j, v)" by force
  have "load32 (store32 m (b + 4 * of_nat j) v) (b + 4 * of_nat k) = load32 m (b + 4 * of_nat k)"
  proof (rule load32_cong, rule store32_other)
    fix x assume "inr (b + 4 * of_nat k) 4 x"
    then show "\<not> inr (b + 4 * of_nat j) 4 x"
      using inr_slot(2) [of k n b x] inr_slot(2) [of j n b x] Cons.prems e by auto
  qed
  then show ?case using Cons e by auto
qed simp

lemma words_load:
  assumes "(k, v) \<in> set L" "distinct (map fst L)" "fst ` set L \<subseteq> {..<n}" "n \<le> 2 ^ 30"
  shows "load32 (words b L m) (b + 4 * of_nat k) = v"
  using assms
proof (induction L arbitrary: m)
  case (Cons e L)
  show ?case
  proof (cases "e = (k, v)")
    case True
    then have "load32 (words b L (store32 m (b + 4 * of_nat k) v)) (b + 4 * of_nat k) = v"
      using Cons.prems by (subst words_skip [where n = n]) force+
    then show ?thesis using True by simp
  next
    case False
    then show ?thesis using Cons by (cases e) auto
  qed
qed simp

section \<open>The vector that is built\<close>

lemma cstr_bytes: "cstr m p s \<longleftrightarrow> 0 \<notin> set s \<and> (\<forall>i<length s + 1. m (p + of_nat i) = (s @ [0]) ! i)"
proof (induction s arbitrary: p)
  case (Cons c s)
  have "(\<forall>i<length (c # s) + 1. m (p + of_nat i) = ((c # s) @ [0]) ! i) \<longleftrightarrow>
      m p = c \<and> (\<forall>i<length s + 1. m (p + 1 + of_nat i) = (s @ [0]) ! i)"
    by (simp add: All_less_Suc2 [of "Suc _"] add.assoc)
  with Cons show ?case by auto
qed simp

lemma argv_no_nul: "argv m a ss \<Longrightarrow> s \<in> set ss \<Longrightarrow> 0 \<notin> set s"
  by (induction ss arbitrary: a) (auto simp: cstr_bytes)

lemma argv_built:
  assumes "\<And>i. i < length ss \<Longrightarrow> load32 m (a + 4 * of_nat i) = p + of_nat (starts n ss ! i)"
    and "load32 m (a + 4 * of_nat (length ss)) = 0"
    and "\<And>i. i < arg_total ss \<Longrightarrow> m (p + of_nat n + of_nat i) = packed ss ! i"
    and "0 < unat p" "unat p + n + arg_total ss \<le> 2 ^ 32" "\<And>s. s \<in> set ss \<Longrightarrow> 0 \<notin> set s"
  shows "argv m a ss"
  using assms
proof (induction ss arbitrary: a n)
  case (Cons s ss)
  have ptr: "load32 m a = p + of_nat n" using Cons.prems(1) [of 0] by simp
  have "unat (p + of_nat n) = unat p + n" using Cons.prems(5) by (intro unat_add_nowrap) simp
  then have nz: "p + of_nat n \<noteq> 0" using Cons.prems(4) by (metis add_gr_0 less_irrefl unat_0)
  have str: "cstr m (p + of_nat n) s"
    using Cons.prems(3,6) by (simp add: cstr_bytes nth_append)
  have "argv m (a + 4) ss"
  proof (rule Cons.IH [where n = "n + length s + 1"])
    fix i assume "i < length ss"
    then show "load32 m (a + 4 + 4 * of_nat i) = p + of_nat (starts (n + length s + 1) ss ! i)"
      using Cons.prems(1) [of "Suc i"] by (simp add: algebra_simps)
  next
    show "load32 m (a + 4 + 4 * of_nat (length ss)) = 0" using Cons.prems(2) by (simp add: algebra_simps)
  next
    fix i assume "i < arg_total ss"
    then show "m (p + of_nat (n + length s + 1) + of_nat i) = packed ss ! i"
      using Cons.prems(3) [of "length s + 1 + i"] by (simp add: nth_append algebra_simps)
  qed (use Cons.prems in simp_all)
  with ptr nz str show ?case by simp
qed simp

lemma store_words_words:
  "store_words (b + 4 * of_nat k) vs m = words b (zip [k..<k + length vs] vs) m"
proof (induction vs arbitrary: k m)
  case (Cons v vs)
  have "b + 4 * of_nat k + 4 = b + 4 * of_nat (Suc k)" by (simp add: algebra_simps)
  moreover have "[k..<k + length (v # vs)] = k # [Suc k..<Suc k + length vs]"
    by (subst upt_conv_Cons) simp_all
  ultimately show ?case using Cons.IH [of "Suc k"] by (simp only: store_words.simps zip_Cons_Cons words_simps)
qed simp

lemma and_3c: "(w :: u32) AND 0xfffffffc = w" if "unat w mod 4 = 0"
proof -
  have "w AND 3 = 0" using that by (simp add: and_3)
  moreover have "w = (w AND 3) OR (w AND 0xfffffffc)"
  proof -
    have "(3 :: u32) OR 0xfffffffc = - 1" by simp
    then show ?thesis by (metis and.right_neutral bit.conj_disj_distrib)
  qed
  ultimately show ?thesis by simp
qed

lemma unat_and_f0: "unat ((w :: u32) AND 0xfffffff0) = unat w - unat w mod 16"
proof -
  have f0: "(0xfffffff0 :: u32) = NOT (mask 4)" by (simp add: mask_eq_exp_minus_1)
  have "w AND 0xfffffff0 = w AND NOT (take_bit 4 w)"
    unfolding f0 by (rule bit_word_eqI) (auto simp: bit_simps)
  also have "\<dots> = w - take_bit 4 w"
    by (rule disjunctive_diff_eq_and_not [symmetric]) (rule bit_word_eqI, auto simp: bit_simps)
  finally have "w AND 0xfffffff0 = w - take_bit 4 w" .
  moreover have "unat (take_bit 4 w) = unat w mod 16"
    by (simp only: unsigned_take_bit_eq) (simp add: take_bit_eq_mod)
  ultimately show ?thesis by (simp add: unat_sub word_le_nat_alt)
qed

text \<open>The word stores of the routine, with their distances from the new context.\<close>

definition entry_frame :: "addr \<Rightarrow> u32 \<Rightarrow> addr \<Rightarrow> u32 list \<Rightarrow> (nat \<times> u32) list" where
  "entry_frame fake_exit entry ctx ptrs =
     [(19, of_nat (length ptrs)), (20, ctx + 84)] @ zip [21..<21 + length ptrs] ptrs @
     [(21 + length ptrs, 0), (18, fake_exit), (17, DEFAULT_EFLAGS), (15, entry), (16, GDT_CODE), (0, GDT_STACK),
      (1, GDT_DATA), (2, GDT_DATA), (3, GDT_DATA), (4, GDT_DATA)]"

lemma fst_set_entry_frame: "fst ` set (entry_frame fe entry ctx ptrs) \<subseteq> {..<22 + length ptrs}"
  by (auto simp: entry_frame_def dest: set_zip_leftD)

lemma distinct_entry_frame: "distinct (map fst (entry_frame fe entry ctx ptrs))"
proof -
  have z: "map fst (zip [21..<21 + length ptrs] ptrs) = [21..<21 + length ptrs]" by simp
  show ?thesis
    unfolding entry_frame_def map_append z by auto
qed

lemma words_append: "words b (L @ L') m = words b L' (words b L m)"
  by (simp add: words_def)

lemma frame_stores:
  assumes "ac = ctx + 76"
  shows "init_context ctx entry
     (store32 (store32 (store_words (ac + 8) ptrs (store32 (store32 m ac (of_nat (length ptrs))) (ac + 4) (ac + 8)))
        (ac + 8 + 4 * of_nat (length ptrs)) 0) (ac - 4) fe) = words ctx (entry_frame fe entry ctx ptrs) m"
proof -
  have sw: "store_words (ac + 8) ptrs M = words ctx (zip [21..<21 + length ptrs] ptrs) M" for M
    using store_words_words [of ctx 21 ptrs M] assms by (simp add: add.assoc)
  have "ac + 8 + 4 * of_nat (length ptrs) = ctx + 4 * of_nat (21 + length ptrs)"
    using assms by (simp add: algebra_simps)
  with sw show ?thesis
    unfolding entry_frame_def words_append words_simps init_context_def by (simp add: assms ac_simps del: upt_Suc)
qed

text \<open>Where the strings, the argument count and the context go.\<close>

lemma stack_layout:
  fixes base :: u32
  assumes base: "unat base mod 4 = 0" "unat base + 2 * SZ_PAGE \<le> 2 ^ 32"
    and ab: "ab \<le> SZ_PAGE" "ab mod 4 = 0" and argc: "argc \<le> N_ARGS"
    and sp: "sp = (base + N_USTKPAGES * of_nat SZ_PAGE - 4 - of_nat ab) AND 0xfffffffc"
    and ac: "ac = (sp - 4 * of_nat (argc + 3)) AND 0xfffffff0"
  shows "unat sp = unat base + (2 * SZ_PAGE - 4 - ab)" "unat ac mod 16 = 0"
    "unat ac + 4 * (argc + 3) \<le> unat sp" "unat base + 76 \<le> unat ac"
proof -
  define d where "d = (of_nat (8188 - ab) :: u32)"
  have ud: "unat d = 8188 - ab" unfolding d_def using ab(1) by (subst unat_of_nat) simp
  have d: "base + N_USTKPAGES * of_nat SZ_PAGE - 4 - of_nat ab = base + d"
    using ab(1) by (simp add: d_def of_nat_diff)
  have s: "unat (base + d) = unat base + (8188 - ab)"
    using base(2) ud by (simp add: unat_word_ariths)
  have "unat (base + d) mod 4 = 0" using s base(1) ab by presburger
  then have sp_eq: "sp = base + d" unfolding sp d by (rule and_3c)
  with s show usp: "unat sp = unat base + (2 * SZ_PAGE - 4 - ab)" by simp
  define e where "e = (4 * of_nat (argc + 3) :: u32)"
  have ue: "unat e = 4 * (argc + 3)" unfolding e_def using argc by (intro unat_4) simp
  then have "unat (sp - e) = unat sp - 4 * (argc + 3)"
    using usp ab(1) argc by (subst unat_sub) (simp_all add: word_le_nat_alt)
  then have uac: "unat ac = (unat sp - 4 * (argc + 3)) - (unat sp - 4 * (argc + 3)) mod 16"
    using unat_and_f0 [of "sp - e"] ac by (simp only: e_def)
  show "unat ac mod 16 = 0" unfolding uac by (simp add: minus_mod_eq_mult_div)
  have le: "4 * (argc + 3) + 76 + 16 + unat base \<le> unat sp" using usp ab(1) argc by simp
  show "unat ac + 4 * (argc + 3) \<le> unat sp" unfolding uac using le by simp
  have "(unat sp - 4 * (argc + 3)) mod 16 < 16" by simp
  then show "unat base + 76 \<le> unat ac" unfolding uac using le by linarith
qed

lemma starts_length [simp]: "length (starts n ss) = length ss"
  by (induction ss arbitrary: n) simp_all

lemma stack_setup_eq:
  assumes "argv (k_mem (km s)) args ss" "length ss \<le> N_ARGS" "arg_total ss \<le> SZ_PAGE"
    and ab: "ab = 4 * ((arg_total ss + 3) div 4)"
    and sp: "sp = (p_stack (ptable (kp s) pcb) + N_USTKPAGES * of_nat SZ_PAGE - 4 - of_nat ab) AND 0xfffffffc"
    and ac: "ac = (sp - 4 * of_nat (length ss + 3)) AND 0xfffffff0"
  shows "stack_setup fe pcb entry args s =
    Inr (ac - 76, mem_upd (\<lambda>_. words (ac - 76) (entry_frame fe entry (ac - 76) (map (\<lambda>off. sp + of_nat off) (starts 0 ss)))
      (store_bytes sp (packed ss @ replicate (ab - arg_total ss) 0)
        (store32 (k_mem (km s)) (p_stack (ptable (kp s) pcb) + N_USTKPAGES * of_nat SZ_PAGE - 4) 0))) s)"
proof -
  let ?m = "k_mem (km s)"
  have scan: "arg_scan ?m args 0 0 [] = Inr (arg_ptrs ?m args ss, int (arg_total ss))"
    using arg_scan_argv [of ?m args 0 ss 0 "[]"] assms(1-3) by simp
  have copy: "copy_strings ?m (arg_ptrs ?m args ss) (replicate ab 0) 0 [] =
      Inr (packed ss @ replicate (ab - arg_total ss) 0, starts 0 ss)"
    using copy_strings_argv [OF assms(1), of "[]" ab "[]"] ab by simp
  let ?ptrs = "map (\<lambda>off. sp + of_nat off) (starts 0 ss)"
  note stores = frame_stores [where ac = ac and ctx = "ac - 76" and ptrs = ?ptrs and fe = fe and entry = entry]
  show ?thesis
    unfolding stack_setup_def Let_def scan bindR_simps prod.case length_arg_ptrs nat_int ab [symmetric] copy
      sp [symmetric] ac [symmetric]
    using stores by (simp add: ac_simps)
qed

section \<open>Properties\<close>

text \<open>The memory the routine leaves: the frame above the context, the strings above the frame, and
  nothing changed outside the two stack pages.\<close>

lemma built_memory:
  fixes base :: u32
  assumes base: "unat base mod 4 = 0" "unat base + 2 * SZ_PAGE \<le> 2 ^ 32"
    and ss: "length ss \<le> N_ARGS" "arg_total ss \<le> SZ_PAGE" "\<And>s. s \<in> set ss \<Longrightarrow> 0 \<notin> set s"
    and ab: "ab = 4 * ((arg_total ss + 3) div 4)"
    and sp: "sp = (base + N_USTKPAGES * of_nat SZ_PAGE - 4 - of_nat ab) AND 0xfffffffc"
    and ac: "ac = (sp - 4 * of_nat (length ss + 3)) AND 0xfffffff0"
    and m': "m' = words (ac - 76) (entry_frame fe entry (ac - 76) (map (\<lambda>off. sp + of_nat off) (starts 0 ss)))
      (store_bytes sp (packed ss @ replicate (ab - arg_total ss) 0)
        (store32 m (base + N_USTKPAGES * of_nat SZ_PAGE - 4) 0))"
  shows "\<And>k v. (k, v) \<in> set (entry_frame fe entry (ac - 76) (map (\<lambda>off. sp + of_nat off) (starts 0 ss))) \<Longrightarrow>
      load32 m' (ac - 76 + 4 * of_nat k) = v"
    and "argv m' (ac - 76 + 84) ss"
    and "\<And>x. \<not> inr base (2 * SZ_PAGE) x \<Longrightarrow> m' x = m x"
proof -
  have ab_le: "ab \<le> SZ_PAGE" "ab mod 4 = 0" "arg_total ss \<le> ab" using ss(2) ab by simp_all
  note layout = stack_layout [OF base ab_le(1,2) ss(1) sp ac]
  let ?L = "entry_frame fe entry (ac - 76) (map (\<lambda>off. sp + of_nat off) (starts 0 ss))" and ?n = "22 + length ss"
  have uctx: "unat (ac - 76) = unat ac - 76" using layout(4) by (subst unat_sub) (simp_all add: word_le_nat_alt)
  have end_le: "unat (ac - 76) + 4 * ?n \<le> unat sp" using uctx layout(3,4) by simp
  have L: "fst ` set ?L \<subseteq> {..<?n}" 
    using fst_set_entry_frame [of fe entry "ac - 76" "map (\<lambda>off. sp + of_nat off) (starts 0 ss)"]
    unfolding length_map starts_length .
  have n: "?n \<le> 2 ^ 30" using ss(1) by simp
  have sp_le: "unat sp + ab + 4 \<le> unat base + 2 * SZ_PAGE" using layout(1) ab_le(1) by simp
  have "inr (ac - 76) (4 * ?n) x \<longleftrightarrow> unat (ac - 76) \<le> unat x \<and> unat x < unat (ac - 76) + 4 * ?n" for x
    using end_le sp_le base(2) by (intro inr_nowrap) simp
  then have above: "words (ac - 76) ?L M x = M x" if "unat sp \<le> unat x \<or> unat x < unat (ac - 76)" for x M
    using that end_le words_other [OF L n] by fastforce
  show slots: "load32 m' (ac - 76 + 4 * of_nat k) = v" if "(k, v) \<in> set ?L" for k v
    unfolding m' by (rule words_load [OF that distinct_entry_frame L n])
  have bytes: "m' (sp + of_nat i) = packed ss ! i" if "i < arg_total ss" for i
  proof -
    have "unat (sp + of_nat i) = unat sp + i" using that ab_le(3) sp_le base(2) by (intro unat_add_nowrap) simp
    moreover have "unat (of_nat i :: u32) = i" using that ss(2) by (subst unat_of_nat) simp
    ultimately show ?thesis using that ab_le(3) above
      by (simp add: m' store_bytes_def inr_def nth_append)
  qed
  show "argv m' (ac - 76 + 84) ss"
  proof (rule argv_built [where n = 0 and p = sp])
    fix i assume i: "i < length ss"
    then have "(21 + i, sp + of_nat (starts 0 ss ! i)) \<in> set ?L"
      by (auto simp: entry_frame_def in_set_zip intro!: exI [of _ i])
    from slots [OF this] show "load32 m' (ac - 76 + 84 + 4 * of_nat i) = sp + of_nat (starts 0 ss ! i)"
      by (simp add: algebra_simps)
  next
    have "(21 + length ss, 0) \<in> set ?L" by (simp add: entry_frame_def)
    from slots [OF this] show "load32 m' (ac - 76 + 84 + 4 * of_nat (length ss)) = 0"
      by (simp add: algebra_simps)
  qed (use bytes ss(3) layout(1) sp_le ab_le base(2) in simp_all)
  show "m' x = m x" if x: "\<not> inr base (2 * SZ_PAGE) x" for x
  proof -
    have out: "unat x < unat base \<or> unat base + 2 * SZ_PAGE \<le> unat x" using x inr_nowrap [OF base(2)] by force
    define top where "top = base + N_USTKPAGES * of_nat SZ_PAGE - 4"
    have "top = base + of_nat 8188" by (simp add: top_def)
    then have ut: "unat top = unat base + 8188" using base(2) by (simp only:) (rule unat_add_nowrap, simp)
    have "\<not> inr top 4 x" "\<not> inr sp ab x"
      using out ut sp_le layout(1) ab_le(1) base(2) by (simp_all add: inr_nowrap) linarith+
    moreover have w: "unat sp \<le> unat x \<or> unat x < unat (ac - 76)"
      using out uctx layout(4) sp_le by linarith
    ultimately show ?thesis
      unfolding m' top_def [symmetric] above [OF w] using ab_le(3) by (simp add: store_bytes_def store32_other)
  qed
qed

lemma stack_setup_frame:
  assumes "base = p_stack (ptable (kp s) pcb)" "unat base mod 4 = 0" "unat base + 2 * SZ_PAGE \<le> 2 ^ 32"
    and "argv (k_mem (km s)) args ss" "length ss \<le> N_ARGS" "arg_total ss \<le> SZ_PAGE"
  shows "\<exists>ctx m'. stack_setup fe pcb entry args s = Inr (ctx, mem_upd (\<lambda>_. m') s) \<and>
    unat base \<le> unat ctx \<and> unat ctx < unat base + 2 * SZ_PAGE \<and> unat (ctx + 76) mod 16 = 0 \<and>
    load32 m' (ctx + 60) = entry \<and> load32 m' (ctx + 64) = GDT_CODE \<and> load32 m' (ctx + 68) = DEFAULT_EFLAGS \<and>
    load32 m' ctx = GDT_STACK \<and> (\<forall>r\<in>{4, 8, 12, 16}. load32 m' (ctx + r) = GDT_DATA) \<and>
    load32 m' (ctx + 72) = fe \<and> load32 m' (ctx + 76) = of_nat (length ss) \<and> load32 m' (ctx + 80) = ctx + 84 \<and>
    argv m' (ctx + 84) ss \<and> (\<forall>x. \<not> inr base (2 * SZ_PAGE) x \<longrightarrow> m' x = k_mem (km s) x)"
proof -
  define ab where "ab = 4 * ((arg_total ss + 3) div 4)"
  define sp where "sp = (base + N_USTKPAGES * of_nat SZ_PAGE - 4 - of_nat ab) AND 0xfffffffc"
  define ac where "ac = (sp - 4 * of_nat (length ss + 3)) AND 0xfffffff0"
  define L where "L = entry_frame fe entry (ac - 76) (map (\<lambda>off. sp + of_nat off) (starts 0 ss))"
  define m' where "m' = words (ac - 76) L (store_bytes sp (packed ss @ replicate (ab - arg_total ss) 0)
      (store32 (k_mem (km s)) (base + N_USTKPAGES * of_nat SZ_PAGE - 4) 0))"
  have run: "stack_setup fe pcb entry args s = Inr (ac - 76, mem_upd (\<lambda>_. m') s)"
    unfolding m'_def L_def using stack_setup_eq [OF assms(4-6)] assms(1) ab_def sp_def ac_def by blast
  have nn: "0 \<notin> set t" if "t \<in> set ss" for t using argv_no_nul [OF assms(4) that] .
  note built = built_memory [OF assms(2,3,5,6) nn ab_def sp_def ac_def m'_def [unfolded L_def]]
  have "ab \<le> SZ_PAGE" "ab mod 4 = 0" using assms(6) by (simp_all add: ab_def)
  note layout = stack_layout [OF assms(2,3) this assms(5) sp_def ac_def]
  have uctx: "unat (ac - 76) = unat ac - 76" using layout(4) by (subst unat_sub) (simp_all add: word_le_nat_alt)
  have slots: "load32 m' (ac - 76 + 4 * of_nat k) = v" if "(k, v) \<in> set L" for k v
    using built(1) that by (simp add: L_def)
  have "(15, entry) \<in> set L" "(16, GDT_CODE) \<in> set L" "(17, DEFAULT_EFLAGS) \<in> set L" "(0, GDT_STACK) \<in> set L"
    "(1, GDT_DATA) \<in> set L" "(2, GDT_DATA) \<in> set L" "(3, GDT_DATA) \<in> set L" "(4, GDT_DATA) \<in> set L" "(18, fe) \<in> set L"
    "(19, of_nat (length ss)) \<in> set L" "(20, ac - 76 + 84) \<in> set L"
    by (simp_all add: L_def entry_frame_def)
  note loads = this [THEN slots]
  show ?thesis
  proof (intro exI conjI, rule run)
    show "unat base \<le> unat (ac - 76)" "unat (ac - 76) < unat base + 2 * SZ_PAGE"
      using uctx layout by simp_all
    show "unat (ac - 76 + 76) mod 16 = 0" using layout(2) by simp
    show "argv m' (ac - 76 + 84) ss" by (rule built(2))
    show "\<forall>x. \<not> inr base (2 * SZ_PAGE) x \<longrightarrow> m' x = k_mem (km s) x" using built(3) by blast
  qed (use loads in simp_all)
qed

text \<open>C9. For a NULL-terminated vector of at most \<^verbatim>\<open>N_ARGS\<close> strings that fit into a page, \<^verbatim>\<open>stack_setup\<close>
  returns a context inside the two pages of the stack. It holds the entry point, the code, stack and data selectors
  and the flags; above it lie the return address \<^verbatim>\<open>fake_exit\<close>, the argument count (at a multiple of 16) and the
  address of a NULL-terminated vector of the same strings. No byte outside the stack changes, nor anything of the
  process table.\<close>

theorem stack_setup_builds_frame:
  assumes "base = p_stack (ptable (kp s) pcb)" "unat base mod 4 = 0" "unat base + 2 * SZ_PAGE \<le> 2 ^ 32"
    and "argv (k_mem (km s)) args ss" "length ss \<le> N_ARGS" "arg_total ss \<le> SZ_PAGE"
  shows "\<exists>ctx m'. stack_setup fe pcb entry args s = Inr (ctx, mem_upd (\<lambda>_. m') s) \<and>
    unat base \<le> unat ctx \<and> unat ctx < unat base + 2 * SZ_PAGE \<and> unat (ctx + 76) mod 16 = 0 \<and>
    load32 m' (ctx + 60) = entry \<and> load32 m' (ctx + 64) = GDT_CODE \<and> load32 m' (ctx + 68) = DEFAULT_EFLAGS \<and>
    load32 m' ctx = GDT_STACK \<and> (\<forall>r\<in>{4, 8, 12, 16}. load32 m' (ctx + r) = GDT_DATA) \<and>
    load32 m' (ctx + 72) = fe \<and> load32 m' (ctx + 76) = of_nat (length ss) \<and> load32 m' (ctx + 80) = ctx + 84 \<and>
    argv m' (ctx + 84) ss \<and> (\<forall>x. \<not> inr base (2 * SZ_PAGE) x \<longrightarrow> m' x = k_mem (km s) x)"
  using assms by (rule stack_setup_frame)

text \<open>A vector of more than \<^verbatim>\<open>N_ARGS\<close> short strings overruns the local arrays: the argument count is never
  compared with their size.\<close>

theorem stack_setup_too_many:
  assumes "argv (k_mem (km s)) args ss" "N_ARGS < length ss" "arg_total ss \<le> SZ_PAGE"
  shows "stack_setup fe pcb entry args s = Inl Wild"
proof -
  have "arg_scan m args argc (int n) strs = Inl Wild"
    if "argv m (args + 4 * of_nat argc) ss" "N_ARGS < argc + length ss" "argc \<le> N_ARGS" "n + arg_total ss \<le> SZ_PAGE"
    for m argc n strs
    using that
  proof (induction ss arbitrary: argc n strs)
    case (Cons s ss)
    let ?a = "args + 4 * of_nat argc"
    show ?case
    proof (cases "argc = N_ARGS")
      case True
      then show ?thesis using Cons.prems(1) by (subst arg_scan.simps) simp
    next
      case False
      have next_a: "args + 4 * of_nat (argc + 1) = ?a + 4" by (simp add: algebra_simps)
      have "arg_scan m args argc (int n) strs =
          arg_scan m args (argc + 1) (int (n + (length s + 1))) (strs @ [(load32 m ?a, length s + 1)])"
        using Cons.prems False by (intro arg_scan_step) simp_all
      moreover have "argv m (args + 4 * of_nat (argc + 1)) ss" using Cons.prems(1) unfolding next_a by simp
      then have "arg_scan m args (argc + 1) (int (n + (length s + 1))) (strs @ [(load32 m ?a, length s + 1)]) = Inl Wild"
        by (rule Cons.IH) (use Cons.prems False in simp_all)
      ultimately show ?thesis by (simp only:)
    qed
  qed simp
  from this [of "k_mem (km s)" 0 0 "[]"] assms show ?thesis by (simp add: stack_setup_def Let_def)
qed

definition sample_args :: "nat \<Rightarrow> mem" where
  "sample_args n = store_words 0x100 (replicate n 0x200) (store_bytes 0x200 [97, 0] (\<lambda>_. 0))"

lemma argv_replicate:
  assumes "\<And>i. i < n \<Longrightarrow> load32 m (a + 4 * of_nat i) = p" "load32 m (a + 4 * of_nat n) = 0" "p \<noteq> 0" "cstr m p s"
  shows "argv m a (replicate n s)"
  using assms(1,2)
proof (induction n arbitrary: a)
  case (Suc n)
  have "argv m (a + 4) (replicate n s)"
  proof (rule Suc.IH)
    show "load32 m (a + 4 + 4 * of_nat i) = p" if "i < n" for i
      using Suc.prems(1) [of "Suc i"] that by (simp add: algebra_simps)
    show "load32 m (a + 4 + 4 * of_nat n) = 0" using Suc.prems(2) by (simp add: algebra_simps)
  qed
  then show ?case using Suc.prems(1) [of 0] assms(3,4) by simp
qed simp

lemma sample_argv:
  assumes "n \<le> 16"
  shows "argv (sample_args n) 0x100 (replicate n [97])"
proof -
  let ?m = "store_bytes 0x200 [97, 0] (\<lambda>_. 0)" and ?L = "zip [0..<n] (replicate n (0x200 :: u32))"
  have w: "sample_args n = words 0x100 ?L ?m"
    using store_words_words [of "0x100" 0 "replicate n 0x200" ?m] by (simp add: sample_args_def)
  have L: "fst ` set ?L \<subseteq> {..<17}" "distinct (map fst ?L)" "n \<notin> fst ` set ?L"
    using assms by (auto dest: set_zip_leftD)
  show ?thesis
  proof (rule argv_replicate [where p = "0x200"])
    show "load32 (sample_args n) (0x100 + 4 * of_nat i) = 0x200" if "i < n" for i
      unfolding w by (rule words_load [OF _ L(2,1)]) (use that in \<open>auto simp: in_set_zip intro!: exI [of _ i]\<close>)
    have "load32 (words 0x100 ?L ?m) (0x100 + 4 * of_nat n) = load32 ?m (0x100 + 4 * of_nat n)"
      by (rule words_skip [OF L(3,1)]) (use assms in simp_all)
    also have "\<dots> = load32 (\<lambda>_. 0) (0x100 + 4 * of_nat n)"
    proof (rule load32_cong)
      fix x :: addr assume x: "inr (0x100 + 4 * of_nat n) 4 x"
      have "inr 0x100 (4 * 17) x" by (rule inr_slot(1) [OF _ _ x]) (use assms in simp_all)
      then have "\<not> inr 0x200 2 x" by (simp add: inr_nowrap)
      then show "?m x = 0" by (simp add: store_bytes_def numeral_2_eq_2)
    qed
    finally show "load32 (sample_args n) (0x100 + 4 * of_nat n) = 0" unfolding w by (simp add: load32_def)
    have "sample_args n x = ?m x" if "x = 0x200 \<or> x = 0x201" for x
      unfolding w by (rule words_other [OF L(1)]) (use that in \<open>auto simp: inr_nowrap\<close>)
    then show "cstr (sample_args n) 0x200 [97]" by (simp add: store_bytes_def inr_def)
  qed simp
qed

abbreviation sample_caller :: "nat \<Rightarrow> kstate" where
  "sample_caller n \<equiv> \<lparr>kp = sample_procs\<lparr>ptable := \<lambda>_. sample_pcb\<lparr>p_stack := 0x300000\<rparr>\<rparr>,
     km = sample_kms\<lparr>k_mem := sample_args n\<rparr>\<rparr>"

theorem stack_setup_builds_frame_witness:
  "\<exists>ctx m'. stack_setup 0x10500 3 0x20000 0x100 (sample_caller 2) = Inr (ctx, mem_upd (\<lambda>_. m') (sample_caller 2)) \<and>
    load32 m' (ctx + 60) = 0x20000 \<and> load32 m' (ctx + 76) = 2 \<and> argv m' (ctx + 84) [[97], [97]]"
proof -
  have v: "argv (k_mem (km (sample_caller 2))) 0x100 [[97], [97]]" using sample_argv [of 2] by (simp add: numeral_eq_Suc)
  show ?thesis
    using stack_setup_builds_frame [where base = "0x300000" and s = "sample_caller 2" and pcb = 3, OF _ _ _ v,
        of "0x10500" "0x20000"] by (simp add: sample_pcb_def sample_procs_def) blast
qed

theorem stack_setup_too_many_witness: "stack_setup 0x10500 3 0x20000 0x100 (sample_caller 11) = Inl Wild"
  using stack_setup_too_many [of "sample_caller 11" "0x100" "replicate 11 [97]"] sample_argv [of 11]
  by (simp add: arg_total_def sum_list_replicate)

end
