(* ===== verification/Dmx.thy ===== *)
theory Dmx
  imports Memory
begin

unbundle bit_operations_syntax

text \<open>
  The DMX driver, \<^verbatim>\<open>dmx.c\<close>: the slot values become a stream of bits (a start code, then a short frame for
  each slot), the stream is packed into bytes, least significant bit first, and sent to a serial
  port. The local array of bits is a function from its index, so that a write behind its end is
  visible; its contents before the call are an argument.
\<close>

section \<open>Definitions\<close>

abbreviation DMX_SLOTS :: nat where "DMX_SLOTS \<equiv> 32"
abbreviation DMX_FRAME_DATA_SIZE :: nat where "DMX_FRAME_DATA_SIZE \<equiv> 3"
abbreviation DMX_FRAME_SIZE :: nat where "DMX_FRAME_SIZE \<equiv> 5"

text \<open>\<^verbatim>\<open>char start_code[]\<close>, with the NUL, which \<^verbatim>\<open>sizeof\<close> counts.\<close>

definition start_code :: "u8 list" where
  "start_code = [49, 49, 48, 48, 48, 48, 49, 0]"

definition dmx_offset :: nat where
  "dmx_offset = length start_code"

text \<open>The number of elements of the array \<^verbatim>\<open>bits\<close>.\<close>

definition dmx_bits_size :: nat where
  "dmx_bits_size = DMX_SLOTS * DMX_FRAME_SIZE + dmx_offset"

definition start_bits :: "(nat \<Rightarrow> u8) \<Rightarrow> nat \<Rightarrow> u8" where
  "start_bits bits = fold (\<lambda>i b. b(i := if start_code ! i = 49 then 1 else 0)) [0..<dmx_offset] bits"

definition slot_bits :: "(nat \<Rightarrow> u8) \<Rightarrow> nat \<Rightarrow> (nat \<Rightarrow> u8) \<Rightarrow> nat \<Rightarrow> u8" where
  "slot_bits data i bits =
     (let base = dmx_offset + i * DMX_FRAME_SIZE + 1;
          b1 = bits(base - 1 := 0);
          b2 = fold (\<lambda>k b. b(base + k := drop_bit k (data i AND push_bit k 1))) [0..<DMX_FRAME_DATA_SIZE] b1
      in fold (\<lambda>j b. b(base + DMX_FRAME_DATA_SIZE + j := 1)) [0..<2] b2)"

definition dmx_bits :: "(nat \<Rightarrow> u8) \<Rightarrow> (nat \<Rightarrow> u8) \<Rightarrow> nat \<Rightarrow> u8" where
  "dmx_bits data bits = fold (slot_bits data) [0..<DMX_SLOTS] (start_bits bits)"

definition pack_byte :: "(nat \<Rightarrow> u8) \<Rightarrow> nat \<Rightarrow> u8" where
  "pack_byte bits i = fold (\<lambda>k byte. push_bit 1 byte OR bits (i * 8 + k)) (rev [0..<8]) 0"

text \<open>The bytes written to the port, in order. The port number goes to the processor's \<^verbatim>\<open>dx\<close> register.\<close>

definition dmx_write :: "(nat \<Rightarrow> u8) \<Rightarrow> u32 \<Rightarrow> addr \<Rightarrow> mem \<Rightarrow> (u16 \<times> u8) list" where
  "dmx_write junk port data m =
     (let bits = dmx_bits (\<lambda>i. m (data + of_nat i)) junk;
          chunks = dmx_bits_size div 8;
          buffer = map (pack_byte bits) [0..<chunks]
      in map (\<lambda>b. (ucast port, b)) (replicate 2 0 @ buffer))"

section \<open>The stream\<close>

text \<open>What the line carries for the slot values \<open>ds\<close>.\<close>

definition slot_frame :: "u8 \<Rightarrow> bool list" where
  "slot_frame d = [False, bit d 0, bit d 1, bit d 2, True]"

definition dmx_stream :: "u8 list \<Rightarrow> bool list" where
  "dmx_stream ds = [True, True, False, False, False, False, True, False] @ concat (map slot_frame ds)"

lemma short_upts: "[0..<2] = [0, 1 :: nat]" "[0..<3] = [0, 1, 2 :: nat]" "[0..<8] = [0, 1, 2, 3, 4, 5, 6, 7 :: nat]"
  by code_simp+

lemma slot_bits_eq:
  "slot_bits data i b = b(8 + 5 * i := 0, 9 + 5 * i := data i AND 1, 10 + 5 * i := drop_bit 1 (data i AND 2),
     11 + 5 * i := drop_bit 2 (data i AND 4), 12 + 5 * i := 1, 13 + 5 * i := 1)"
proof -
  have e: "dmx_offset + i * DMX_FRAME_SIZE + 1 = 9 + 5 * i" by (simp add: dmx_offset_def start_code_def)
  have a: "9 + 5 * i - 1 = 8 + 5 * i" "9 + 5 * i + 1 = 10 + 5 * i" "9 + 5 * i + 2 = 11 + 5 * i"
    "9 + 5 * i + DMX_FRAME_DATA_SIZE + 0 = 12 + 5 * i" "9 + 5 * i + DMX_FRAME_DATA_SIZE + 1 = 13 + 5 * i" by simp_all
  show ?thesis unfolding slot_bits_def Let_def short_upts e fold_simps a by simp
qed

lemma start_bits_eq: "start_bits b = b(0 := 1, 1 := 1, 2 := 0, 3 := 0, 4 := 0, 5 := 0, 6 := 1, 7 := 0)"
proof -
  have e: "dmx_offset = 8" by (simp add: dmx_offset_def start_code_def)
  show ?thesis unfolding start_bits_def e short_upts by (simp add: start_code_def)
qed

lemma single_bit: "drop_bit k ((d :: u8) AND push_bit k 1) = of_bool (bit d k)" if "k < 8"
proof (rule bit_word_eqI)
  fix n :: nat
  assume "n < LENGTH(8)"
  then show "bit (drop_bit k (d AND push_bit k 1)) n \<longleftrightarrow> bit (of_bool (bit d k) :: u8) n"
    using that by (auto simp: bit_simps)
qed

lemma slots_bits:
  "k < n \<Longrightarrow> r < 5 \<Longrightarrow>
     fold (slot_bits data) [0..<n] b (8 + 5 * k + r) = of_bool (slot_frame (data k) ! r)"
proof (induction n)
  case (Suc n)
  have one: "data n AND 1 = of_bool (bit (data n) 0)" "drop_bit 1 (data n AND 2) = of_bool (bit (data n) 1)"
    "drop_bit 2 (data n AND 4) = of_bool (bit (data n) 2)"
    using single_bit [of 0 "data n"] single_bit [of 1 "data n"] single_bit [of 2 "data n"] by simp_all
  show ?case
  proof (cases "k = n")
    case True
    have "r = 0 \<or> r = 1 \<or> r = 2 \<or> r = 3 \<or> r = 4" using Suc.prems(2) by auto
    then show ?thesis using True one by (auto simp: slot_bits_eq slot_frame_def)
  next
    case False
    then have "8 + 5 * k + r < 8 + 5 * n" using Suc.prems by simp
    then show ?thesis using Suc False by (simp add: slot_bits_eq)
  qed
qed simp

lemma slots_below: "x < 8 \<Longrightarrow> fold (slot_bits data) [0..<n] b x = b x"
  by (induction n) (simp_all add: slot_bits_eq)

lemma nth_frames: "k < length ds \<Longrightarrow> r < 5 \<Longrightarrow> concat (map slot_frame ds) ! (5 * k + r) = slot_frame (ds ! k) ! r"
proof (induction ds arbitrary: k)
  case (Cons d ds)
  have l: "length (slot_frame d) = 5" by (simp add: slot_frame_def)
  show ?case
  proof (cases k)
    case 0
    then show ?thesis using Cons.prems l by (simp add: nth_append)
  next
    case (Suc j)
    then have "concat (map slot_frame (d # ds)) ! (5 * k + r) = concat (map slot_frame ds) ! (5 * j + r)"
      using l by (simp add: nth_append)
    then show ?thesis using Cons Suc by simp
  qed
qed simp

lemma length_frames: "length (concat (map slot_frame ds)) = 5 * length ds"
  by (induction ds) (simp_all add: slot_frame_def)

lemma dmx_bits_stream:
  assumes "i < 168"
  shows "dmx_bits data junk i = of_bool (dmx_stream (map data [0..<DMX_SLOTS]) ! i)"
proof (cases "i < 8")
  case True
  then have "i \<in> {0, 1, 2, 3, 4, 5, 6, 7}" by auto
  then show ?thesis using True unfolding dmx_bits_def slots_below [OF True] start_bits_eq dmx_stream_def by auto
next
  case False
  define k r where kr: "k = (i - 8) div 5" "r = (i - 8) mod 5"
  have i: "i = 8 + 5 * k + r" "k < DMX_SLOTS" "r < 5" using False assms by (simp_all add: kr)
  have "dmx_bits data junk i = of_bool (slot_frame (data k) ! r)"
    unfolding dmx_bits_def i(1) by (rule slots_bits [OF i(2,3)])
  also have "slot_frame (data k) ! r = concat (map slot_frame (map data [0..<DMX_SLOTS])) ! (5 * k + r)"
    using i(2,3) by (subst nth_frames) (simp_all del: upt_Suc)
  also have "\<dots> = dmx_stream (map data [0..<DMX_SLOTS]) ! i"
    unfolding dmx_stream_def i(1) by (simp add: nth_append del: upt_Suc map_map)
  finally show ?thesis .
qed

lemma bit_fold_pack:
  assumes "\<And>k. k < n \<Longrightarrow> f k = of_bool (P k)" "j < 8"
  shows "bit (fold (\<lambda>k byte. push_bit 1 byte OR f k) (rev [0..<n]) (acc :: u8)) j = (if j < n then P j else bit acc (j - n))"
  using assms
proof (induction n arbitrary: acc)
  case (Suc n)
  have "bit (push_bit 1 acc OR f n) (j - n) = (if j < Suc n then P j else bit acc (j - Suc n))" if "n \<le> j"
    unfolding bit_or_iff bit_push_bit_iff
    using Suc.prems that by (cases "j = n") (auto simp: bit_simps of_bool_def)
  moreover have "bit (fold (\<lambda>k byte. push_bit 1 byte OR f k) (rev [0..<n]) a) j = (if j < n then P j else bit a (j - n))" for a
    using Suc by simp
  ultimately show ?case by (cases "j < n") (simp_all add: less_Suc_eq)
qed simp

lemma bit_pack_byte:
  assumes "\<And>k. k < 8 \<Longrightarrow> bits (i * 8 + k) = of_bool (P k)" "j < 8"
  shows "bit (pack_byte bits i) j = P j"
  unfolding pack_byte_def
  using bit_fold_pack [where f = "\<lambda>k. bits (i * 8 + k)" and n = 8, OF assms] assms(2) by simp

lemma nth_concat_8: "(\<And>xs. xs \<in> set xss \<Longrightarrow> length xs = 8) \<Longrightarrow> i < 8 * length xss \<Longrightarrow>
  concat xss ! i = xss ! (i div 8) ! (i mod 8)"
proof (induction xss arbitrary: i)
  case (Cons xs xss)
  have l: "length xs = 8" using Cons.prems(1) by simp
  show ?case
  proof (cases "i < 8")
    case False
    then have "i div 8 = Suc ((i - 8) div 8)" "i mod 8 = (i - 8) mod 8" by (simp_all add: le_div_geq le_mod_geq)
    then show ?thesis using Cons False l by (simp add: nth_append)
  qed (use l in \<open>simp add: nth_append\<close>)
qed simp

section \<open>Properties\<close>

text \<open>C32. Whatever the stack held before, \<^verbatim>\<open>dmx_write\<close> sends two zero bytes (the break) and then 21 bytes
  whose bits, least significant first, are the start code and for each of the 32 slots a start bit,
  its three low data bits and a stop bit.\<close>

theorem dmx_write_stream:
  "\<exists>bytes. dmx_write junk port data m = map (\<lambda>b. (ucast port, b)) ([0, 0] @ bytes) \<and> length bytes = 21 \<and>
     concat (map (\<lambda>b. map (bit b) [0..<8]) bytes) = dmx_stream (map (\<lambda>i. m (data + of_nat i)) [0..<DMX_SLOTS])"
proof -
  let ?d = "\<lambda>i. m (data + of_nat i)"
  let ?stream = "dmx_stream (map ?d [0..<DMX_SLOTS])"
  define bytes where "bytes = map (pack_byte (dmx_bits ?d junk)) [0..<21]"
  have "dmx_bits_size div 8 = 21" by (simp add: dmx_bits_size_def dmx_offset_def start_code_def)
  then have run: "dmx_write junk port data m = map (\<lambda>b. (ucast port, b)) ([0, 0] @ bytes)"
    by (simp add: dmx_write_def Let_def bytes_def numeral_2_eq_2)
  have len: "length ?stream = 168" 
    unfolding dmx_stream_def length_append length_frames by simp
  have "bit (bytes ! (i div 8)) (i mod 8) = ?stream ! i" if "i < 168" for i
  proof -
    have b: "dmx_bits ?d junk (i div 8 * 8 + k) = of_bool (?stream ! (i div 8 * 8 + k))" if "k < 8" for k
      using that \<open>i < 168\<close> less_mult_imp_div_less [of i 21 8] by (intro dmx_bits_stream) simp
    have "bytes ! (i div 8) = pack_byte (dmx_bits ?d junk) (i div 8)"
      using that by (simp add: bytes_def less_mult_imp_div_less del: upt_Suc)
    then show ?thesis
      using bit_pack_byte [where P = "\<lambda>k. ?stream ! (i div 8 * 8 + k)" and j = "i mod 8", OF b] by simp
  qed
  moreover have "concat (map (\<lambda>b. map (bit b) [0..<8]) bytes) ! i = bit (bytes ! (i div 8)) (i mod 8)" if "i < 168" for i
    using that by (subst nth_concat_8) (auto simp: bytes_def less_mult_imp_div_less simp del: upt_Suc)
  moreover have "length (concat (map (\<lambda>b. map (bit b) [0..<8]) bytes)) = 168"
    by (simp add: length_concat comp_def sum_list_triv bytes_def del: upt_Suc)
  ultimately have "concat (map (\<lambda>b. map (bit b) [0..<8]) bytes) = ?stream"
    using len by (intro nth_equalityI) simp_all
  moreover have "length bytes = 21" by (simp add: bytes_def)
  ultimately show ?thesis using run by blast
qed

text \<open>The second stop bit of the last frame is written one element behind the end of the array
  \<^verbatim>\<open>bits\<close>.\<close>

theorem dmx_write_overrun: "dmx_bits data junk dmx_bits_size = 1"
proof -
  have "[0..<32] = [0..<31] @ [31 :: nat]" using upt_Suc_append [OF le0, of 31] by simp
  moreover have "dmx_bits_size = 168" by (simp add: dmx_bits_size_def dmx_offset_def start_code_def)
  ultimately show ?thesis by (simp only: dmx_bits_def fold_append) (simp add: slot_bits_eq)
qed

end
