(* ===== verification/Packets.thy ===== *)
theory Packets
  imports Memory
begin

unbundle bit_operations_syntax

text \<open>
  The protocol layers: Ethernet II frames (\<^verbatim>\<open>ethernet.c\<close>), IPv4 packets (\<^verbatim>\<open>ipv4.c\<close>) and UDP datagrams
  (\<^verbatim>\<open>udp.c\<close>). An array or a buffer is a function from its index, so that what lies behind the bytes
  that are written is visible; 16-bit reads through a cast pointer are little-endian, as on the
  processor.
\<close>

section \<open>Bytes\<close>

type_synonym bytes = "nat \<Rightarrow> u8"

text \<open>\<^verbatim>\<open>memcpy( buffer + off, src, n )\<close> and \<^verbatim>\<open>memset( buffer + off, len, value )\<close>, the order of the arguments that
  the kernel's \<^verbatim>\<open>memset\<close> has.\<close>

definition put :: "nat \<Rightarrow> nat \<Rightarrow> bytes \<Rightarrow> bytes \<Rightarrow> bytes" where
  "put off n src b = (\<lambda>i. if off \<le> i \<and> i < off + n then src (i - off) else b i)"

definition fill :: "nat \<Rightarrow> u32 \<Rightarrow> u32 \<Rightarrow> bytes \<Rightarrow> bytes" where
  "fill off len v b = (\<lambda>i. if off \<le> i \<and> i < off + unat len then ucast v else b i)"

definition hi8 :: "u16 \<Rightarrow> u8" where
  "hi8 w = ucast (drop_bit 8 w)"

definition lo8 :: "u16 \<Rightarrow> u8" where
  "lo8 w = ucast w"

text \<open>\<^verbatim>\<open>*(const uint16_t *) (p + i)\<close>\<close>

definition load16 :: "bytes \<Rightarrow> nat \<Rightarrow> u32" where
  "load16 p i = ucast (p i) OR push_bit 8 (ucast (p (i + 1)))"

section \<open>Checksums\<close>

function sum16 :: "bytes \<Rightarrow> nat \<Rightarrow> nat \<Rightarrow> u32 \<Rightarrow> u32" where
  "sum16 p i n s =
     (if n > 1 then sum16 p (i + 2) (n - 2) (s + load16 p i)
      else if n > 0 then s + ucast (p i)
      else s)"
  by pat_completeness auto
termination by (relation "measure (\<lambda>(p, i, n, s). n)") auto

declare sum16.simps [simp del]

lemma unat_halves:
  "unat (drop_bit 16 s) = unat s div 65536" "unat (s AND 0xffff) = unat s mod 65536" for s :: u32
proof -
  show "unat (drop_bit 16 s) = unat s div 65536"
    by (simp only: unsigned_drop_bit_eq) (simp add: drop_bit_eq_div take_bit_eq_mod unat_u32)
  have "s AND 0xffff = take_bit 16 s" by (simp add: take_bit_eq_mask mask_eq_exp_minus_1)
  moreover have "unat (take_bit 16 s) = unat s mod 65536"
    by (simp only: unsigned_take_bit_eq) (simp add: take_bit_eq_mod)
  ultimately show "unat (s AND 0xffff) = unat s mod 65536" by simp
qed

function fold16 :: "u32 \<Rightarrow> u32" where
  "fold16 s = (if drop_bit 16 s \<noteq> 0 then fold16 ((s AND 0xffff) + drop_bit 16 s) else s)"
  by pat_completeness auto
termination
proof (relation "measure unat")
  fix s :: u32
  assume h: "drop_bit 16 s \<noteq> 0"
  have q: "0 < unat s div 65536" using h unat_halves(1) [of s] unat_gt_0 [of "drop_bit 16 s"] by simp
  have "unat ((s AND 0xffff) + drop_bit 16 s) = unat s mod 65536 + unat s div 65536"
    using unat_halves [of s] unat_u32 [of s] by (simp add: unat_word_ariths)
  also have "\<dots> < unat s" using q mult_div_mod_eq [of 65536 "unat s"] by linarith
  finally show "((s AND 0xffff) + drop_bit 16 s, s) \<in> measure unat" by simp
qed simp

declare fold16.simps [simp del]

definition ipv4_calculate_checksum :: "bytes \<Rightarrow> u32 \<Rightarrow> u16" where
  "ipv4_calculate_checksum header len = ucast (NOT (fold16 (sum16 header 0 (unat len) 0)))"

section \<open>Ethernet\<close>

abbreviation ETH_ADDR_LEN :: nat where "ETH_ADDR_LEN \<equiv> 6"
abbreviation ETH_HEADER_LEN :: nat where "ETH_HEADER_LEN \<equiv> 14"
abbreviation ETH_MTU :: nat where "ETH_MTU \<equiv> 1500"
abbreviation ETH_MIN_PAYLOAD :: nat where "ETH_MIN_PAYLOAD \<equiv> 46"
abbreviation ETH_TYPE_IPV4 :: u16 where "ETH_TYPE_IPV4 \<equiv> 0x0800"

record eth_frame =
  dest_mac :: bytes
  src_mac :: bytes
  ethertype :: u16
  e_payload :: bytes
  e_payload_len :: u32

definition eth_init :: "bytes \<Rightarrow> bytes \<Rightarrow> u16 \<Rightarrow> eth_frame \<Rightarrow> eth_frame" where
  "eth_init dest src etype frame =
     frame\<lparr>dest_mac := put 0 ETH_ADDR_LEN dest (dest_mac frame), src_mac := put 0 ETH_ADDR_LEN src (src_mac frame),
           ethertype := etype, e_payload_len := 0\<rparr>"

definition eth_set_payload :: "bytes \<Rightarrow> u32 \<Rightarrow> eth_frame \<Rightarrow> eth_frame" where
  "eth_set_payload payload len frame =
     (let len' = (if len > of_nat ETH_MTU then of_nat ETH_MTU else len)
      in frame\<lparr>e_payload := put 0 (unat len') payload (e_payload frame), e_payload_len := len'\<rparr>)"

definition eth_serialize :: "eth_frame \<Rightarrow> bytes \<Rightarrow> u32 \<Rightarrow> u32 \<times> bytes" where
  "eth_serialize frame buffer buffer_size =
     (let len = e_payload_len frame;
          payload_len = (if len < of_nat ETH_MIN_PAYLOAD then of_nat ETH_MIN_PAYLOAD else len);
          total_len = of_nat ETH_HEADER_LEN + payload_len
      in if buffer_size < total_len then (0, buffer)
         else
           let b1 = put 0 ETH_ADDR_LEN (dest_mac frame) buffer;
               b2 = put ETH_ADDR_LEN ETH_ADDR_LEN (src_mac frame) b1;
               b3 = b2(12 := hi8 (ethertype frame), 13 := lo8 (ethertype frame));
               b4 = put ETH_HEADER_LEN (unat len) (e_payload frame) b3;
               b5 = (if len < of_nat ETH_MIN_PAYLOAD
                     then fill (ETH_HEADER_LEN + unat len) 0 (of_nat ETH_MIN_PAYLOAD - len) b4
                     else b4)
           in (total_len, b5))"

section \<open>IPv4\<close>

abbreviation IPV4_HEADER_MIN_LEN :: nat where "IPV4_HEADER_MIN_LEN \<equiv> 20"
abbreviation IPV4_MAX_PAYLOAD :: nat where "IPV4_MAX_PAYLOAD \<equiv> 1480"
abbreviation IPV4_PROTO_UDP :: u8 where "IPV4_PROTO_UDP \<equiv> 17"
abbreviation IPV4_DEFAULT_TTL :: u8 where "IPV4_DEFAULT_TTL \<equiv> 64"

record ipv4_packet =
  version_ihl :: u8
  dscp_ecn :: u8
  total_length :: u16
  identification :: u16
  flags_fragment :: u16
  ttl :: u8
  protocol :: u8
  header_checksum :: u16
  src_addr :: u32
  dest_addr :: u32
  i_payload :: bytes
  i_payload_len :: u32

definition ipv4_init :: "u8 \<Rightarrow> u16 \<Rightarrow> u8 \<Rightarrow> u16 \<Rightarrow> u8 \<Rightarrow> u8 \<Rightarrow> u32 \<Rightarrow> u32 \<Rightarrow> ipv4_packet \<Rightarrow> ipv4_packet" where
  "ipv4_init dscp ident flags fragment_offset t proto src dest packet =
     packet\<lparr>version_ihl := 0x45, dscp_ecn := dscp, total_length := 0, identification := ident,
            flags_fragment := push_bit 13 (ucast (flags AND 0x07)) OR (fragment_offset AND 0x1fff),
            ttl := t, protocol := proto, header_checksum := 0, src_addr := src, dest_addr := dest,
            i_payload_len := 0\<rparr>"

definition ipv4_set_payload :: "bytes \<Rightarrow> u32 \<Rightarrow> ipv4_packet \<Rightarrow> ipv4_packet" where
  "ipv4_set_payload payload len packet =
     (let len' = (if len > of_nat IPV4_MAX_PAYLOAD then of_nat IPV4_MAX_PAYLOAD else len)
      in packet\<lparr>i_payload := put 0 (unat len') payload (i_payload packet), i_payload_len := len'\<rparr>)"

text \<open>Byte \<open>k\<close> of a word, counted from the most significant one.\<close>

definition be8 :: "nat \<Rightarrow> u32 \<Rightarrow> u8" where
  "be8 k w = ucast (drop_bit (8 * (3 - k)) w)"

definition ipv4_header :: "ipv4_packet \<Rightarrow> u32 \<Rightarrow> bytes \<Rightarrow> bytes" where
  "ipv4_header packet total_size buffer =
     buffer(0 := version_ihl packet, 1 := dscp_ecn packet,
            2 := be8 2 total_size, 3 := be8 3 total_size,
            4 := hi8 (identification packet), 5 := lo8 (identification packet),
            6 := hi8 (flags_fragment packet), 7 := lo8 (flags_fragment packet),
            8 := ttl packet, 9 := protocol packet, 10 := 0, 11 := 0,
            12 := be8 0 (src_addr packet), 13 := be8 1 (src_addr packet),
            14 := be8 2 (src_addr packet), 15 := be8 3 (src_addr packet),
            16 := be8 0 (dest_addr packet), 17 := be8 1 (dest_addr packet),
            18 := be8 2 (dest_addr packet), 19 := be8 3 (dest_addr packet))"

definition ipv4_serialize :: "ipv4_packet \<Rightarrow> bytes \<Rightarrow> u32 \<Rightarrow> u32 \<times> bytes" where
  "ipv4_serialize packet buffer buffer_size =
     (let total_size = of_nat IPV4_HEADER_MIN_LEN + i_payload_len packet
      in if buffer_size < total_size then (0, buffer)
         else
           let b1 = ipv4_header packet total_size buffer;
               checksum = ipv4_calculate_checksum b1 (of_nat IPV4_HEADER_MIN_LEN);
               b2 = b1(10 := hi8 checksum, 11 := lo8 checksum)
           in (total_size, put IPV4_HEADER_MIN_LEN (unat (i_payload_len packet)) (i_payload packet) b2))"

section \<open>UDP\<close>

abbreviation UDP_HEADER_LEN :: nat where "UDP_HEADER_LEN \<equiv> 8"
abbreviation UDP_MAX_PAYLOAD :: nat where "UDP_MAX_PAYLOAD \<equiv> 1472"

record udp_packet =
  src_port :: u16
  dest_port :: u16
  u_length :: u16
  u_checksum :: u16
  u_payload :: bytes
  u_payload_len :: u32

text \<open>The pseudo-header in memory: the two addresses as they are stored by the processor.\<close>

definition pseudo_header :: "u32 \<Rightarrow> u32 \<Rightarrow> u32 \<Rightarrow> bytes" where
  "pseudo_header src dest udp_len =
     (let n = (ucast (drop_bit 8 udp_len OR push_bit 8 (udp_len AND 0xff)) :: u16)
      in (\<lambda>i. [be8 3 src, be8 2 src, be8 1 src, be8 0 src, be8 3 dest, be8 2 dest, be8 1 dest, be8 0 dest,
               0, IPV4_PROTO_UDP, lo8 n, hi8 n] ! i))"

definition udp_calculate_checksum :: "bytes \<Rightarrow> u32 \<Rightarrow> u32 \<Rightarrow> u32 \<Rightarrow> u16" where
  "udp_calculate_checksum udp_buffer udp_len src dest =
     (let s = sum16 (pseudo_header src dest udp_len) 0 12 0;
          checksum = ucast (NOT (fold16 (sum16 udp_buffer 0 (nat (sint udp_len)) s)))
      in if checksum = 0 then 0xffff else checksum)"

definition udp_init :: "u16 \<Rightarrow> u16 \<Rightarrow> udp_packet \<Rightarrow> udp_packet" where
  "udp_init src dest packet =
     packet\<lparr>src_port := src, dest_port := dest, u_length := of_nat UDP_HEADER_LEN, u_checksum := 0, u_payload_len := 0\<rparr>"

definition udp_set_payload :: "bytes \<Rightarrow> u32 \<Rightarrow> udp_packet \<Rightarrow> udp_packet" where
  "udp_set_payload payload len packet =
     (let len' = (if len > of_nat UDP_MAX_PAYLOAD then of_nat UDP_MAX_PAYLOAD else len)
      in packet\<lparr>u_payload := put 0 (unat len') payload (u_payload packet), u_payload_len := len'\<rparr>)"

definition udp_serialize :: "udp_packet \<Rightarrow> bytes \<Rightarrow> u32 \<Rightarrow> u32 \<Rightarrow> u32 \<Rightarrow> u32 \<times> bytes" where
  "udp_serialize packet buffer buffer_size src dest =
     (let total_size = of_nat UDP_HEADER_LEN + u_payload_len packet
      in if buffer_size < total_size then (0, buffer)
         else
           let b1 = buffer(0 := hi8 (src_port packet), 1 := lo8 (src_port packet),
                           2 := hi8 (dest_port packet), 3 := lo8 (dest_port packet),
                           4 := be8 2 total_size, 5 := be8 3 total_size, 6 := 0, 7 := 0);
               b2 = put UDP_HEADER_LEN (unat (u_payload_len packet)) (u_payload packet) b1;
               checksum = udp_calculate_checksum b2 total_size src dest
           in (total_size, b2(6 := hi8 checksum, 7 := lo8 checksum)))"

section \<open>Ones-complement sums\<close>

fun wsum :: "bytes \<Rightarrow> nat list \<Rightarrow> nat" where
  "wsum p [] = 0"
| "wsum p (i # is) = unat (p i) + 256 * unat (p (i + 1)) + wsum p is"

lemma unat_u8: "unat (b :: u8) < 256"
  using unsigned_less [of b, where ?'a = nat] by simp

lemma unat_ucast8: "unat (ucast (b :: u8) :: u32) = unat b"
  using unat_u8 [of b] by (simp add: unsigned_ucast_eq take_bit_eq_mod)

lemma unat_load16: "unat (load16 p i) = unat (p i) + 256 * unat (p (i + 1))"
proof -
  have sh: "unat (push_bit 8 (ucast (p (i + 1))) :: u32) = 256 * unat (p (i + 1))"
    using unat_u8 [of "p (i + 1)"] by (simp only: unsigned_push_bit_eq) (simp add: push_bit_eq_mult take_bit_eq_mod unat_ucast8)
  have "(ucast (p i) :: u32) AND push_bit 8 (ucast (p (i + 1))) = 0"
    by (rule bit_word_eqI) (auto simp: bit_simps dest: bit_imp_le_length)
  then have "load16 p i = ucast (p i) + push_bit 8 (ucast (p (i + 1)))"
    unfolding load16_def by (rule disjunctive_add_eq_or [symmetric])
  then show ?thesis
    using sh unat_u8 [of "p i"] unat_u8 [of "p (i + 1)"] by (simp add: unat_word_ariths unat_ucast8)
qed

fun evens :: "nat \<Rightarrow> nat \<Rightarrow> nat list" where
  "evens i 0 = []"
| "evens i (Suc n) = i # evens (i + 2) n"

lemma wsum_bound: "wsum p is \<le> 65535 * length is"
proof (induction "is")
  case (Cons i "is")
  then show ?case using unat_u8 [of "p i"] unat_u8 [of "p (i + 1)"] by simp
qed simp

lemma unat_sum16:
  "unat s + 65535 * n < 2 ^ 32 \<Longrightarrow> unat (sum16 p i (2 * n) s) = unat s + wsum p (evens i n)"
proof (induction n arbitrary: i s)
  case 0
  then show ?case by (simp add: sum16.simps)
next
  case (Suc n)
  have w: "unat (load16 p i) \<le> 65535"
    using unat_u8 [of "p i"] unat_u8 [of "p (i + 1)"] by (simp add: unat_load16)
  have s: "unat (s + load16 p i) = unat s + unat (load16 p i)"
    using Suc.prems w by (simp add: unat_word_ariths)
  have "sum16 p i (2 * Suc n) s = sum16 p (i + 2) (2 * n) (s + load16 p i)"
    by (subst sum16.simps) simp
  then show ?case using Suc.IH [of "s + load16 p i" "i + 2"] Suc.prems w s by (simp add: unat_load16)
qed

text \<open>Folding keeps the value modulo 65535 and gives zero only for zero.\<close>

lemma fold16_unat:
  "unat (fold16 s) < 65536 \<and> unat (fold16 s) mod 65535 = unat s mod 65535 \<and> (unat (fold16 s) = 0 \<longleftrightarrow> unat s = 0)"
proof (induction s rule: fold16.induct)
  case (1 s)
  note s = unat_halves [of s]
  show ?case
  proof (cases "drop_bit 16 s = 0")
    case True
    then have "unat s div 65536 = 0" using s(1) by simp
    then show ?thesis using True by (simp add: fold16.simps)
  next
    case False
    let ?t = "(s AND 0xffff) + drop_bit 16 s"
    have t: "unat ?t = unat s mod 65536 + unat s div 65536"
      using s unat_u32 [of s] by (simp add: unat_word_ariths)
    define q r where qr: "q = unat s div 65536" "r = unat s mod 65536"
    have split: "unat s = (r + q) + 65535 * q" using mult_div_mod_eq [of 65536 "unat s"] unfolding qr by linarith
    have rq: "unat ?t = r + q" using t by (simp only: qr)
    have "unat ?t mod 65535 = unat s mod 65535" unfolding split rq by (rule mod_mult_self2 [symmetric])
    moreover have "unat ?t = 0 \<longleftrightarrow> unat s = 0" unfolding split rq by auto
    moreover have "fold16 s = fold16 ?t" using False by (subst fold16.simps) simp
    ultimately show ?thesis using 1 False by simp
  qed
qed

lemma fold16_ffff: "unat (fold16 s) = 65535 \<longleftrightarrow> unat s \<noteq> 0 \<and> unat s mod 65535 = 0"
proof -
  define f where "f = unat (fold16 s)"
  have f: "f < 65536" "f mod 65535 = unat s mod 65535" "f = 0 \<longleftrightarrow> unat s = 0"
    using fold16_unat [of s] by (simp_all add: f_def)
  have "f = 65535 \<longleftrightarrow> f \<noteq> 0 \<and> f mod 65535 = 0"
  proof (cases "f < 65535")
    case False
    then have "f = 65535" using f(1) by simp
    then show ?thesis by simp
  qed auto
  then show ?thesis unfolding f_def [symmetric] using f(2,3) by metis
qed

lemma unat_checksum: "unat (ucast (NOT (fold16 s)) :: u16) = 65535 - unat (fold16 s)"
proof -
  have f: "unat (fold16 s) < 65536" using fold16_unat by blast
  define w where "w = fold16 s"
  have "NOT w = - 1 - w" by (simp add: not_eq_complement)
  moreover have "unat (- 1 - w) = unat (- 1 :: u32) - unat w" by (rule unat_sub) simp
  moreover have "unat (- 1 :: u32) = 4294967295" by (simp add: unsigned_minus_1_eq_mask mask_eq_exp_minus_1)
  ultimately have "unat (NOT (fold16 s)) = 4294967295 - unat (fold16 s)" by (simp only: w_def)
  moreover have "(4294967295 - unat (fold16 s)) mod 65536 = 65535 - unat (fold16 s)"
  proof -
    have "4294967295 - unat (fold16 s) = (65535 - unat (fold16 s)) + 65536 * 65535" using f by simp
    then show ?thesis by (simp only: mod_mult_self2) simp
  qed
  ultimately show ?thesis by (simp add: unsigned_ucast_eq take_bit_eq_mod)
qed

lemma unat_hi_lo: "256 * unat (hi8 w) + unat (lo8 w) = unat w"
proof -
  have "unat w < 65536" using unsigned_less [of w, where ?'a = nat] by simp
  then have "unat (hi8 w) = unat w div 256"
    
    unfolding hi8_def unsigned_ucast_eq unsigned_drop_bit_eq by (simp add: take_bit_eq_mod drop_bit_eq_div)
  moreover have "unat (lo8 w) = unat w mod 256" unfolding lo8_def by (simp add: unsigned_ucast_eq take_bit_eq_mod)
  ultimately show ?thesis by simp
qed

lemma header_evens: "evens 0 10 = [0, 2, 4, 6, 8] @ [10] @ [12, 14, 16, 18]"
  by (simp add: numeral_eq_Suc)

text \<open>The sum of a header whose checksum field holds \<open>hi\<close> and \<open>lo\<close>.\<close>

lemma wsum_append: "wsum p (xs @ ys) = wsum p xs + wsum p ys"
  by (induction xs) simp_all

lemma wsum_upd: "(\<And>i. i \<in> set is \<Longrightarrow> a \<noteq> i \<and> a \<noteq> i + 1) \<Longrightarrow> wsum (p(a := v)) is = wsum p is"
  by (induction "is") auto

lemma sum_with_checksum:
  assumes "p 10 = 0" "p 11 = 0"
  shows "wsum (p(10 := hi, 11 := lo)) (evens 0 10) = wsum p (evens 0 10) + (unat hi + 256 * unat lo)"
proof -
  have "wsum (p(10 := hi, 11 := lo)) [0, 2, 4, 6, 8] = wsum p [0, 2, 4, 6, 8]"
    "wsum (p(10 := hi, 11 := lo)) [12, 14, 16, 18] = wsum p [12, 14, 16, 18]"
    by (subst wsum_upd, force, subst wsum_upd, force, rule refl)+
  then show ?thesis unfolding header_evens wsum_append using assms by simp
qed

text \<open>When the sum of a header and the exchanged bytes of its checksum is a multiple of 65535.\<close>

lemma swapped_verifies:
  fixes F S hi lo :: nat
  assumes "F < 65536" "F mod 65535 = S mod 65535" "F = 0 \<longleftrightarrow> S = 0"
    and c: "256 * hi + lo = 65535 - F" and small: "hi < 256" "lo < 256"
  shows "S + (hi + 256 * lo) \<noteq> 0 \<and> (S + (hi + 256 * lo)) mod 65535 = 0 \<longleftrightarrow> hi = lo"
proof -
  define N where "N = F + (hi + 256 * lo)"
  have N: "int N = 65535 + 255 * (int lo - int hi)" using c assms(1) by (simp add: N_def of_nat_diff)
  have "S + (hi + 256 * lo) = 0 \<longleftrightarrow> N = 0" using assms(3) by (auto simp: N_def)
  moreover have "(S + (hi + 256 * lo)) mod 65535 = N mod 65535"
    unfolding N_def using assms(2) by (metis mod_add_left_eq)
  moreover have "N \<noteq> 0 \<and> N mod 65535 = 0 \<longleftrightarrow> hi = lo"
  proof
    assume "hi = lo"
    then have "N = 65535" using N by simp
    then show "N \<noteq> 0 \<and> N mod 65535 = 0" by simp
  next
    assume "N \<noteq> 0 \<and> N mod 65535 = 0"
    then obtain k where k: "N = 65535 * k" "k \<noteq> 0" by (auto elim!: dvdE simp: mod_eq_0_iff_dvd)
    moreover have "N < 65535 * 2"
    proof -
      have "255 * int lo \<le> 255 * 255" "0 \<le> 255 * int hi" using small by simp_all
      then have "int N < 131070" using N by (simp add: algebra_simps)
      then show ?thesis by simp
    qed
    ultimately have "k = 1" by simp
    then show "hi = lo" using k N by simp
  qed
  ultimately show ?thesis by simp
qed

section \<open>Properties\<close>

text \<open>The frame that \<^verbatim>\<open>eth_serialize\<close> builds in a large enough buffer has the two addresses, the type in
  network order and the payload, and its length counts the padding to 46 payload bytes; but the padding is
  not cleared, because the arguments of \<^verbatim>\<open>memset\<close> are exchanged: it keeps what the buffer held.\<close>

theorem eth_serialize_layout:
  assumes "unat (e_payload_len f) \<le> ETH_MTU" "ETH_HEADER_LEN + max ETH_MIN_PAYLOAD (unat (e_payload_len f)) \<le> unat sz"
  shows "\<exists>b'. eth_serialize f b sz = (of_nat (ETH_HEADER_LEN + max ETH_MIN_PAYLOAD (unat (e_payload_len f))), b') \<and>
    map b' [0..<ETH_HEADER_LEN + unat (e_payload_len f)] =
      map (dest_mac f) [0..<6] @ map (src_mac f) [0..<6] @ [hi8 (ethertype f), lo8 (ethertype f)] @
      map (e_payload f) [0..<unat (e_payload_len f)] \<and>
    (\<forall>i. ETH_HEADER_LEN + unat (e_payload_len f) \<le> i \<longrightarrow> b' i = b i)"
proof -
  let ?n = "unat (e_payload_len f)"
  let ?b = "put 14 ?n (e_payload f) ((put 6 6 (src_mac f) (put 0 6 (dest_mac f) b))
              (12 := hi8 (ethertype f), 13 := lo8 (ethertype f)))"
  have lt: "e_payload_len f < 46 \<longleftrightarrow> ?n < 46" by (simp add: word_less_nat_alt)
  have tot: "(of_nat 14 + (if e_payload_len f < of_nat 46 then of_nat 46 else e_payload_len f) :: u32) =
      of_nat (14 + max 46 ?n)"
    using lt by (simp add: max_def)
  have "\<not> sz < of_nat (14 + max 46 ?n)"
  proof -
    have "unat (of_nat (14 + max 46 ?n) :: u32) = 14 + max 46 ?n" using assms(1) by (subst unat_of_nat) simp
    then show ?thesis using assms(2) unfolding word_less_nat_alt by simp
  qed
  moreover have "fill off 0 v x = x" for off v x by (rule ext) (auto simp: fill_def)
  ultimately have run: "eth_serialize f b sz = (of_nat (14 + max 46 ?n), ?b)"
    unfolding eth_serialize_def Let_def tot by simp
  have "map ?b [0..<14 + ?n] = map ?b [0..<6] @ map ?b [6..<12] @ map ?b [12..<14] @ map ?b [14..<14 + ?n]"
    using upt_add_eq_append [of 0 6 "8 + ?n"] upt_add_eq_append [of 6 12 "2 + ?n"] upt_add_eq_append [of 12 14 ?n]
    by (simp add: ac_simps)
  also have "map ?b [0..<6] = map (dest_mac f) [0..<6]" by (rule map_cong) (auto simp: put_def)
  also have "map ?b [6..<12] = map (src_mac f) [0..<6]"
  proof -
    have u: "[0..<6] = [0, 1, 2, 3, 4, 5 :: nat]" by code_simp
    show ?thesis unfolding u by (simp add: put_def)
  qed
  also have "map ?b [12..<14] = [hi8 (ethertype f), lo8 (ethertype f)]"
    by (simp add: put_def upt_rec)
  also have "map ?b [14..<14 + ?n] = map (e_payload f) [0..<?n]"
    by (rule nth_equalityI) (auto simp: put_def)
  finally have "map ?b [0..<14 + ?n] = map (dest_mac f) [0..<6] @ map (src_mac f) [0..<6] @
    [hi8 (ethertype f), lo8 (ethertype f)] @ map (e_payload f) [0..<?n]" .
  moreover have "\<forall>i. 14 + ?n \<le> i \<longrightarrow> ?b i = b i" by (simp add: put_def)
  ultimately show ?thesis using run by blast
qed

definition sample_frame :: eth_frame where
  "sample_frame = \<lparr>dest_mac = (\<lambda>_. 0xff), src_mac = of_nat, ethertype = ETH_TYPE_IPV4, e_payload = (\<lambda>_. 97), e_payload_len = 3\<rparr>"

theorem eth_serialize_layout_witness:
  "\<exists>b'. eth_serialize sample_frame (\<lambda>_. 0x5a) 1518 = (60, b') \<and> b' 12 = 8 \<and> b' 14 = 97 \<and> b' 59 = 0x5a"
proof -
  obtain b' where b: "eth_serialize sample_frame (\<lambda>_. 0x5a) 1518 = (60, b')"
    "map b' [0..<17] = map (\<lambda>_. 0xff) [0..<6] @ map of_nat [0..<6] @ [8, 0] @ map (\<lambda>_. 97) [0..<3]" "\<forall>i\<ge>17. b' i = 0x5a"
    using eth_serialize_layout [of sample_frame 1518 "\<lambda>_. 0x5a"]
    by (auto simp: sample_frame_def hi8_def lo8_def)
  have "b' i = map b' [0..<17] ! i" if "i < 17" for i using that by simp
  from this [of 12] this [of 14] have "b' 12 = 8" "b' 14 = 97" unfolding b(2) by (simp_all add: nth_append)
  with b show ?thesis by auto
qed


definition sample_packet :: ipv4_packet where
  "sample_packet = ipv4_set_payload (\<lambda>_. 97) 15
     (ipv4_init 0 1234 0 0 IPV4_DEFAULT_TTL IPV4_PROTO_UDP 0xc0a80164 0xc0a80101
       \<lparr>version_ihl = 0, dscp_ecn = 0, total_length = 0, identification = 0, flags_fragment = 0, ttl = 0, protocol = 0,
        header_checksum = 0, src_addr = 0, dest_addr = 0, i_payload = (\<lambda>_. 0), i_payload_len = 0\<rparr>)"

lemma sample_packet_checksum:
  "snd (ipv4_serialize sample_packet (\<lambda>_. 0) 65535) 10 \<noteq> snd (ipv4_serialize sample_packet (\<lambda>_. 0) 65535) 11"
  by code_simp


end
