(* ===== verification/Net.thy ===== *)
theory Net
  imports Sio_Isr Packets
begin

unbundle bit_operations_syntax

text \<open>
  Sending and receiving: the rings of \<^verbatim>\<open>intel8255x.c\<close> and the routines of \<^verbatim>\<open>net.c\<close> on top of them. The
  value that the device returns for its tail register is an argument, as are the contents of local
  variables before they are assigned. The rings are set up for a device that has been found; how it is found and
  reset is in \<open>Nic_Init\<close>.
\<close>

section \<open>The rings\<close>

abbreviation I8255X_PKT_BUF_SIZE :: u16 where "I8255X_PKT_BUF_SIZE \<equiv> 2048"
abbreviation STAT_DD :: u8 where "STAT_DD \<equiv> 1"

definition on_nic :: "(nic_state \<Rightarrow> nic_state) \<Rightarrow> kernel \<Rightarrow> kernel" where
  "on_nic f k = k\<lparr>nic := f (nic k)\<rparr>"

definition set_km :: "kms \<Rightarrow> kernel \<Rightarrow> kernel" where
  "set_km s k = k\<lparr>kst := (kst k)\<lparr>km := s\<rparr>\<rparr>"

text \<open>The loop that gives each receive descriptor a page; it returns whether all got one.\<close>

fun rx_buffers :: "nat list \<Rightarrow> i8255x \<Rightarrow> kms \<Rightarrow> (bool \<times> i8255x \<times> kms) res" where
  "rx_buffers [] dev s = Inr (True, dev, s)"
| "rx_buffers (i # is) dev s =
     bindR (km_page_alloc 1 s) (\<lambda>(buf, s').
       if buf = 0 then Inr (False, dev, s')
       else rx_buffers is
              (dev\<lparr>rx_ring := (rx_ring dev)(i := (rx_ring dev i)\<lparr>rd_addr := ucast buf, rd_length := I8255X_PKT_BUF_SIZE,
                                                        rd_status := 0\<rparr>)\<rparr>) s')"

definition i8255x_setup_rings :: "kernel \<Rightarrow> kernel res" where
  "i8255x_setup_rings k =
     (case global_dev (nic k) of
        None \<Rightarrow> Inl Wild
      | Some dev0 \<Rightarrow>
          bindR (rx_buffers [0..<I8255X_RX_RING_SIZE] dev0 (km (kst k))) (\<lambda>(ok, dev, s).
            let k1 = on_nic (\<lambda>n. n\<lparr>global_dev := Some dev\<rparr>) (set_km s k)
            in if \<not> ok then on_con (cio_puts (map of_char (''RX buffer alloc failed'' @ [CHR 0x0A]))) k1
               else
                 let dev' = dev\<lparr>tx_ring := fold (\<lambda>i r. r(i := (r i)\<lparr>td_status := STAT_DD\<rparr>))
                                             [0..<I8255X_TX_RING_SIZE] (tx_ring dev)\<rparr>;
                     regs = [(0x2800, dev_addr dev + 16), (0x2804, 0), (0x2808, 256), (0x2810, 0), (0x2818, 15),
                             (0x0100, 0x04008002), (0x3800, dev_addr dev + 272), (0x3804, 0), (0x3808, 256),
                             (0x3810, 0), (0x3818, 0), (0x0400, 0x4010a), (0x0410, 0x0060200a)]
                 in Inr (on_nic (\<lambda>n. fold (\<lambda>(r, v). write_reg dev' r v) regs (n\<lparr>global_dev := Some dev'\<rparr>)) k1)))"

definition i8255x_transmit :: "u32 \<Rightarrow> addr \<Rightarrow> u16 \<Rightarrow> kernel \<Rightarrow> (int \<times> kernel) res" where
  "i8255x_transmit tail frm len k =
     (case global_dev (nic k) of
        None \<Rightarrow> Inl Wild
      | Some dev \<Rightarrow>
          if unat tail \<ge> I8255X_TX_RING_SIZE then Inl Wild
          else if td_status (tx_ring dev (unat tail)) AND STAT_DD = 0 then Inr (- 1, k)
          else
            bindR (km_page_alloc 1 (km (kst k))) (\<lambda>(buf, s).
              let k1 = set_km s k
              in if buf = 0
                 then bindR (on_con (cio_puts (map of_char (''TX buffer alloc failed'' @ [CHR 0x0A]))) k1)
                        (\<lambda>k2. Inr (- 1, k2))
                 else
                   let m = memcpy (k_mem s) buf frm (ucast len);
                       d = \<lparr>td_addr = ucast buf, td_length = len, td_cso = 0, td_cmd = 0x0b, td_status = 0,
                            td_css = 0, td_special = 0\<rparr>;
                       dev' = dev\<lparr>tx_ring := (tx_ring dev)(unat tail := d)\<rparr>;
                       tail' = (tail + 1) mod of_nat I8255X_TX_RING_SIZE
                   in Inr (0, on_nic (\<lambda>n. write_reg dev' 0x3818 tail' (n\<lparr>global_dev := Some dev'\<rparr>))
                                (set_km (s\<lparr>k_mem := m\<rparr>) k1))))"

definition i8255x_receive :: "addr \<Rightarrow> u16 \<Rightarrow> kernel \<Rightarrow> (int \<times> kernel) res" where
  "i8255x_receive buffer bufferLen k =
     (case global_dev (nic k) of
        None \<Rightarrow> Inl Wild
      | Some dev \<Rightarrow>
          if unat (rx_next (nic k)) \<ge> I8255X_RX_RING_SIZE then Inl Wild
          else
            let i = unat (rx_next (nic k)); d = rx_ring dev i
            in if rd_status d AND STAT_DD = 0 then Inr (0, k)
               else
                 let len = (if rd_length d > bufferLen then bufferLen else rd_length d);
                     s = km (kst k);
                     s' = s\<lparr>k_mem := memcpy (k_mem s) buffer (ucast (rd_addr d)) (ucast len)\<rparr>;
                     dev' = dev\<lparr>rx_ring := (rx_ring dev)(i := d\<lparr>rd_status := 0\<rparr>)\<rparr>;
                     rx = rx_next (nic k)
                 in Inr (int (unat len),
                         on_nic (\<lambda>n. (write_reg dev' 0x2818 rx (n\<lparr>global_dev := Some dev'\<rparr>))
                                       \<lparr>rx_next := (rx + 1) mod of_nat I8255X_RX_RING_SIZE\<rparr>) (set_km s' k)))"

section \<open>The network routines\<close>

text \<open>The local variables of \<^verbatim>\<open>net_transmit\<close> before they are assigned.\<close>

record net_locals =
  l_udp :: udp_packet
  l_udp_buffer :: bytes
  l_ipv4 :: ipv4_packet
  l_ipv4_buffer :: bytes
  l_eth :: eth_frame

definition bytes_of :: "u8 list \<Rightarrow> bytes" where
  "bytes_of xs = (\<lambda>i. if i < length xs then xs ! i else 0)"

text \<open>The message that is sent, whatever the caller's frame holds: the bytes of the packet that
  \<^verbatim>\<open>eth_serialize\<close> writes over the buffer, and the size it returns. \<^verbatim>\<open>sizeof(buffer)\<close> is the size of a
  pointer.\<close>

definition net_frame :: "net_locals \<Rightarrow> bytes \<Rightarrow> bytes \<Rightarrow> u32 \<times> bytes" where
  "net_frame l mac buffer =
     (let udp = udp_set_payload (bytes_of (map of_char ''testing'')) 7 (udp_init 10000 11000 (l_udp l));
          src_ip = 0xc0a80164; dest_ip = 0xc0a80101;
          (udp_size, udp_buffer) = udp_serialize udp (l_udp_buffer l) 65507 src_ip dest_ip;
          ipv4 = ipv4_set_payload udp_buffer udp_size
                   (ipv4_init 0 1234 0 0 IPV4_DEFAULT_TTL IPV4_PROTO_UDP src_ip dest_ip (l_ipv4 l));
          (ipv4_size, ipv4_buffer) = ipv4_serialize ipv4 (l_ipv4_buffer l) 65535;
          eth = eth_set_payload ipv4_buffer ipv4_size
                  (eth_init (bytes_of [0xaa, 0xbb, 0xcc, 0xdd, 0xee, 0xff]) mac ETH_TYPE_IPV4 (l_eth l))
      in eth_serialize eth buffer 4)"

definition net_transmit :: "net_locals \<Rightarrow> u32 \<Rightarrow> addr \<Rightarrow> u16 \<Rightarrow> kernel \<Rightarrow> (int \<times> kernel) res" where
  "net_transmit l tail frm len k =
     bindR (km_page_alloc 1 (km (kst k))) (\<lambda>(buffer, s).
       let k1 = set_km s k
       in if buffer = 0
          then bindR (on_con (cio_puts (map of_char (''TX buffer alloc failed'' @ [CHR 0x0A]))) k1) (\<lambda>k2. Inr (- 1, k2))
          else
            let m = memcpy (k_mem s) buffer frm (ucast len);
                (eth_size, b) = net_frame l (net_src_mac (nic k1)) (\<lambda>i. m (buffer + of_nat i));
                m' = (\<lambda>a. b (unat (a - buffer)))
            in i8255x_transmit tail buffer (ucast eth_size) (set_km (s\<lparr>k_mem := m'\<rparr>) k1))"

definition net_receive :: "addr \<Rightarrow> u16 \<Rightarrow> kernel \<Rightarrow> (int \<times> kernel) res" where
  "net_receive buffer len k = i8255x_receive buffer len k"

section \<open>Properties\<close>

lemma set_km_simps [simp]: "km (kst (set_km s k)) = s" "nic (set_km s k) = nic k" "kp (kst (set_km s k)) = kp (kst k)"
  by (simp_all add: set_km_def)

lemma on_nic_simps [simp]: "nic (on_nic f k) = f (nic k)" "kst (on_nic f k) = kst k"
  by (simp_all add: on_nic_def)

lemma write_reg_simps [simp]: "global_dev (write_reg d r v n) = global_dev n" "rx_next (write_reg d r v n) = rx_next n"
  "mmio_out (write_reg d r v n) = mmio_out n @ [(mmio_base d + r, v)]"
  by (simp_all add: write_reg_def)

lemma unat_next_slot: "unat ((t + 1) mod 16 :: u32) = (unat t + 1) mod 16" if "unat t < 16"
proof -
  have "unat (t + 1) = unat t + 1" using that by (simp add: unat_word_ariths)
  then show ?thesis by (simp add: unat_mod_distrib)
qed

lemma memcpy_byte:
  assumes "apart dst n src n" "i < n" "unat len = n"
  shows "memcpy m dst src len (dst + of_nat i) = m (src + of_nat i)"
proof -
  have n: "n < 4294967296" using unat_u32 [of len] assms(3) by simp
  then have "unat (of_nat i :: u32) = i" using assms(2) by (subst unat_of_nat) simp
  then show ?thesis using memcpy_eq [of dst len src m] assms by (simp add: copied_def inr_def)
qed

lemma unat_ucast16: "unat (ucast (w :: u16) :: u32) = unat w"
  using unsigned_less [of w, where ?'a = nat] by (simp add: unsigned_ucast_eq take_bit_eq_mod)

text \<open>When the device is done with the descriptor at its tail, \<^verbatim>\<open>i8255x_transmit\<close> copies the frame to a
  fresh page, hands the descriptor with the address, the length and the end-of-packet command to the device,
  and moves the tail on by one, modulo the ring size; the other descriptors stay as they are.\<close>

theorem i8255x_transmit_queues:
  assumes "global_dev (nic k) = Some dev" "unat tail < 16" "td_status (tx_ring dev (unat tail)) AND 1 \<noteq> 0"
    and "km_page_alloc 1 (km (kst k)) = Inr (p, s)" "p \<noteq> 0" "apart p (unat len) frm (unat len)"
  shows "\<exists>k' dev' t. i8255x_transmit tail frm len k = Inr (0, k') \<and> global_dev (nic k') = Some dev' \<and>
    td_addr (tx_ring dev' (unat tail)) = ucast p \<and> td_length (tx_ring dev' (unat tail)) = len \<and>
    td_cmd (tx_ring dev' (unat tail)) = 0x0b \<and> td_status (tx_ring dev' (unat tail)) = 0 \<and>
    (\<forall>i. i \<noteq> unat tail \<longrightarrow> tx_ring dev' i = tx_ring dev i) \<and> rx_ring dev' = rx_ring dev \<and>
    (\<forall>i<unat len. k_mem (km (kst k')) (p + of_nat i) = k_mem s (frm + of_nat i)) \<and>
    mmio_out (nic k') = mmio_out (nic k) @ [(mmio_base dev + 0x3818, t)] \<and> unat t = (unat tail + 1) mod 16"
proof -
  have t: "unat ((tail + 1) mod 16) = (unat tail + 1) mod 16" by (rule unat_next_slot [OF assms(2)])
  have bytes: "\<forall>i<unat len. memcpy (k_mem s) p frm (ucast len) (p + of_nat i) = k_mem s (frm + of_nat i)"
    using memcpy_byte [OF assms(6)] unat_ucast16 by simp
  show ?thesis
    unfolding i8255x_transmit_def Let_def using assms(1-5) t bytes by simp
qed

text \<open>\<^verbatim>\<open>i8255x_receive\<close> returns 0 and changes nothing while the next descriptor is not filled. When it is, the
  packet is copied to the buffer, cut to its size; the descriptor is free again, the tail register names it,
  and the next call looks at the following descriptor of the ring.\<close>

theorem i8255x_receive_takes:
  assumes "global_dev (nic k) = Some dev" "unat (rx_next (nic k)) < 16" "d = rx_ring dev (unat (rx_next (nic k)))"
    and "n = min (unat (rd_length d)) (unat bufLen)" "apart buffer n (ucast (rd_addr d)) n"
  shows "\<exists>r k'. i8255x_receive buffer bufLen k = Inr (r, k') \<and>
    (rd_status d AND 1 = 0 \<longrightarrow> r = 0 \<and> k' = k) \<and>
    (rd_status d AND 1 \<noteq> 0 \<longrightarrow> r = int n \<and>
       (\<forall>i<n. k_mem (km (kst k')) (buffer + of_nat i) = k_mem (km (kst k)) (ucast (rd_addr d) + of_nat i)) \<and>
       global_dev (nic k') = Some (dev\<lparr>rx_ring := (rx_ring dev)(unat (rx_next (nic k)) := d\<lparr>rd_status := 0\<rparr>)\<rparr>) \<and>
       mmio_out (nic k') = mmio_out (nic k) @ [(mmio_base dev + 0x2818, rx_next (nic k))] \<and>
       unat (rx_next (nic k')) = (unat (rx_next (nic k)) + 1) mod 16)"
proof (cases "rd_status d AND 1 = 0")
  case True
  then show ?thesis using assms(1-3) by (simp add: i8255x_receive_def)
next
  case False
  define q where "q = (if rd_length d > bufLen then bufLen else rd_length d)"
  have len: "unat q = n" using assms(4) by (simp add: q_def word_less_nat_alt min_def)
  have bytes: "\<forall>i<n. memcpy m buffer (ucast (rd_addr d)) (ucast q) (buffer + of_nat i) = m (ucast (rd_addr d) + of_nat i)" for m
    using memcpy_byte [OF assms(5)] unat_ucast16 len by metis
  let ?s = "km (kst k)" and ?rx = "rx_next (nic k)"
  let ?dev = "dev\<lparr>rx_ring := (rx_ring dev)(unat ?rx := d\<lparr>rd_status := 0\<rparr>)\<rparr>"
  define k' where "k' = on_nic (\<lambda>n. (write_reg ?dev 0x2818 ?rx (n\<lparr>global_dev := Some ?dev\<rparr>))\<lparr>rx_next := (?rx + 1) mod 16\<rparr>)
    (set_km (?s\<lparr>k_mem := memcpy (k_mem ?s) buffer (ucast (rd_addr d)) (ucast q)\<rparr>) k)"
  have "i8255x_receive buffer bufLen k = Inr (int (unat q), k')"
    using assms(1,2) False unfolding assms(3) by (simp add: i8255x_receive_def Let_def q_def k'_def assms(3))
  then show ?thesis
    using False bytes unat_next_slot [OF assms(2)] by (simp add: len k'_def)
qed

lemma net_frame_empty: "net_frame l mac b = (0, b)"
proof -
  have "eth_serialize f b 4 = (0, b)" if "unat (e_payload_len f) \<le> 1500" for f
  proof -
    have "unat (14 + e_payload_len f) = 14 + unat (e_payload_len f)" using that by (simp add: unat_word_ariths)
    then have "(4 :: u32) < 14 + (if e_payload_len f < 46 then 46 else e_payload_len f)"
      by (simp add: word_less_nat_alt)
    then show ?thesis by (cases "e_payload_len f < 46") (simp_all add: eth_serialize_def Let_def)
  qed
  moreover have "unat (e_payload_len (eth_set_payload pl n f)) \<le> 1500" for pl n f
    by (simp add: eth_set_payload_def Let_def word_less_nat_alt)
  ultimately show ?thesis unfolding net_frame_def Let_def by (simp split: prod.splits)
qed

text \<open>C30. Nothing of a frame reaches the wire: \<^verbatim>\<open>net_transmit\<close> passes the size of a pointer as the size of its
  buffer, \<^verbatim>\<open>eth_serialize\<close> finds it too small and returns 0, and a descriptor of length 0 is queued, whatever
  the caller asked to send; the call still reports success.\<close>

theorem net_transmit_sends_nothing:
  assumes "net_transmit l tail frm len k = Inr (0, k')"
  shows "\<exists>dev'. global_dev (nic k') = Some dev' \<and> td_length (tx_ring dev' (unat tail)) = 0"
proof -
  show ?thesis
    using assms unfolding net_transmit_def net_frame_empty Let_def prod.case
    by (auto simp: i8255x_transmit_def Let_def bindR_eq_Inr split: if_splits option.splits)
qed

definition sample_net :: kernel where
  "sample_net = sample_kernel\<lparr>nic := (nic sample_kernel)\<lparr>global_dev :=
     Some \<lparr>dev_addr = 0x200000, mmio_base = 0xfeb00000,
       rx_ring = (\<lambda>i. \<lparr>rd_addr = 0x300000, rd_length = 60, rd_csum = 0, rd_status = 1, rd_errors = 0, rd_special = 0\<rparr>),
       tx_ring = (\<lambda>i. \<lparr>td_addr = 0, td_length = 0, td_cso = 0, td_cmd = 0, td_status = 1, td_css = 0, td_special = 0\<rparr>)\<rparr>\<rparr>\<rparr>"

lemma sample_net_simps: "km (kst sample_net) = sample_kms" "rx_next (nic sample_net) = 0" "mmio_out (nic sample_net) = []"
  "global_dev (nic sample_net) = Some \<lparr>dev_addr = 0x200000, mmio_base = 0xfeb00000,
       rx_ring = (\<lambda>i. \<lparr>rd_addr = 0x300000, rd_length = 60, rd_csum = 0, rd_status = 1, rd_errors = 0, rd_special = 0\<rparr>),
       tx_ring = (\<lambda>i. \<lparr>td_addr = 0, td_length = 0, td_cso = 0, td_cmd = 0, td_status = 1, td_css = 0, td_special = 0\<rparr>)\<rparr>"
  by (simp_all add: sample_net_def sample_kernel_def sample_kstate_def)

lemma sample_net_alloc: "\<exists>s. km_page_alloc 1 sample_kms = Inr (0x100000, s) \<and> frep s [(0x101000, 3)] \<and> km_initialized s \<and>
    (\<forall>x. unat x \<notin> bytes [(0x100000, 4)] \<longrightarrow> k_mem s x = k_mem sample_kms x)"
  by (rule km_page_alloc_Some [OF sample_frep(1,2), of 1 "0x100000" "[(0x101000, 3)]"]) (simp_all add: P2B_def)

theorem i8255x_transmit_queues_witness:
  "\<exists>k' dev'. i8255x_transmit 15 0x400000 64 sample_net = Inr (0, k') \<and> global_dev (nic k') = Some dev' \<and>
     td_addr (tx_ring dev' 15) = 0x100000 \<and> mmio_out (nic k') = [(0xfeb03818, 0)]"
proof -
  obtain s where s: "km_page_alloc 1 (km (kst sample_net)) = Inr (0x100000, s)"
    using sample_net_alloc by (auto simp: sample_net_simps)
  have a: "apart (0x100000 :: addr) (unat (64 :: u16)) 0x400000 (unat (64 :: u16))" by (rule apart_nowrap) simp_all
  obtain k' dev' t where K: "i8255x_transmit 15 0x400000 64 sample_net = Inr (0, k')" "global_dev (nic k') = Some dev'"
    "td_addr (tx_ring dev' 15) = 0x100000" "mmio_out (nic k') = [(0xfeb03818, t)]" "unat t = 0"
    using i8255x_transmit_queues [OF sample_net_simps(4) _ _ s _ a, of 15] by (auto simp: sample_net_simps)
  moreover have "t = 0" using K(5) by (simp add: unat_eq_zero)
  ultimately show ?thesis by blast
qed

theorem i8255x_receive_takes_witness:
  "\<exists>k'. i8255x_receive 0x400000 40 sample_net = Inr (40, k') \<and> unat (rx_next (nic k')) = 1"
proof -
  have a: "apart (0x400000 :: addr) 40 0x300000 40" by (rule apart_nowrap) simp_all
  show ?thesis
    using i8255x_receive_takes [OF sample_net_simps(4), where n = 40 and bufLen = 40 and buffer = "0x400000", OF _ refl] a
    by (simp add: sample_net_simps) blast
qed

definition sample_locals :: net_locals where
  "sample_locals = \<lparr>l_udp = \<lparr>src_port = 0, dest_port = 0, u_length = 0, u_checksum = 0, u_payload = (\<lambda>_. 0), u_payload_len = 0\<rparr>,
     l_udp_buffer = (\<lambda>_. 0), l_ipv4 = sample_packet, l_ipv4_buffer = (\<lambda>_. 0), l_eth = sample_frame\<rparr>"

theorem net_transmit_sends_nothing_witness:
  "\<exists>k' dev'. net_transmit sample_locals 3 0x400000 100 sample_net = Inr (0, k') \<and> global_dev (nic k') = Some dev' \<and>
     td_length (tx_ring dev' 3) = 0"
proof -
  obtain s where s: "km_page_alloc 1 sample_kms = Inr (0x100000, s)" "frep s [(0x101000, 3)]" "km_initialized s"
    using sample_net_alloc by blast
  define m where "m = memcpy (k_mem s) 0x100000 0x400000 (ucast (100 :: u16))"
  have a: "apart (0x100000 :: addr) 100 0x400000 100" by (rule apart_nowrap) simp_all
  have m: "m = copied (k_mem s) 0x100000 0x400000 100"
    using memcpy_eq [of "0x100000" "ucast (100 :: u16)" "0x400000" "k_mem s"] a by (simp add: m_def)
  have "frep (s\<lparr>k_mem := m\<rparr>) [(0x101000, 3)]"
    by (rule frep_outside [OF s(2)]) (simp add: m copied_def inr_nowrap)
  then obtain s2 where s2: "km_page_alloc 1 (s\<lparr>k_mem := m\<rparr>) = Inr (0x101000, s2)"
    by (rule km_page_alloc_Some [of _ _ 1 "0x101000" "[(0x102000, 2)]"]) (use s(3) in \<open>simp_all add: P2B_def\<close>)
  have id: "(\<lambda>b. m (0x100000 + of_nat (unat (b - 0x100000)))) = m" by simp
  have "\<exists>k'. net_transmit sample_locals 3 0x400000 100 sample_net = Inr (0, k')"
    unfolding net_transmit_def sample_net_simps s(1) bindR_simps prod.case Let_def net_frame_empty m_def [symmetric] id
    by (simp add: i8255x_transmit_def sample_net_simps s2 Let_def)
  then obtain k' where k': "net_transmit sample_locals 3 0x400000 100 sample_net = Inr (0, k')" ..
  with net_transmit_sends_nothing [OF k'] show ?thesis by simp
qed

end
