(* ===== verification/Syscalls.thy ===== *)
theory Syscalls
  imports Clock User Dmx Net
begin

unbundle bit_operations_syntax

text \<open>
  The system calls, \<^verbatim>\<open>syscalls.c\<close>: one handler per call, the jump table and the interrupt handler that
  selects from it. A handler is given the index of the calling process; its arguments lie on the
  caller's stack and its result goes to the saved \<^verbatim>\<open>eax\<close>. What a handler reads from a device or
  from uninitialized locals is in a record of inputs, as is the address of the assembly routine
  \<^verbatim>\<open>fake_exit\<close>.
\<close>

section \<open>Registers and results\<close>

record env =
  e_kbd :: "u8 list"          \<comment> \<open>scan codes the keyboard delivers while the console waits\<close>
  e_tdt :: u32                \<comment> \<open>what the network device returns for its transmit tail\<close>
  e_stack :: "nat \<Rightarrow> u8"      \<comment> \<open>what the array of bits in \<^verbatim>\<open>dmx_write\<close> holds before\<close>
  e_locals :: net_locals
  e_fake_exit :: addr

definition REG :: "u32 \<Rightarrow> nat \<Rightarrow> kstate \<Rightarrow> u32" where
  "REG off p s = load32 (k_mem (km s)) (p_context (ptable (kp s) p) + off)"

definition set_REG :: "u32 \<Rightarrow> nat \<Rightarrow> u32 \<Rightarrow> kstate \<Rightarrow> kstate" where
  "set_REG off p v s = mem_upd (\<lambda>m. store32 m (p_context (ptable (kp s) p) + off) v) s"

abbreviation r_ebp :: u32 where "r_ebp \<equiv> 28"
abbreviation r_esp :: u32 where "r_esp \<equiv> 32"
abbreviation r_eax :: u32 where "r_eax \<equiv> 48"

definition ret :: "nat \<Rightarrow> int \<Rightarrow> kstate \<Rightarrow> kstate" where
  "ret p v s = set_RET p (word_of_int v) s"

text \<open>\<^verbatim>\<open>current = NULL; dispatch();\<close>\<close>

definition redispatch :: "kstate \<Rightarrow> kstate res" where
  "redispatch s = bindR (dispatch ((kp s)\<lparr>current := None\<rparr>)) (\<lambda>ps. Inr (s\<lparr>kp := ps\<rparr>))"

definition set_pcb :: "nat \<Rightarrow> (pcb \<Rightarrow> pcb) \<Rightarrow> kstate \<Rightarrow> kstate" where
  "set_pcb p f s = kp_upd (upd_pcb p f) s"

definition on_kst :: "(kstate \<Rightarrow> kstate res) \<Rightarrow> kernel \<Rightarrow> kernel res" where
  "on_kst f k = bindR (f (kst k)) (\<lambda>s. Inr (k\<lparr>kst := s\<rparr>))"

section \<open>Process control\<close>

definition sys_exit :: "nat \<Rightarrow> kstate \<Rightarrow> kstate res" where
  "sys_exit p s =
     bindR (pcb_zombify (Some p) (set_pcb p (\<lambda>c. c\<lparr>p_exit_status := ARG s p 1\<rparr>) s)) redispatch"

text \<open>What \<^verbatim>\<open>waitpid\<close> finds: an error, a child to collect, or a child to wait for.\<close>

datatype wait_result = WaitError status | Collect nat | Block

definition wait_for :: "nat \<Rightarrow> u32 \<Rightarrow> procs \<Rightarrow> wait_result" where
  "wait_for p target s =
     (if target = p_pid (ptable s p) then WaitError E_BAD_PARAM
      else if target \<noteq> 0 then
        (case pcb_find_pid target s of
           None \<Rightarrow> WaitError E_BAD_PARAM
         | Some c \<Rightarrow>
             if p_parent (ptable s c) \<noteq> Some p then WaitError E_BAD_PARAM
             else if p_state (ptable s c) \<noteq> STATE_ZOMBIE then Block
             else Collect c)
      else if find (\<lambda>c. p_parent (ptable s c) = Some p) [0..<N_PROCS] = None then WaitError E_NO_CHILDREN
      else
        (case find (\<lambda>c. p_parent (ptable s c) = Some p \<and> p_state (ptable s c) = STATE_ZOMBIE) [0..<N_PROCS] of
           None \<Rightarrow> Block
         | Some c \<Rightarrow> Collect c))"

definition sys_waitpid :: "nat \<Rightarrow> kstate \<Rightarrow> kstate res" where
  "sys_waitpid p s =
     (case wait_for p (ARG s p 1) (kp s) of
        WaitError e \<Rightarrow> Inr (ret p e s)
      | Block \<Rightarrow>
          bindR (assert_ok (Assert ''pcb_queue_insert(waiting,pcb) == SUCCESS'') (pcb_queue_insert Q_waiting (Some p))
                   (set_pcb p (\<lambda>c. c\<lparr>p_state := STATE_WAITING\<rparr>) s))
            redispatch
      | Collect c \<Rightarrow> pcb_cleanup (Some c) (report_child p c s))"

text \<open>The loop that moves the saved frame pointers of the child to its own stack.\<close>

partial_function (option) fork_chain :: "u32 \<Rightarrow> addr \<Rightarrow> mem \<Rightarrow> mem option" where
  "fork_chain offset bp m =
     (if bp = 0 then Some m
      else
        let m' = store32 m bp (load32 m bp + offset)
        in fork_chain offset (load32 m' bp) m')"

definition set_nonzero_REG :: "u32 \<Rightarrow> nat \<Rightarrow> u32 \<Rightarrow> kstate \<Rightarrow> kstate" where
  "set_nonzero_REG r p offset s = (if REG r p s \<noteq> 0 then set_REG r p (REG r p s + offset) s else s)"

definition fork_child :: "nat \<Rightarrow> nat \<Rightarrow> kstate \<Rightarrow> kstate res" where
  "fork_child p new s =
     (let par = ptable (kp s) p;
          offset = p_stack (ptable (kp s) new) - p_stack par;
          s1 = mem_upd (\<lambda>m. memcpy m (p_stack (ptable (kp s) new)) (p_stack par) (N_USTKPAGES * of_nat SZ_PAGE))
                 (set_pcb new (\<lambda>c. c\<lparr>p_stkpgs := N_USTKPAGES\<rparr>) s);
          s2 = set_pcb new (\<lambda>c. c\<lparr>p_context := p_context par + offset\<rparr>) s1;
          s3 = set_nonzero_REG r_esp new offset (set_nonzero_REG r_ebp new offset s2)
      in (case fork_chain offset (REG r_ebp new s3) (k_mem (km s3)) of
            None \<Rightarrow> Inl Hang
          | Some m \<Rightarrow>
              let s4 = kp_upd (\<lambda>ps. ps\<lparr>next_pid := next_pid ps + 1\<rparr>)
                         (set_pcb new (\<lambda>c. c\<lparr>p_pid := next_pid (kp s), p_parent := Some p, p_state := STATE_NEW,
                                            p_priority := p_priority par\<rparr>) (mem_upd (\<lambda>_. m) s3));
                  s5 = set_RET new 0 (set_RET p (next_pid (kp s)) s4)
              in schedule (Some new) s5))"

definition sys_fork :: "nat \<Rightarrow> kstate \<Rightarrow> kstate res" where
  "sys_fork p s =
     bindR (pcb_alloc (kp s)) (\<lambda>(st, new, ps).
       let s1 = s\<lparr>kp := ps\<rparr>
       in case new of
            None \<Rightarrow> Inr (ret p E_NO_PROCS s1)
          | Some c \<Rightarrow>
              if st \<noteq> SUCCESS then Inr (ret p E_NO_PROCS s1)
              else
                bindR (pcb_stack_alloc N_USTKPAGES (km s1)) (\<lambda>(stk, ms).
                  let s2 = set_pcb c (\<lambda>x. x\<lparr>p_stack := stk\<rparr>) (s1\<lparr>km := ms\<rparr>)
                  in if stk = 0
                     then bindR (pcb_free (Some c) (kp s2)) (\<lambda>ps'. Inr (ret p E_NO_PROCS (s2\<lparr>kp := ps'\<rparr>)))
                     else fork_child p c s2))"

definition sys_exec :: "addr \<Rightarrow> nat \<Rightarrow> kstate \<Rightarrow> kstate res" where
  "sys_exec fake_exit p s =
     (let what = ARG s p 1; args = ARG s p 2;
          oldstack = p_stack (ptable (kp s) p); oldsize = p_stkpgs (ptable (kp s) p)
      in bindR (pcb_stack_alloc N_USTKPAGES (km s)) (\<lambda>(stk, ms).
           if stk = 0 then Inl (Assert ''pcb->stack != NULL'')
           else
             let s1 = set_pcb p (\<lambda>c. c\<lparr>p_stack := stk, p_stkpgs := N_USTKPAGES\<rparr>) (s\<lparr>km := ms\<rparr>)
             in bindR (stack_setup fake_exit p what args s1) (\<lambda>(ctx, s2).
                  if ctx = 0 then Inl (Assert ''pcb->context != NULL'')
                  else
                    let s3 = set_pcb p (\<lambda>c. c\<lparr>p_context := ctx\<rparr>) s2
                    in bindR (pcb_stack_free oldstack oldsize (km s3)) (\<lambda>ms'.
                         bindR (schedule (Some p) (s3\<lparr>km := ms'\<rparr>)) redispatch))))"

section \<open>Input and output\<close>

abbreviation CHAN_CIO :: u32 where "CHAN_CIO \<equiv> 0"
abbreviation CHAN_SIO :: u32 where "CHAN_SIO \<equiv> 1"

definition sys_read :: "u8 list \<Rightarrow> nat \<Rightarrow> kernel \<Rightarrow> kernel res" where
  "sys_read kbd p k =
     (let s = kst k; chan = ARG s p 1; buf = ARG s p 2; len = ARG s p 3
      in if len = 0 then Inr (k\<lparr>kst := ret p 0 s\<rparr>)
         else if chan = CHAN_CIO then
           (if cio_input_queue (cio k) > 1 then
              bindR (cio_gets kbd buf len (k_mem (km s)) (cio k, sio k)) (\<lambda>(n, m, _, (ci, d)).
                Inr (k\<lparr>kst := ret p n (mem_upd (\<lambda>_. m) s), cio := ci, sio := d\<rparr>))
            else Inr (k\<lparr>kst := ret p 0 s\<rparr>))
         else if chan \<noteq> CHAN_SIO then Inr (k\<lparr>kst := ret p E_BAD_PARAM s\<rparr>)
         else if sio_inq_length (sio k) < 1 then
           on_kst (\<lambda>s. bindR (assert_ok (Assert ''pcb_queue_insert(sioread,pcb) == SUCCESS'')
                                 (pcb_queue_insert Q_sioread (Some p))
                                 (set_pcb p (\<lambda>c. c\<lparr>p_state := STATE_BLOCKED\<rparr>) s)) redispatch) k
         else
           bindR (sio_read buf (sint len) (k_mem (km s)) (sio k)) (\<lambda>(n, m, d).
             Inr (k\<lparr>kst := ret p n (mem_upd (\<lambda>_. m) s), sio := d\<rparr>)))"

definition sys_write :: "nat \<Rightarrow> kernel \<Rightarrow> kernel res" where
  "sys_write p k =
     (let s = kst k; chan = ARG s p 1; buf = ARG s p 2; len = ARG s p 3; m = k_mem (km s)
      in if chan = CHAN_CIO then
           bindR (on_con (cio_write m buf (sint len)) k) (\<lambda>k'. Inr (k'\<lparr>kst := ret p (sint len) (kst k')\<rparr>))
         else if chan = CHAN_SIO then
           bindR (sio_write m buf (sint len) (sio k)) (\<lambda>(_, d). Inr (k\<lparr>sio := d, kst := ret p (sint len) s\<rparr>))
         else Inr (k\<lparr>kst := ret p E_BAD_CHAN s\<rparr>))"

section \<open>Process data\<close>

definition sys_getpid :: "nat \<Rightarrow> kstate \<Rightarrow> kstate res" where
  "sys_getpid p s = Inr (set_RET p (p_pid (ptable (kp s) p)) s)"

definition sys_getppid :: "nat \<Rightarrow> kstate \<Rightarrow> kstate res" where
  "sys_getppid p s =
     (case p_parent (ptable (kp s) p) of
        None \<Rightarrow> Inl (Assert ''pcb->parent != NULL'')
      | Some q \<Rightarrow> Inr (set_RET p (p_pid (ptable (kp s) q)) s))"

definition sys_gettime :: "nat \<Rightarrow> kernel \<Rightarrow> kernel res" where
  "sys_gettime p k = Inr (k\<lparr>kst := set_RET p (system_time k) (kst k)\<rparr>)"

definition sys_getprio :: "nat \<Rightarrow> kstate \<Rightarrow> kstate res" where
  "sys_getprio p s = Inr (set_RET p (p_priority (ptable (kp s) p)) s)"

definition sys_setprio :: "nat \<Rightarrow> kstate \<Rightarrow> kstate res" where
  "sys_setprio p s =
     (let old = p_priority (ptable (kp s) p)
      in Inr (set_RET p old (set_pcb p (\<lambda>c. c\<lparr>p_priority := ARG s p 1\<rparr>) s)))"

definition sys_kill :: "nat \<Rightarrow> kstate \<Rightarrow> kstate res" where
  "sys_kill p s =
     (let pid = ARG s p 1; killed = (\<lambda>q. set_pcb q (\<lambda>c. c\<lparr>p_exit_status := word_of_int EXIT_KILLED\<rparr>))
      in if pid = p_pid (ptable (kp s) p) then bindR (pcb_zombify (Some p) (killed p s)) redispatch
         else if pid < FIRST_USER_PID then Inr (ret p E_FAILURE s)
         else
           (case pcb_find_pid pid (kp s) of
              None \<Rightarrow> Inr (ret p E_NOT_FOUND s)
            | Some v \<Rightarrow>
                let st = p_state (ptable (kp s) v)
                in if st < STATE_READY then Inl (Assert ''victim->state >= FIRST_VIABLE && victim->state < N_STATES'')
                   else if st = STATE_KILLED \<or> st = STATE_ZOMBIE then Inr (ret p SUCCESS s)
                   else if st = STATE_READY \<or> st = STATE_SLEEPING \<or> st = STATE_BLOCKED then
                     Inr (ret p SUCCESS (set_pcb v (\<lambda>c. c\<lparr>p_state := STATE_KILLED\<rparr>) s))
                   else if st = STATE_RUNNING then bindR (pcb_zombify (Some p) (killed p s)) redispatch
                   else
                     bindR (onP (pcb_queue_remove_this Q_waiting (Some v)) (killed v s)) (\<lambda>(status, s1).
                       bindR (pcb_zombify (Some v) s1) (\<lambda>s2. Inr (ret p status s2)))))"

text \<open>The text that \<^verbatim>\<open>WARNING\<close> prints in \<^verbatim>\<open>sys_sleep\<close>.\<close>

definition sleep_warning :: "u8 list" where
  "sleep_warning = map of_char ([CHR 0x0A] @ ''** sys_sleep (syscalls.c @ 802): sleep pcb insert failed'' @ [CHR 0x0A])"

definition sys_sleep :: "nat \<Rightarrow> kernel \<Rightarrow> kernel res" where
  "sys_sleep p k =
     (let s = kst k; len = ARG s p 1;
          leave = (\<lambda>s. if current (kp s) = Some p then redispatch s else Inr s)
      in if len = 0 then on_kst (\<lambda>s. bindR (schedule (Some p) (set_RET p 0 s)) leave) k
         else
           bindR (onP (pcb_queue_insert Q_sleeping (Some p)) (set_pcb p (\<lambda>c. c\<lparr>p_wakeup := system_time k + len\<rparr>) s))
             (\<lambda>(st, s1).
                if st \<noteq> SUCCESS then
                  bindR (on_con (cio_puts sleep_warning) (k\<lparr>kst := s1\<rparr>)) (\<lambda>k1.
                    Inr (if current (kp (kst k1)) = Some p then k1\<lparr>kst := ret p (- 1) (kst k1)\<rparr> else k1))
                else on_kst leave (k\<lparr>kst := s1\<rparr>)))"

section \<open>Devices\<close>

definition sys_dmxwrite :: "(nat \<Rightarrow> u8) \<Rightarrow> nat \<Rightarrow> kernel \<Rightarrow> kernel res" where
  "sys_dmxwrite junk p k =
     (let s = kst k
      in Inr (k\<lparr>port_out := port_out k @ dmx_write junk (ARG s p 1) (ARG s p 2) (k_mem (km s))\<rparr>))"

definition sys_eth_tx :: "net_locals \<Rightarrow> u32 \<Rightarrow> nat \<Rightarrow> kernel \<Rightarrow> kernel res" where
  "sys_eth_tx l tail p k =
     (let s = kst k; frm = ARG s p 1; len = (ucast (ARG s p 2) :: u16)
      in if len > 1518 then Inr (k\<lparr>kst := ret p E_BAD_PARAM s\<rparr>)
         else bindR (net_transmit l tail frm len k) (\<lambda>(r, k'). Inr (k'\<lparr>kst := ret p r (kst k')\<rparr>)))"

definition sys_eth_rx :: "nat \<Rightarrow> kernel \<Rightarrow> kernel res" where
  "sys_eth_rx p k =
     (let s = kst k; buffer = ARG s p 1; bufsize = (ucast (ARG s p 2) :: u16)
      in if bufsize < 64 then Inr (k\<lparr>kst := ret p E_BAD_PARAM s\<rparr>)
         else bindR (net_receive buffer bufsize k) (\<lambda>(r, k'). Inr (k'\<lparr>kst := ret p r (kst k')\<rparr>)))"

section \<open>The jump table and the interrupt\<close>

abbreviation N_SYSCALLS :: nat where "N_SYSCALLS \<equiv> 16"

definition syscalls :: "env \<Rightarrow> (nat \<Rightarrow> kernel \<Rightarrow> kernel res) list" where
  "syscalls e =
     [\<lambda>p. on_kst (sys_exit p), \<lambda>p. on_kst (sys_waitpid p), \<lambda>p. on_kst (sys_fork p),
      \<lambda>p. on_kst (sys_exec (e_fake_exit e) p), sys_read (e_kbd e), sys_write, \<lambda>p. on_kst (sys_getpid p),
      \<lambda>p. on_kst (sys_getppid p), sys_gettime, \<lambda>p. on_kst (sys_getprio p), \<lambda>p. on_kst (sys_setprio p),
      \<lambda>p. on_kst (sys_kill p), sys_sleep, sys_dmxwrite (e_stack e), sys_eth_tx (e_locals e) (e_tdt e), sys_eth_rx]"

definition set_ARG :: "nat \<Rightarrow> u32 \<Rightarrow> u32 \<Rightarrow> kstate \<Rightarrow> kstate" where
  "set_ARG p n v s = mem_upd (\<lambda>m. store32 m (p_context (ptable (kp s) p) + SZ_CONTEXT + 4 * n) v) s"

definition sys_isr :: "env \<Rightarrow> kernel \<Rightarrow> kernel res" where
  "sys_isr e k =
     (case current (kp (kst k)) of
        None \<Rightarrow> Inl (Assert ''current != NULL'')
      | Some p \<Rightarrow>
          if p_context (ptable (kp (kst k)) p) = 0 then Inl (Assert ''current->context != NULL'')
          else
            let num = sint (REG r_eax p (kst k));
                (num', k1) = (if num < 0 \<or> num \<ge> int N_SYSCALLS
                              then (0, k\<lparr>kst := set_ARG p 1 (word_of_int EXIT_BAD_SYSCALL) (kst k)\<rparr>)
                              else (nat num, k))
            in bindR ((syscalls e ! num') p k1) (\<lambda>k2. Inr (pic_eoi k2)))"

section \<open>Small facts\<close>

lemma set_pcb_simps [simp]: "km (set_pcb p f s) = km s" "kp (set_pcb p f s) = upd_pcb p f (kp s)"
  by (simp_all add: set_pcb_def kp_upd_def)

lemma kp_ret [simp]: "kp (ret p v s) = kp s" "kp (set_REG r p w s) = kp s" "kp (set_ARG p n w s) = kp s"
  "kp (set_nonzero_REG r p w s) = kp s"
  by (simp_all add: ret_def set_REG_def set_ARG_def set_nonzero_REG_def)

lemma get_RET_set [simp]: "get_RET (set_RET p v s) p = v"
  by (simp add: get_RET_def set_RET_def mem_upd_def)

lemma ARG_own_RET [simp]: "n \<le> 3 \<Longrightarrow> ARG (set_RET p v s) p n = ARG s p n"
proof -
  assume "n \<le> 3"
  then have "n = 0 \<or> n = 1 \<or> n = 2 \<or> n = 3" by (rule u32_le_3_cases)
  then have "apart (p_context (ptable (kp s) p) + 48) 4 (p_context (ptable (kp s) p) + SZ_CONTEXT + 4 * n) 4"
    by (auto simp: apart_def)
  then show ?thesis by (simp add: ARG_def set_RET_def mem_upd_def load32_store32_apart)
qed

lemma pcb_find_pid_unique:
  assumes "v < N_PROCS" "1 \<le> pid" "p_pid (ptable s v) = pid" "p_state (ptable s v) \<noteq> STATE_UNUSED"
    and "\<And>x. x < N_PROCS \<Longrightarrow> p_pid (ptable s x) = pid \<Longrightarrow> p_state (ptable s x) \<noteq> STATE_UNUSED \<Longrightarrow> x = v"
  shows "pcb_find_pid pid s = Some v"
proof -
  let ?P = "\<lambda>p. p_pid (ptable s p) = pid \<and> p_state (ptable s p) \<noteq> STATE_UNUSED"
  obtain x where x: "find ?P [0..<N_PROCS] = Some x"
    using assms(1,3,4) by (cases "find ?P [0..<N_PROCS]") (auto simp: find_None_iff simp del: upt_rec_numeral)
  then have "?P x" "x < N_PROCS"
    unfolding find_Some_iff by (auto simp del: upt_rec_numeral)
  with assms(5) have "x = v" by blast
  moreover have "\<not> pid < 1" using assms(2) by (simp only: not_less)
  ultimately show ?thesis using x unfolding pcb_find_pid_def by (simp only: if_False)
qed

lemma current_upd [simp]: "current (upd_pcb p f s) = current s" "init_pcb (upd_pcb p f s) = init_pcb s"
  by (simp_all add: upd_pcb_def)

lemma redispatch_qreps:
  assumes "qreps (kp s) L" "L Q_ready = p # ps"
  obtains s' where "redispatch s = Inr s'" "km s' = km s" "qreps (kp s') (L(Q_ready := ps))" "current (kp s') = Some p"
    "\<forall>x. same_pcb (ptable (kp s') x)
      (if x = p then (ptable (kp s) x)\<lparr>p_state := STATE_RUNNING, p_ticks := QUANTUM_STANDARD\<rparr> else ptable (kp s) x)"
proof -
  have "qreps ((kp s)\<lparr>current := None\<rparr>) L" "current ((kp s)\<lparr>current := None\<rparr>) = None" using assms(1) by simp_all
  from dispatch_qreps [OF this(1) assms(2) this(2)] obtain ps' where
    "dispatch ((kp s)\<lparr>current := None\<rparr>) = Inr ps'" "qreps ps' (L(Q_ready := ps))" "current ps' = Some p"
    "\<forall>x. same_pcb (ptable ps' x) (if x = p then (ptable ((kp s)\<lparr>current := None\<rparr>) x)\<lparr>p_state := STATE_RUNNING, p_ticks := QUANTUM_STANDARD\<rparr>
       else ptable ((kp s)\<lparr>current := None\<rparr>) x)" .
  moreover have "ptable ((kp s)\<lparr>current := None\<rparr>) = ptable (kp s)" by simp
  ultimately show ?thesis using that [of "s\<lparr>kp := ps'\<rparr>"] by (simp only: redispatch_def) simp
qed

lemma wait_for_Collect:
  assumes "wait_for p target s = Collect c"
  shows "c < N_PROCS" "p_parent (ptable s c) = Some p" "p_state (ptable s c) = STATE_ZOMBIE" "target \<noteq> p_pid (ptable s p)"
  using assms unfolding wait_for_def pcb_find_pid_def
  by (auto split: if_splits option.splits simp: find_Some_iff simp del: upt_rec_numeral)

text \<open>A sample state for the witnesses: PCB 3 runs with first argument \<open>a\<close>; PCB 5, whose first argument is 7, and
  \<^verbatim>\<open>init\<close> are ready; PCB 4 is a zombie whose parent is \<open>b\<close>; PCB 6 is free.\<close>

definition sample_call :: "u32 \<Rightarrow> nat \<Rightarrow> kstate" where
  "sample_call a b =
    \<lparr>kp = \<lparr>ptable = (\<lambda>_. sample_pcb)(
         2 := sample_pcb\<lparr>p_state := STATE_READY, p_pid := 1, p_priority := 2\<rparr>,
         3 := sample_pcb\<lparr>p_state := STATE_RUNNING, p_pid := 7, p_parent := Some 2, p_priority := 1,
                p_stack := 0x300000, p_stkpgs := 2, p_context := 0x301f00, p_ticks := 2\<rparr>,
         4 := sample_pcb\<lparr>p_state := STATE_ZOMBIE, p_pid := 8, p_parent := Some b, p_stack := 0x400000, p_stkpgs := 2\<rparr>,
         5 := sample_pcb\<lparr>p_state := STATE_READY, p_pid := 5, p_parent := Some 2, p_priority := 1,
                p_context := 0x501f00, p_next := Some 2\<rparr>),
       queues = (\<lambda>q. \<lparr>q_head = None, q_tail = None, q_length = 0, q_order = init_order q\<rparr>)
         (Q_zombie := \<lparr>q_head = Some 4, q_tail = Some 4, q_length = 1, q_order = O_PID\<rparr>,
          Q_ready := \<lparr>q_head = Some 5, q_tail = Some 2, q_length = 2, q_order = O_PRIO\<rparr>,
          Q_freelist := \<lparr>q_head = Some 6, q_tail = Some 6, q_length = 1, q_order = O_FIFO\<rparr>),
       current = Some 3, next_pid = 9, init_pcb = Some 2\<rparr>,
     km = sample_kms\<lparr>k_mem := store32 (store32 (k_mem sample_kms) 0x301f4c a) 0x501f4c 7\<rparr>\<rparr>"

definition call_lists :: "qid \<Rightarrow> nat list" where
  "call_lists = (\<lambda>_. [])(Q_zombie := [4], Q_ready := [5, 2], Q_freelist := [6])"

lemma call_lists_simps [simp]: "call_lists Q_zombie = [4]" "call_lists Q_ready = [5, 2]" "call_lists Q_freelist = [6]"
  "call_lists Q_sleeping = []" "3 \<notin> set (call_lists q)"
  by (simp_all add: call_lists_def)

lemma call_qreps: "qreps (kp (sample_call a b)) call_lists"
  by (auto simp: qreps_def qrep_def sample_call_def links_def sample_pcb_def last_opt_def call_lists_def)

lemma call_simps:
  "p_state (ptable (kp (sample_call a b)) 2) = STATE_READY" "p_state (ptable (kp (sample_call a b)) 3) = STATE_RUNNING"
  "p_state (ptable (kp (sample_call a b)) 5) = STATE_READY" "p_pid (ptable (kp (sample_call a b)) 3) = 7"
  "p_pid (ptable (kp (sample_call a b)) 4) = 8" "p_parent (ptable (kp (sample_call a b)) 3) = Some 2"
  "p_context (ptable (kp (sample_call a b)) 3) = 0x301f00" "p_context (ptable (kp (sample_call a b)) 5) = 0x501f00"
  "p_stack (ptable (kp (sample_call a b)) 3) = 0x300000" "p_stack (ptable (kp (sample_call a b)) 4) = 0x400000"
  "p_stkpgs (ptable (kp (sample_call a b)) 4) = 2" "current (kp (sample_call a b)) = Some 3" "next_pid (kp (sample_call a b)) = 9" "p_ticks (ptable (kp (sample_call a b)) 3) = 2"
  "p_priority (ptable (kp (sample_call a b)) 3) = 1" "p_priority (ptable (kp (sample_call a b)) 5) = 1"
  "p_priority (ptable (kp (sample_call a b)) 2) = 2"
  by (simp_all add: sample_call_def sample_pcb_def)

lemma call_ARG: "ARG (sample_call a b) 3 1 = a" "ARG (sample_call a b) 3 2 = 0" "ARG (sample_call a b) 5 1 = 7"
  "REG r_eax 3 (sample_call a b) = 0" "REG r_ebp 3 (sample_call a b) = 0"
  by (simp_all add: ARG_def REG_def call_simps)
     (simp_all add: sample_call_def sample_kms_def load32_store32_apart apart_def, simp_all add: load32_def)

lemma call_pool: "pool (km (sample_call a b)) {0x100000 ..< 0x104000}"
proof -
  have "pool (sample_kms\<lparr>k_mem := store32 (store32 (k_mem sample_kms) 0x301f4c a) 0x501f4c 7\<rparr>) {0x100000 ..< 0x104000}"
    using sample_pool by (rule pool_write) (auto simp: store32_other inr_def unat_sub_if' intro!: store32_other)
  then show ?thesis by (simp add: sample_call_def)
qed

lemma call_find: "pcb_find_pid 5 (kp (sample_call a b)) = Some 5"
  by (rule pcb_find_pid_unique) (auto simp: sample_call_def sample_pcb_def split: if_splits)

lemma call_waits: "wait_for 3 8 (kp (sample_call 8 3)) = Collect 4"
proof -
  have "pcb_find_pid 8 (kp (sample_call 8 3)) = Some 4"
    by (rule pcb_find_pid_unique) (auto simp: sample_call_def sample_pcb_def split: if_splits)
  then show ?thesis by (simp add: wait_for_def call_simps) (simp add: sample_call_def)
qed

section \<open>Properties\<close>

text \<open>\<^verbatim>\<open>setprio\<close> returns the old priority and a following \<^verbatim>\<open>getprio\<close> the one that was set.\<close>

theorem setprio_then_getprio:
  "\<exists>s1 s2. sys_setprio p s = Inr s1 \<and> get_RET s1 p = p_priority (ptable (kp s) p) \<and>
     sys_getprio p s1 = Inr s2 \<and> get_RET s2 p = ARG s p 1"
  by (simp add: sys_setprio_def sys_getprio_def)

text \<open>A killed process comes back: when the victim of \<^verbatim>\<open>kill\<close> is ready and first in its queue, it is only
  marked, and the next \<^verbatim>\<open>dispatch\<close> takes it from the ready queue and makes it the running process.\<close>

theorem killed_process_is_dispatched:
  assumes "qreps (kp s) L" "L Q_ready = v # r" "p_state (ptable (kp s) v) = STATE_READY"
    and "pcb_find_pid (ARG s p 1) (kp s) = Some v" "ARG s p 1 \<noteq> p_pid (ptable (kp s) p)" "FIRST_USER_PID \<le> ARG s p 1"
  shows "\<exists>s1 s2. sys_kill p s = Inr s1 \<and> get_RET s1 p = 0 \<and> p_state (ptable (kp s1) v) = STATE_KILLED \<and>
    redispatch s1 = Inr s2 \<and> current (kp s2) = Some v \<and> p_state (ptable (kp s2) v) = STATE_RUNNING"
proof -
  let ?s1 = "ret p SUCCESS (set_pcb v (\<lambda>c. c\<lparr>p_state := STATE_KILLED\<rparr>) s)"
  have "\<not> STATE_READY < STATE_READY" by simp
  then have kill: "sys_kill p s = Inr ?s1"
    using assms(3-6) by (simp add: sys_kill_def Let_def not_less)
  have "qreps (kp ?s1) L" using assms(1) by (auto intro: qreps_upd_pcb)
  from redispatch_qreps [OF this assms(2)] obtain s2 where "redispatch ?s1 = Inr s2" "current (kp s2) = Some v"
    "\<forall>x. same_pcb (ptable (kp s2) x)
      (if x = v then (ptable (kp ?s1) x)\<lparr>p_state := STATE_RUNNING, p_ticks := QUANTUM_STANDARD\<rparr> else ptable (kp ?s1) x)" .
  moreover have "get_RET ?s1 p = 0" by (simp add: ret_def)
  moreover have "p_state (ptable (kp s2) v) = STATE_RUNNING" using calculation(3) by (auto simp: same_pcb_iff)
  ultimately show ?thesis using kill by (intro exI [of _ ?s1] exI [of _ s2]) simp
qed

theorem killed_process_is_dispatched_witness:
  "\<exists>s1 s2. sys_kill 3 (sample_call 5 2) = Inr s1 \<and> p_state (ptable (kp s1) 5) = STATE_KILLED \<and>
     redispatch s1 = Inr s2 \<and> current (kp s2) = Some 5"
  using killed_process_is_dispatched [OF call_qreps [of 5 2], of 5 "[2]" 3] call_find [of 5 2]
  by (auto simp: call_simps call_ARG)

lemma sys_sleep_ok:
  assumes reps: "qreps (kp (kst k)) L" and p: "p < N_PROCS" "\<forall>x. p \<notin> set (L x)" "current (kp (kst k)) = Some p"
    and a: "ARG (kst k) p 1 \<noteq> 0" "L Q_ready = q # r"
  obtains s2 where "sys_sleep p k = Inr (k\<lparr>kst := s2\<rparr>)" "km s2 = km (kst k)" "current (kp s2) = Some q"
    "qreps (kp s2) (L(Q_sleeping := insert_after (\<lambda>x. if x = p then system_time k + ARG (kst k) p 1
       else p_wakeup (ptable (kp (kst k)) x)) p (L Q_sleeping), Q_ready := r))"
    "\<forall>x. p_pid (ptable (kp s2) x) = p_pid (ptable (kp (kst k)) x) \<and> p_context (ptable (kp s2) x) = p_context (ptable (kp (kst k)) x) \<and>
      (x \<noteq> q \<longrightarrow> p_state (ptable (kp s2) x) = p_state (ptable (kp (kst k)) x))"
proof -
  let ?s = "kst k"
  let ?w = "system_time k + ARG ?s p 1"
  define s0 where "s0 = set_pcb p (\<lambda>c. c\<lparr>p_wakeup := ?w\<rparr>) ?s"
  have reps0: "qreps (kp s0) L" using reps by (auto simp: s0_def intro: qreps_upd_pcb)
  obtain ps where I: "pcb_queue_insert Q_sleeping (Some p) (kp s0) = Inr (SUCCESS, ps)"
    "qreps ps (L(Q_sleeping := qins (kp s0) Q_sleeping p (L Q_sleeping)))" "frame Q_sleeping (insert p (set (L Q_sleeping))) (kp s0) ps"
    by (rule qreps_insert [OF reps0 p(1)]) (use p(2) in auto)
  have q: "qins (kp s0) Q_sleeping p (L Q_sleeping) =
      insert_after (\<lambda>x. if x = p then ?w else p_wakeup (ptable (kp ?s) x)) p (L Q_sleeping)"
    using qrepsD(2) [OF reps0, of Q_sleeping]
    by (auto simp: qins_def queue_key_def s0_def upd_pcb_def intro!: arg_cong [where f = "\<lambda>f. insert_after f p (L Q_sleeping)"])
  let ?s1 = "s0\<lparr>kp := ps\<rparr>"
  have "qreps (kp ?s1) (L(Q_sleeping := qins (kp s0) Q_sleeping p (L Q_sleeping)))" using I(2) by simp
  from redispatch_qreps [OF this, of q r] a(2) obtain s2 where R: "redispatch ?s1 = Inr s2" "km s2 = km ?s1"
    "qreps (kp s2) (L(Q_sleeping := qins (kp s0) Q_sleeping p (L Q_sleeping), Q_ready := r))" "current (kp s2) = Some q"
    "\<forall>x. same_pcb (ptable (kp s2) x)
      (if x = q then (ptable (kp ?s1) x)\<lparr>p_state := STATE_RUNNING, p_ticks := QUANTUM_STANDARD\<rparr> else ptable (kp ?s1) x)"
    by auto
  have same: "p_pid (ptable (kp s2) x) = p_pid (ptable (kp ?s) x) \<and> p_context (ptable (kp s2) x) = p_context (ptable (kp ?s) x) \<and>
      (x \<noteq> q \<longrightarrow> p_state (ptable (kp s2) x) = p_state (ptable (kp ?s) x))" for x
  proof -
    have "same_pcb (ptable ps x) (ptable (kp s0) x)" using I(3) by (simp add: frame_def same_pcb_def)
    then show ?thesis using R(5) [rule_format, of x] by (auto simp: same_pcb_iff s0_def upd_pcb_def split: if_splits)
  qed
  have "onP (pcb_queue_insert Q_sleeping (Some p)) s0 = Inr (SUCCESS, ?s1)" using I(1) by (simp add: onP_def)
  moreover have "current (kp ?s1) = Some p" using I(3) p(3) by (simp add: frame_def s0_def)
  ultimately have "sys_sleep p k = Inr (k\<lparr>kst := s2\<rparr>)"
    using a(1) R(1) unfolding sys_sleep_def Let_def s0_def [symmetric] by (simp add: on_kst_def)
  then show ?thesis using that R(2,4) R(3) [unfolded q] same by (simp add: s0_def)
qed

text \<open>A sleeping process looks as if it were running: \<^verbatim>\<open>sleep\<close> puts the caller into the sleep queue, ordered
  by its wakeup time, and dispatches the next process, but leaves the caller's state at Running. When any process
  then calls \<^verbatim>\<open>kill\<close> for the sleeper, it is the killer itself that is turned into a zombie.\<close>

theorem kill_of_sleeper_hits_caller:
  assumes "qreps (kp (kst k)) L" "p < N_PROCS" "\<forall>x. p \<notin> set (L x)" "current (kp (kst k)) = Some p"
    and "p_state (ptable (kp (kst k)) p) = STATE_RUNNING" "ARG (kst k) p 1 \<noteq> 0" "L Q_ready = q # r"
    and "FIRST_USER_PID \<le> p_pid (ptable (kp (kst k)) p)" "ARG (kst k) q 1 = p_pid (ptable (kp (kst k)) p)"
    and "\<forall>x<N_PROCS. x \<noteq> p \<longrightarrow> p_pid (ptable (kp (kst k)) x) \<noteq> p_pid (ptable (kp (kst k)) p)"
  shows "\<exists>k1. sys_sleep p k = Inr k1 \<and> current (kp (kst k1)) = Some q \<and>
    qreps (kp (kst k1)) (L(Q_sleeping := insert_after (\<lambda>x. if x = p then system_time k + ARG (kst k) p 1
       else p_wakeup (ptable (kp (kst k)) x)) p (L Q_sleeping), Q_ready := r)) \<and>
    p_state (ptable (kp (kst k1)) p) = STATE_RUNNING \<and>
    sys_kill q (kst k1) = bindR (pcb_zombify (Some q)
      (set_pcb q (\<lambda>c. c\<lparr>p_exit_status := word_of_int EXIT_KILLED\<rparr>) (kst k1))) redispatch"
proof -
  let ?s = "kst k"
  from sys_sleep_ok [OF assms(1-4,6,7)] obtain s2 where S: "sys_sleep p k = Inr (k\<lparr>kst := s2\<rparr>)" "km s2 = km ?s" "current (kp s2) = Some q"
    "qreps (kp s2) (L(Q_sleeping := insert_after (\<lambda>x. if x = p then system_time k + ARG ?s p 1
       else p_wakeup (ptable (kp ?s) x)) p (L Q_sleeping), Q_ready := r))"
    "\<forall>x. p_pid (ptable (kp s2) x) = p_pid (ptable (kp ?s) x) \<and> p_context (ptable (kp s2) x) = p_context (ptable (kp ?s) x) \<and>
      (x \<noteq> q \<longrightarrow> p_state (ptable (kp s2) x) = p_state (ptable (kp ?s) x))" .
  note same = S(5) [rule_format]
  have "q \<in> set (L Q_ready)" using assms(7) by simp
  then have qp: "q \<noteq> p" "q < N_PROCS" using assms(3) qreps_member [OF assms(1)] by blast+
  have arg: "ARG s2 q 1 = p_pid (ptable (kp ?s) p)" using assms(9) same [of q] S(2) by (simp add: ARG_def)
  have "pcb_find_pid (ARG s2 q 1) (kp s2) = Some p"
  proof (rule pcb_find_pid_unique)
    show "1 \<le> ARG s2 q 1" using assms(8) unfolding arg by (simp add: word_le_nat_alt)
    fix x assume "x < N_PROCS" "p_pid (ptable (kp s2) x) = ARG s2 q 1"
    then show "x = p" using assms(10) same [of x] arg by metis
  qed (use assms(2,5) same [of p] arg qp in auto)
  moreover have "ARG s2 q 1 \<noteq> p_pid (ptable (kp s2) q)" using assms(10) qp same [of q] arg by metis
  moreover have st: "p_state (ptable (kp s2) p) = STATE_RUNNING" using same [of p] assms(5) qp by simp
  moreover have "\<not> STATE_RUNNING < STATE_READY" by (simp add: less_state_e_def)
  ultimately have "sys_kill q s2 = bindR (pcb_zombify (Some q)
      (set_pcb q (\<lambda>c. c\<lparr>p_exit_status := word_of_int EXIT_KILLED\<rparr>) s2)) redispatch"
    using assms(8) arg by (auto simp: sys_kill_def Let_def dest: leD)
  with S st show ?thesis by (intro exI [of _ "k\<lparr>kst := s2\<rparr>"]) simp
qed

theorem kill_of_sleeper_hits_caller_witness:
  "\<exists>k1. sys_sleep 3 (sample_kernel\<lparr>kst := sample_call 5 2\<rparr>) = Inr k1 \<and> current (kp (kst k1)) = Some 5 \<and>
     sys_kill 5 (kst k1) = bindR (pcb_zombify (Some 5)
       (set_pcb 5 (\<lambda>c. c\<lparr>p_exit_status := word_of_int EXIT_KILLED\<rparr>) (kst k1))) redispatch"
proof -
  let ?k = "sample_kernel\<lparr>kst := sample_call 5 2\<rparr>"
  have reps: "qreps (kp (kst ?k)) call_lists" using call_qreps by simp
  have "\<forall>x<N_PROCS. x \<noteq> 3 \<longrightarrow> p_pid (ptable (kp (sample_call 5 2)) x) \<noteq> 7"
    by (auto simp: sample_call_def sample_pcb_def)
  then show ?thesis
    using kill_of_sleeper_hits_caller [OF reps, of 3 5 "[2]"] by (auto simp: call_simps call_ARG)
qed

lemma sys_waitpid_Collect:
  assumes reps: "qreps (kp s) L" "wait_for p (ARG s p 1) (kp s) = Collect c" "c \<in> set (L Q_zombie)"
    and mem: "pool (km s) B" "stack_ok B (p_stack (ptable (kp s) c)) (p_stkpgs (ptable (kp s) c))"
    and W: "W = B \<union> span (p_stack (ptable (kp s) c)) (stk_pages (p_stkpgs (ptable (kp s) c)))" "report_ok W s p"
  obtains s' where "sys_waitpid p s = Inr s'" "pool (km s') W"
    "\<forall>x. unat x \<notin> W \<longrightarrow> k_mem (km s') x = k_mem (km (report_child p c s)) x" "qrep (kp s') Q_freelist (L Q_freelist @ [c])"
    "\<forall>q. q \<noteq> Q_freelist \<longrightarrow> queues (kp s') q = queues (kp s) q" "current (kp s') = current (kp s)"
    "\<forall>x. same_pcb (ptable (kp s') x) (if x = c then (ptable (kp s) x)\<lparr>p_state := STATE_UNUSED\<rparr> else ptable (kp s) x)"
proof -
  let ?pc = "ptable (kp s) c"
  define s1 where "s1 = report_child p c s"
  have kp1: "kp s1 = kp s" by (simp add: s1_def)
  have BW: "B \<subseteq> W" by (simp add: W(1))
  have "word_outside B (p_context (ptable (kp s) p) + 48)" "ARG s p 2 = 0 \<or> word_outside B (ARG s p 2)"
    using W(2) word_outside_mono [OF _ BW] by (auto simp: report_ok_def)
  then have "pool (km s1) B" unfolding s1_def by (rule report_child_pool [OF mem(1)])
  from pcb_stack_free_pool [OF this mem(2)] obtain k' where
    K: "pcb_stack_free (p_stack ?pc) (p_stkpgs ?pc) (km s1) = Inr k'" "pool k' W" "\<forall>x. unat x \<notin> W \<longrightarrow> k_mem k' x = k_mem (km s1) x"
    unfolding W(1) by blast
  have "c \<notin> set (L Q_freelist)" using qreps_unique_queue [OF reps(1,3)] by blast
  moreover have "q_order (queues (kp s) Q_freelist) = O_FIFO" using qrepsD(2) [OF reps(1), of Q_freelist] by simp
  ultimately obtain ps where P: "pcb_free (Some c) (kp s) = Inr ps" "qrep ps Q_freelist (L Q_freelist @ [c])"
    "\<forall>q. q \<noteq> Q_freelist \<longrightarrow> queues ps q = queues (kp s) q" "current ps = current (kp s)"
    "\<forall>x. same_pcb (ptable ps x) (if x = c then (ptable (kp s) x)\<lparr>p_state := STATE_UNUSED\<rparr> else ptable (kp s) x)"
    using pcb_free_fifo [OF qrepsD(1) [OF reps(1)] _ wait_for_Collect(1) [OF reps(2)]] by metis
  have "sys_waitpid p s = Inr (s1\<lparr>km := k', kp := ps\<rparr>)"
    using reps(2) K(1) P(1) kp1 by (simp add: sys_waitpid_def s1_def [symmetric] pcb_cleanup_def user_cleanup_def)
  with K(2,3) P(2-5) show ?thesis using that by (simp add: s1_def)
qed

text \<open>C29. \<^verbatim>\<open>waitpid\<close> collects a zombie: the caller gets the child's PID as its result and, if it asked for it,
  the exit status; the child's stack goes back to the free memory and its PCB to the end of the free list. The
  zombie queue is not touched, although the child is still in it.\<close>

theorem waitpid_collects:
  assumes "qreps (kp s) L" "wait_for p (ARG s p 1) (kp s) = Collect c" "c \<in> set (L Q_zombie)"
    and "pool (km s) B" "stack_ok B (p_stack (ptable (kp s) c)) (p_stkpgs (ptable (kp s) c))"
    and "W = B \<union> span (p_stack (ptable (kp s) c)) (stk_pages (p_stkpgs (ptable (kp s) c)))" "report_ok W s p"
  shows "\<exists>s'. sys_waitpid p s = Inr s' \<and> get_RET s' p = p_pid (ptable (kp s) c) \<and>
    (ARG s p 2 \<noteq> 0 \<longrightarrow> load32 (k_mem (km s')) (ARG s p 2) = p_exit_status (ptable (kp s) c)) \<and> pool (km s') W \<and>
    p_state (ptable (kp s') c) = STATE_UNUSED \<and> qrep (kp s') Q_freelist (L Q_freelist @ [c]) \<and>
    queues (kp s') Q_zombie = queues (kp s) Q_zombie \<and> current (kp s') = current (kp s)"
proof -
  let ?pc = "ptable (kp s) c" and ?ctx = "p_context (ptable (kp s) p)"
  from sys_waitpid_Collect [OF assms] obtain s' where S: "sys_waitpid p s = Inr s'" "pool (km s') W"
    "\<forall>x. unat x \<notin> W \<longrightarrow> k_mem (km s') x = k_mem (km (report_child p c s)) x" "qrep (kp s') Q_freelist (L Q_freelist @ [c])"
    "\<forall>q. q \<noteq> Q_freelist \<longrightarrow> queues (kp s') q = queues (kp s) q" "current (kp s') = current (kp s)"
    "\<forall>x. same_pcb (ptable (kp s') x) (if x = c then (ptable (kp s) x)\<lparr>p_state := STATE_UNUSED\<rparr> else ptable (kp s) x)" .
  have "ARG (set_RET p (p_pid ?pc) s) p 2 = ARG s p 2" by simp
  then have m1: "load32 (k_mem (km (report_child p c s))) (?ctx + 48) = p_pid ?pc"
    "ARG s p 2 \<noteq> 0 \<longrightarrow> load32 (k_mem (km (report_child p c s))) (ARG s p 2) = p_exit_status ?pc"
    using assms(7) unfolding report_child_def Let_def report_ok_def
    by (auto simp: store_opt_def mem_upd_def set_RET_def load32_store32_apart)
  have "load32 (k_mem (km s')) a = load32 (k_mem (km (report_child p c s))) a" if "word_outside W a" for a
    using load32_outside [OF that S(3)] .
  moreover have "p_context (ptable (kp s') p) = ?ctx" using S(7) [rule_format, of p] by (auto simp: same_pcb_iff split: if_splits)
  ultimately have "get_RET s' p = p_pid ?pc" "ARG s p 2 \<noteq> 0 \<longrightarrow> load32 (k_mem (km s')) (ARG s p 2) = p_exit_status ?pc"
    using m1 assms(7) by (auto simp: get_RET_def report_ok_def)
  moreover have "p_state (ptable (kp s') c) = STATE_UNUSED" using S(7) [rule_format, of c] by (simp add: same_pcb_iff)
  ultimately show ?thesis using S by (intro exI [of _ s']) simp
qed

lemma call_memory: "stack_ok {0x100000 ..< 0x104000} 0x400000 2"
  "report_ok ({0x100000 ..< 0x104000} \<union> span 0x400000 (stk_pages 2)) (sample_call a b) 3"
  by (auto simp: stack_ok_def stk_pages_def span_def report_ok_def word_outside_def call_simps call_ARG)

theorem waitpid_collects_witness:
  "\<exists>s'. sys_waitpid 3 (sample_call 8 3) = Inr s' \<and> get_RET s' 3 = 8 \<and> p_state (ptable (kp s') 4) = STATE_UNUSED \<and>
     qrep (kp s') Q_freelist [6, 4] \<and> queues (kp s') Q_zombie = queues (kp (sample_call 8 3)) Q_zombie"
  using waitpid_collects [OF call_qreps [of 8 3], of 3 4, OF _ _ call_pool _ refl] call_waits call_memory
  by (auto simp: call_simps call_ARG)

text \<open>Having collected its last child, a process that waits again is not told that it has no children but
  blocks: the freed PCB still names it as its parent, and the search does not look at the state.\<close>

theorem waitpid_after_last_child_blocks:
  assumes "qreps (kp s) L" "wait_for p (ARG s p 1) (kp s) = Collect c" "c \<in> set (L Q_zombie)"
    and "pool (km s) B" "stack_ok B (p_stack (ptable (kp s) c)) (p_stkpgs (ptable (kp s) c))"
    and "W = B \<union> span (p_stack (ptable (kp s) c)) (stk_pages (p_stkpgs (ptable (kp s) c)))" "report_ok W s p"
    and "\<forall>x<N_PROCS. x \<noteq> c \<longrightarrow> p_parent (ptable (kp s) x) \<noteq> Some p" "p_pid (ptable (kp s) p) \<noteq> 0"
  shows "\<exists>s'. sys_waitpid p s = Inr s' \<and> wait_for p 0 (kp s') = Block"
proof -
  have c: "c < N_PROCS" "p_parent (ptable (kp s) c) = Some p" using wait_for_Collect [OF assms(2)] by auto
  from sys_waitpid_Collect [OF assms(1-7)] obtain s' where S: "sys_waitpid p s = Inr s'"
    "\<forall>x. same_pcb (ptable (kp s') x) (if x = c then (ptable (kp s) x)\<lparr>p_state := STATE_UNUSED\<rparr> else ptable (kp s) x)" .
  then have T: "p_parent (ptable (kp s') x) = p_parent (ptable (kp s) x)" "p_pid (ptable (kp s') x) = p_pid (ptable (kp s) x)"
    "p_state (ptable (kp s') c) = STATE_UNUSED" for x
    by (auto simp: same_pcb_iff split: if_splits)
  have "find (\<lambda>x. p_parent (ptable (kp s') x) = Some p) [0..<N_PROCS] \<noteq> None"
    using c T(1) by (auto simp: find_None_iff simp del: upt_rec_numeral)
  moreover have "find (\<lambda>x. p_parent (ptable (kp s') x) = Some p \<and> p_state (ptable (kp s') x) = STATE_ZOMBIE) [0..<N_PROCS] = None"
    using assms(8) T by (auto simp: find_None_iff simp del: upt_rec_numeral)
  ultimately show ?thesis using S(1) assms(9) T(2) by (simp add: wait_for_def del: upt_rec_numeral)
qed

theorem waitpid_after_last_child_blocks_witness:
  "\<exists>s'. sys_waitpid 3 (sample_call 8 3) = Inr s' \<and> wait_for 3 0 (kp s') = Block"
proof -
  have "\<forall>x<N_PROCS. x \<noteq> 4 \<longrightarrow> p_parent (ptable (kp (sample_call 8 3)) x) \<noteq> Some 3"
    by (auto simp: sample_call_def sample_pcb_def)
  then show ?thesis
    using waitpid_after_last_child_blocks [OF call_qreps [of 8 3], of 3 4, OF _ _ call_pool _ refl] call_waits call_memory
    by (auto simp: call_simps call_ARG)
qed

lemma zombie_orphans_upd:
  assumes "\<And>c. p_state (f c) = p_state c \<and> p_parent (f c) = p_parent c"
  shows "zombie_orphans v pa (upd_pcb x f s) = zombie_orphans v pa s"
proof -
  have "orphan v pa (upd_pcb x f s) c = orphan v pa s c \<and> p_state (ptable (upd_pcb x f s) c) = p_state (ptable s c)" for c
    using assms by (auto simp: orphan_def upd_pcb_def)
  then show ?thesis unfolding zombie_orphans_def by simp
qed

lemma sys_exit_unwatched:
  assumes reps: "qreps (kp s) L" "p < N_PROCS" "\<And>x. p \<notin> set (L x)" and pa: "p_parent (ptable (kp s) p) = Some pa"
    "p_state (ptable (kp s) pa) \<noteq> STATE_WAITING" "zombie_orphans p pa (kp s) = []" and ready: "L Q_ready = q # r"
  obtains s' where "sys_exit p s = Inr s'" "km s' = km s" "current (kp s') = Some q"
    "qreps (kp s') (L(Q_zombie := insert_after (\<lambda>x. p_pid (ptable (kp s) x)) p (L Q_zombie), Q_ready := r))"
    "p_state (ptable (kp s') p) = STATE_ZOMBIE" "p_exit_status (ptable (kp s') p) = ARG s p 1"
    "p_state (ptable (kp s') q) = STATE_RUNNING"
proof -
  define s1 where "s1 = set_pcb p (\<lambda>c. c\<lparr>p_exit_status := ARG s p 1\<rparr>) s"
  have reps1: "qreps (kp s1) L" using reps(1) by (auto simp: s1_def intro: qreps_upd_pcb)
  have "p_parent (ptable (kp s1) p) = Some pa" "\<not> wakes_parent pa (p_pid (ptable (kp s1) p)) s1"
    "zombie_orphans p pa (kp s1) = []"
    using pa zombie_orphans_upd [of "\<lambda>c. c\<lparr>p_exit_status := ARG s p 1\<rparr>" p pa p "kp s"]
    by (auto simp: s1_def wakes_parent_def)
  from pcb_zombify_unwatched [OF reps1 reps(2,3) this(1,2)] this(3) obtain s2 where
    Z: "pcb_zombify (Some p) s1 = Inr s2" "km s2 = km s1"
    "qreps (kp s2) (L(Q_zombie := qins (kp s1) Q_zombie p (L Q_zombie)))"
    "\<forall>x. same_pcb (ptable (kp s2) x) (zombified p pa (kp s1) x)" by metis
  have qz: "qins (kp s1) Q_zombie p (L Q_zombie) = insert_after (\<lambda>x. p_pid (ptable (kp s) x)) p (L Q_zombie)"
    using qrepsD(2) [OF reps1, of Q_zombie]
    by (auto simp: qins_def queue_key_def s1_def upd_pcb_def intro!: arg_cong [where f = "\<lambda>f. insert_after f p (L Q_zombie)"])
  from redispatch_qreps [OF Z(3), of q r] ready obtain s' where R: "redispatch s2 = Inr s'" "km s' = km s2"
    "qreps (kp s') (L(Q_zombie := qins (kp s1) Q_zombie p (L Q_zombie), Q_ready := r))" "current (kp s') = Some q"
    "\<forall>x. same_pcb (ptable (kp s') x)
      (if x = q then (ptable (kp s2) x)\<lparr>p_state := STATE_RUNNING, p_ticks := QUANTUM_STANDARD\<rparr> else ptable (kp s2) x)"
    by auto
  have "q \<in> set (L Q_ready)" using ready by simp
  then have "q \<noteq> p" using reps(3) by blast
  then have "p_state (ptable (kp s') p) = STATE_ZOMBIE" "p_exit_status (ptable (kp s') p) = ARG s p 1"
    using R(5) [rule_format, of p] Z(4) [rule_format, of p]
    by (auto simp: same_pcb_iff zombified_def Let_def s1_def)
  moreover have "p_state (ptable (kp s') q) = STATE_RUNNING" using R(5) [rule_format, of q] by (simp add: same_pcb_iff)
  moreover have "sys_exit p s = Inr s'" using Z(1) R(1) by (simp add: sys_exit_def s1_def)
  moreover have "km s' = km s" using R(2) Z(2) by (simp add: s1_def)
  ultimately show ?thesis using that R(3,4) unfolding qz by blast
qed

lemma ARG_set_ARG [simp]: "ARG (set_ARG p n v s) p n = v"
  by (simp add: ARG_def set_ARG_def mem_upd_def)

text \<open>C28. The \<^verbatim>\<open>exit\<close> call, and every call with a number outside the table: when no parent waits for it and it
  leaves no zombie behind, the caller becomes a zombie in the order of the PIDs, with the status it asked for,
  or \<^verbatim>\<open>EXIT_BAD_SYSCALL\<close> when the number was bad; the first ready process runs, and the interrupt controller is
  told.\<close>

theorem sys_isr_exit:
  assumes "qreps (kp (kst k)) L" "current (kp (kst k)) = Some p" "p_context (ptable (kp (kst k)) p) \<noteq> 0"
    and "num = sint (REG r_eax p (kst k))" "num \<le> 0 \<or> 16 \<le> num"
    and "p < N_PROCS" "\<forall>x. p \<notin> set (L x)" "p_parent (ptable (kp (kst k)) p) = Some pa"
    and "p_state (ptable (kp (kst k)) pa) \<noteq> STATE_WAITING" "zombie_orphans p pa (kp (kst k)) = []" "L Q_ready = q # r"
  shows "\<exists>k'. sys_isr e k = Inr k' \<and> current (kp (kst k')) = Some q \<and> p_state (ptable (kp (kst k')) q) = STATE_RUNNING \<and>
    qreps (kp (kst k')) (L(Q_zombie := insert_after (\<lambda>x. p_pid (ptable (kp (kst k)) x)) p (L Q_zombie), Q_ready := r)) \<and>
    p_state (ptable (kp (kst k')) p) = STATE_ZOMBIE \<and>
    p_exit_status (ptable (kp (kst k')) p) = (if num = 0 then ARG (kst k) p 1 else word_of_int EXIT_BAD_SYSCALL) \<and>
    port_out k' = port_out k @ [(PIC1_CMD, PIC_EOI)]"
proof -
  define k1 where "k1 = (if num = 0 then k else k\<lparr>kst := set_ARG p 1 (word_of_int EXIT_BAD_SYSCALL) (kst k)\<rparr>)"
  have kp1: "kp (kst k1) = kp (kst k)" by (simp add: k1_def)
  have "syscalls e ! 0 = (\<lambda>p. on_kst (sys_exit p))" by (simp add: syscalls_def)
  then have run: "sys_isr e k = bindR (on_kst (sys_exit p) k1) (\<lambda>k2. Inr (pic_eoi k2))"
    unfolding sys_isr_def Let_def using assms(2-5) by (auto simp: k1_def)
  have "\<And>x. p \<notin> set (L x)" using assms(7) by blast
  from sys_exit_unwatched [of "kst k1" L p pa q r, unfolded kp1, OF assms(1,6) this assms(8-11)] obtain s' where
    S: "sys_exit p (kst k1) = Inr s'" "current (kp s') = Some q"
    "qreps (kp s') (L(Q_zombie := insert_after (\<lambda>x. p_pid (ptable (kp (kst k)) x)) p (L Q_zombie), Q_ready := r))"
    "p_state (ptable (kp s') p) = STATE_ZOMBIE" "p_exit_status (ptable (kp s') p) = ARG (kst k1) p 1"
    "p_state (ptable (kp s') q) = STATE_RUNNING"
    by blast
  moreover have "ARG (kst k1) p 1 = (if num = 0 then ARG (kst k) p 1 else word_of_int EXIT_BAD_SYSCALL)"
    unfolding k1_def by (cases "num = 0") simp_all
  moreover have "sys_isr e k = Inr (pic_eoi (k1\<lparr>kst := s'\<rparr>))" using run S(1) by (simp add: on_kst_def)
  moreover have "port_out k1 = port_out k" by (simp add: k1_def)
  ultimately show ?thesis by (intro exI [of _ "pic_eoi (k1\<lparr>kst := s'\<rparr>)"]) (simp add: pic_eoi_def)
qed

theorem sys_isr_exit_witness:
  "\<forall>e. \<exists>k'. sys_isr e (sample_kernel\<lparr>kst := sample_call 42 2\<rparr>) = Inr k' \<and> current (kp (kst k')) = Some 5 \<and>
     p_state (ptable (kp (kst k')) 3) = STATE_ZOMBIE \<and> p_exit_status (ptable (kp (kst k')) 3) = 42 \<and>
     qreps (kp (kst k')) (call_lists(Q_zombie := [3, 4], Q_ready := [2]))"
proof
  fix e
  let ?k = "sample_kernel\<lparr>kst := sample_call 42 2\<rparr>"
  have reps: "qreps (kp (kst ?k)) call_lists" using call_qreps by simp
  have "zombie_orphans 3 2 (kp (sample_call 42 2)) = []"
    by (simp add: zombie_orphans_def orphan_def sample_call_def sample_pcb_def upt_rec)
  then show "\<exists>k'. sys_isr e ?k = Inr k' \<and> current (kp (kst k')) = Some 5 \<and>
     p_state (ptable (kp (kst k')) 3) = STATE_ZOMBIE \<and> p_exit_status (ptable (kp (kst k')) 3) = 42 \<and>
     qreps (kp (kst k')) (call_lists(Q_zombie := [3, 4], Q_ready := [2]))"
    using sys_isr_exit [OF reps, of 3 0 2 5 "[2]" e] by (auto simp: call_simps call_ARG insert_after_def)
qed

section \<open>Forking\<close>

text \<open>The saved frame pointers of the caller as \<^verbatim>\<open>fork\<close> finds them in the child's copy of the stack: each leads,
  once moved by the distance of the stacks, to the next one above it, and the outermost is NULL.\<close>

fun saved_frames :: "mem \<Rightarrow> u32 \<Rightarrow> addr list \<Rightarrow> bool" where
  "saved_frames m offset [] \<longleftrightarrow> False"
| "saved_frames m offset [b] \<longleftrightarrow> 0 < unat b \<and> unat b + 4 \<le> 2 ^ 32 \<and> load32 m b = 0"
| "saved_frames m offset (b # b' # bs) \<longleftrightarrow>
     0 < unat b \<and> unat b + 4 \<le> unat b' \<and> load32 m b + offset = b' \<and> saved_frames m offset (b' # bs)"

lemma saved_frames_Cons:
  "saved_frames m offset (b # b' # bs) \<Longrightarrow> saved_frames m offset (b' # bs) \<and> unat b + 4 \<le> unat b' \<and> load32 m b + offset = b' \<and> b \<noteq> 0"
  by auto

lemma saved_frames_above: "saved_frames m offset (b # bs) \<Longrightarrow> x \<in> set bs \<Longrightarrow> unat b + 4 \<le> unat x"
proof (induction bs arbitrary: b)
  case (Cons b' bs)
  note f = saved_frames_Cons [OF Cons.prems(1)]
  show ?case
  proof (cases "x = b'")
    case False
    then have "unat b' + 4 \<le> unat x" using Cons f by auto
    with f show ?thesis by linarith
  qed (use f in blast)
qed simp

lemma saved_frames_end: "saved_frames m offset (b # bs) \<Longrightarrow> x \<in> set (b # bs) \<Longrightarrow> unat x + 4 \<le> 2 ^ 32"
proof (induction bs arbitrary: b x)
  case (Cons b' bs)
  note f = saved_frames_Cons [OF Cons.prems(1)]
  show ?case
  proof (cases "x = b")
    case True
    have "unat b' + 4 \<le> 2 ^ 32" using Cons.IH [of b' b'] f by auto
    with f True show ?thesis by simp
  qed (use Cons f in auto)
qed simp

lemma saved_frames_cong:
  "(\<And>x. x \<in> set bs \<Longrightarrow> load32 m x = load32 m' x) \<Longrightarrow> saved_frames m offset bs = saved_frames m' offset bs"
  by (induction m offset bs rule: saved_frames.induct) auto

lemma fork_chain_frames:
  "saved_frames m offset (b # bs) \<Longrightarrow>
   \<exists>m'. fork_chain offset b m = fork_chain offset offset m' \<and> load32 m' (last (b # bs)) = offset \<and>
     (\<forall>x. (\<forall>c\<in>set (b # bs). \<not> inr c 4 x) \<longrightarrow> m' x = m x)"
proof (induction bs arbitrary: b m)
  case Nil
  then have "b \<noteq> 0" by auto
  then show ?case using Nil
    by (intro exI [of _ "store32 m b offset"]) (simp add: store32_other fork_chain.simps [of offset b])
next
  case (Cons b' bs)
  note f = saved_frames_Cons [OF Cons.prems]
  define m1 where "m1 = store32 m b b'"
  have "load32 m1 x = load32 m x" if "x \<in> set (b' # bs)" for x
  proof -
    have "unat b + 4 \<le> unat x" "unat x + 4 \<le> 2 ^ 32"
      using saved_frames_above [OF Cons.prems that] saved_frames_end [OF Cons.prems, of x] that by auto
    then show ?thesis unfolding m1_def by (intro load32_store32_apart apart_nowrap) simp_all
  qed
  then have "saved_frames m1 offset (b' # bs)" using f saved_frames_cong [of "b' # bs" m1 m] by auto
  from Cons.IH [OF this] obtain m' where M: "fork_chain offset b' m1 = fork_chain offset offset m'"
    "load32 m' (last (b' # bs)) = offset" "\<forall>x. (\<forall>c\<in>set (b' # bs). \<not> inr c 4 x) \<longrightarrow> m' x = m1 x" by blast
  have "fork_chain offset b m = fork_chain offset b' m1"
    using f by (subst fork_chain.simps) (simp add: m1_def Let_def)
  then show ?case using M by (intro exI [of _ m']) (auto simp: m1_def store32_other)
qed

text \<open>The loop of \<^verbatim>\<open>fork\<close> over the saved frame pointers runs past their end: it also adds the distance of
  the stacks to the NULL of the outermost frame, so it does not stop there but goes on with that distance taken as
  an address, and overwrites the word it finds.\<close>

theorem fork_chain_overruns:
  assumes "saved_frames m offset (b # bs)" "offset \<noteq> 0"
  shows "\<exists>m' v. fork_chain offset b m = fork_chain offset (v + offset) (store32 m' offset (v + offset)) \<and>
    v = load32 m' offset \<and> load32 m' (last (b # bs)) = offset \<and> (\<forall>x. (\<forall>c\<in>set (b # bs). \<not> inr c 4 x) \<longrightarrow> m' x = m x)"
proof -
  obtain m' where "fork_chain offset b m = fork_chain offset offset m'" "load32 m' (last (b # bs)) = offset"
    "\<forall>x. (\<forall>c\<in>set (b # bs). \<not> inr c 4 x) \<longrightarrow> m' x = m x"
    using fork_chain_frames [OF assms(1)] by blast
  moreover have "fork_chain offset offset m' =
      fork_chain offset (load32 m' offset + offset) (store32 m' offset (load32 m' offset + offset))"
    using assms(2) by (subst fork_chain.simps) (simp add: Let_def)
  ultimately show ?thesis by metis
qed

theorem fork_chain_overruns_witness:
  "\<exists>m'. fork_chain 0x2000 0x300100 (\<lambda>_. 0) = fork_chain 0x2000 0x2000 (store32 m' 0x2000 0x2000) \<and>
     load32 m' 0x300100 = 0x2000"
proof -
  have "saved_frames (\<lambda>_. 0) 0x2000 [0x300100]" by (simp add: load32_def)
  from fork_chain_overruns [OF this] obtain m' v where M:
    "fork_chain 0x2000 0x300100 (\<lambda>_. 0) = fork_chain 0x2000 (v + 0x2000) (store32 m' 0x2000 (v + 0x2000))"
    "v = load32 m' 0x2000" "load32 m' 0x300100 = 0x2000" "\<forall>x. \<not> inr 0x300100 4 x \<longrightarrow> m' x = 0" by auto
  have "load32 m' 0x2000 = load32 (\<lambda>_. 0) 0x2000"
    by (rule load32_cong) (use M(4) in \<open>auto simp: inr_nowrap\<close>)
  then have "v = 0" using M(2) by (simp add: load32_def)
  with M show ?thesis by auto
qed

lemma load32_copied:
  assumes "unat d + 4 \<le> n" "n \<le> 2 ^ 32"
  shows "load32 (copied m dst src n) (dst + d) = load32 m (src + d)"
proof -
  have "copied m dst src n (dst + d + j) = m (src + d + j)" if "unat j < 4" for j
  proof -
    have "unat (d + j) = unat d + unat j" using that assms by (simp add: unat_word_ariths)
    then have "inr dst n (dst + (d + j))" using that assms(1) by (simp add: inr_def)
    then show ?thesis by (simp add: copied_def add.assoc)
  qed
  from this [of 0] this [of 1] this [of 2] this [of 3] show ?thesis by (simp add: load32_def)
qed

lemma apart_spans:
  assumes "unat a + 2 * SZ_PAGE \<le> 2 ^ 32" "unat b + 2 * SZ_PAGE \<le> 2 ^ 32" "span a 2 \<inter> span b 2 = {}"
  shows "apart a (2 * SZ_PAGE) b (2 * SZ_PAGE)"
proof (cases "unat a \<le> unat b")
  case True
  have "unat b \<notin> span a 2" using assms(3) by (auto simp: span_def)
  then have "unat a + 2 * SZ_PAGE \<le> unat b" using True by (simp add: span_def)
  then show ?thesis using assms(2) by (intro apart_nowrap(1)) simp_all
next
  case False
  have "unat a \<notin> span b 2" using assms(3) by (auto simp: span_def)
  then have "unat b + 2 * SZ_PAGE \<le> unat a" using False by (simp add: span_def)
  then show ?thesis using assms(1) by (intro apart_nowrap(2)) simp_all
qed

text \<open>A store in one stack does not change what is read in another.\<close>

lemma inr_part:
  fixes a d :: u32
  assumes "unat d + 4 \<le> n" "n \<le> 2 ^ 32" "inr (a + d) 4 x"
  shows "inr a n x"
proof -
  define i where "i = x - (a + d)"
  have i: "unat i < 4" "x = a + (d + i)" using assms(3) by (simp_all add: inr_def i_def)
  have "unat (d + i) = unat d + unat i" using i(1) assms(1,2) by (simp add: unat_word_ariths)
  then show ?thesis using i assms(1) by (simp add: inr_def)
qed

lemma load32_other_stack:
  fixes a b d e :: u32
  assumes "apart a n b n" "unat d + 4 \<le> n" "unat e + 4 \<le> n" "n \<le> 2 ^ 32"
  shows "load32 (store32 m (a + d) v) (b + e) = load32 m (b + e)"
proof (rule load32_cong, rule store32_other)
  fix x assume "inr (b + e) 4 x"
  then have "inr b n x" by (rule inr_part [OF assms(3,4)])
  then have "\<not> inr a n x" using apart_inr [OF apart_sym [OF assms(1)]] by blast
  then show "\<not> inr (a + d) 4 x" using inr_part [OF assms(2,4)] by blast
qed

text \<open>What \<^verbatim>\<open>fork\<close> does to memory when the saved frame pointer is NULL: the copy, the moved stack pointer
  and the two results.\<close>

definition fork_mem :: "addr \<Rightarrow> addr \<Rightarrow> u32 \<Rightarrow> u32 \<Rightarrow> mem \<Rightarrow> mem" where
  "fork_mem stk pst d pid m =
     (let m1 = copied m stk pst (2 * SZ_PAGE);
          m2 = (if load32 m1 (stk + d + r_esp) \<noteq> 0
                then store32 m1 (stk + d + r_esp) (load32 m1 (stk + d + r_esp) + (stk - pst)) else m1)
      in store32 (store32 m2 (pst + d + 48) pid) (stk + d + 48) 0)"

lemma fork_mem_loads:
  assumes sep: "apart stk (2 * SZ_PAGE) pst (2 * SZ_PAGE)" and d: "unat d + 128 \<le> 2 * SZ_PAGE"
  shows "load32 (fork_mem stk pst d pid m) (pst + d + 48) = pid" "load32 (fork_mem stk pst d pid m) (stk + d + 48) = 0"
    "n \<le> 3 \<Longrightarrow> load32 (fork_mem stk pst d pid m) (stk + d + SZ_CONTEXT + 4 * n) = load32 m (pst + d + SZ_CONTEXT + 4 * n)"
proof -
  have dd: "unat (d + e) + 4 \<le> 2 * SZ_PAGE" if "unat e \<le> 124" for e
    using that d by (simp add: unat_word_ariths)
  show "load32 (fork_mem stk pst d pid m) (pst + d + 48) = pid"
    unfolding fork_mem_def Let_def
    using load32_other_stack [OF sep, of "d + 48" "d + 48"] dd [of 48] by (simp add: add.assoc)
  show "load32 (fork_mem stk pst d pid m) (stk + d + 48) = 0" by (simp add: fork_mem_def Let_def)
  assume "n \<le> 3"
  then have n: "n = 0 \<or> n = 1 \<or> n = 2 \<or> n = 3" by (rule u32_le_3_cases)
  define e where "e = SZ_CONTEXT + 4 * n"
  have e: "unat e \<le> 124" "apart (stk + d + 48) 4 (stk + d + e) 4" "apart (stk + d + r_esp) 4 (stk + d + e) 4"
    using n by (auto simp: e_def apart_def)
  have "load32 (copied m stk pst (2 * SZ_PAGE)) (stk + d + e) = load32 m (pst + d + e)"
    using load32_copied [of "d + e" "2 * SZ_PAGE" m stk pst] dd [OF e(1)] by (simp add: add.assoc)
  then show "load32 (fork_mem stk pst d pid m) (stk + d + SZ_CONTEXT + 4 * n) = load32 m (pst + d + SZ_CONTEXT + 4 * n)"
    using load32_other_stack [OF apart_sym [OF sep], of "d + 48" "d + e"] dd [OF e(1)] dd [of 48] e(2,3)
    by (simp add: fork_mem_def Let_def load32_store32_apart add.assoc [of _ SZ_CONTEXT] flip: e_def) (simp add: add.assoc load32_store32_apart)
qed

lemma fork_child_ok:
  assumes reps: "qreps (kp s) L" "c < N_PROCS" "\<And>q. c \<notin> set (L q)" "p \<noteq> c"
    and st: "stk = p_stack (ptable (kp s) c)" "pst = p_stack (ptable (kp s) p)" "apart stk (2 * SZ_PAGE) pst (2 * SZ_PAGE)"
    and ctx: "p_context (ptable (kp s) p) = pst + d" "unat d + 128 \<le> 2 * SZ_PAGE"
    and ebp: "load32 (k_mem (km s)) (pst + d + r_ebp) = 0"
  obtains s' where "fork_child p c s = Inr s'" "k_mem (km s') = fork_mem stk pst d (next_pid (kp s)) (k_mem (km s))"
    "qreps (kp s') (L(Q_ready := insert_after (\<lambda>x. p_priority (ptable (kp s) (if x = c then p else x))) c (L Q_ready)))"
    "\<forall>x. same_pcb (ptable (kp s') x) (if x = c then (ptable (kp s) c)\<lparr>p_stkpgs := N_USTKPAGES, p_context := stk + d,
       p_pid := next_pid (kp s), p_parent := Some p, p_state := STATE_READY, p_priority := p_priority (ptable (kp s) p)\<rparr>
       else ptable (kp s) x)"
    "next_pid (kp s') = next_pid (kp s) + 1" "current (kp s') = current (kp s)"
proof -
  let ?m = "k_mem (km s)" and ?n = "2 * SZ_PAGE" and ?pid = "next_pid (kp s)"
  let ?m1 = "copied ?m stk pst ?n"
  have "unat (N_USTKPAGES * of_nat SZ_PAGE :: u32) = ?n" by simp
  then have cp: "memcpy ?m stk pst (N_USTKPAGES * of_nat SZ_PAGE) = ?m1" using memcpy_eq st(3) by metis
  have "unat (d + r_ebp) + 4 \<le> ?n" using ctx(2) by (simp add: unat_word_ariths)
  then have ebp1: "load32 ?m1 (stk + d + r_ebp) = 0"
    using load32_copied [of "d + r_ebp" ?n ?m stk pst] ebp by (simp add: add.assoc)
  define s2 where "s2 = set_pcb c (\<lambda>x. x\<lparr>p_context := stk + d\<rparr>) (mem_upd (\<lambda>_. ?m1) (set_pcb c (\<lambda>x. x\<lparr>p_stkpgs := N_USTKPAGES\<rparr>) s))"
  define s3 where "s3 = set_nonzero_REG r_esp c (stk - pst) (set_nonzero_REG r_ebp c (stk - pst) s2)"
  have c2: "p_context (ptable (kp s2) c) = stk + d" "k_mem (km s2) = ?m1" by (simp_all add: s2_def mem_upd_def)
  have s3: "kp s3 = kp s2" "k_mem (km s3) = (if load32 ?m1 (stk + d + r_esp) \<noteq> 0
      then store32 ?m1 (stk + d + r_esp) (load32 ?m1 (stk + d + r_esp) + (stk - pst)) else ?m1)"
    using ebp1 c2 by (simp_all add: s3_def set_nonzero_REG_def REG_def set_REG_def mem_upd_def)
  have "apart (stk + d + r_esp) 4 (stk + d + r_ebp) 4" by (simp add: apart_def)
  then have "REG r_ebp c s3 = 0" using ebp1 c2 s3 by (simp add: REG_def load32_store32_apart)
  then have chain: "fork_chain (stk - pst) (REG r_ebp c s3) (k_mem (km s3)) = Some (k_mem (km s3))"
    by (simp add: fork_chain.simps)
  define s5 where "s5 = set_RET c 0 (set_RET p ?pid (kp_upd (\<lambda>ps. ps\<lparr>next_pid := next_pid ps + 1\<rparr>)
     (set_pcb c (\<lambda>x. x\<lparr>p_pid := ?pid, p_parent := Some p, p_state := STATE_NEW, p_priority := p_priority (ptable (kp s) p)\<rparr>)
       (mem_upd (\<lambda>_. k_mem (km s3)) s3))))"
  have s2_eq: "set_pcb c (\<lambda>x. x\<lparr>p_context := pst + d + (stk - pst)\<rparr>)
      (mem_upd (\<lambda>m. memcpy m stk pst (N_USTKPAGES * of_nat SZ_PAGE)) (set_pcb c (\<lambda>x. x\<lparr>p_stkpgs := N_USTKPAGES\<rparr>) s)) = s2"
    using cp by (simp add: s2_def mem_upd_def add.commute)
  have run: "fork_child p c s = schedule (Some c) s5"
    unfolding fork_child_def Let_def st(1,2) [symmetric] ctx(1) s2_eq s3_def [symmetric] chain option.case s5_def ..
  have kp5: "kp s5 = (upd_pcb c (\<lambda>x. x\<lparr>p_stkpgs := N_USTKPAGES, p_context := stk + d, p_pid := ?pid, p_parent := Some p, p_state := STATE_NEW,
       p_priority := p_priority (ptable (kp s) p)\<rparr>) (kp s))\<lparr>next_pid := ?pid + 1\<rparr>"
    by (simp add: s5_def s3 s2_def kp_upd_def upd_pcb_def)
  have reps5: "qreps (kp s5) L" unfolding kp5 using reps(1) by (auto intro: qreps_upd_pcb)
  have "p_state (ptable (kp s5) c) \<noteq> STATE_KILLED" by (simp add: kp5 upd_pcb_def)
  from schedule_not_killed [OF reps5 reps(2,3) this] obtain s' where
    S: "schedule (Some c) s5 = Inr s'" "km s' = km s5" "qreps (kp s') (L(Q_ready := qins (kp s5) Q_ready c (L Q_ready)))"
    "\<forall>x. same_pcb (ptable (kp s') x) (if x = c then (ptable (kp s5) x)\<lparr>p_state := STATE_READY\<rparr> else ptable (kp s5) x)"
    "current (kp s') = current (kp s5)" "next_pid (kp s') = next_pid (kp s5)" .
  have "qins (kp s5) Q_ready c (L Q_ready) =
      insert_after (\<lambda>x. p_priority (ptable (kp s) (if x = c then p else x))) c (L Q_ready)"
    using qrepsD(2) [OF reps5, of Q_ready]
    by (auto simp: qins_def queue_key_def kp5 upd_pcb_def intro!: arg_cong [where f = "\<lambda>f. insert_after f c (L Q_ready)"])
  moreover have "k_mem (km s5) = fork_mem stk pst d ?pid ?m"
    using ctx(1) c2(1) s3 reps(4) by (simp add: s5_def set_RET_def mem_upd_def kp_upd_def fork_mem_def Let_def s2_def upd_pcb_def)
  moreover have "\<forall>x. same_pcb (ptable (kp s') x) (if x = c then (ptable (kp s) c)\<lparr>p_stkpgs := N_USTKPAGES, p_context := stk + d,
       p_pid := ?pid, p_parent := Some p, p_state := STATE_READY, p_priority := p_priority (ptable (kp s) p)\<rparr>
       else ptable (kp s) x)"
  proof
    fix x
    show "same_pcb (ptable (kp s') x) (if x = c then (ptable (kp s) c)\<lparr>p_stkpgs := N_USTKPAGES, p_context := stk + d,
       p_pid := ?pid, p_parent := Some p, p_state := STATE_READY, p_priority := p_priority (ptable (kp s) p)\<rparr>
       else ptable (kp s) x)"
      using S(4) [rule_format, of x] by (simp add: kp5 upd_pcb_def same_pcb_iff split: if_splits)
  qed
  ultimately show ?thesis using that [of s'] run S kp5 by simp
qed

text \<open>The new stack is apart from the caller's, and the caller's is unchanged.\<close>

lemma fork_new_stack:
  assumes alloc: "pool k B" "pcb_stack_alloc N_USTKPAGES k = Inr (stk, ms)" "stk \<noteq> 0"
    and pst: "unat pst + 2 * SZ_PAGE \<le> 2 ^ 32" "span pst 2 \<inter> B = {}" and d: "unat d + 128 \<le> 2 * SZ_PAGE"
  shows "apart stk (2 * SZ_PAGE) pst (2 * SZ_PAGE)"
    "unat e \<le> 124 \<Longrightarrow> load32 (k_mem ms) (pst + d + e) = load32 (k_mem k) (pst + d + e)"
proof -
  let ?n = "2 * SZ_PAGE"
  have two: "stk_pages N_USTKPAGES = 2" by (simp add: stk_pages_def)
  note A = pcb_stack_alloc_pool [OF alloc, unfolded two]
  have "unat stk + ?n \<le> 2 ^ 32" using A(3) by (simp add: stack_ok_def two)
  moreover have "span stk 2 \<inter> span pst 2 = {}" using A(1) pst(2) by blast
  ultimately show "apart stk ?n pst ?n" using pst(1) by (intro apart_spans)
  have old: "k_mem ms x = k_mem k x" if "inr pst ?n x" for x
  proof -
    have "unat x \<in> span pst 2" using that inr_nowrap [OF pst(1)] by (simp add: span_def)
    then show ?thesis using A(5) pst(2) by blast
  qed
  assume e: "unat e \<le> 124"
  show "load32 (k_mem ms) (pst + d + e) = load32 (k_mem k) (pst + d + e)"
  proof (rule load32_cong, rule old)
    fix x assume "inr (pst + d + e) 4 x"
    moreover have "unat (d + e) + 4 \<le> ?n" using e d by (simp add: unat_word_ariths)
    ultimately show "inr pst ?n x" using inr_part [of "d + e" ?n pst x] by (simp add: add.assoc)
  qed
qed



end
