(* ===== verification/Kernel_Run.thy ===== *)
theory Kernel_Run
  imports Syscalls
begin

text \<open>
  The kernel as a whole: between interrupts it is a \<^typ>\<open>kernel\<close> state, and every clock interrupt,
  serial interrupt, keyboard interrupt or system call is a step to the next one. The scheduler's invariant says
  where each PCB is and which state it then has; it is kept by every step but the calls
  \<^verbatim>\<open>waitpid\<close> and \<^verbatim>\<open>kill\<close>, whose effect on it is in the theories \<^verbatim>\<open>Procs\<close> and \<^verbatim>\<open>Syscalls\<close>.
\<close>

section \<open>The invariant of the scheduler\<close>

text \<open>The state of the members of each queue. A sleeping process keeps the state Running, because \<^verbatim>\<open>sleep\<close> does
  not change it.\<close>

fun queue_state :: "qid \<Rightarrow> state_e" where
  "queue_state Q_freelist = STATE_UNUSED"
| "queue_state Q_ready = STATE_READY"
| "queue_state Q_waiting = STATE_WAITING"
| "queue_state Q_sleeping = STATE_RUNNING"
| "queue_state Q_zombie = STATE_ZOMBIE"
| "queue_state Q_sioread = STATE_BLOCKED"

abbreviation calm :: "state_e \<Rightarrow> bool" where
  "calm st \<equiv> st \<noteq> STATE_WAITING \<and> st \<noteq> STATE_KILLED"

text \<open>\<open>placed S L s\<close>: the queues hold the lists \<open>L\<close>, together every PCB of the table but those in \<open>S\<close>, each
  with the state of its queue, and no process waits or is killed.\<close>

definition placed :: "nat set \<Rightarrow> (qid \<Rightarrow> nat list) \<Rightarrow> procs \<Rightarrow> bool" where
  "placed S L s \<longleftrightarrow> qreps s L \<and> S \<subseteq> {..<N_PROCS} \<and> (\<forall>x<N_PROCS. x \<in> S \<longleftrightarrow> (\<forall>q. x \<notin> set (L q))) \<and>
     (\<forall>q. \<forall>x\<in>set (L q). p_state (ptable s x) = queue_state q) \<and> (\<forall>x. calm (p_state (ptable s x)))"

definition sched_inv :: "nat set \<Rightarrow> procs \<Rightarrow> bool" where
  "sched_inv S s \<longleftrightarrow> (\<exists>L. placed S L s)"

text \<open>\<open>runs c s\<close>: the process \<open>c\<close> runs, and every other PCB is in one queue.\<close>

definition runs :: "nat \<Rightarrow> procs \<Rightarrow> bool" where
  "runs c s \<longleftrightarrow> current s = Some c \<and> p_state (ptable s c) = STATE_RUNNING \<and> sched_inv {c} s"

definition sched_ok :: "kernel \<Rightarrow> bool" where
  "sched_ok k \<longleftrightarrow> (\<exists>c. runs c (kp (kst k)))"

lemma placedD:
  assumes "placed S L s"
  shows "qreps s L" "x \<in> S \<Longrightarrow> x < N_PROCS" "x \<in> S \<Longrightarrow> x \<notin> set (L q)" "x < N_PROCS \<Longrightarrow> x \<notin> S \<Longrightarrow> \<exists>q. x \<in> set (L q)"
    "x \<in> set (L q) \<Longrightarrow> p_state (ptable s x) = queue_state q" "calm (p_state (ptable s x))" "x \<in> set (L q) \<Longrightarrow> x < N_PROCS"
  using assms qreps_member [of s L x q] unfolding placed_def by blast+

lemma placed_enter:
  assumes "placed S L s" "p \<in> S" "qreps s' (L(q := xs))" "set xs = insert p (set (L q))" "p_state (ptable s' p) = queue_state q"
    and "\<And>x. x \<noteq> p \<Longrightarrow> p_state (ptable s' x) = p_state (ptable s x)" "q \<noteq> Q_waiting"
  shows "placed (S - {p}) (L(q := xs)) s'"
proof -
  have p: "p \<notin> set (L q')" for q' using placedD(3) [OF assms(1,2)] .
  have mem: "x \<in> set ((L(q := xs)) q') \<longleftrightarrow> x \<in> set (L q') \<or> q' = q \<and> x = p" for x q' using assms(4) by auto
  have "p_state (ptable s' x) = queue_state q'" if "x \<in> set ((L(q := xs)) q')" for x q'
  proof (cases "x = p")
    case True
    then show ?thesis using that mem p assms(5) by blast
  next
    case False
    then show ?thesis using that mem placedD(5) [OF assms(1)] assms(6) by metis
  qed
  moreover have "calm (p_state (ptable s' x))" for x
  proof (cases "x = p")
    case True
    then show ?thesis using assms(5,7) by (cases q) simp_all
  qed (use placedD(6) [OF assms(1), of x] assms(6) [of x] in simp)
  moreover have "x \<in> S - {p} \<longleftrightarrow> (\<forall>q'. x \<notin> set ((L(q := xs)) q'))" if "x < N_PROCS" for x
  proof -
    have "x \<in> S \<longleftrightarrow> (\<forall>q'. x \<notin> set (L q'))" using that assms(1) by (simp add: placed_def)
    then show ?thesis unfolding mem using assms(2) by auto
  qed
  ultimately show ?thesis using assms(1,3) unfolding placed_def by blast
qed

lemma placed_leave:
  assumes "placed S L s" "L q = p # ps" "qreps s' (L(q := ps))" "calm (p_state (ptable s' p))"
    and "\<And>x. x \<noteq> p \<Longrightarrow> p_state (ptable s' x) = p_state (ptable s x)"
  shows "placed (insert p S) (L(q := ps)) s'" "p \<notin> S"
proof -
  have pq: "p \<in> set (L q)" "p \<notin> set ps" using assms(2) pq.contents_once [OF placedD(1) [OF assms(1)], of q] by auto
  then show pS: "p \<notin> S" using placedD(3) [OF assms(1)] by blast
  have mem: "x \<in> set ((L(q := ps)) q') \<longleftrightarrow> x \<in> set (L q') \<and> x \<noteq> p" for x q'
  proof (cases "q' = q")
    case False
    then have "p \<notin> set (L q')" using qreps_unique_queue [OF placedD(1) [OF assms(1)] pq(1)] by blast
    then show ?thesis using False by auto
  qed (use assms(2) pq(2) in auto)
  have "p_state (ptable s' x) = queue_state q'" if "x \<in> set ((L(q := ps)) q')" for x q'
    using that mem placedD(5) [OF assms(1)] assms(5) by metis
  moreover have "calm (p_state (ptable s' x))" for x
    using placedD(6) [OF assms(1), of x] assms(4,5) by (cases "x = p") auto
  moreover have "x \<in> insert p S \<longleftrightarrow> (\<forall>q'. x \<notin> set ((L(q := ps)) q'))" if "x < N_PROCS" for x
  proof -
    have "x \<in> S \<longleftrightarrow> (\<forall>q'. x \<notin> set (L q'))" using that assms(1) by (simp add: placed_def)
    then show ?thesis unfolding mem using pq(1) by auto
  qed
  moreover have "insert p S \<subseteq> {..<N_PROCS}" using placedD(2,7) [OF assms(1)] pq(1) by blast
  ultimately show "placed (insert p S) (L(q := ps)) s'" using assms(3) unfolding placed_def by blast
qed

lemma placed_same:
  assumes "placed S L s" "qreps s' L" "\<And>x. x \<in> S \<Longrightarrow> calm (p_state (ptable s' x))"
    and "\<And>x. x \<notin> S \<Longrightarrow> p_state (ptable s' x) = p_state (ptable s x)"
  shows "placed S L s'"
proof -
  have "calm (p_state (ptable s' x))" for x using assms(3,4) placedD(6) [OF assms(1)] by metis
  moreover have "p_state (ptable s' x) = queue_state q" if "x \<in> set (L q)" for x q
    using that assms(4) placedD(3,5) [OF assms(1)] by metis
  ultimately show ?thesis using assms(1,2) unfolding placed_def by blast
qed

section \<open>What the scheduler's operations keep\<close>

lemma sched_inv_upd:
  assumes "sched_inv S s" "p \<in> S" "p_next (f (ptable s p)) = p_next (ptable s p)" "calm (p_state (f (ptable s p)))"
  shows "sched_inv S (upd_pcb p f s)"
proof -
  obtain L where L: "placed S L s" using assms(1) by (auto simp: sched_inv_def)
  have "placed S L (upd_pcb p f s)"
  proof (rule placed_same [OF L])
    show "calm (p_state (ptable (upd_pcb p f s) x))" for x using assms(4) placedD(6) [OF L, of x] by simp
    show "p_state (ptable (upd_pcb p f s) x) = p_state (ptable s x)" if "x \<notin> S" for x using that assms(2) by auto
  qed (rule qreps_upd_pcb [where f = f, OF placedD(1) [OF L] assms(3)])
  then show ?thesis by (auto simp: sched_inv_def)
qed

lemma sched_inv_insert:
  assumes "sched_inv S s" "p \<in> S" "p_state (ptable s p) = queue_state q" "q \<noteq> Q_waiting"
    and "pcb_queue_insert q (Some p) s = Inr (st, s')"
  shows "sched_inv (S - {p}) s'" "current s' = current s" "st = SUCCESS"
proof -
  obtain L where L: "placed S L s" using assms(1) by (auto simp: sched_inv_def)
  obtain s1 where s1: "pcb_queue_insert q (Some p) s = Inr (SUCCESS, s1)" "qreps s1 (L(q := qins s q p (L q)))"
    "frame q (insert p (set (L q))) s s1"
    by (rule qreps_insert [OF placedD(1) [OF L] placedD(2,3) [OF L assms(2)]])
  then show "st = SUCCESS" using assms(5) by simp
  have eq: "s' = s1" using s1(1) assms(5) by simp
  have "placed (S - {p}) (L(q := qins s q p (L q))) s'" unfolding eq
    by (rule placed_enter [OF L assms(2) s1(2)]) (use assms(3,4) frame_data(4) [OF s1(3)] in \<open>simp_all add: qins_def\<close>)
  then show "sched_inv (S - {p}) s'" by (auto simp: sched_inv_def)
  show "current s' = current s" using s1(3) by (simp add: eq frame_def)
qed

lemma sched_inv_schedule:
  assumes "sched_inv S (kp s)" "p \<in> S" "schedule (Some p) s = Inr s'"
  shows "sched_inv (S - {p}) (kp s')" "current (kp s') = current (kp s)"
    "x \<noteq> p \<Longrightarrow> p_state (ptable (kp s') x) = p_state (ptable (kp s) x)"
proof -
  obtain L where L: "placed S L (kp s)" using assms(1) by (auto simp: sched_inv_def)
  have "p_state (ptable (kp s) p) \<noteq> STATE_KILLED" using placedD(6) [OF L] by blast
  from schedule_not_killed [OF placedD(1) [OF L] placedD(2,3) [OF L assms(2)] this] obtain s1 where
    S1: "schedule (Some p) s = Inr s1" "qreps (kp s1) (L(Q_ready := qins (kp s) Q_ready p (L Q_ready)))"
    "\<forall>x. same_pcb (ptable (kp s1) x) (if x = p then (ptable (kp s) x)\<lparr>p_state := STATE_READY\<rparr> else ptable (kp s) x)"
    "current (kp s1) = current (kp s)" .
  then have "s1 = s'" using assms(3) by simp
  note S1 = S1 [unfolded this]
  then have S: "qreps (kp s') (L(Q_ready := qins (kp s) Q_ready p (L Q_ready)))" "current (kp s') = current (kp s)"
    "\<forall>x. same_pcb (ptable (kp s') x) (if x = p then (ptable (kp s) x)\<lparr>p_state := STATE_READY\<rparr> else ptable (kp s) x)"
    by blast+
  have st: "p_state (ptable (kp s') p) = STATE_READY" "x \<noteq> p \<Longrightarrow> p_state (ptable (kp s') x) = p_state (ptable (kp s) x)" for x
    using S(3) [rule_format, of p] S(3) [rule_format, of x] by (simp_all add: same_pcb_iff)
  have "placed (S - {p}) (L(Q_ready := qins (kp s) Q_ready p (L Q_ready))) (kp s')"
    by (rule placed_enter [OF L assms(2) S(1)]) (simp_all add: st qins_def)
  then show "sched_inv (S - {p}) (kp s')" by (auto simp: sched_inv_def)
  show "current (kp s') = current (kp s)" "x \<noteq> p \<Longrightarrow> p_state (ptable (kp s') x) = p_state (ptable (kp s) x)"
    by (rule S(2)) (rule st(2))
qed

lemma sched_inv_remove:
  assumes "sched_inv S s" "pcb_queue_remove q s = Inr (SUCCESS, Some x, s')"
  shows "sched_inv (insert x S) s'" "x \<notin> S" "current s' = current s" "p_state (ptable s' y) = p_state (ptable s y)"
    "p_state (ptable s x) = queue_state q"
proof -
  obtain L where L: "placed S L s" using assms(1) by (auto simp: sched_inv_def)
  have "L q \<noteq> []" using qrepsD(1) [OF placedD(1) [OF L], of q] assms(2)
    by (auto simp: qrep_def pcb_queue_remove_def)
  then obtain z zs where z: "L q = z # zs" by (cases "L q") auto
  obtain s1 where s1: "pcb_queue_remove q s = Inr (SUCCESS, Some z, s1)" "qreps s1 (L(q := zs))" "frame q (set (L q)) s s1"
    by (rule qreps_remove [OF placedD(1) [OF L] z])
  then have eq: "s1 = s'" "z = x" using assms(2) by simp_all
  note st = frame_data(4) [OF s1(3) [unfolded eq]]
  have "placed (insert x S) (L(q := zs)) s'" "x \<notin> S"
    using placed_leave [OF L z s1(2)] st placedD(6) [OF L, of x] unfolding eq by simp_all
  then show "sched_inv (insert x S) s'" "x \<notin> S" by (auto simp: sched_inv_def)
  show "current s' = current s" "p_state (ptable s' y) = p_state (ptable s y)"
    using s1(3) st by (simp_all add: frame_def eq)
  show "p_state (ptable s x) = queue_state q" using placedD(5) [OF L, of x q] z eq by simp
qed

text \<open>A process that is taken from a queue and scheduled.\<close>

lemma runs_wake:
  assumes "runs c (kp s)" "pcb_queue_remove q (kp s) = Inr (SUCCESS, Some x, ps)" "kp s1 = ps" "schedule (Some x) s1 = Inr s'"
  shows "runs c (kp s')"
proof -
  have c: "sched_inv {c} (kp s)" "current (kp s) = Some c" "p_state (ptable (kp s) c) = STATE_RUNNING"
    using assms(1) by (simp_all add: runs_def)
  note R = sched_inv_remove [OF c(1) assms(2)]
  have x: "x \<in> insert x {c}" "x \<noteq> c" "insert x {c} - {x} = {c}" using R(2) by auto
  have "sched_inv (insert x {c}) (kp s1)" using R(1) assms(3) by simp
  note S = sched_inv_schedule [OF this x(1) assms(4)]
  show ?thesis using S(1) [unfolded x(3)] S(2) S(3) [of c] x(2) R(3,4) c assms(3) by (simp add: runs_def)
qed

lemma dispatch_idle:
  assumes "qreps s L" "L Q_ready = []" "dispatch s = Inr s'"
  shows False
proof -
  have "q_head (queues s Q_ready) = None" using qrepsD(1) [OF assms(1), of Q_ready] assms(2) by (simp add: qrep_def)
  then show False using assms(3) by (auto simp: dispatch_def pcb_queue_remove_def pcb_queue_empty_def split: if_splits)
qed

lemma sched_inv_dispatch:
  assumes "sched_inv S s" "dispatch s = Inr s'"
  obtains c where "sched_inv (insert c S) s'" "current s' = Some c" "p_state (ptable s' c) = STATE_RUNNING"
proof -
  obtain L where L: "placed S L s" using assms(1) by (auto simp: sched_inv_def)
  obtain c r where c: "L Q_ready = c # r" using dispatch_idle [OF placedD(1) [OF L] _ assms(2)] by (cases "L Q_ready") auto
  have "current s = None" using assms(2) by (auto simp: dispatch_def split: if_splits)
  from dispatch_qreps [OF placedD(1) [OF L] c this] obtain s1 where
    D1: "dispatch s = Inr s1" "qreps s1 (L(Q_ready := r))" "current s1 = Some c"
    "\<forall>x. same_pcb (ptable s1 x) (if x = c then (ptable s x)\<lparr>p_state := STATE_RUNNING, p_ticks := QUANTUM_STANDARD\<rparr> else ptable s x)" .
  then have "s1 = s'" using assms(2) by simp
  note D = D1(2-4) [unfolded this]
  have st: "p_state (ptable s' c) = STATE_RUNNING" "x \<noteq> c \<Longrightarrow> p_state (ptable s' x) = p_state (ptable s x)" for x
    using D(3) [rule_format, of c] D(3) [rule_format, of x] by (simp_all add: same_pcb_iff)
  have "placed (insert c S) (L(Q_ready := r)) s'" by (rule placed_leave(1) [OF L c D(1)]) (simp_all add: st)
  then show ?thesis using that D(2) st(1) by (auto simp: sched_inv_def)
qed

lemma sched_inv_current [simp]: "sched_inv S (s\<lparr>current := c\<rparr>) = sched_inv S s" "sched_inv S (s\<lparr>next_pid := n\<rparr>) = sched_inv S s"
  by (simp_all add: sched_inv_def placed_def)

lemma runs_redispatch:
  assumes "sched_inv {} (kp s)" "redispatch s = Inr s'"
  shows "\<exists>c. runs c (kp s')"
proof -
  obtain ps where D: "dispatch ((kp s)\<lparr>current := None\<rparr>) = Inr ps" "s' = s\<lparr>kp := ps\<rparr>"
    using assms(2) by (auto simp: redispatch_def bindR_eq_Inr)
  have "sched_inv {} ((kp s)\<lparr>current := None\<rparr>)" using assms(1) by simp
  from sched_inv_dispatch [OF this D(1)] show ?thesis by (auto simp: runs_def D(2))
qed

lemma sched_inv_free:
  assumes "sched_inv S s" "p \<in> S" "pcb_free (Some p) s = Inr s'"
  shows "sched_inv (S - {p}) s'" "current s' = current s" "x \<noteq> p \<Longrightarrow> p_state (ptable s' x) = p_state (ptable s x)"
proof -
  obtain L where L: "placed S L s" using assms(1) by (auto simp: sched_inv_def)
  obtain s1 where S: "pcb_queue_insert Q_freelist (Some p) (retire STATE_UNUSED p s) = Inr (SUCCESS, s1)"
    "qreps s1 (L(Q_freelist := qins s Q_freelist p (L Q_freelist)))"
    "\<forall>x. same_pcb (ptable s1 x) (if x = p then (ptable s x)\<lparr>p_state := STATE_UNUSED\<rparr> else ptable s x)" "current s1 = current s"
    by (rule retire_insert [OF placedD(1) [OF L] placedD(2,3) [OF L assms(2)]])
  then have eq: "s1 = s'" using assms(3) by (simp add: pcb_free_def retire_def)
  have st: "p_state (ptable s' p) = STATE_UNUSED" "y \<noteq> p \<Longrightarrow> p_state (ptable s' y) = p_state (ptable s y)" for y
    using S(3) [rule_format, of p] S(3) [rule_format, of y] by (simp_all add: same_pcb_iff eq)
  have "placed (S - {p}) (L(Q_freelist := qins s Q_freelist p (L Q_freelist))) s'"
    by (rule placed_enter [OF L assms(2) S(2) [unfolded eq]]) (simp_all add: st qins_def)
  then show "sched_inv (S - {p}) s'" by (auto simp: sched_inv_def)
  show "current s' = current s" "x \<noteq> p \<Longrightarrow> p_state (ptable s' x) = p_state (ptable s x)"
    using S(4) st(2) by (simp_all add: eq)
qed

lemma sched_inv_zombify:
  assumes "sched_inv S (kp s)" "p \<in> S" "pcb_zombify (Some p) s = Inr s'"
  shows "sched_inv (S - {p}) (kp s')"
proof -
  obtain L where L: "placed S L (kp s)" using assms(1) by (auto simp: sched_inv_def)
  obtain pa where pa: "p_parent (ptable (kp s) p) = Some pa"
    using assms(3) by (auto simp: pcb_zombify.simps split: option.splits)
  have busy: "\<not> wakes_parent pa (p_pid (ptable (kp s) p)) s" using placedD(6) [OF L, of pa] by (simp add: wakes_parent_def)
  have ini: "zombie_orphans p pa (kp s) = [] \<or> (\<exists>i. init_pcb (kp s) = Some i \<and> p_state (ptable (kp s) i) \<noteq> STATE_WAITING)"
  proof (cases "init_pcb (kp s)")
    case None
    have "last_opt None (zombie_orphans p pa (kp s)) = None"
    proof (rule ccontr)
      assume "last_opt None (zombie_orphans p pa (kp s)) \<noteq> None"
      then obtain z where "last_opt None (zombie_orphans p pa (kp s)) = Some z" by blast
      then have "pcb_zombify (Some p) s = Inl Wild"
        by (simp add: pcb_zombify.simps pa Let_def reparent_eq adopted_def None)
      then show False using assms(3) by simp
    qed
    then show ?thesis by (cases "zombie_orphans p pa (kp s)" rule: rev_cases) (auto simp: last_opt_def)
  next
    case (Some i)
    then show ?thesis using placedD(6) [OF L, of i] by blast
  qed
  obtain s1 where S: "pcb_zombify (Some p) s = Inr s1" "qreps (kp s1) (L(Q_zombie := qins (kp s) Q_zombie p (L Q_zombie)))"
    "\<forall>x. same_pcb (ptable (kp s1) x) (zombified p pa (kp s) x)"
    by (rule pcb_zombify_unwatched [OF placedD(1) [OF L] placedD(2,3) [OF L assms(2)] pa busy ini])
  then have eq: "s1 = s'" using assms(3) by simp
  have st: "p_state (ptable (kp s') p) = STATE_ZOMBIE" "y \<noteq> p \<Longrightarrow> p_state (ptable (kp s') y) = p_state (ptable (kp s) y)" for y
    using S(3) [rule_format, of p] S(3) [rule_format, of y] by (simp_all add: same_pcb_iff eq zombified_def adopted_def Let_def)
  have "placed (S - {p}) (L(Q_zombie := qins (kp s) Q_zombie p (L Q_zombie))) (kp s')"
    by (rule placed_enter [OF L assms(2) S(2) [unfolded eq]]) (simp_all add: st qins_def)
  then show ?thesis by (auto simp: sched_inv_def)
qed

section \<open>The contract of the system calls\<close>

text \<open>What each handler must keep when it returns: some process runs and every other PCB is in its place.\<close>

locale syscall_handler =
  fixes handler :: "nat \<Rightarrow> kernel \<Rightarrow> kernel res"
  assumes keeps: "runs p (kp (kst k)) \<Longrightarrow> handler p k = Inr k' \<Longrightarrow> sched_ok k'"
begin

lemma keeps_eoi:
  assumes "runs p (kp (kst k))" "bindR (handler p k) (\<lambda>k'. Inr (pic_eoi k')) = Inr k''"
  shows "sched_ok k''"
proof -
  obtain k' where k': "handler p k = Inr k'" "k'' = pic_eoi k'" using assms(2) by (auto simp: bindR_eq_Inr)
  then have "sched_ok k'" using keeps assms(1) by blast
  then show ?thesis by (simp add: sched_ok_def k'(2) pic_eoi_def)
qed

end

lemma sched_okI: "runs p (kp (kst k)) \<Longrightarrow> kp (kst k') = kp (kst k) \<Longrightarrow> sched_ok k'"
  by (auto simp: sched_ok_def)

lemma on_kst_Inr: "on_kst f k = Inr k' \<longleftrightarrow> (\<exists>s. f (kst k) = Inr s \<and> k' = k\<lparr>kst := s\<rparr>)"
  by (auto simp: on_kst_def bindR_eq_Inr)

lemma on_con_kst: "on_con f k = Inr k' \<Longrightarrow> kst k' = kst k"
  by (auto simp: on_con_def bindR_eq_Inr)

lemma runs_redispatch_ok:
  assumes "sched_inv {} (kp s)" "redispatch s = Inr s'"
  shows "sched_ok (k\<lparr>kst := s'\<rparr>)"
  using runs_redispatch [OF assms] by (auto simp: sched_ok_def)

lemma runsD:
  assumes "runs p s"
  shows "current s = Some p" "p_state (ptable s p) = STATE_RUNNING" "sched_inv {p} s"
  using assms by (simp_all add: runs_def)

lemma runs_upd:
  assumes "runs p s" "\<And>c. p_next (f c) = p_next c" "\<And>c. p_state (f c) = p_state c"
  shows "runs p (upd_pcb p f s)"
  using sched_inv_upd [OF runsD(3) [OF assms(1)], of p f] runsD [OF assms(1)] assms(2,3) by (simp add: runs_def)

lemma runs_schedule:
  assumes "runs p (kp s)" "schedule (Some p) s = Inr s'"
  shows "sched_inv {} (kp s')" "current (kp s') = Some p"
  using sched_inv_schedule(1,2) [OF runsD(3) [OF assms(1)] _ assms(2)] runsD(1) [OF assms(1)] by simp_all

lemma runs_insert:
  assumes "sched_inv {p} s" "pcb_queue_insert q (Some p) s = Inr (st, s')" "p_state (ptable s p) = queue_state q" "q \<noteq> Q_waiting"
  shows "sched_inv {} s'" "current s' = current s" "st = SUCCESS"
  using sched_inv_insert [OF assms(1) _ assms(3,4,2)] by simp_all

interpretation exit_call: syscall_handler "\<lambda>p. on_kst (sys_exit p)"
proof
  fix p k k' assume p: "runs p (kp (kst k))" and "on_kst (sys_exit p) k = Inr k'"
  then obtain s1 s2 where S: "pcb_zombify (Some p) (set_pcb p (\<lambda>c. c\<lparr>p_exit_status := ARG (kst k) p 1\<rparr>) (kst k)) = Inr s1"
    "redispatch s1 = Inr s2" "k' = k\<lparr>kst := s2\<rparr>"
    by (auto simp: on_kst_Inr sys_exit_def bindR_eq_Inr)
  have "sched_inv {p} (kp (set_pcb p (\<lambda>c. c\<lparr>p_exit_status := ARG (kst k) p 1\<rparr>) (kst k)))"
    using runs_upd [OF p] by (simp add: runs_def)
  from sched_inv_zombify [OF this _ S(1)] have "sched_inv {} (kp s1)" by simp
  then show "sched_ok k'" unfolding S(3) by (rule runs_redispatch_ok [OF _ S(2)])
qed

lemma fork_child_keeps:
  assumes "sched_inv (insert c S) (kp s)" "c \<notin> S" "fork_child p c s = Inr s'"
  shows "sched_inv S (kp s')" "current (kp s') = current (kp s)" "x \<noteq> c \<Longrightarrow> p_state (ptable (kp s') x) = p_state (ptable (kp s) x)"
proof -
  obtain s1 f n where s1: "schedule (Some c) s1 = Inr s'" "kp s1 = (upd_pcb c f (kp s))\<lparr>next_pid := n\<rparr>"
    "\<forall>x. p_next (f x) = p_next x \<and> p_state (f x) = STATE_NEW"
  proof -
    let ?f = "\<lambda>x. x\<lparr>p_stkpgs := N_USTKPAGES, p_context := p_context (ptable (kp s) p) + (p_stack (ptable (kp s) c) - p_stack (ptable (kp s) p)),
      p_pid := next_pid (kp s), p_parent := Some p, p_state := STATE_NEW, p_priority := p_priority (ptable (kp s) p)\<rparr>"
    obtain s1 where "schedule (Some c) s1 = Inr s'" "kp s1 = (upd_pcb c ?f (kp s))\<lparr>next_pid := next_pid (kp s) + 1\<rparr>"
      using assms(3) by (auto simp: fork_child_def Let_def kp_upd_def upd_pcb_def split: option.splits)
    then show thesis using that [of s1 _ ?f] by simp
  qed
  have "sched_inv (insert c S) (upd_pcb c f (kp s))"
    using sched_inv_upd [OF assms(1), of c f] s1(3) by simp
  then have "sched_inv (insert c S) (kp s1)" by (simp add: s1(2))
  note R = sched_inv_schedule [OF this _ s1(1)]
  show "sched_inv S (kp s')" using R(1) assms(2) by simp
  show "current (kp s') = current (kp s)" using R(2) by (simp add: s1(2))
  show "x \<noteq> c \<Longrightarrow> p_state (ptable (kp s') x) = p_state (ptable (kp s) x)" using R(3) by (simp add: s1(2))
qed

interpretation fork_call: syscall_handler "\<lambda>p. on_kst (sys_fork p)"
proof
  fix p k k' assume p: "runs p (kp (kst k))" and "on_kst (sys_fork p) k = Inr k'"
  then obtain s' where s': "sys_fork p (kst k) = Inr s'" "k' = k\<lparr>kst := s'\<rparr>" by (auto simp: on_kst_Inr)
  note P = runsD [OF p]
  obtain st new ps where R: "pcb_queue_remove Q_freelist (kp (kst k)) = Inr (st, new, ps)"
    using s'(1) by (auto simp: sys_fork_def pcb_alloc_def bindR_eq_Inr)
  have "runs p (kp s')"
  proof (cases "st = SUCCESS \<and> new \<noteq> None")
    case False
    then have "ps = kp (kst k)" "st = E_EMPTY_QUEUE"
      using R by (auto simp: pcb_queue_remove_def Let_def split: option.splits if_splits)
    then have "kp s' = kp (kst k)"
      using s'(1) R by (auto simp: sys_fork_def pcb_alloc_def)
    then show ?thesis using p by simp
  next
    case True
    then obtain c where c: "new = Some c" "st = SUCCESS" by blast
    note A = sched_inv_remove [OF P(3) R [unfolded c]]
    have inv: "sched_inv {c, p} (upd_pcb c (\<lambda>x. x\<lparr>p_stack := stk\<rparr>) ps)" for stk
      by (rule sched_inv_upd) (use A(1,4,5) in simp_all)
    have cp: "c \<noteq> p" using A(2) by simp
    obtain stk ms where M: "pcb_stack_alloc N_USTKPAGES (km (kst k)) = Inr (stk, ms)"
      using s'(1) R c by (auto simp: sys_fork_def pcb_alloc_def bindR_eq_Inr)
    let ?s2 = "set_pcb c (\<lambda>x. x\<lparr>p_stack := stk\<rparr>) ((kst k)\<lparr>kp := ps, km := ms\<rparr>)"
    have keep: "current (kp ?s2) = Some p" "p_state (ptable (kp ?s2) p) = STATE_RUNNING" "sched_inv {c, p} (kp ?s2)"
      using A(3,4) P inv [of stk] cp by simp_all
    show ?thesis
    proof (cases "stk = 0")
      case True
      obtain ps' where F: "pcb_free (Some c) (kp ?s2) = Inr ps'" "kp s' = ps'"
        using s'(1) R c M True by (auto simp: sys_fork_def pcb_alloc_def bindR_eq_Inr)
      then show ?thesis using sched_inv_free [OF keep(3) _ F(1)] keep cp by (simp add: runs_def)
    next
      case False
      have "fork_child p c ?s2 = Inr s'" using s'(1) R c M False by (simp add: sys_fork_def pcb_alloc_def)
      from fork_child_keeps [OF keep(3) _ this] keep cp show ?thesis by (simp add: runs_def)
    qed
  qed
  then show "sched_ok k'" by (auto simp: sched_ok_def s'(2))
qed

lemma stack_setup_kp: "stack_setup fe p e a s = Inr (ctx, s') \<Longrightarrow> kp s' = kp s"
  by (auto simp: stack_setup_def Let_def bindR_eq_Inr)

interpretation exec_call: syscall_handler "\<lambda>p. on_kst (sys_exec fe p)" for fe
proof
  fix p k k' assume p: "runs p (kp (kst k))" and "on_kst (sys_exec fe p) k = Inr k'"
  then obtain s' where s': "sys_exec fe p (kst k) = Inr s'" "k' = k\<lparr>kst := s'\<rparr>" by (auto simp: on_kst_Inr)
  then obtain stk ctx s3 s4 where S: "kp s3 = upd_pcb p (\<lambda>c. c\<lparr>p_context := ctx\<rparr>)
      (upd_pcb p (\<lambda>c. c\<lparr>p_stack := stk, p_stkpgs := N_USTKPAGES\<rparr>) (kp (kst k)))"
    "schedule (Some p) s3 = Inr s4" "redispatch s4 = Inr s'"
  proof -
    obtain stk ms ctx s2 ms' s4 where
      "stack_setup fe p (ARG (kst k) p 1) (ARG (kst k) p 2)
         (set_pcb p (\<lambda>c. c\<lparr>p_stack := stk, p_stkpgs := N_USTKPAGES\<rparr>) ((kst k)\<lparr>km := ms\<rparr>)) = Inr (ctx, s2)"
      "schedule (Some p) ((set_pcb p (\<lambda>c. c\<lparr>p_context := ctx\<rparr>) s2)\<lparr>km := ms'\<rparr>) = Inr s4" "redispatch s4 = Inr s'"
      using s'(1) by (auto simp: sys_exec_def Let_def bindR_eq_Inr split: if_splits)
    with stack_setup_kp [OF this(1)] that [of "(set_pcb p (\<lambda>c. c\<lparr>p_context := ctx\<rparr>) s2)\<lparr>km := ms'\<rparr>" ctx stk s4]
    show thesis by simp
  qed
  have "runs p (kp s3)" unfolding S(1) by (intro runs_upd p) simp_all
  from runs_schedule(1) [OF this S(2)] show "sched_ok k'" unfolding s'(2) by (rule runs_redispatch_ok [OF _ S(3)])
qed

interpretation read_call: syscall_handler "sys_read kbd" for kbd
proof
  fix p k k' assume p: "runs p (kp (kst k))" and r: "sys_read kbd p k = Inr k'"
  note P = runsD [OF p]
  let ?s = "set_pcb p (\<lambda>c. c\<lparr>p_state := STATE_BLOCKED\<rparr>) (kst k)"
  from r consider "kp (kst k') = kp (kst k)"
    | s1 s2 where "assert_ok (Assert ''pcb_queue_insert(sioread,pcb) == SUCCESS'') (pcb_queue_insert Q_sioread (Some p)) ?s = Inr s1"
        "redispatch s1 = Inr s2" "k' = k\<lparr>kst := s2\<rparr>"
    by (auto simp: sys_read_def Let_def on_kst_Inr bindR_eq_Inr split: if_splits)
  then show "sched_ok k'"
  proof cases
    case 1
    then show ?thesis by (rule sched_okI [OF p])
  next
    case 2
    have inv: "sched_inv {p} (kp ?s)" using sched_inv_upd [OF P(3), of p] by simp
    obtain ps where I: "pcb_queue_insert Q_sioread (Some p) (kp ?s) = Inr (SUCCESS, ps)" "kp s1 = ps"
      using 2(1) by (auto simp: assert_ok_Inr)
    have "sched_inv {} (kp s1)" using runs_insert(1) [OF inv I(1)] I(2) by simp
    then show ?thesis unfolding 2(3) by (rule runs_redispatch_ok [OF _ 2(2)])
  qed
qed

interpretation write_call: syscall_handler sys_write
proof
  fix p k k' assume p: "runs p (kp (kst k))" and "sys_write p k = Inr k'"
  then have "kp (kst k') = kp (kst k)"
    by (auto simp: sys_write_def Let_def bindR_eq_Inr split: if_splits dest: on_con_kst)
  then show "sched_ok k'" by (rule sched_okI [OF p])
qed

text \<open>The calls that leave the process structures as they are.\<close>

interpretation getpid_call: syscall_handler "\<lambda>p. on_kst (sys_getpid p)"
  by unfold_locales (auto simp: on_kst_Inr sys_getpid_def intro: sched_okI)

interpretation getppid_call: syscall_handler "\<lambda>p. on_kst (sys_getppid p)"
  by unfold_locales (auto simp: on_kst_Inr sys_getppid_def intro: sched_okI split: option.splits)

interpretation gettime_call: syscall_handler sys_gettime
  by unfold_locales (auto simp: sys_gettime_def intro: sched_okI)

interpretation getprio_call: syscall_handler "\<lambda>p. on_kst (sys_getprio p)"
  by unfold_locales (auto simp: on_kst_Inr sys_getprio_def intro: sched_okI)

interpretation setprio_call: syscall_handler "\<lambda>p. on_kst (sys_setprio p)"
  by unfold_locales (auto simp: on_kst_Inr sys_setprio_def sched_ok_def intro!: exI runs_upd)

interpretation dmxwrite_call: syscall_handler "sys_dmxwrite junk" for junk
  by unfold_locales (auto simp: sys_dmxwrite_def Let_def intro: sched_okI)

lemma i8255x_transmit_kp: "i8255x_transmit tail frm len k = Inr (r, k') \<Longrightarrow> kp (kst k') = kp (kst k)"
  by (auto simp: i8255x_transmit_def Let_def bindR_eq_Inr split: option.splits if_splits dest!: on_con_kst)

lemma net_transmit_kp: "net_transmit l tail frm len k = Inr (r, k') \<Longrightarrow> kp (kst k') = kp (kst k)"
  by (auto simp: net_transmit_def Let_def bindR_eq_Inr split: prod.splits if_splits dest!: on_con_kst i8255x_transmit_kp)

lemma net_receive_kp: "net_receive buf len k = Inr (r, k') \<Longrightarrow> kp (kst k') = kp (kst k)"
  by (auto simp: net_receive_def i8255x_receive_def Let_def split: option.splits if_splits)

interpretation eth_tx_call: syscall_handler "sys_eth_tx l tail" for l tail
  by unfold_locales
    (auto simp: sys_eth_tx_def Let_def bindR_eq_Inr split: if_splits intro!: sched_okI dest!: net_transmit_kp)

interpretation eth_rx_call: syscall_handler sys_eth_rx
  by unfold_locales
    (auto simp: sys_eth_rx_def Let_def bindR_eq_Inr split: if_splits intro!: sched_okI dest!: net_receive_kp)

lemma sleep_leave:
  assumes "sched_inv {} (kp s)" "current (kp s) = Some p"
    and "(if current (kp s) = Some p then redispatch s else Inr s) = Inr s'"
  shows "sched_ok (k\<lparr>kst := s'\<rparr>)"
  using assms(3) unfolding assms(2) by (auto intro: runs_redispatch_ok [OF assms(1)])

interpretation sleep_call: syscall_handler sys_sleep
proof
  fix p k k' assume p: "runs p (kp (kst k))" and r: "sys_sleep p k = Inr k'"
  let ?leave = "\<lambda>s. if current (kp s) = Some p then redispatch s else Inr s"
  show "sched_ok k'"
  proof (cases "ARG (kst k) p 1 = 0")
    case True
    obtain s1 s2 where S: "schedule (Some p) (set_RET p 0 (kst k)) = Inr s1" "?leave s1 = Inr s2" "k' = k\<lparr>kst := s2\<rparr>"
      using r True by (auto simp: sys_sleep_def Let_def on_kst_Inr bindR_eq_Inr)
    have "runs p (kp (set_RET p 0 (kst k)))" using p by simp
    from runs_schedule [OF this S(1)] show ?thesis unfolding S(3) by (rule sleep_leave [OF _ _ S(2)])
  next
    case False
    let ?s = "set_pcb p (\<lambda>c. c\<lparr>p_wakeup := system_time k + ARG (kst k) p 1\<rparr>) (kst k)"
    have s: "runs p (kp ?s)" using runs_upd [OF p] by simp
    obtain st ps where I: "pcb_queue_insert Q_sleeping (Some p) (kp ?s) = Inr (st, ps)"
      using r False by (auto simp: sys_sleep_def Let_def onP_def bindR_eq_Inr)
    note Q = runs_insert [OF runsD(3) [OF s] I]
    have st: "st = SUCCESS" "sched_inv {} ps" "current ps = Some p" using Q runsD [OF s] by simp_all
    obtain s2 where S: "redispatch (?s\<lparr>kp := ps\<rparr>) = Inr s2" "k' = k\<lparr>kst := s2\<rparr>"
      using r False I st(1,3) by (auto simp: sys_sleep_def Let_def onP_def bindR_eq_Inr on_kst_Inr)
    show ?thesis unfolding S(2) by (rule runs_redispatch_ok [OF _ S(1)]) (simp add: st)
  qed
qed

section \<open>The interrupts\<close>

lemma schedule_None: "schedule None s = Inl (Assert ''pcb != NULL'')"
  by (simp add: schedule.simps)

lemma wake_loop_SucD:
  assumes "wake_loop (Suc n) now s = Inr s'"
  shows "s' = s \<or> (\<exists>x ps s1. pcb_queue_remove Q_sleeping (kp s) = Inr (SUCCESS, Some x, ps) \<and>
    schedule (Some x) (s\<lparr>kp := ps\<rparr>) = Inr s1 \<and> wake_loop n now s1 = Inr s')"
proof (cases "s' = s")
  case False
  then obtain tmp ps s1 where R: "pcb_queue_remove Q_sleeping (kp s) = Inr (SUCCESS, tmp, ps)"
    "schedule tmp (s\<lparr>kp := ps\<rparr>) = Inr s1" "wake_loop n now s1 = Inr s'"
    using assms unfolding wake_loop.simps [of "Suc n" now s] by (auto simp: bindR_eq_Inr split: if_splits option.splits)
  then show ?thesis by (cases tmp) (auto simp: schedule_None)
qed simp

lemma wake_loop_keeps: "wake_loop n now s = Inr s' \<Longrightarrow> runs c (kp s) \<Longrightarrow> runs c (kp s')"
proof (induction n arbitrary: s)
  case 0
  then show ?case by (auto simp: wake_loop.simps [of 0] split: if_splits option.splits)
next
  case (Suc n)
  from Suc.prems(1) consider "s' = s" | x ps s1 where "pcb_queue_remove Q_sleeping (kp s) = Inr (SUCCESS, Some x, ps)"
    "schedule (Some x) (s\<lparr>kp := ps\<rparr>) = Inr s1" "wake_loop n now s1 = Inr s'"
    using wake_loop_SucD by blast
  then show ?case
  proof cases
    case 1
    then show ?thesis using Suc.prems(2) by simp
  next
    case 2
    have "runs c (kp s1)" by (rule runs_wake [OF Suc.prems(2) 2(1) _ 2(2)]) simp
    then show ?thesis by (rule Suc.IH [OF 2(3)])
  qed
qed

lemma charge_keeps:
  assumes "charge s = Inr s'" "runs c (kp s)"
  shows "sched_ok (k\<lparr>kst := s'\<rparr>)"
proof -
  let ?s1 = "kp_upd (upd_pcb c (\<lambda>x. x\<lparr>p_ticks := p_ticks x - 1\<rparr>)) s"
  have s1: "runs c (kp ?s1)" using runs_upd [OF assms(2)] by (simp add: kp_upd_def)
  from assms runsD(1) [OF assms(2)] consider "s' = ?s1"
    | s2 ps where "schedule (Some c) ?s1 = Inr s2" "dispatch ((kp s2)\<lparr>current := None\<rparr>) = Inr ps" "s' = s2\<lparr>kp := ps\<rparr>"
    by (auto simp: charge_def Let_def bindR_eq_Inr split: if_splits)
  then show ?thesis
  proof cases
    case 1
    then show ?thesis using s1 by (auto simp: sched_ok_def)
  next
    case 2
    then have "redispatch s2 = Inr s'" by (simp add: redispatch_def)
    then show ?thesis using runs_redispatch_ok runs_schedule(1) [OF s1 2(1)] by blast
  qed
qed

lemma clk_isr_keeps:
  assumes "clk_isr k = Inr k'" "sched_ok k"
  shows "sched_ok k'"
proof -
  obtain k1 k2 s s' where C: "spin k = Inr k1" "show_status k1 = Inr k2" "wake_loop N_PROCS (system_time k2 + 1) (kst k2) = Inr s"
    "charge s = Inr s'" "k' = pic_eoi (k2\<lparr>system_time := system_time k2 + 1, kst := s'\<rparr>)"
    using assms(1) by (auto simp: clk_isr_def Let_def bindR_eq_Inr)
  have "kst k1 = kst k" using C(1) by (auto simp: spin_def Let_def split: if_splits dest: on_con_kst)
  moreover have "kst k2 = kst k1" using C(2) by (auto simp: show_status_def split: if_splits dest: on_con_kst)
  moreover obtain c where "runs c (kp (kst k))" using assms(2) by (auto simp: sched_ok_def)
  ultimately have "runs c (kp s)" using wake_loop_keeps [OF C(3)] by simp
  from charge_keeps [OF C(4) this, of "k2\<lparr>system_time := system_time k2 + 1\<rparr>"] show ?thesis
    by (simp add: C(5) sched_ok_def pic_eoi_def)
qed

lemma wake_reader_keeps:
  assumes "wake_reader k = Inr k'" "runs c (kp (kst k))"
  shows "runs c (kp (kst k'))"
proof -
  obtain x ps s1 s2 where W: "pcb_queue_remove Q_sioread (kp (kst k)) = Inr (SUCCESS, Some x, ps)"
    "schedule (Some x) s1 = Inr s2" "kp s1 = ps" "kst k' = s2"
    using assms(1) by (auto simp: wake_reader_def Let_def bindR_eq_Inr split: if_splits option.splits)
  show ?thesis unfolding W(4) by (rule runs_wake [OF assms(2) W(1,3,2)])
qed

lemma sio_event_keeps:
  assumes "sio_event iir bs k = Inr (bs', k')" "runs c (kp (kst k))"
  shows "runs c (kp (kst k'))"
proof -
  have "kst k' = kst k \<or> (\<exists>d. wake_reader (k\<lparr>sio := d\<rparr>) = Inr k')"
    using assms(1) unfolding sio_event_def odd_event_def sio_rx_def Let_def
    by (auto simp: bindR_eq_Inr split: if_splits list.splits dest: on_con_kst)
  then show ?thesis using assms(2) wake_reader_keeps [of "k\<lparr>sio := d\<rparr>" for d] by auto
qed

lemma sio_isr_keeps: "sio_isr bs k = Inr k' \<Longrightarrow> runs c (kp (kst k)) \<Longrightarrow> runs c (kp (kst k'))"
proof (induction bs k rule: sio_isr.induct)
  case (2 b bs k)
  show ?case
  proof (cases "b AND 0x0f = UA4_IIR_NO_INT")
    case True
    then show ?thesis using 2(2,3) by (auto simp: pic_eoi_def)
  next
    case False
    then obtain bs' k1 where "sio_event (b AND 0x0f) bs k = Inr (bs', k1)" "sio_isr bs' k1 = Inr k'"
      using 2(2) by (auto simp: bindR_eq_Inr)
    then show ?thesis using 2(1) [OF False, of "(bs', k1)" bs' k1] sio_event_keeps 2(3) by simp
  qed
qed simp

section \<open>Runs of the kernel\<close>

text \<open>The keyboard interrupt; no notification function is installed.\<close>

definition kbd_isr :: "u8 \<Rightarrow> kernel \<Rightarrow> kernel res" where
  "kbd_isr data k = bindR (on_con (keyboard_isr None data) k) (\<lambda>k'. Inr (pic_eoi k'))"

text \<open>The entry of the jump table a system call uses.\<close>

definition call_number :: "u32 \<Rightarrow> nat" where
  "call_number w = (if sint w < 0 \<or> sint w \<ge> int N_SYSCALLS then 0 else nat (sint w))"

abbreviation SYS_waitpid :: nat where "SYS_waitpid \<equiv> 1"
abbreviation SYS_kill :: nat where "SYS_kill \<equiv> 11"

datatype event = Tick | Serial "u8 list" | Key u8 | Call nat env

inductive kstep :: "kernel \<Rightarrow> event \<Rightarrow> kernel \<Rightarrow> bool" where
  tick: "clk_isr k = Inr k' \<Longrightarrow> kstep k Tick k'"
| serial: "sio_isr bs k = Inr k' \<Longrightarrow> kstep k (Serial bs) k'"
| key: "kbd_isr b k = Inr k' \<Longrightarrow> kstep k (Key b) k'"
| call: "current (kp (kst k)) = Some p \<Longrightarrow> n = call_number (REG r_eax p (kst k)) \<Longrightarrow> sys_isr e k = Inr k' \<Longrightarrow>
    kstep k (Call n e) k'"

inductive_cases kstep_TickE: "kstep k Tick k'"
inductive_cases kstep_CallE: "kstep k (Call n e) k'"
inductive_simps kstep_Call_iff: "kstep k (Call n e) k'"

inductive kernel_run :: "kernel \<Rightarrow> event list \<Rightarrow> kernel \<Rightarrow> bool" where
  halt: "kernel_run k [] k"
| again: "kstep k e k' \<Longrightarrow> kernel_run k' es k'' \<Longrightarrow> kernel_run k (e # es) k''"

definition ordinary :: "event \<Rightarrow> bool" where
  "ordinary e \<longleftrightarrow> (case e of Call n env \<Rightarrow> n \<noteq> SYS_waitpid \<and> n \<noteq> SYS_kill | _ \<Rightarrow> True)"

text \<open>Every handler of the table but those of \<^verbatim>\<open>waitpid\<close> and \<^verbatim>\<open>kill\<close> keeps the contract.\<close>

lemma syscalls_handler:
  assumes "n < N_SYSCALLS" "n \<noteq> SYS_waitpid" "n \<noteq> SYS_kill"
  shows "syscall_handler (syscalls e ! n)"
proof -
  have "n \<in> {0, 2, 3, 4, 5, 6, 7, 8, 9, 10, 12, 13, 14, 15}" using assms by (auto simp: numeral_eq_Suc less_Suc_eq)
  then show ?thesis
    by (auto simp: syscalls_def exit_call.syscall_handler_axioms fork_call.syscall_handler_axioms
        exec_call.syscall_handler_axioms read_call.syscall_handler_axioms write_call.syscall_handler_axioms
        getpid_call.syscall_handler_axioms getppid_call.syscall_handler_axioms gettime_call.syscall_handler_axioms
        getprio_call.syscall_handler_axioms setprio_call.syscall_handler_axioms sleep_call.syscall_handler_axioms
        dmxwrite_call.syscall_handler_axioms eth_tx_call.syscall_handler_axioms eth_rx_call.syscall_handler_axioms)
qed

lemma sys_isr_keeps:
  assumes "sys_isr e k = Inr k'" "runs p (kp (kst k))" "n = call_number (REG r_eax p (kst k))" "ordinary (Call n e)"
  shows "sched_ok k'"
proof -
  obtain k1 where k1: "kp (kst k1) = kp (kst k)" "bindR ((syscalls e ! n) p k1) (\<lambda>k2. Inr (pic_eoi k2)) = Inr k'"
  proof (cases "sint (REG r_eax p (kst k)) < 0 \<or> int N_SYSCALLS \<le> sint (REG r_eax p (kst k))")
    case True
    then show thesis using assms(1,3) runsD(1) [OF assms(2)]
        that [of "k\<lparr>kst := set_ARG p 1 (word_of_int EXIT_BAD_SYSCALL) (kst k)\<rparr>"]
      by (simp add: sys_isr_def call_number_def Let_def split: if_splits)
  next
    case False
    then show thesis using assms(1,3) runsD(1) [OF assms(2)] that [of k]
      by (auto simp: sys_isr_def call_number_def Let_def split: if_splits)
  qed
  have "nat (sint w) < N_SYSCALLS" if "sint w < int N_SYSCALLS" for w :: u32 using that by linarith
  then have "n < N_SYSCALLS" by (auto simp: assms(3) call_number_def)
  then have "syscall_handler (syscalls e ! n)" using assms(4) by (intro syscalls_handler) (simp_all add: ordinary_def)
  moreover have "runs p (kp (kst k1))" by (simp add: k1(1) assms(2))
  ultimately show ?thesis using syscall_handler.keeps_eoi k1(2) by blast
qed

lemma kstep_keeps: "kstep k e k' \<Longrightarrow> sched_ok k \<Longrightarrow> ordinary e \<Longrightarrow> sched_ok k'"
proof (induction rule: kstep.induct)
  case (tick k k')
  then show ?case by (blast intro: clk_isr_keeps)
next
  case (serial bs k k')
  then obtain c where "runs c (kp (kst k))" by (auto simp: sched_ok_def)
  then have "runs c (kp (kst k'))" by (rule sio_isr_keeps [OF serial(1)])
  then show ?case by (auto simp: sched_ok_def)
next
  case (key b k k')
  then show ?case by (auto simp: kbd_isr_def bindR_eq_Inr pic_eoi_def sched_ok_def dest!: on_con_kst)
next
  case (call k p n e k')
  then have "runs p (kp (kst k))" by (auto simp: sched_ok_def runs_def)
  then show ?case using sys_isr_keeps [OF call(3)] call by blast
qed

lemma kernel_run_ok: "kernel_run k es k' \<Longrightarrow> sched_ok k \<Longrightarrow> \<forall>e\<in>set es. ordinary e \<Longrightarrow> sched_ok k'"
  by (induction rule: kernel_run.induct) (auto intro: kstep_keeps)

lemma placed_unique:
  assumes "placed {c} L s" "x < N_PROCS" "x \<noteq> c"
  shows "\<exists>!q. x \<in> set (L q)"
  using placedD(4) [OF assms(1), of x] qreps_unique_queue [OF placedD(1) [OF assms(1)]] assms(2,3) by blast

definition all_queues :: "qid list" where
  "all_queues = [Q_freelist, Q_ready, Q_waiting, Q_sleeping, Q_zombie, Q_sioread]"

lemma placed_lengths:
  assumes "placed {c} L s"
  shows "sum_list (map (\<lambda>q. unat (q_length (queues s q))) all_queues) + 1 = N_PROCS"
proof -
  have R: "qrep s q (L q)" "distinct (L q)" for q
    using qrepsD(1) [OF placedD(1) [OF assms]] qrep_distinct by blast+
  have len: "unat (q_length (queues s q)) = card (set (L q))" for q
    using R [of q] qrep_length [OF R(1), of q] by (simp add: qrep_def distinct_card unsigned_of_nat take_bit_nat_eq_self)
  have dis: "set (L q) \<inter> set (L q') = {}" if "q \<noteq> q'" for q q' using qrepsD(3) [OF placedD(1) [OF assms] that] .
  have "(\<Union>q\<in>set all_queues. set (L q)) = {..<N_PROCS} - {c}"
    using placedD(3,4,7) [OF assms] by (auto simp: all_queues_def) (metis qid.exhaust)
  moreover have "c < N_PROCS" using placedD(2) [OF assms] by simp
  ultimately have "card (\<Union>q\<in>set all_queues. set (L q)) = N_PROCS - 1" by simp
  moreover have "card (\<Union>q\<in>set all_queues. set (L q)) = (\<Sum>q\<in>set all_queues. card (set (L q)))"
    by (rule card_UN_disjoint) (auto simp: dis)
  moreover have "distinct all_queues" by (simp add: all_queues_def)
  ultimately show ?thesis by (simp add: len sum_list_distinct_conv_sum_set)
qed

section \<open>Properties\<close>

text \<open>A small state for the witnesses: PCB 0 runs and calls \<^verbatim>\<open>getpid\<close>, the other PCBs are free.\<close>

definition sample_run :: kernel where
  "sample_run = sample_kernel\<lparr>cio := cio_setscroll 0 7 99 99 sample_cio, kst :=
    \<lparr>kp = \<lparr>ptable = (\<lambda>x. if x = 0 then sample_pcb\<lparr>p_state := STATE_RUNNING, p_pid := 7, p_ticks := 3, p_context := 0x301f00\<rparr>
                        else sample_pcb\<lparr>p_next := if x + 1 < N_PROCS then Some (x + 1) else None\<rparr>),
       queues = (\<lambda>q. \<lparr>q_head = None, q_tail = None, q_length = 0, q_order = init_order q\<rparr>)
         (Q_freelist := \<lparr>q_head = Some 1, q_tail = Some 24, q_length = 24, q_order = O_FIFO\<rparr>),
       current = Some 0, next_pid = 9, init_pcb = None\<rparr>,
     km = sample_kms\<lparr>k_mem := store32 (k_mem sample_kms) 0x301f30 6\<rparr>\<rparr>\<rparr>"

definition run_lists :: "qid \<Rightarrow> nat list" where
  "run_lists = (\<lambda>_. [])(Q_freelist := [1, 2, 3, 4, 5, 6, 7, 8, 9, 10, 11, 12, 13, 14, 15, 16, 17, 18, 19, 20, 21, 22, 23, 24])"

lemma sample_run_ok: "sched_ok sample_run"
proof -
  let ?s = "kp (kst sample_run)"
  have fl: "qrep ?s Q_freelist (run_lists Q_freelist)"
    by (simp add: qrep_def sample_run_def run_lists_def links_def last_opt_def sample_pcb_def)
  have "qrep ?s q (run_lists q)" for q
    using fl by (cases "q = Q_freelist") (simp_all add: qrep_def sample_run_def run_lists_def)
  moreover have mem: "x \<in> set (run_lists q) \<longleftrightarrow> q = Q_freelist \<and> 1 \<le> x \<and> x < N_PROCS" for x q
  proof -
    have "run_lists Q_freelist = [1..<N_PROCS]" by (simp add: run_lists_def upt_rec)
    then show ?thesis by (cases "q = Q_freelist") (auto simp: run_lists_def)
  qed
  ultimately have "qreps ?s run_lists"
    by (auto simp: qreps_def) (simp_all add: sample_run_def links_def sample_pcb_def)
  then have "placed {0} run_lists ?s"
    by (auto simp: placed_def mem) (simp_all add: sample_run_def sample_pcb_def split: if_splits)
  then have "sched_inv {0} ?s" unfolding sched_inv_def by blast
  moreover have "current ?s = Some 0" "p_state (ptable ?s 0) = STATE_RUNNING" by (simp_all add: sample_run_def)
  ultimately show ?thesis unfolding sched_ok_def runs_def by blast
qed

lemma sample_run_call: "\<exists>k'. kernel_run sample_run [Call 6 e] k'"
proof -
  let ?s = "kst sample_run"
  have cur: "current (kp ?s) = Some 0" "p_context (ptable (kp ?s) 0) = 0x301f00" by (simp_all add: sample_run_def)
  have "REG r_eax 0 ?s = 6" by (simp add: REG_def cur) (simp add: sample_run_def)
  then have "call_number (REG r_eax 0 ?s) = 6" "\<exists>k'. sys_isr e sample_run = Inr k'"
    by (simp_all add: call_number_def sys_isr_def cur syscalls_def on_kst_def sys_getpid_def)
  then show ?thesis using kstep.call [OF cur(1), of 6 e] kernel_run.intros by metis
qed



text \<open>The same in numbers: after such a run the length fields of the six queues add up to the size of the
  process table less the one process that runs.\<close>

theorem kernel_run_queue_lengths:
  assumes "kernel_run k es k'" "sched_ok k" "\<forall>e\<in>set es. ordinary e"
  shows "sum_list (map (\<lambda>q. unat (pcb_queue_length q (kp (kst k')))) all_queues) + 1 = N_PROCS"
proof -
  obtain c L where "placed {c} L (kp (kst k'))"
    using kernel_run_ok [OF assms] unfolding sched_ok_def runs_def sched_inv_def by blast
  then show ?thesis using placed_lengths by (simp add: pcb_queue_length_def)
qed

theorem kernel_run_queue_lengths_witness:
  "\<forall>e. \<exists>k'. kernel_run sample_run [Call 6 e] k' \<and>
     sum_list (map (\<lambda>q. unat (pcb_queue_length q (kp (kst k')))) all_queues) + 1 = N_PROCS"
proof
  fix e
  obtain k' where k': "kernel_run sample_run [Call 6 e] k'" using sample_run_call by blast
  have "\<forall>x\<in>set [Call 6 e]. ordinary x" by (simp add: ordinary_def)
  from kernel_run_queue_lengths [OF k' sample_run_ok this] k' show "\<exists>k'. kernel_run sample_run [Call 6 e] k' \<and>
     sum_list (map (\<lambda>q. unat (pcb_queue_length q (kp (kst k')))) all_queues) + 1 = N_PROCS"
    by blast
qed

section \<open>Sharing the CPU\<close>

fun clock_ticks :: "nat \<Rightarrow> kernel \<Rightarrow> kernel res" where
  "clock_ticks 0 k = Inr k"
| "clock_ticks (Suc n) k = bindR (clk_isr k) (clock_ticks n)"

lemma clk_isr_no_sleepers:
  assumes "qreps (kp (kst k)) L" "L Q_sleeping = []" "0 < scroll_min_y (cio k)"
  obtains s1 k2 where "scroll_min_y (cio k2) = scroll_min_y (cio k)"
    "clk_isr k = bindR (charge s1) (\<lambda>s'. Inr (pic_eoi (k2\<lparr>kst := s'\<rparr>)))" "qreps (kp s1) L"
    "\<forall>x. same_pcb (ptable (kp s1) x) (ptable (kp (kst k)) x)" "current (kp s1) = current (kp (kst k))"
proof -
  have d: "[] = due (system_time k + 1) (kst k) (L Q_sleeping)" by (simp add: due_def assms(2))
  have "\<forall>x\<in>set (L Q_sleeping). p_state (ptable (kp (kst k)) x) \<noteq> STATE_KILLED" by (simp add: assms(2))
  from clk_isr_wakes [OF assms(1) this assms(3) d] obtain s1 k2 where S: "clk_isr k = bindR (charge s1) (\<lambda>s'. Inr (pic_eoi (k2\<lparr>kst := s'\<rparr>)))"
    "scroll_min_y (cio k2) = scroll_min_y (cio k)" "current (kp s1) = current (kp (kst k))"
    "qreps (kp s1) (L(Q_sleeping := drop (length ([] :: nat list)) (L Q_sleeping), Q_ready := readied (prio_of (kst k)) [] (L Q_ready)))"
    "\<forall>x. same_pcb (ptable (kp s1) x) (if x \<in> set [] then (ptable (kp (kst k)) x)\<lparr>p_state := STATE_READY\<rparr> else ptable (kp (kst k)) x)" .
  have "L(Q_sleeping := drop (length ([] :: nat list)) (L Q_sleeping), Q_ready := readied (prio_of (kst k)) [] (L Q_ready)) = L"
    by (simp add: readied_def)
  with S(4) have "qreps (kp s1) L" by (simp only:)
  with S(1-3,5) show ?thesis by (intro that [of k2 s1]) simp_all
qed

text \<open>An interrupt that leaves the running process a tick.\<close>

lemma clk_isr_continue:
  assumes "qreps (kp (kst k)) L" "L Q_sleeping = []" "0 < scroll_min_y (cio k)" "current (kp (kst k)) = Some c"
    and "p_ticks (ptable (kp (kst k)) c) - 1 = v" "\<not> v < 1"
  obtains k' where "clk_isr k = Inr k'" "scroll_min_y (cio k') = scroll_min_y (cio k)" "qreps (kp (kst k')) L"
    "current (kp (kst k')) = Some c"
    "\<forall>x. same_pcb (ptable (kp (kst k')) x) (if x = c then (ptable (kp (kst k)) x)\<lparr>p_ticks := v\<rparr> else ptable (kp (kst k)) x)"
proof -
  obtain s1 k2 where S: "scroll_min_y (cio k2) = scroll_min_y (cio k)"
    "clk_isr k = bindR (charge s1) (\<lambda>s'. Inr (pic_eoi (k2\<lparr>kst := s'\<rparr>)))" "qreps (kp s1) L"
    "\<forall>x. same_pcb (ptable (kp s1) x) (ptable (kp (kst k)) x)" "current (kp s1) = current (kp (kst k))"
    by (rule clk_isr_no_sleepers [OF assms(1-3)])
  let ?s' = "kp_upd (upd_pcb c (\<lambda>x. x\<lparr>p_ticks := p_ticks x - 1\<rparr>)) s1"
  have v: "p_ticks (ptable (kp s1) c) - 1 = v" using same_pcbD(10) [OF S(4) [rule_format, of c]] assms(5) by simp
  then have "charge s1 = Inr ?s'" using S(5) assms(4,6) by (simp add: charge_def Let_def kp_upd_def)
  moreover have "qreps (kp ?s') L" using S(3) by (auto simp: kp_upd_def intro: qreps_upd_pcb)
  moreover have "same_pcb (ptable (kp ?s') x) (if x = c then (ptable (kp (kst k)) x)\<lparr>p_ticks := v\<rparr> else ptable (kp (kst k)) x)" for x
    using S(4) [rule_format, of x] v by (auto simp: kp_upd_def same_pcb_iff)
  moreover have "current (kp ?s') = Some c" using S(5) assms(4) by (simp add: kp_upd_def)
  ultimately show ?thesis using S(1,2) that [of "pic_eoi (k2\<lparr>kst := ?s'\<rparr>)"] by (simp add: pic_eoi_def)
qed

text \<open>C10. Nobody keeps the CPU from a ready process of the same priority: when no process sleeps and the head of
  the ready queue has a priority number not above that of the running process, the running process keeps the CPU for
  as many clock interrupts as it has ticks left; at the last one the head runs with a full quantum and
  the old process waits behind its equals.\<close>

theorem clock_round_robin:
  assumes "qreps (kp (kst k)) L" "current (kp (kst k)) = Some c" "c < N_PROCS" "\<forall>q. c \<notin> set (L q)"
    and "p_state (ptable (kp (kst k)) c) \<noteq> STATE_KILLED" "L Q_sleeping = []" "L Q_ready = r # rs"
    and "p_priority (ptable (kp (kst k)) r) \<le> p_priority (ptable (kp (kst k)) c)"
    and "p_ticks (ptable (kp (kst k)) c) = of_nat n" "0 < n" "n < 2 ^ 32" "0 < scroll_min_y (cio k)"
  shows "(\<forall>j<n. \<exists>k1. clock_ticks j k = Inr k1 \<and> current (kp (kst k1)) = Some c) \<and>
    (\<exists>k'. clock_ticks n k = Inr k' \<and> current (kp (kst k')) = Some r \<and>
       qreps (kp (kst k')) (L(Q_ready := insert_after (prio_of (kst k)) c rs)) \<and>
       p_ticks (ptable (kp (kst k')) r) = QUANTUM_STANDARD)"
  using assms
proof (induction n arbitrary: k)
  case (Suc n)
  let ?s = "kst k"
  show ?case
  proof (cases n)
    case 0
    obtain s1 k2 where S: "clk_isr k = bindR (charge s1) (\<lambda>s'. Inr (pic_eoi (k2\<lparr>kst := s'\<rparr>)))" "qreps (kp s1) L"
      "\<forall>x. same_pcb (ptable (kp s1) x) (ptable (kp ?s) x)" "current (kp s1) = Some c"
      using Suc.prems(2) by (rule_tac clk_isr_no_sleepers [OF Suc.prems(1,6,12)]) metis
    note same = same_pcbD [OF S(3) [rule_format]]
    have R: "insert_after (prio_of s1) c (L Q_ready) = r # insert_after (prio_of ?s) c rs"
      using Suc.prems(7,8) by (simp add: insert_after_def same(8))
    have "p_ticks (ptable (kp s1) c) = 1" "p_state (ptable (kp s1) c) \<noteq> STATE_KILLED"
      using Suc.prems(5,9) 0 by (simp_all add: same)
    moreover have "\<And>q. c \<notin> set (L q)" using Suc.prems(4) by blast
    ultimately obtain s' where "charge s1 = Inr s'" "qreps (kp s') (L(Q_ready := insert_after (prio_of ?s) c rs))"
      "current (kp s') = Some r" "p_ticks (ptable (kp s') r) = QUANTUM_STANDARD"
      using charge_preempt [OF S(2,4) _ Suc.prems(3)] unfolding R list.sel by blast
    then show ?thesis using S(1) Suc.prems(2) 0 by (simp add: pic_eoi_def fun_upd_def)
  next
    case (Suc m)
    have "unat (of_nat n :: u32) = n" using Suc.prems(11) by (subst unat_of_nat) simp
    then have "\<not> (of_nat n :: u32) < 1" "p_ticks (ptable (kp ?s) c) - 1 = of_nat n" using Suc Suc.prems(9) by auto
    then obtain k' where K: "clk_isr k = Inr k'" "scroll_min_y (cio k') = scroll_min_y (cio k)" "qreps (kp (kst k')) L"
      "current (kp (kst k')) = Some c"
      "\<forall>x. same_pcb (ptable (kp (kst k')) x) (if x = c then (ptable (kp ?s) x)\<lparr>p_ticks := of_nat n\<rparr> else ptable (kp ?s) x)"
      using clk_isr_continue [OF Suc.prems(1,6,12,2)] by metis
    have same: "p_priority (ptable (kp (kst k')) x) = p_priority (ptable (kp ?s) x)"
      "p_state (ptable (kp (kst k')) x) = p_state (ptable (kp ?s) x)" "p_ticks (ptable (kp (kst k')) c) = of_nat n" for x
      using K(5) [rule_format, of x] K(5) [rule_format, of c] by (auto simp: same_pcb_iff split: if_splits)
    then have prio: "prio_of (kst k') = prio_of ?s" by auto
    note IH = Suc.IH [OF K(3,4) Suc.prems(3,4) _ Suc.prems(6,7), unfolded same K(2) prio]
    have "\<exists>k1. clock_ticks j k = Inr k1 \<and> current (kp (kst k1)) = Some c" if "j < Suc n" for j
      using that IH K(1) Suc.prems Suc by (cases j) simp_all
    moreover have eq: "clock_ticks (Suc n) k = clock_ticks n k'" by (simp add: K(1))
    ultimately show ?thesis unfolding eq using IH Suc.prems Suc by simp
  qed
qed simp

theorem clock_round_robin_witness:
  "\<exists>k'. clock_ticks 2 (sample_kernel\<lparr>kst := sample_call 5 2, cio := cio_setscroll 0 7 99 99 sample_cio\<rparr>) = Inr k' \<and>
     current (kp (kst k')) = Some 5 \<and> qreps (kp (kst k')) (call_lists(Q_ready := [3, 2]))"
proof -
  let ?k = "sample_kernel\<lparr>kst := sample_call 5 2, cio := cio_setscroll 0 7 99 99 sample_cio\<rparr>"
  have top: "0 < scroll_min_y (cio_setscroll 0 7 99 99 sample_cio)"
    by (simp add: cio_setscroll_def sample_cio_def cio_init_def bound_def)
  have reps: "qreps (kp (kst ?k)) call_lists" using call_qreps by simp
  have "insert_after (prio_of (sample_call 5 2)) 3 [2] = [3, 2]"
    by (simp add: insert_after_def call_simps word_le_nat_alt)
  with clock_round_robin [OF reps, of 3 5 "[2]" 2] top show ?thesis by (auto simp: call_simps)
qed

end
