(* ===== verification/Ulib.thy ===== *)
theory Ulib
  imports Klib
begin

unbundle bit_operations_syntax

text \<open>
  The user library, \<^verbatim>\<open>ulibc.c\<close> and the files under \<^verbatim>\<open>usercode\<close> that it includes. Its routines
  repeat those of \<^verbatim>\<open>klibc.c\<close>; here they are modelled one level lower, on memory and pointers instead of on the list of
  the bytes stored so far, and shown to do what the models in the theories \<^verbatim>\<open>Memory\<close> and \<^verbatim>\<open>Klib\<close> say.
  The state of a routine that builds a string is the memory and the pointer \<open>(m, buf)\<close>.
\<close>

section \<open>Memory blocks and strings\<close>

function umemclr :: "mem \<Rightarrow> addr \<Rightarrow> u32 \<Rightarrow> mem" where
  "umemclr m dest len = (if len = 0 then m else umemclr (m(dest := 0)) (dest + 1) (len - 1))"
  by pat_completeness auto
termination
  by (relation "measure (\<lambda>(m, dest, len). unat len)") (auto simp: unat_minus_one unat_gt_0)

function umemset :: "mem \<Rightarrow> addr \<Rightarrow> u32 \<Rightarrow> u32 \<Rightarrow> mem" where
  "umemset m bp len v = (if len = 0 then m else umemset (m(bp := ucast v)) (bp + 1) (len - 1) v)"
  by pat_completeness auto
termination
  by (relation "measure (\<lambda>(m, bp, len, v). unat len)") (auto simp: unat_minus_one unat_gt_0)

declare umemclr.simps [simp del] umemset.simps [simp del]

definition umemcpy :: "mem \<Rightarrow> addr \<Rightarrow> addr \<Rightarrow> u32 \<Rightarrow> mem" where
  "umemcpy m dst src len = copy_up m dst src len"

definition umemmove :: "mem \<Rightarrow> addr \<Rightarrow> addr \<Rightarrow> u32 \<Rightarrow> mem" where
  "umemmove m dst src len =
     (if src < dst \<and> src + len > dst then copy_down m (dst + len) (src + len) len
      else copy_up m dst src len)"

definition ublkmov :: "mem \<Rightarrow> addr \<Rightarrow> addr \<Rightarrow> u32 \<Rightarrow> mem" where
  "ublkmov m dst src len =
     (if dst AND 3 \<noteq> 0 \<or> src AND 3 \<noteq> 0 \<or> len AND 3 \<noteq> 0 then umemmove m dst src len
      else let n = len div 4
           in if src < dst \<and> src + 4 * n > dst
              then word_down m (dst + 4 * n) (src + 4 * n) n
              else word_up m dst src n)"

definition ubound :: "u32 \<Rightarrow> u32 \<Rightarrow> u32 \<Rightarrow> u32" where
  "ubound mn v mx = (let v1 = (if v < mn then mn else v) in if v1 > mx then mx else v1)"

partial_function (option) ustrlen_loop :: "mem \<Rightarrow> addr \<Rightarrow> u32 \<Rightarrow> u32 option" where
  "ustrlen_loop m str len = (if m str = 0 then Some len else ustrlen_loop m (str + 1) (len + 1))"

definition ustrlen :: "mem \<Rightarrow> addr \<Rightarrow> u32 option" where
  "ustrlen m str = ustrlen_loop m str 0"

partial_function (option) ustrcpy_loop :: "mem \<Rightarrow> addr \<Rightarrow> addr \<Rightarrow> mem option" where
  "ustrcpy_loop m dst src =
     (let c = m src; m' = m(dst := c)
      in if c = 0 then Some m' else ustrcpy_loop m' (dst + 1) (src + 1))"

definition ustrcpy :: "mem \<Rightarrow> addr \<Rightarrow> addr \<Rightarrow> mem option" where
  "ustrcpy m dst src = ustrcpy_loop m dst src"

partial_function (option) ufind_nul :: "mem \<Rightarrow> addr \<Rightarrow> addr option" where
  "ufind_nul m dst = (if m dst = 0 then Some dst else ufind_nul m (dst + 1))"

definition ustrcat :: "mem \<Rightarrow> addr \<Rightarrow> addr \<Rightarrow> mem option" where
  "ustrcat m dst src = Option.bind (ufind_nul m dst) (\<lambda>d. ustrcpy_loop m d src)"

partial_function (option) ustrcmp :: "mem \<Rightarrow> addr \<Rightarrow> addr \<Rightarrow> int option" where
  "ustrcmp m s1 s2 =
     (if m s1 \<noteq> 0 \<and> m s1 = m s2 then ustrcmp m (s1 + 1) (s2 + 1)
      else Some (sint (m s1) - sint (m s2)))"

partial_function (option) ustr2int_loop :: "mem \<Rightarrow> addr \<Rightarrow> int \<Rightarrow> u8 \<Rightarrow> int \<Rightarrow> int option" where
  "ustr2int_loop m str base bchar num =
     (if m str = 0 \<or> sint (m str) < 48 \<or> sint (m str) > sint bchar then Some num
      else ustr2int_loop m (str + 1) base bchar (wrap32 (num * base + sint (m str) - 48)))"

definition ustr2int :: "mem \<Rightarrow> addr \<Rightarrow> int \<Rightarrow> int option" where
  "ustr2int m str base =
     (let (sign, str') = (if m str = 45 then (- 1, str + 1) else (1, str));
          bchar = (if base \<noteq> 10 then word_of_int (48 + base - 1) else 57)
      in map_option (\<lambda>num. wrap32 (num * sign)) (ustr2int_loop m str' base bchar 0))"

section \<open>Conversions into a buffer\<close>

text \<open>\<^verbatim>\<open>*buf++ = c\<close>.\<close>

fun putc :: "u8 \<Rightarrow> mem \<times> addr \<Rightarrow> mem \<times> addr" where
  "putc c (m, buf) = (m(buf := c), buf + 1)"

function ucvtdec0 :: "mem \<times> addr \<Rightarrow> int \<Rightarrow> mem \<times> addr" where
  "ucvtdec0 p v =
     (let quotient = v sdiv 10;
          (q, v') = (if quotient < 0 then (214748364, 8) else (quotient, v));
          p' = (if q \<noteq> 0 then ucvtdec0 p q else p)
      in putc (word_of_int (v' smod 10 + 48)) p')"
  by pat_completeness auto
termination
proof (relation "measure (\<lambda>(p, v). if v < 0 then 2147483648 else nat v)", goal_cases)
  case (2 p v quotient x q v')
  then show ?case by (auto simp: signed_divide_int_def sgn_if split: if_splits)
qed simp

declare ucvtdec0.simps [simp del]

definition ucvtdec :: "mem \<Rightarrow> addr \<Rightarrow> int \<Rightarrow> mem \<times> u32" where
  "ucvtdec m buf v =
     (let (p, v') = (if v < 0 then (putc 45 (m, buf), wrap32 (- v)) else ((m, buf), v));
          (m', bp) = ucvtdec0 p v'
      in (m'(bp := 0), bp - buf))"

definition ucvtuns0 :: "mem \<times> addr \<Rightarrow> u32 \<Rightarrow> mem \<times> addr" where
  "ucvtuns0 p v =
     (let quotient = v div 10;
          p' = (if quotient \<noteq> 0 then ucvtdec0 p (sint quotient) else p)
      in putc (ucast (v mod 10 + 48)) p')"

definition ucvtuns :: "mem \<Rightarrow> addr \<Rightarrow> u32 \<Rightarrow> mem \<times> u32" where
  "ucvtuns m buf v = (let (m', bp) = ucvtuns0 (m, buf) v in (m'(bp := 0), bp - buf))"

definition ucvthex_step :: "nat \<Rightarrow> (mem \<times> addr) \<times> u32 \<times> u32 \<Rightarrow> (mem \<times> addr) \<times> u32 \<times> u32" where
  "ucvthex_step i = (\<lambda>(p, chars_stored, v).
     let val = v AND 0xf0000000
     in if chars_stored \<noteq> 0 \<or> val \<noteq> 0 \<or> i = 7
        then (putc (hexdigits ! unat (drop_bit 28 val AND 0xf)) p, chars_stored + 1, push_bit 4 v)
        else (p, chars_stored, push_bit 4 v))"

definition ucvthex :: "mem \<Rightarrow> addr \<Rightarrow> u32 \<Rightarrow> mem \<times> u32" where
  "ucvthex m buf v = (let ((m', bp), chars_stored, _) = fold ucvthex_step [0..<8] ((m, buf), 0, v) in (m'(bp := 0), chars_stored))"

definition ucvtoct_step :: "nat \<Rightarrow> (mem \<times> addr) \<times> bool \<times> u32 \<times> u32 \<Rightarrow> (mem \<times> addr) \<times> bool \<times> u32 \<times> u32" where
  "ucvtoct_step i = (\<lambda>(p, chars_stored, val, v).
     let (p', cs') = (if i = 10 \<or> val \<noteq> 0 \<or> chars_stored
                      then (putc (ucast ((val AND 7) + 48)) p, True) else (p, chars_stored));
         v' = push_bit 3 v
     in (p', cs', drop_bit 29 (v' AND 0xe0000000), v'))"

definition ucvtoct :: "mem \<Rightarrow> addr \<Rightarrow> u32 \<Rightarrow> mem \<times> u32" where
  "ucvtoct m buf v =
     (let ((m', bp), _) = fold ucvtoct_step [0..<11] ((m, buf), False, drop_bit 30 (v AND 0xc0000000), v)
      in (m'(bp := 0), bp - buf))"

section \<open>Padding and formatted output\<close>

function upad :: "mem \<times> addr \<Rightarrow> int \<Rightarrow> u8 \<Rightarrow> mem \<times> addr" where
  "upad p extra padchar = (if extra > 0 then upad (putc padchar p) (extra - 1) padchar else p)"
  by pat_completeness auto
termination by (relation "measure (\<lambda>(p, extra, padchar). nat extra)") auto

declare upad.simps [simp del]

definition upadstr :: "mem \<times> addr \<Rightarrow> addr \<Rightarrow> int \<Rightarrow> int \<Rightarrow> bool \<Rightarrow> u8 \<Rightarrow> (mem \<times> addr) option" where
  "upadstr p str len width leftadjust padchar =
     Option.bind (if len < 0 then map_option sint (ustrlen (fst p) str) else Some len) (\<lambda>len.
       let extra = wrap32 (width - len);
           p1 = (if extra > 0 \<and> \<not> leftadjust then upad p extra padchar else p);
           p2 = fold (\<lambda>i p. putc (fst p (str + of_nat i)) p) [0..<nat len] p1
       in Some (if extra > 0 \<and> leftadjust then upad p2 extra padchar else p2))"

partial_function (option) ufmt_width :: "mem \<Rightarrow> int \<Rightarrow> u8 \<Rightarrow> addr \<Rightarrow> (int \<times> u8 \<times> addr) option" where
  "ufmt_width m width ch fmt =
     (if 48 \<le> ch \<and> ch \<le> 57 then ufmt_width m (wrap32 (width * 10 + (uint ch - 48))) (m fmt) (fmt + 1)
      else Some (width, ch, fmt))"

definition ufmt_opts :: "mem \<Rightarrow> addr \<Rightarrow> (bool \<times> u8 \<times> int \<times> u8 \<times> addr) option" where
  "ufmt_opts m fmt =
     (let (left, ch, f) = (if m fmt = 45 then (True, m (fmt + 1), fmt + 2) else (False, m fmt, fmt + 1));
          (padchar, ch', f') = (if ch = 48 then (48, m f, f + 1) else (32, ch, f))
      in map_option (\<lambda>(width, c, f''). (left, padchar, width, c, f'')) (ufmt_width m 0 ch' f'))"

text \<open>The \<^verbatim>\<open>switch\<close> on the conversion character; \<open>buf\<close> is the address of the local array and \<open>ap\<close> that of
  the next argument on the stack.\<close>

definition uconvert :: "addr \<Rightarrow> mem \<times> addr \<Rightarrow> u8 \<Rightarrow> int \<Rightarrow> bool \<Rightarrow> u8 \<Rightarrow> addr \<Rightarrow> ((mem \<times> addr) \<times> addr) option" where
  "uconvert buf p ch width left padchar ap =
     (let (m, dst) = p; a = load32 m ap;
          with_buf = (\<lambda>(m', len). map_option (\<lambda>p. (p, ap + 4)) (upadstr (m', dst) buf (sint len) width left padchar))
      in if ch = 99 then with_buf (m(buf := ucast a, buf + 1 := 0), 1)
         else if ch = 100 then with_buf (ucvtdec m buf (sint a))
         else if ch = 115 then map_option (\<lambda>p. (p, ap + 4)) (upadstr (m, dst) a (- 1) width left padchar)
         else if ch = 120 then with_buf (ucvthex m buf a)
         else if ch = 111 then with_buf (ucvtoct m buf a)
         else if ch = 117 then with_buf (ucvtuns m buf a)
         else Some (p, ap))"

partial_function (option) usprint_loop :: "addr \<Rightarrow> mem \<times> addr \<Rightarrow> addr \<Rightarrow> addr \<Rightarrow> (mem \<times> addr) option" where
  "usprint_loop buf p fmt ap =
     (let ch = fst p fmt in
      if ch = 0 then Some p
      else if ch = 37 then
        Option.bind (ufmt_opts (fst p) (fmt + 1)) (\<lambda>(left, padchar, width, c, f).
        Option.bind (uconvert buf p c width left padchar ap) (\<lambda>(p', ap'). usprint_loop buf p' f ap'))
      else usprint_loop buf (putc ch p) (fmt + 1) ap)"

definition usprint :: "addr \<Rightarrow> mem \<Rightarrow> addr \<Rightarrow> addr \<Rightarrow> addr \<Rightarrow> mem option" where
  "usprint buf m dst fmt ap = map_option (\<lambda>(m', d). m'(d := 0)) (usprint_loop buf (m, dst) fmt ap)"

section \<open>The routines are those of the kernel\<close>

lemma umemclr_eq: "umemclr m dest len = memclr m dest len"
  by (induction m dest len rule: umemclr.induct) (subst umemclr.simps, subst memclr.simps, simp add: fun_upd_def)

lemma umemset_eq: "umemset m bp len v = memset m bp len v"
proof -
  have "umemset m bp len v = memset_loop m bp len (ucast v)"
    by (induction m bp len v rule: umemset.induct) (subst umemset.simps, subst memset_loop.simps, simp add: fun_upd_def)
  then show ?thesis by (simp add: memset_def)
qed

lemma option_eqI: "(\<And>y. a = Some y \<Longrightarrow> b = Some y) \<Longrightarrow> (\<And>y. b = Some y \<Longrightarrow> a = Some y) \<Longrightarrow> a = b"
  by (cases a; cases b) auto

lemma ustrlen_loop_eq: "ustrlen_loop m s n = strlen_loop m s n"
proof (rule option_eqI)
  show "strlen_loop m s n = Some y" if "ustrlen_loop m s n = Some y" for y
    using that by (rule ustrlen_loop.raw_induct [where P = "\<lambda>m s n y. strlen_loop m s n = Some y", rotated])
      (subst strlen_loop.simps, auto simp: Let_def split: if_splits)
  show "ustrlen_loop m s n = Some y" if "strlen_loop m s n = Some y" for y
    using that by (rule strlen_loop.raw_induct [where P = "\<lambda>m s n y. ustrlen_loop m s n = Some y", rotated])
      (subst ustrlen_loop.simps, auto simp: Let_def split: if_splits)
qed

lemma ustrcpy_loop_eq: "ustrcpy_loop m d s = strcpy_loop m d s"
proof (rule option_eqI)
  show "strcpy_loop m d s = Some y" if "ustrcpy_loop m d s = Some y" for y
    using that by (rule ustrcpy_loop.raw_induct [where P = "\<lambda>m d s y. strcpy_loop m d s = Some y", rotated])
      (subst strcpy_loop.simps, auto simp: Let_def split: if_splits)
  show "ustrcpy_loop m d s = Some y" if "strcpy_loop m d s = Some y" for y
    using that by (rule strcpy_loop.raw_induct [where P = "\<lambda>m d s y. ustrcpy_loop m d s = Some y", rotated])
      (subst ustrcpy_loop.simps, auto simp: Let_def split: if_splits)
qed

lemma ufind_nul_eq: "ufind_nul m d = find_nul m d"
proof (rule option_eqI)
  show "find_nul m d = Some y" if "ufind_nul m d = Some y" for y
    using that by (rule ufind_nul.raw_induct [where P = "\<lambda>m d y. find_nul m d = Some y", rotated])
      (subst find_nul.simps, auto simp: Let_def split: if_splits)
  show "ufind_nul m d = Some y" if "find_nul m d = Some y" for y
    using that by (rule find_nul.raw_induct [where P = "\<lambda>m d y. ufind_nul m d = Some y", rotated])
      (subst ufind_nul.simps, auto simp: Let_def split: if_splits)
qed

lemma ustrcmp_eq: "ustrcmp m s t = strcmp m s t"
proof (rule option_eqI)
  show "strcmp m s t = Some y" if "ustrcmp m s t = Some y" for y
    using that by (rule ustrcmp.raw_induct [where P = "\<lambda>m s t y. strcmp m s t = Some y", rotated])
      (subst strcmp.simps, auto simp: Let_def split: if_splits)
  show "ustrcmp m s t = Some y" if "strcmp m s t = Some y" for y
    using that by (rule strcmp.raw_induct [where P = "\<lambda>m s t y. ustrcmp m s t = Some y", rotated])
      (subst ustrcmp.simps, auto simp: Let_def split: if_splits)
qed

lemma ustr2int_loop_eq: "ustr2int_loop m s b c n = str2int_loop m s b c n"
proof (rule option_eqI)
  show "str2int_loop m s b c n = Some y" if "ustr2int_loop m s b c n = Some y" for y
    using that by (rule ustr2int_loop.raw_induct [where P = "\<lambda>m s b c n y. str2int_loop m s b c n = Some y", rotated])
      (subst str2int_loop.simps, auto simp: Let_def split: if_splits)
  show "ustr2int_loop m s b c n = Some y" if "str2int_loop m s b c n = Some y" for y
    using that by (rule str2int_loop.raw_induct [where P = "\<lambda>m s b c n y. ustr2int_loop m s b c n = Some y", rotated])
      (subst ustr2int_loop.simps, auto simp: Let_def split: if_splits)
qed


section \<open>The buffer holds the list that the kernel's model describes\<close>

definition puts :: "u8 list \<Rightarrow> mem \<times> addr \<Rightarrow> mem \<times> addr" where
  "puts = fold putc"

lemma puts_simps [simp]: "puts [] p = p" "puts (c # cs) p = puts cs (putc c p)" "puts (xs @ ys) p = puts ys (puts xs p)"
  by (simp_all add: puts_def)

lemma puts_eq: "length bs < 2 ^ 32 \<Longrightarrow> puts bs (m, b) = (store_bytes b bs m, b + of_nat (length bs))"
proof (induction bs arbitrary: m b)
  case (Cons c cs)
  then show ?case by (simp add: store_bytes_Cons)
qed simp

lemma puts_end: "snd (puts bs p) = snd p + of_nat (length bs)"
  by (induction bs arbitrary: p) (auto simp: split_paired_all)

lemma cvtdec0_append: "cvtdec0 buf v = buf @ cvtdec0 [] v"
proof (induction "[] :: u8 list" v arbitrary: buf rule: cvtdec0.induct)
  case (1 v)
  obtain q v' where q: "(if v sdiv 10 < 0 then (214748364, 8) else (v sdiv 10, v)) = (q, v')" by fastforce
  show ?case
  proof (cases "q = 0")
    case True
    then show ?thesis by (subst (1 2) cvtdec0.simps) (simp add: Let_def q)
  next
    case False
    have "cvtdec0 buf q = buf @ cvtdec0 [] q" using 1 [OF refl q [symmetric] refl False] .
    then show ?thesis using False by (subst (1 2) cvtdec0.simps) (simp add: Let_def q)
  qed
qed

lemma ucvtdec0_puts: "ucvtdec0 p v = puts (cvtdec0 [] v) p"
proof (induction p v rule: ucvtdec0.induct)
  case (1 p v)
  obtain q v' where q: "(if v sdiv 10 < 0 then (214748364, 8) else (v sdiv 10, v)) = (q, v')" by fastforce
  show ?case
  proof (cases "q = 0")
    case True
    then show ?thesis by (subst ucvtdec0.simps, subst cvtdec0.simps) (simp add: Let_def q)
  next
    case False
    then show ?thesis using 1 [OF refl q [symmetric] refl False]
      by (subst ucvtdec0.simps, subst cvtdec0.simps) (simp add: Let_def q)
  qed
qed

text \<open>A conversion routine leaves its characters and a NUL at \<open>buf\<close> and returns their number.\<close>

definition fills :: "mem \<Rightarrow> addr \<Rightarrow> u8 list \<Rightarrow> mem \<times> u32 \<Rightarrow> bool" where
  "fills m buf s r \<longleftrightarrow> r = (fst (puts (s @ [0]) (m, buf)), of_nat (length s))"

lemma fills_puts: "puts s (m, buf) = (m', bp) \<Longrightarrow> fills m buf s (m'(bp := 0), bp - buf)"
  using puts_end [of s "(m, buf)"] by (simp add: fills_def)

lemma ucvtdec_fills: "fills m buf (cvtdec v) (ucvtdec m buf v)"
proof -
  obtain m' bp where p: "puts (cvtdec v) (m, buf) = (m', bp)" by (cases "puts (cvtdec v) (m, buf)")
  then have "ucvtdec m buf v = (m'(bp := 0), bp - buf)"
    by (auto simp: ucvtdec_def cvtdec_def ucvtdec0_puts cvtdec0_append [of "[45]"] split: if_splits)
  then show ?thesis using fills_puts [OF p] by simp
qed

lemma ucvtuns_fills: "fills m buf (cvtuns v) (ucvtuns m buf v)"
proof -
  obtain m' bp where p: "puts (cvtuns v) (m, buf) = (m', bp)" by (cases "puts (cvtuns v) (m, buf)")
  then have "ucvtuns m buf v = (m'(bp := 0), bp - buf)"
    by (auto simp: ucvtuns_def cvtuns_def ucvtuns0_def cvtuns0_def ucvtdec0_puts Let_def split: if_splits)
  then show ?thesis using fills_puts [OF p] by simp
qed

definition hex_char :: "u32 \<Rightarrow> u8" where
  "hex_char v = hexdigits ! unat (drop_bit 28 (v AND 0xf0000000) AND 0xf)"

lemma ucvthex_step_puts:
  assumes "length b < 2 ^ 32"
  shows "\<exists>b'. cvthex_step k (b, length b, v) = (b', length b', push_bit 4 v) \<and> length b' \<le> Suc (length b)
    \<and> ucvthex_step k (puts b p, of_nat (length b), v) = (puts b' p, of_nat (length b'), push_bit 4 v)"
proof (cases "b \<noteq> [] \<or> v AND 0xf0000000 \<noteq> 0 \<or> k = 7")
  case c: True
  have "(of_nat (length b) :: u32) = 0 \<longleftrightarrow> b = []" using assms by (simp add: word_unat_eq_iff unat_of_nat)
  then have "cvthex_step k (b, length b, v) = (b @ [hex_char v], length (b @ [hex_char v]), push_bit 4 v)"
    "ucvthex_step k (puts b p, of_nat (length b), v) = (puts (b @ [hex_char v]) p, of_nat (length (b @ [hex_char v])), push_bit 4 v)"
    using c unfolding cvthex_step_def ucvthex_step_def hex_char_def by (simp_all add: Let_def)
  then show ?thesis by (intro exI [of _ "b @ [hex_char v]"]) simp
next
  case False
  then show ?thesis by (intro exI [of _ b]) (simp add: cvthex_step_def ucvthex_step_def Let_def)
qed

lemma fold_ucvthex:
  assumes "length b + length ks < 2 ^ 32"
  shows "\<exists>b' v'. fold cvthex_step ks (b, length b, v) = (b', length b', v')
    \<and> fold ucvthex_step ks (puts b p, of_nat (length b), v) = (puts b' p, of_nat (length b'), v')"
  using assms
proof (induction ks arbitrary: b v)
  case (Cons k ks)
  have "length b < 2 ^ 32" using Cons.prems by simp
  from ucvthex_step_puts [OF this] obtain b1 where b1: "cvthex_step k (b, length b, v) = (b1, length b1, push_bit 4 v)"
    "length b1 \<le> Suc (length b)" "ucvthex_step k (puts b p, of_nat (length b), v) = (puts b1 p, of_nat (length b1), push_bit 4 v)"
    by blast
  have "length b1 + length ks < 2 ^ 32" using b1(2) Cons.prems by simp
  from Cons.IH [OF this, of "push_bit 4 v"] show ?case using b1(1,3) by simp
qed simp

lemma ucvthex_fills: "fills m buf (cvthex v) (ucvthex m buf v)"
proof -
  obtain s v' where s: "fold cvthex_step [0..<8] ([], 0, v) = (s, length s, v')"
    "fold ucvthex_step [0..<8] ((m, buf), 0, v) = (puts s (m, buf), of_nat (length s), v')"
    using fold_ucvthex [of "[]" "[0..<8]" v "(m, buf)"] by auto
  obtain m' bp where p: "puts s (m, buf) = (m', bp)" by (cases "puts s (m, buf)")
  have "ucvthex m buf v = (m'(bp := 0), bp - buf)"
    using puts_end [of s "(m, buf)"] p unfolding ucvthex_def s(2) by simp
  moreover have "cvthex v = s" unfolding cvthex_def s(1) by simp
  ultimately show ?thesis using fills_puts [OF p] by simp
qed

lemma fold_ucvtoct:
  "fold ucvtoct_step ks (puts b p, cs, val, v) = (let (b', r) = fold cvtoct_step ks (b, cs, val, v) in (puts b' p, r))"
proof (induction ks arbitrary: b cs val v)
  case (Cons k ks)
  show ?case
    using Cons.IH [of "b @ [ucast ((val AND 7) + 48)]"] Cons.IH [of b]
    by (simp add: ucvtoct_step_def cvtoct_step_def Let_def)
qed simp

lemma ucvtoct_fills: "fills m buf (cvtoct v) (ucvtoct m buf v)"
proof -
  let ?st = "(False, drop_bit 30 (v AND 0xc0000000), v)"
  obtain s r where s: "fold cvtoct_step [0..<11] ([], ?st) = (s, r)" by (cases "fold cvtoct_step [0..<11] ([], ?st)")
  obtain m' bp where p: "puts s (m, buf) = (m', bp)" by (cases "puts s (m, buf)")
  have "fold ucvtoct_step [0..<11] ((m, buf), ?st) = ((m', bp), r)"
    using fold_ucvtoct [of "[0..<11]" "[]" "(m, buf)"] s p by simp
  then have "ucvtoct m buf v = (m'(bp := 0), bp - buf)" unfolding ucvtoct_def by simp
  moreover have "cvtoct v = s" unfolding cvtoct_def s by simp
  ultimately show ?thesis using fills_puts [OF p] by simp
qed

text \<open>The conversion routines leave in memory the characters that the kernel's model computes, ended by
  NUL, at the buffer's address and return the number of characters.\<close>

theorem ulib_conversions_fill:
  "fills m buf (cvtdec d) (ucvtdec m buf d)" "fills m buf (cvtuns v) (ucvtuns m buf v)"
  "fills m buf (cvthex v) (ucvthex m buf v)" "fills m buf (cvtoct v) (ucvtoct m buf v)"
  by (fact ucvtdec_fills ucvtuns_fills ucvthex_fills ucvtoct_fills)+

section \<open>Padding\<close>

lemma upad_puts: "upad p extra c = puts (replicate (nat extra) c) p"
proof (induction p extra c rule: upad.induct)
  case (1 p extra c)
  show ?case
  proof (cases "extra > 0")
    case True
    then have "nat extra = Suc (nat (extra - 1))" by simp
    with 1 True show ?thesis by (subst upad.simps) simp
  qed (subst upad.simps, simp)
qed

lemma puts_other: "length bs < 2 ^ 32 \<Longrightarrow> \<not> inr (snd p) (length bs) x \<Longrightarrow> fst (puts bs p) x = fst p x"
  by (cases p) (simp add: puts_eq store_bytes_def)

lemma inr_shorter: "inr a n x \<Longrightarrow> n \<le> k \<Longrightarrow> inr a k x"
  by (simp add: inr_def)

text \<open>The copy loop of \<^verbatim>\<open>upadstr\<close> reads the string as it was, when its bytes are not among those it
  writes.\<close>

lemma copy_puts:
  assumes "\<And>i. i < length s \<Longrightarrow> fst p (str + of_nat i) = s ! i" "n \<le> length s" "length s < 2 ^ 32"
    and "\<And>i. i < length s \<Longrightarrow> \<not> inr (snd p) (length s) (str + of_nat i)"
  shows "fold (\<lambda>i p. putc (fst p (str + of_nat i)) p) [0..<n] p = puts (take n s) p"
  using assms(2)
proof (induction n)
  case (Suc n)
  have n: "n < length s" using Suc.prems by simp
  have "\<not> inr (snd p) (length (take n s)) (str + of_nat n)" using assms(4) [OF n] inr_shorter [of "snd p" n _ "length s"] n by auto
  then have "fst (puts (take n s) p) (str + of_nat n) = s ! n" using assms(1) [OF n] assms(3) n by (simp add: puts_other)
  then show ?case using Suc n by (simp add: take_Suc_conv_app_nth)
qed simp

text \<open>Padding a string of length \<open>len\<close> (given, or found at its NUL when it is negative) appends the padded
  string of the kernel's model to the destination, whenever the bytes of the string are not among those written.\<close>

theorem upadstr_appends:
  assumes "cstr m str s" "len = int (length s) \<or> len < 0" "length s < 2 ^ 31" "length (padstr [] s len width left c) < 2 ^ 32"
    and "\<And>i. i < length s \<Longrightarrow> \<not> inr dst (length (padstr [] s len width left c)) (str + of_nat i)"
  shows "upadstr (m, dst) str len width left c = Some (puts (padstr [] s len width left c) (m, dst))"
proof -
  let ?n = "int (length s)"
  define fill where "fill = replicate (nat (wrap32 (width - ?n))) c"
  have pad: "padstr [] s len width left c = (if left then s @ fill else fill @ s)"
    using assms(2) by (auto simp: padstr_def Let_def pad_eq fill_def)
  have len: "(if len < 0 then map_option sint (ustrlen m str) else Some len) = Some ?n"
    using assms(2,3) strlen_cstr [OF assms(1)]
    by (auto simp: ustrlen_def strlen_def ustrlen_loop_eq sint_small unat_of_nat)
  have at: "m (str + of_nat i) = s ! i" if "i < length s" for i
    using assms(1) that
  proof (induction s arbitrary: str i)
    case (Cons a s)
    then show ?case by (cases i) (auto simp: add.assoc [symmetric])
  qed simp
  have copy: "fold (\<lambda>i p. putc (fst p (str + of_nat i)) p) [0..<length s] (puts f (m, dst)) = puts (f @ s) (m, dst)"
    if "f = [] \<or> f = fill \<and> \<not> left" for f
  proof -
    let ?out = "padstr [] s len width left c"
    have f: "length f + length s \<le> length ?out" using that unfolding pad by auto
    have *: "\<not> inr (dst + of_nat (length f)) (length s) (str + of_nat i) \<and> \<not> inr dst (length f) (str + of_nat i)"
      if i: "i < length s" for i
    proof -
      have "\<not> inr dst (length f + length s) (str + of_nat i)" using assms(5) [OF i] inr_shorter f by blast
      then show ?thesis using inr_split [of "length f" "length s" dst] f assms(4) by auto
    qed
    have "fold (\<lambda>i p. putc (fst p (str + of_nat i)) p) [0..<length s] (puts f (m, dst)) = puts (take (length s) s) (puts f (m, dst))"
      by (rule copy_puts) (use * at assms(3,4) f in \<open>auto simp: puts_other puts_end\<close>)
    then show ?thesis by simp
  qed
  show ?thesis
    using copy [of "[]"] copy [of fill] unfolding upadstr_def fst_conv len
    by (auto simp: pad Let_def upad_puts fill_def)
qed

definition pad_mem :: mem where
  "pad_mem = (\<lambda>_. 0)(0x100 := 79, 0x101 := 75)"

theorem upadstr_appends_witness:
  "upadstr (pad_mem, 0x200) 0x100 (- 1) 4 False 32 = Some (puts [32, 32, 79, 75] (pad_mem, 0x200))"
proof -
  have w: "wrap32 2 = 2" by (rule wrap32_id) simp_all
  have p: "padstr [] [79, 75] (- 1) 4 False 32 = [32, 32, 79, 75]"
    by (simp add: padstr_def w pad_eq numeral_eq_Suc)
  have "upadstr (pad_mem, 0x200) 0x100 (- 1) 4 False 32 = Some (puts (padstr [] [79, 75] (- 1) 4 False 32) (pad_mem, 0x200))"
  proof (rule upadstr_appends)
    fix i assume "i < length [79 :: u8, 75]"
    then have "i = 0 \<or> i = 1" by auto
    then show "\<not> inr 0x200 (length (padstr [] [79, 75] (- 1) 4 False 32)) (0x100 + of_nat i)" unfolding p by (auto simp: inr_def)
  qed (simp_all add: pad_mem_def p)
  then show ?thesis unfolding p .
qed

section \<open>itoa\<close>

text \<open>The loop that stores the digits, lowest first. It does not end for the bases 1 and -1; a base of 0 is a
  divide error, which does not return either.\<close>

partial_function (option) itoa_digits :: "int \<Rightarrow> int \<Rightarrow> u8 list \<Rightarrow> u8 list option" where
  "itoa_digits base num str =
     (if num = 0 then Some str
      else if base = 0 then None
      else let rem = num smod base
           in itoa_digits base (num sdiv base) (str @ [word_of_int (if rem > 9 then rem - 10 + 97 else rem + 48)]))"

function itoa_swap :: "int \<Rightarrow> int \<Rightarrow> u8 list \<Rightarrow> u8 list" where
  "itoa_swap start end str =
     (if start < end then itoa_swap (start + 1) (end - 1) (str[nat start := str ! nat end, nat end := str ! nat start]) else str)"
  by pat_completeness auto
termination by (relation "measure (\<lambda>(start, end, str). nat (end - start))") auto

declare itoa_swap.simps [simp del]

definition itoa :: "int \<Rightarrow> int \<Rightarrow> u8 list option" where
  "itoa num base =
     (if num = 0 then Some [48]
      else
        let negative = num < 0 \<and> base = 10; n = (if negative then wrap32 (- num) else num)
        in Option.bind (itoa_digits base n []) (\<lambda>str.
             let str = (if negative then str @ [45] else str)
             in Some (itoa_swap 0 (int (length str) - 1) str)))"

lemma itoa_swap_rev:
  "itoa_swap (int (length a)) (int (length a + length b) - 1) (a @ b @ c) = a @ rev b @ c"
proof (induction "length b" arbitrary: a b c rule: less_induct)
  case less
  show ?case
  proof (cases "length b < 2")
    case True
    then have "rev b = b" by (cases b; cases "tl b") auto
    then show ?thesis using True by (subst itoa_swap.simps) simp
  next
    case False
    then obtain x b' y where b: "b = x # b' @ [y]" by (metis append_butlast_last_id length_0_conv length_Cons less_2_cases_iff list.exhaust)
    have "itoa_swap (int (length a)) (int (length a + length b) - 1) (a @ b @ c)
      = itoa_swap (int (length (a @ [y]))) (int (length (a @ [y]) + length b') - 1) ((a @ [y]) @ b' @ ([x] @ c))"
      by (subst itoa_swap.simps) (simp add: b nat_add_distrib list_update_append nth_append add.commute)
    also have "\<dots> = (a @ [y]) @ rev b' @ ([x] @ c)" by (rule less) (simp add: b)
    finally show ?thesis by (simp add: b)
  qed
qed

lemma smod_sdiv_pos: "0 \<le> n \<Longrightarrow> 0 < b \<Longrightarrow> n smod b = n mod b \<and> n sdiv b = n div b" for n b :: int
  by (auto simp: signed_divide_int_def signed_modulo_int_def sgn_if)

lemma itoa_digits_eq:
  assumes "0 < n" "2 \<le> base" "base \<le> 10"
  shows "itoa_digits base n str = Some (str @ rev (numeral_str (nat base) (nat n)))"
  using assms(1)
proof (induction "nat n" arbitrary: n str rule: less_induct)
  case less
  have b: "2 \<le> nat base" using assms by simp
  note sm = smod_sdiv_pos [of n base]
  have r: "0 \<le> n mod base" "n mod base < base" using assms by simp_all
  have r9: "\<not> 9 < n mod base" using r(2) assms(3) by linarith
  have d: "word_of_int (n mod base + 48) = hexdigits ! (nat n mod nat base)"
  proof -
    have "nat n mod nat base = nat (n mod base)" using less.prems assms by (simp add: nat_mod_distrib)
    moreover have "n mod base < 10" using r(2) assms(3) by linarith
    then have "nat (n mod base) < 10" by simp
    ultimately show ?thesis using r(1) by (simp add: hexdigits_dec)
  qed
  have step: "itoa_digits base n str = itoa_digits base (n div base) (str @ [hexdigits ! (nat n mod nat base)])"
    using less.prems assms r9 sm d by (subst itoa_digits.simps) (simp add: Let_def)
  show ?case
  proof (cases "n < base")
    case True
    then have "n div base = 0" "nat n mod nat base = nat n" "nat n < nat base" using less.prems by auto
    then show ?thesis using step by (subst (asm) (2) itoa_digits.simps) (simp add: numeral_str_def digs_less)
  next
    case False
    have q: "0 < n div base" using False assms by (simp add: pos_imp_zdiv_pos_iff)
    have "n div base < n" using less.prems assms by (simp add: int_div_less_self)
    then have lt: "nat (n div base) < nat n" using less.prems by simp
    have "nat (n div base) = nat n div nat base" using less.prems assms by (simp add: nat_div_distrib)
    moreover have "nat base \<le> nat n" using False by simp
    ultimately have "numeral_str (nat base) (nat n) = numeral_str (nat base) (nat (n div base)) @ [hexdigits ! (nat n mod nat base)]"
      using b by (simp add: numeral_str_def digs_step)
    then show ?thesis using step less.hyps [OF lt q] by simp
  qed
qed

text \<open>\<^verbatim>\<open>itoa\<close> writes the numeral of a number that is not negative in every base from 2 to 10, and the signed
  decimal numeral of every negative number but the smallest.\<close>

theorem itoa_numeral:
  assumes "2 \<le> base" "base \<le> 10" "0 \<le> num \<or> base = 10" "- (2 ^ 31) < num" "num < 2 ^ 31"
  shows "itoa num base = Some ((if num < 0 then [45] else []) @ numeral_str (nat base) (nat \<bar>num\<bar>))"
proof (cases "num = 0")
  case True
  then show ?thesis using assms by (simp add: itoa_def numeral_str_def digs_less hexdigits_def)
next
  case False
  define n where "n = \<bar>num\<bar>"
  have n: "0 < n" "(if num < 0 \<and> base = 10 then wrap32 (- num) else num) = n"
    using False assms wrap32_id [of "- num"] by (auto simp: n_def)
  let ?s = "rev (numeral_str (nat base) (nat n)) @ (if num < 0 then [45] else [])"
  have "itoa num base = Some (itoa_swap 0 (int (length ?s) - 1) ?s)"
    using False assms(3) by (simp add: itoa_def n(2) Let_def itoa_digits_eq [OF n(1) assms(1,2)] cong: if_cong) (auto simp: not_less)
  also have "itoa_swap 0 (int (length ?s) - 1) ?s = rev ?s" using itoa_swap_rev [of "[]" ?s "[]"] by simp
  finally show ?thesis by (simp add: n_def)
qed

theorem itoa_numeral_witness: "itoa (- 207) 10 = Some [45, 50, 48, 55]"
  using itoa_numeral [of 10 "- 207"] by (simp add: numeral_str_def digs_step digs_less hexdigits_def)

text \<open>The smallest number is its own negative, and its remainders are negative: the characters are not digits. So are
  those of every negative number in a base other than 10.\<close>

lemma itoa_min: "itoa (- 2147483648) 10 = Some [45, 46, 47, 44, 41, 44, 40, 45, 42, 44, 40]"
proof -
  have "wrap32 (- (- 2147483648)) = - 2147483648" by (simp add: wrap32_min)
  moreover have "itoa_digits 10 (- 2147483648) [] = Some [40, 44, 42, 45, 40, 44, 41, 44, 47, 46]"
    by (simp add: itoa_digits.simps signed_divide_int_def signed_modulo_int_def)
  ultimately show ?thesis using itoa_swap_rev [of "[]" "[40, 44, 42, 45, 40, 44, 41, 44, 47, 46, 45]" "[]"]
    by (simp add: itoa_def Let_def)
qed

lemma itoa_negative_base: "itoa (- 31) 16 = Some [47, 33]"
proof -
  have "itoa_digits 16 (- 31) [] = Some [33, 47]"
    by (simp add: itoa_digits.simps signed_divide_int_def signed_modulo_int_def)
  then show ?thesis using itoa_swap_rev [of "[]" "[33, 47]" "[]"] by (simp add: itoa_def Let_def)
qed

end
