(* ===== verification/Vga.thy ===== *)
theory Vga
  imports Memory
begin

text \<open>
  The graphics driver \<^verbatim>\<open>vga_graphics.c\<close>: pixels of the 320 x 200 frame buffer and of the back buffer,
  rectangles, lines, triangles and circles. A C \<^verbatim>\<open>int\<close> is an \<^typ>\<open>int\<close>: the arithmetic on
  coordinates is exact as long as the C program has a defined meaning, since signed overflow is undefined there.
  Both buffers are memory; the address of the array \<^verbatim>\<open>vga_backbuffer\<close> is a parameter.
\<close>

abbreviation VGA_WIDTH :: int where "VGA_WIDTH \<equiv> 320"
abbreviation VGA_HEIGHT :: int where "VGA_HEIGHT \<equiv> 200"
abbreviation VGA_ADDRESS :: addr where "VGA_ADDRESS \<equiv> 0xA0000"
abbreviation VGA_BYTES :: nat where "VGA_BYTES \<equiv> 64000"
abbreviation VGA_VRAM_SIZE :: u32 where "VGA_VRAM_SIZE \<equiv> 0x10000"

section \<open>Loops over a range and what a routine draws\<close>

text \<open>\<^verbatim>\<open>for( i = lo; i < hi; ++i ) body\<close>, for a body that changes neither bound.\<close>

definition for_int :: "int \<Rightarrow> int \<Rightarrow> (int \<Rightarrow> 's \<Rightarrow> 's) \<Rightarrow> 's \<Rightarrow> 's" where
  "for_int lo hi body s = fold body [lo..hi - 1] s"

lemma for_int_unroll: "for_int lo hi body s = (if lo < hi then for_int (lo + 1) hi body (body lo s) else s)"
  by (simp add: for_int_def upto.simps [of lo])

lemma for_int_cong: "(\<And>k s. lo \<le> k \<Longrightarrow> k < hi \<Longrightarrow> f k s = g k s) \<Longrightarrow> for_int lo hi f s = for_int lo hi g s"
  unfolding for_int_def by (rule fold_cong) (auto simp: fun_eq_iff)

definition on_screen :: "int \<times> int \<Rightarrow> bool" where
  "on_screen p \<longleftrightarrow> 0 \<le> fst p \<and> fst p < VGA_WIDTH \<and> 0 \<le> snd p \<and> snd p < VGA_HEIGHT"

text \<open>\<open>draws pix rest g f\<close>: the pixels of the screen after \<open>f\<close> are those of \<open>g\<close> where it is defined and the
  old ones elsewhere, and nothing beside the screen changes.\<close>

definition draws :: "('s \<Rightarrow> int \<times> int \<Rightarrow> u8) \<Rightarrow> ('s \<Rightarrow> 'r) \<Rightarrow> (int \<times> int \<Rightarrow> u8 option) \<Rightarrow> ('s \<Rightarrow> 's) \<Rightarrow> bool" where
  "draws pix rest g f \<longleftrightarrow> (\<forall>s. rest (f s) = rest s) \<and>
     (\<forall>s p. on_screen p \<longrightarrow> pix (f s) p = (case g p of None \<Rightarrow> pix s p | Some c \<Rightarrow> c))"

definition ink :: "('a \<Rightarrow> bool) \<Rightarrow> u8 \<Rightarrow> 'a \<Rightarrow> u8 option" where
  "ink P c p = (if P p then Some c else None)"

lemma ink_eq_Some: "ink P c p = Some v \<longleftrightarrow> P p \<and> v = c" and ink_eq_None: "ink P c p = None \<longleftrightarrow> \<not> P p"
  by (auto simp: ink_def)

lemma draws_id: "draws pix rest Map.empty (\<lambda>s. s)"
  by (simp add: draws_def)

lemma draws_seq: "draws pix rest g1 f1 \<Longrightarrow> draws pix rest g2 f2 \<Longrightarrow> draws pix rest (g1 ++ g2) (\<lambda>s. f2 (f1 s))"
  by (auto simp: draws_def map_add_def split: option.splits)

lemma draws_weaken:
  assumes "draws pix rest g f" "\<And>p. on_screen p \<Longrightarrow> g p = g' p" "\<And>s. f s = f' s"
  shows "draws pix rest g' f'"
  using assms unfolding draws_def by (metis (no_types, lifting))

lemma draws_seq_ink:
  assumes "draws pix rest (ink P c) f" "draws pix rest (ink Q c) g"
  shows "draws pix rest (ink (\<lambda>p. P p \<or> Q p) c) (\<lambda>s. g (f s))"
  by (rule draws_weaken [OF draws_seq [OF assms]]) (auto simp: ink_def map_add_def)

text \<open>A loop whose passes agree with one picture draws all of them.\<close>

lemma draws_fold:
  assumes "\<And>k. k \<in> set ks \<Longrightarrow> draws pix rest (g k) (body k)"
    and "\<And>k p v. k \<in> set ks \<Longrightarrow> on_screen p \<Longrightarrow> g k p = Some v \<Longrightarrow> G p = Some v"
    and "\<And>p v. on_screen p \<Longrightarrow> G p = Some v \<Longrightarrow> \<exists>k\<in>set ks. g k p = Some v"
  shows "draws pix rest G (fold body ks)"
proof -
  have "draws pix rest (\<lambda>p. if \<exists>k\<in>set js. g k p \<noteq> None then G p else None) (fold body js)"
    if "set js \<subseteq> set ks" for js
    using that
  proof (induction js rule: rev_induct)
    case Nil
    show ?case using draws_id [of pix rest] by (simp add: id_def)
  next
    case (snoc k js)
    have k: "k \<in> set ks" and js: "set js \<subseteq> set ks" using snoc.prems by auto
    have "draws pix rest ((\<lambda>p. if \<exists>k\<in>set js. g k p \<noteq> None then G p else None) ++ g k) (\<lambda>s. body k (fold body js s))"
      by (rule draws_seq [OF snoc.IH [OF js] assms(1) [OF k]])
    then show ?case
    proof (rule draws_weaken)
      fix p assume p: "on_screen p"
      show "((\<lambda>p. if \<exists>k\<in>set js. g k p \<noteq> None then G p else None) ++ g k) p
          = (if \<exists>k\<in>set (js @ [k]). g k p \<noteq> None then G p else None)"
        using assms(2) [OF k p] by (cases "g k p") (auto simp: map_add_def)
    qed simp
  qed
  from this [OF order_refl] show ?thesis
    by (rule draws_weaken) (use assms(3) in \<open>auto, metis option.exhaust\<close>)
qed

lemma draws_fold_ink:
  assumes "\<And>k. k \<in> set ks \<Longrightarrow> draws pix rest (ink (P k) c) (body k)"
  shows "draws pix rest (ink (\<lambda>p. list_ex (\<lambda>k. P k p) ks) c) (fold body ks)"
  by (rule draws_fold [OF assms]) (auto simp: ink_eq_Some list_ex_iff)

lemma draws_for:
  assumes "\<And>k. lo \<le> k \<Longrightarrow> k < hi \<Longrightarrow> draws pix rest (g k) (body k)"
    and "\<And>k p v. lo \<le> k \<Longrightarrow> k < hi \<Longrightarrow> on_screen p \<Longrightarrow> g k p = Some v \<Longrightarrow> G p = Some v"
    and "\<And>p v. on_screen p \<Longrightarrow> G p = Some v \<Longrightarrow> \<exists>k. lo \<le> k \<and> k < hi \<and> g k p = Some v"
  shows "draws pix rest G (for_int lo hi body)"
proof -
  have "draws pix rest G (fold body [lo..hi - 1])"
    by (rule draws_fold [of _ pix rest g]) (use assms in force)+
  then show ?thesis by (rule draws_weaken) (simp_all add: for_int_def)
qed

lemma draws_for_ink:
  assumes "\<And>k. lo \<le> k \<Longrightarrow> k < hi \<Longrightarrow> draws pix rest (ink (P k) c) (body k)"
  shows "draws pix rest (ink (\<lambda>p. \<exists>k. lo \<le> k \<and> k < hi \<and> P k p) c) (for_int lo hi body)"
  by (rule draws_for [OF assms]) (auto simp: ink_def split: if_splits)

text \<open>What drawing a pixel promises, and what follows for the shapes that are made of pixels.\<close>

locale raster =
  fixes put :: "int \<Rightarrow> int \<Rightarrow> u8 \<Rightarrow> 's \<Rightarrow> 's" and pix :: "'s \<Rightarrow> int \<times> int \<Rightarrow> u8" and rest :: "'s \<Rightarrow> 'r"
  assumes put_pix: "on_screen p \<Longrightarrow> pix (put x y c s) p = (if p = (x, y) then c else pix s p)"
    and put_rest: "rest (put x y c s) = rest s"
begin

lemma dot: "draws pix rest (ink (\<lambda>p. p = (x, y)) c) (put x y c)"
  by (simp add: draws_def put_pix put_rest ink_def)

lemma points: "draws pix rest (ink (\<lambda>p. p \<in> set ps) c) (fold (\<lambda>(x, y). put x y c) ps)"
  by (rule draws_weaken [OF draws_fold_ink [where P = "\<lambda>p q. q = p"]])
    (auto simp: ink_def list_ex_iff intro: draws_weaken [OF dot])

lemma row: "draws pix rest (ink (\<lambda>(i, j). x \<le> i \<and> i < x + w \<and> j = y) c) (for_int x (x + w) (\<lambda>xx. put xx y c))"
  by (rule draws_weaken [OF draws_for_ink [OF dot]]) (auto simp: ink_def)

lemma box:
  "draws pix rest (ink (\<lambda>(i, j). x \<le> i \<and> i < x + w \<and> y \<le> j \<and> j < y + h) c)
     (for_int y (y + h) (\<lambda>yy. for_int x (x + w) (\<lambda>xx. put xx yy c)))"
  by (rule draws_weaken [OF draws_for_ink [OF row]]) (auto simp: ink_def)

lemma outline:
  "draws pix rest (ink (\<lambda>(i, j). x \<le> i \<and> i < x + w \<and> (j = y \<or> j = y + h - 1) \<or> y \<le> j \<and> j < y + h \<and> (i = x \<or> i = x + w - 1)) c)
     (\<lambda>s. for_int y (y + h) (\<lambda>yy s. put (x + w - 1) yy c (put x yy c s))
            (for_int x (x + w) (\<lambda>xx s. put xx (y + h - 1) c (put xx y c s)) s))"
  by (rule draws_weaken [OF draws_seq_ink [OF draws_for_ink [OF draws_seq_ink [OF dot dot]]
        draws_for_ink [OF draws_seq_ink [OF dot dot]]]]) (auto simp: ink_def)

end

section \<open>The two buffers\<close>

definition pixel :: "addr \<Rightarrow> mem \<Rightarrow> int \<times> int \<Rightarrow> u8" where
  "pixel base m = (\<lambda>(x, y). m (base + word_of_int (y * VGA_WIDTH + x)))"

definition beside :: "addr \<Rightarrow> mem \<Rightarrow> mem" where
  "beside base m = (\<lambda>a. if inr base VGA_BYTES a then 0 else m a)"

definition vga_put_pixel :: "int \<Rightarrow> int \<Rightarrow> u8 \<Rightarrow> mem \<Rightarrow> mem" where
  "vga_put_pixel x y color m =
     (if 0 \<le> x \<and> x < VGA_WIDTH \<and> 0 \<le> y \<and> y < VGA_HEIGHT
      then m(VGA_ADDRESS + word_of_int (y * VGA_WIDTH + x) := color) else m)"

definition vga_put_pixel_buf :: "addr \<Rightarrow> int \<Rightarrow> int \<Rightarrow> u8 \<Rightarrow> mem \<Rightarrow> mem" where
  "vga_put_pixel_buf vga_backbuffer x y color m =
     (if 0 \<le> x \<and> x < VGA_WIDTH \<and> 0 \<le> y \<and> y < VGA_HEIGHT
      then m(vga_backbuffer + word_of_int (y * VGA_WIDTH + x) := color) else m)"

lemma screen_index:
  assumes "0 \<le> x" "x < VGA_WIDTH" "0 \<le> y" "y < VGA_HEIGHT"
  shows "uint (word_of_int (y * VGA_WIDTH + x) :: u32) = y * VGA_WIDTH + x" "0 \<le> y * VGA_WIDTH + x" "y * VGA_WIDTH + x < 64000"
proof -
  show r: "0 \<le> y * VGA_WIDTH + x" "y * VGA_WIDTH + x < 64000" using assms by simp_all
  show "uint (word_of_int (y * VGA_WIDTH + x) :: u32) = y * VGA_WIDTH + x"
    using r by (simp add: unsigned_of_int take_bit_int_eq_self_iff del: of_int_add of_int_mult)
qed

lemma screen_index_eq:
  assumes "0 \<le> x" "x < VGA_WIDTH" "0 \<le> y" "y < VGA_HEIGHT" "0 \<le> x'" "x' < VGA_WIDTH" "0 \<le> y'" "y' < VGA_HEIGHT"
  shows "(word_of_int (y * VGA_WIDTH + x) :: u32) = word_of_int (y' * VGA_WIDTH + x') \<longleftrightarrow> x = x' \<and> y = y'"
proof -
  have "(word_of_int (y * VGA_WIDTH + x) :: u32) = word_of_int (y' * VGA_WIDTH + x') \<longleftrightarrow> y * VGA_WIDTH + x = y' * VGA_WIDTH + x'"
    using screen_index(1) [OF assms(1-4)] screen_index(1) [OF assms(5-8)] by (metis word_uint_eq_iff)
  also have "\<dots> \<longleftrightarrow> x = x' \<and> y = y'"
  proof -
    have "(y * VGA_WIDTH + x) div VGA_WIDTH = y" "(y' * VGA_WIDTH + x') div VGA_WIDTH = y'" using assms by simp_all
    then show ?thesis by (metis add_left_cancel)
  qed
  finally show ?thesis .
qed

lemma plot_raster:
  assumes "\<And>x y color m. put x y color m = (if 0 \<le> x \<and> x < VGA_WIDTH \<and> 0 \<le> y \<and> y < VGA_HEIGHT
      then m(base + word_of_int (y * VGA_WIDTH + x) := color) else m)"
  shows "raster put (pixel base) (beside base)"
proof
  show "pixel base (put x y c s) p = (if p = (x, y) then c else pixel base s p)" if "on_screen p" for p x y c s
  proof (cases p)
    case (Pair i j)
    then have p: "0 \<le> i" "i < VGA_WIDTH" "0 \<le> j" "j < VGA_HEIGHT" using that by (simp_all add: on_screen_def)
    show ?thesis
    proof (cases "0 \<le> x \<and> x < VGA_WIDTH \<and> 0 \<le> y \<and> y < VGA_HEIGHT")
      case True
      then show ?thesis using screen_index_eq [of i j x y] p
        by (simp add: assms pixel_def Pair del: of_int_add of_int_mult)
    qed (use p in \<open>auto simp: assms pixel_def Pair\<close>)
  qed
  show "beside base (put x y c s) = beside base s" for x y c s
  proof (cases "0 \<le> x \<and> x < VGA_WIDTH \<and> 0 \<le> y \<and> y < VGA_HEIGHT")
    case True
    then have "inr base VGA_BYTES (base + word_of_int (y * VGA_WIDTH + x))"
      using screen_index [of x y] by (simp add: inr_def unat_eq_nat_uint nat_less_iff del: of_int_add of_int_mult)
    then show ?thesis by (auto simp: assms beside_def fun_eq_iff simp del: of_int_add of_int_mult)
  qed (auto simp: assms)
qed

interpretation fb: raster vga_put_pixel "pixel VGA_ADDRESS" "beside VGA_ADDRESS"
  by (rule plot_raster) (rule vga_put_pixel_def)

interpretation buf: raster "vga_put_pixel_buf b" "pixel b" "beside b" for b
  by (rule plot_raster) (rule vga_put_pixel_buf_def)

section \<open>Rectangles\<close>

definition vga_clear :: "u8 \<Rightarrow> mem \<Rightarrow> mem" where
  "vga_clear color = for_int 0 VGA_HEIGHT (\<lambda>y. for_int 0 VGA_WIDTH (\<lambda>x. vga_put_pixel x y color))"

definition vga_draw_rect :: "int \<Rightarrow> int \<Rightarrow> int \<Rightarrow> int \<Rightarrow> u8 \<Rightarrow> int \<Rightarrow> mem \<Rightarrow> mem" where
  "vga_draw_rect x y w h color filled m =
     (if filled \<noteq> 0 then for_int y (y + h) (\<lambda>yy. for_int x (x + w) (\<lambda>xx. vga_put_pixel xx yy color)) m
      else
        let m1 = for_int x (x + w) (\<lambda>xx m. vga_put_pixel xx (y + h - 1) color (vga_put_pixel xx y color m)) m
        in for_int y (y + h) (\<lambda>yy m. vga_put_pixel (x + w - 1) yy color (vga_put_pixel x yy color m)) m1)"

definition vga_draw_rect_buf :: "addr \<Rightarrow> int \<Rightarrow> int \<Rightarrow> int \<Rightarrow> int \<Rightarrow> u8 \<Rightarrow> int \<Rightarrow> mem \<Rightarrow> mem" where
  "vga_draw_rect_buf vga_backbuffer x y w h color filled m =
     (if filled \<noteq> 0 then
        for_int y (y + h) (\<lambda>yy m.
          if yy < 0 \<or> VGA_HEIGHT \<le> yy then m
          else for_int x (x + w) (\<lambda>xx m.
            if xx < 0 \<or> VGA_WIDTH \<le> xx then m
            else m(vga_backbuffer + word_of_int (yy * VGA_WIDTH + xx) := color)) m) m
      else
        let m1 = for_int x (x + w) (\<lambda>xx m.
              if xx < 0 \<or> VGA_WIDTH \<le> xx then m
              else
                let m1 = (if 0 \<le> y \<and> y < VGA_HEIGHT
                          then m(vga_backbuffer + word_of_int (y * VGA_WIDTH + xx) := color) else m)
                in if 0 \<le> y + h - 1 \<and> y + h - 1 < VGA_HEIGHT
                   then m1(vga_backbuffer + word_of_int ((y + h - 1) * VGA_WIDTH + xx) := color) else m1) m
        in for_int y (y + h) (\<lambda>yy m.
              if yy < 0 \<or> VGA_HEIGHT \<le> yy then m
              else
                let m1 = (if 0 \<le> x \<and> x < VGA_WIDTH
                          then m(vga_backbuffer + word_of_int (yy * VGA_WIDTH + x) := color) else m)
                in if 0 \<le> x + w - 1 \<and> x + w - 1 < VGA_WIDTH
                   then m1(vga_backbuffer + word_of_int (yy * VGA_WIDTH + x + w - 1) := color) else m1) m1)"

definition rect_area :: "int \<Rightarrow> int \<Rightarrow> int \<Rightarrow> int \<Rightarrow> int \<Rightarrow> int \<times> int \<Rightarrow> bool" where
  "rect_area x y w h filled = (\<lambda>(i, j). x \<le> i \<and> i < x + w \<and> (if filled \<noteq> 0 then y \<le> j \<and> j < y + h else j = y \<or> j = y + h - 1)
     \<or> filled = 0 \<and> y \<le> j \<and> j < y + h \<and> (i = x \<or> i = x + w - 1))"

lemma vga_clear_exact: "draws (pixel VGA_ADDRESS) (beside VGA_ADDRESS) (ink on_screen color) (vga_clear color)"
  by (rule draws_weaken [OF fb.box [of 0 VGA_WIDTH 0 VGA_HEIGHT color]]) (auto simp: ink_def on_screen_def vga_clear_def)

text \<open>The back buffer's version of the routine clips by itself instead of calling \<^verbatim>\<open>vga_put_pixel_buf\<close>; it
  leaves the same memory as the other routine would with the back buffer's pixel routine.\<close>

lemma for_int_skip: "(\<And>k s. body k s = s) \<Longrightarrow> for_int lo hi body s = s"
  unfolding for_int_def by (rule fold_invariant [of _ "\<lambda>_. True" "\<lambda>t. t = s"]) simp_all

lemma vga_draw_rect_buf_eq:
  "vga_draw_rect_buf b x y w h color filled m =
     (if filled \<noteq> 0 then for_int y (y + h) (\<lambda>yy. for_int x (x + w) (\<lambda>xx. vga_put_pixel_buf b xx yy color)) m
      else for_int y (y + h) (\<lambda>yy m. vga_put_pixel_buf b (x + w - 1) yy color (vga_put_pixel_buf b x yy color m))
             (for_int x (x + w) (\<lambda>xx m. vga_put_pixel_buf b xx (y + h - 1) color (vga_put_pixel_buf b xx y color m)) m))"
proof -
  have off: "for_int x (x + w) (\<lambda>xx. vga_put_pixel_buf b xx yy color) s = s" if "yy < 0 \<or> VGA_HEIGHT \<le> yy" for yy s
    using that by (intro for_int_skip) (auto simp: vga_put_pixel_buf_def)
  have e: "yy * VGA_WIDTH + x + w - 1 = yy * VGA_WIDTH + (x + w - 1)" for yy by simp
  have rows: "(if yy < 0 \<or> VGA_HEIGHT \<le> yy then m
      else for_int x (x + w) (\<lambda>xx m. if xx < 0 \<or> VGA_WIDTH \<le> xx then m
                                    else m(b + word_of_int (yy * VGA_WIDTH + xx) := color)) m)
      = for_int x (x + w) (\<lambda>xx. vga_put_pixel_buf b xx yy color) m" for yy m
    using off by (auto simp: vga_put_pixel_buf_def not_le not_less intro!: for_int_cong)
  have ends: "(if xx < 0 \<or> VGA_WIDTH \<le> xx then m
      else let m1 = (if 0 \<le> y \<and> y < VGA_HEIGHT then m(b + word_of_int (y * VGA_WIDTH + xx) := color) else m)
        in if 0 \<le> y + h - 1 \<and> y + h - 1 < VGA_HEIGHT
           then m1(b + word_of_int ((y + h - 1) * VGA_WIDTH + xx) := color) else m1)
      = vga_put_pixel_buf b xx (y + h - 1) color (vga_put_pixel_buf b xx y color m)" for xx m
    unfolding vga_put_pixel_buf_def Let_def by (simp del: of_int_add of_int_mult)
  have sides: "(if yy < 0 \<or> VGA_HEIGHT \<le> yy then m
      else let m1 = (if 0 \<le> x \<and> x < VGA_WIDTH then m(b + word_of_int (yy * VGA_WIDTH + x) := color) else m)
        in if 0 \<le> x + w - 1 \<and> x + w - 1 < VGA_WIDTH
           then m1(b + word_of_int (yy * VGA_WIDTH + x + w - 1) := color) else m1)
      = vga_put_pixel_buf b (x + w - 1) yy color (vga_put_pixel_buf b x yy color m)" for yy m
    unfolding vga_put_pixel_buf_def Let_def e by (simp del: of_int_add of_int_mult)
  show ?thesis unfolding vga_draw_rect_buf_def rows ends sides unfolding Let_def ..
qed

lemma rect_draws:
  assumes "raster put pix rest"
  shows "draws pix rest (ink (rect_area x y w h filled) color)
    (\<lambda>m. if filled \<noteq> 0 then for_int y (y + h) (\<lambda>yy. for_int x (x + w) (\<lambda>xx. put xx yy color)) m
         else for_int y (y + h) (\<lambda>yy m. put (x + w - 1) yy color (put x yy color m))
                (for_int x (x + w) (\<lambda>xx m. put xx (y + h - 1) color (put xx y color m)) m))"
proof (cases "filled = 0")
  case True
  show ?thesis by (rule draws_weaken [OF raster.outline [OF assms]]) (auto simp: True ink_def rect_area_def)
next
  case False
  show ?thesis by (rule draws_weaken [OF raster.box [OF assms]]) (use False in \<open>auto simp: ink_def rect_area_def\<close>)
qed

lemma rect_buf_draws: "draws (pixel b) (beside b) (ink (rect_area x y w h filled) color) (vga_draw_rect_buf b x y w h color filled)"
  by (rule draws_weaken [OF rect_draws [OF buf.raster_axioms]]) (simp_all add: vga_draw_rect_buf_eq)

text \<open>A rectangle is drawn exactly, in the frame buffer and in the back buffer: the pixels of the screen inside
  it (filled) or on its two rows and two columns (outline) get the colour, every other pixel and every byte beside
  the buffer's screen keeps its value, also for rectangles that are partly or wholly off the screen.\<close>

theorem vga_draw_rect_exact:
  "draws (pixel VGA_ADDRESS) (beside VGA_ADDRESS) (ink (rect_area x y w h filled) color) (vga_draw_rect x y w h color filled)"
  "draws (pixel b) (beside b) (ink (rect_area x y w h filled) color) (vga_draw_rect_buf b x y w h color filled)"
proof -
  show "draws (pixel VGA_ADDRESS) (beside VGA_ADDRESS) (ink (rect_area x y w h filled) color) (vga_draw_rect x y w h color filled)"
    by (rule draws_weaken [OF rect_draws [OF fb.raster_axioms]]) (auto simp: vga_draw_rect_def Let_def)
qed (rule rect_buf_draws)

section \<open>Lines and triangles\<close>

definition vga_abs :: "int \<Rightarrow> int" where
  "vga_abs x = (if x < 0 then - x else x)"

partial_function (option) line_loop ::
    "int \<Rightarrow> int \<Rightarrow> u8 \<Rightarrow> int \<Rightarrow> int \<Rightarrow> int \<Rightarrow> int \<Rightarrow> int \<Rightarrow> int \<Rightarrow> int \<Rightarrow> mem \<Rightarrow> mem option" where
  "line_loop x1 y1 color dx dy sx sy x0 y0 err m =
     (let m1 = vga_put_pixel x0 y0 color m in
      if x0 = x1 \<and> y0 = y1 then Some m1
      else
        let e2 = 2 * err;
            err1 = (if dy \<le> e2 then err + dy else err);
            x0' = (if dy \<le> e2 then x0 + sx else x0);
            err2 = (if e2 \<le> dx then err1 + dx else err1);
            y0' = (if e2 \<le> dx then y0 + sy else y0)
        in line_loop x1 y1 color dx dy sx sy x0' y0' err2 m1)"

definition vga_draw_line :: "int \<Rightarrow> int \<Rightarrow> int \<Rightarrow> int \<Rightarrow> u8 \<Rightarrow> mem \<Rightarrow> mem option" where
  "vga_draw_line x0 y0 x1 y1 color m =
     (let dx = vga_abs (x1 - x0); sx = (if x0 < x1 then 1 else - 1);
          dy = - vga_abs (y1 - y0); sy = (if y0 < y1 then 1 else - 1)
      in line_loop x1 y1 color dx dy sx sy x0 y0 (dx + dy) m)"

definition vga_draw_triangle :: "int \<Rightarrow> int \<Rightarrow> int \<Rightarrow> int \<Rightarrow> int \<Rightarrow> int \<Rightarrow> u8 \<Rightarrow> mem \<Rightarrow> mem option" where
  "vga_draw_triangle x1 y1 x2 y2 x3 y3 color m =
     Option.bind (vga_draw_line x1 y1 x2 y2 color m) (\<lambda>m1.
       Option.bind (vga_draw_line x2 y2 x3 y3 color m1) (vga_draw_line x3 y3 x1 y1 color))"

text \<open>The loop in the first octants: \<open>i\<close> of \<open>a\<close> steps to the right and \<open>j\<close> of \<open>b\<close> steps down are done. The
  error term of the code is \<open>a - b + (j * a - i * b)\<close>, and \<open>near\<close> bounds its last summand.\<close>

definition bstep :: "int \<Rightarrow> int \<Rightarrow> int \<times> int \<Rightarrow> int \<times> int" where
  "bstep a b = (\<lambda>(i, j). let e2 = 2 * (a - b + (j * a - i * b)) in
     (if - b \<le> e2 then i + 1 else i, if e2 \<le> a then j + 1 else j))"

definition near :: "int \<Rightarrow> int \<Rightarrow> int \<times> int \<Rightarrow> bool" where
  "near a b = (\<lambda>(i, j). 0 \<le> i \<and> i \<le> a \<and> 0 \<le> j \<and> j \<le> b \<and> 2 * \<bar>j * a - i * b\<bar> \<le> max a b)"

lemma bstep_swap: "bstep b a (j, i) = prod.swap (bstep a b (i, j))"
  by (auto simp: bstep_def Let_def)

lemma near_swap: "near b a (prod.swap p) \<longleftrightarrow> near a b p"
  by (auto simp: near_def max.commute abs_minus_commute split: prod.splits)

lemma near_major:
  assumes "near a b (i, j)" "b \<le> a" "(i, j) \<noteq> (a, b)"
  shows "i < a" "near a b (bstep a b (i, j))" "fst (bstep a b (i, j)) = i + 1" "snd (bstep a b (i, j)) \<in> {j, j + 1}"
proof -
  have n: "0 \<le> i" "i \<le> a" "0 \<le> j" "j \<le> b" "2 * \<bar>j * a - i * b\<bar> \<le> a" using assms(1,2) by (auto simp: near_def)
  show ia: "i < a"
  proof (rule ccontr)
    assume "\<not> i < a"
    then have e: "i = a" "j \<noteq> b" using n assms(3) by auto
    then have "1 \<le> b - j" "0 < a" using n assms(2) by auto
    then have "1 * a \<le> (b - j) * a" by (intro mult_right_mono) auto
    then show False using n(4,5) e \<open>0 < a\<close> by (auto simp: algebra_simps abs_if split: if_splits)
  qed
  define d where "d = j * a - i * b"
  have d: "- a \<le> 2 * d" "2 * d \<le> a" using n(5) unfolding d_def [symmetric] by auto
  have x: "- b \<le> 2 * (a - b + d)" using d(1) assms(2) by (simp add: algebra_simps)
  have jb: "j < b" if "2 * (a - b + d) \<le> a"
  proof (rule ccontr)
    assume "\<not> j < b"
    then have "j = b" using n by simp
    then have "d = b * (a - i)" by (simp add: d_def algebra_simps)
    moreover have "b * 1 \<le> b * (a - i)" using ia n by (intro mult_left_mono) auto
    ultimately have "b \<le> d" by simp
    then show False using that ia n(1) by (simp add: algebra_simps)
  qed
  have bs: "bstep a b (i, j) = (i + 1, if 2 * (a - b + d) \<le> a then j + 1 else j)"
    using x unfolding d_def by (simp add: bstep_def Let_def)
  then show "fst (bstep a b (i, j)) = i + 1" "snd (bstep a b (i, j)) \<in> {j, j + 1}" by simp_all
  have e: "j * a - (i + 1) * b = d - b" "(j + 1) * a - (i + 1) * b = d - b + a" by (simp_all add: d_def algebra_simps)
  have b: "0 \<le> b" using n by simp
  have "2 * \<bar>j * a - (i + 1) * b\<bar> \<le> a" if "\<not> 2 * (a - b + d) \<le> a"
    using that d b unfolding e by (simp add: abs_if algebra_simps)
  moreover have "2 * \<bar>(j + 1) * a - (i + 1) * b\<bar> \<le> a" if "2 * (a - b + d) \<le> a"
    using that d b assms(2) unfolding e by (simp add: abs_if algebra_simps)
  ultimately show "near a b (bstep a b (i, j))"
    using bs ia n(1,3,4) jb assms(2) by (cases "2 * (a - b + d) \<le> a") (simp_all add: near_def)
qed

definition major :: "int \<Rightarrow> int \<Rightarrow> int \<times> int \<Rightarrow> int" where
  "major a b p = (if b \<le> a then fst p else snd p)"

lemma near_step:
  assumes "near a b p" "p \<noteq> (a, b)"
  shows "near a b (bstep a b p)" "major a b (bstep a b p) = major a b p + 1" "major a b p < max a b"
    "fst (bstep a b p) \<in> {fst p, fst p + 1}" "snd (bstep a b p) \<in> {snd p, snd p + 1}"
proof -
  obtain i j where p: "p = (i, j)" by (cases p)
  have "near b a (j, i)" using assms(1) near_swap [of b a p] by (simp add: p)
  note N = near_major [of a b i j, OF assms(1) [unfolded p] _ assms(2) [unfolded p]] near_major [OF this]
  have eq: "bstep b a (j, i) = prod.swap (bstep a b p)" by (simp add: p bstep_swap [of b a])
  show "near a b (bstep a b p)"
    using N(2,6) assms(2) unfolding eq near_swap by (cases "b \<le> a") (auto simp: p)
  show "major a b (bstep a b p) = major a b p + 1" "major a b p < max a b"
    "fst (bstep a b p) \<in> {fst p, fst p + 1}" "snd (bstep a b p) \<in> {snd p, snd p + 1}"
    using N assms(2) unfolding eq by (cases "b \<le> a"; auto simp: major_def p)+
qed

text \<open>The points of the line, in the order in which they are plotted.\<close>

fun bpath :: "int \<Rightarrow> int \<Rightarrow> nat \<Rightarrow> int \<times> int \<Rightarrow> (int \<times> int) list" where
  "bpath a b 0 p = [p]"
| "bpath a b (Suc n) p = p # bpath a b n (bstep a b p)"

definition close :: "int \<times> int \<Rightarrow> int \<times> int \<Rightarrow> bool" where
  "close p q \<longleftrightarrow> \<bar>fst q - fst p\<bar> \<le> 1 \<and> \<bar>snd q - snd p\<bar> \<le> 1"

lemma bpath_hd [simp]: "bpath a b n p \<noteq> []" "hd (bpath a b n p) = p" "length (bpath a b n p) = Suc n"
  by (induction n arbitrary: p) simp_all

lemma near_end:
  assumes "near a b p" "max a b \<le> major a b p"
  shows "p = (a, b)"
proof (rule ccontr)
  assume "p \<noteq> (a, b)"
  from near_step(3) [OF assms(1) this] assms(2) show False by simp
qed

lemma bpath_props:
  assumes "near a b p" "max a b = major a b p + int n"
  shows "last (bpath a b n p) = (a, b)" "list_all (near a b) (bpath a b n p)" "successively close (bpath a b n p)"
  using assms
proof (induction n arbitrary: p)
  case 0
  {
    case 1
    then show ?case using near_end [OF 1(1)] by simp
  next
    case 2
    then show ?case by simp
  next
    case 3
    then show ?case by simp
  }
next
  case (Suc n)
  have p: "near a b (bstep a b p)" "max a b = major a b (bstep a b p) + int n" "close p (bstep a b p)"
    if "near a b p" "max a b = major a b p + int (Suc n)" for p
  proof -
    have "p \<noteq> (a, b)" using that(2) by (cases p) (auto simp: major_def max_def split: if_splits)
    note S = near_step [OF that(1) this]
    show "near a b (bstep a b p)" "max a b = major a b (bstep a b p) + int n" "close p (bstep a b p)"
      using S(1,2,4,5) that(2) by (auto simp: close_def)
  qed
  {
    case 1
    show ?case using Suc.IH(1) [OF p(1,2) [OF 1]] by simp
  next
    case 2
    show ?case using Suc.IH(2) [OF p(1,2) [OF 2]] 2(1) by simp
  next
    case 3
    show ?case using Suc.IH(3) [OF p(1,2) [OF 3]] p(3) [OF 3] by (simp add: successively_Cons)
  }
qed

definition place :: "int \<Rightarrow> int \<Rightarrow> int \<Rightarrow> int \<Rightarrow> int \<times> int \<Rightarrow> int \<times> int" where
  "place x0 sx y0 sy = (\<lambda>(i, j). (x0 + sx * i, y0 + sy * j))"

lemma line_loop_path:
  assumes "near a b (i, j)" "max a b = major a b (i, j) + int n" "sx \<noteq> 0" "sy \<noteq> 0"
  shows "line_loop (x0 + sx * a) (y0 + sy * b) color a (- b) sx sy (x0 + sx * i) (y0 + sy * j) (a - b + (j * a - i * b)) m
    = Some (fold (\<lambda>(x, y). vga_put_pixel x y color) (map (place x0 sx y0 sy) (bpath a b n (i, j))) m)"
  using assms(1,2)
proof (induction n arbitrary: i j m)
  case 0
  then have "(i, j) = (a, b)" using near_end [of a b "(i, j)"] by simp
  then show ?case by (subst line_loop.simps) (simp add: place_def)
next
  case (Suc n)
  obtain i' j' where S: "bstep a b (i, j) = (i', j')" by (cases "bstep a b (i, j)")
  have ne: "(i, j) \<noteq> (a, b)" using Suc.prems(2) by (auto simp: major_def max_def split: if_splits)
  note N = near_step [OF Suc.prems(1) ne, unfolded S]
  have "max a b = major a b (i', j') + int n" using N(2) Suc.prems(2) by simp
  note IH = Suc.IH [OF N(1) this, of "vga_put_pixel (x0 + sx * i) (y0 + sy * j) color m"]
  have "line_loop (x0 + sx * a) (y0 + sy * b) color a (- b) sx sy (x0 + sx * i) (y0 + sy * j) (a - b + (j * a - i * b)) m
    = line_loop (x0 + sx * a) (y0 + sy * b) color a (- b) sx sy (x0 + sx * i') (y0 + sy * j') (a - b + (j' * a - i' * b))
        (vga_put_pixel (x0 + sx * i) (y0 + sy * j) color m)"
    using ne S assms(3,4)
    by (subst line_loop.simps) (auto simp: Let_def bstep_def algebra_simps split: if_splits)
  then show ?case unfolding IH by (simp add: place_def S)
qed

definition line_points :: "int \<Rightarrow> int \<Rightarrow> int \<Rightarrow> int \<Rightarrow> (int \<times> int) list" where
  "line_points x0 y0 x1 y1 = map (place x0 (if x0 < x1 then 1 else - 1) y0 (if y0 < y1 then 1 else - 1))
     (bpath \<bar>x1 - x0\<bar> \<bar>y1 - y0\<bar> (nat (max \<bar>x1 - x0\<bar> \<bar>y1 - y0\<bar>)) (0, 0))"

lemma near_start: "near \<bar>a\<bar> \<bar>b\<bar> (0, 0)" "max \<bar>a\<bar> \<bar>b\<bar> = major \<bar>a\<bar> \<bar>b\<bar> (0, 0) + int (nat (max \<bar>a\<bar> \<bar>b\<bar>))"
  by (auto simp: near_def major_def)

lemma vga_draw_line_eq:
  "vga_draw_line x0 y0 x1 y1 color m = Some (fold (\<lambda>(x, y). vga_put_pixel x y color) (line_points x0 y0 x1 y1) m)"
proof -
  define a b sx sy where "a = \<bar>x1 - x0\<bar>" and "b = \<bar>y1 - y0\<bar>" and "sx = (if x0 < x1 then 1 else - 1 :: int)"
    and "sy = (if y0 < y1 then 1 else - 1 :: int)"
  note defs = a_def b_def sx_def sy_def
  have e: "x1 = x0 + sx * a" "y1 = y0 + sy * b" "sx \<noteq> 0" "sy \<noteq> 0" by (auto simp: defs)
  have ab: "vga_abs (x1 - x0) = a" "vga_abs (y1 - y0) = b" by (auto simp: vga_abs_def defs)
  show ?thesis
    using line_loop_path [OF near_start [of "x1 - x0" "y1 - y0", folded a_def b_def] e(3,4), of x0 y0 color m]
    by (simp add: vga_draw_line_def line_points_def Let_def ab flip: e(1,2) defs)
qed


lemma vga_draw_triangle_eq:
  "vga_draw_triangle x1 y1 x2 y2 x3 y3 color m = Some (fold (\<lambda>(x, y). vga_put_pixel x y color)
     (line_points x1 y1 x2 y2 @ line_points x2 y2 x3 y3 @ line_points x3 y3 x1 y1) m)"
  by (simp add: vga_draw_triangle_def vga_draw_line_eq)

section \<open>Circles\<close>

definition draw_circle_points :: "int \<Rightarrow> int \<Rightarrow> int \<Rightarrow> int \<Rightarrow> u8 \<Rightarrow> int \<Rightarrow> mem \<Rightarrow> mem" where
  "draw_circle_points cx cy x y color fill m =
     (if fill \<noteq> 0 then
        let m1 = for_int (- x) (x + 1) (\<lambda>i m. vga_put_pixel (cx + i) (cy - y) color (vga_put_pixel (cx + i) (cy + y) color m)) m
        in for_int (- y) (y + 1) (\<lambda>i m. vga_put_pixel (cx + i) (cy - x) color (vga_put_pixel (cx + i) (cy + x) color m)) m1
      else
        let m1 = vga_put_pixel (cx + x) (cy + y) color m;
            m2 = vga_put_pixel (cx - x) (cy + y) color m1;
            m3 = vga_put_pixel (cx + x) (cy - y) color m2;
            m4 = vga_put_pixel (cx - x) (cy - y) color m3;
            m5 = vga_put_pixel (cx + y) (cy + x) color m4;
            m6 = vga_put_pixel (cx - y) (cy + x) color m5;
            m7 = vga_put_pixel (cx + y) (cy - x) color m6
        in vga_put_pixel (cx - y) (cy - x) color m7)"

function circle_loop :: "int \<Rightarrow> int \<Rightarrow> u8 \<Rightarrow> int \<Rightarrow> int \<Rightarrow> int \<Rightarrow> int \<Rightarrow> mem \<Rightarrow> mem" where
  "circle_loop cx cy color fill x y d m =
     (if y < x then m
      else
        let m1 = draw_circle_points cx cy x y color fill m; x1 = x + 1
        in if 0 < d then
             let y1 = y - 1 in circle_loop cx cy color fill x1 y1 (d + (4 * (x1 - y1) + 10)) m1
           else circle_loop cx cy color fill x1 y (d + (4 * x1 + 6)) m1)"
  by pat_completeness auto
termination
  by (relation "measure (\<lambda>(cx, cy, color, fill, x, y, d, m). nat (y - x + 1))") auto

declare circle_loop.simps [simp del]

definition vga_draw_circle :: "int \<Rightarrow> int \<Rightarrow> int \<Rightarrow> u8 \<Rightarrow> int \<Rightarrow> mem \<Rightarrow> mem" where
  "vga_draw_circle cx cy radius color fill m = circle_loop cx cy color fill 0 radius (3 - 2 * radius) m"

text \<open>The points of one octant, in the order of the loop.\<close>

function octant :: "int \<Rightarrow> int \<Rightarrow> int \<Rightarrow> (int \<times> int) list" where
  "octant x y d = (if y < x then [] else (x, y) #
     (if 0 < d then octant (x + 1) (y - 1) (d + (4 * (x - y) + 18)) else octant (x + 1) y (d + (4 * x + 10))))"
  by pat_completeness auto
termination
  by (relation "measure (\<lambda>(x, y, d). nat (y - x + 1))") auto

declare octant.simps [simp del]

lemma circle_loop_octant:
  "circle_loop cx cy color fill x y d m = fold (\<lambda>(x, y). draw_circle_points cx cy x y color fill) (octant x y d) m"
proof (induction cx cy color fill x y d m rule: circle_loop.induct)
  case (1 cx cy color fill x y d m)
  show ?case
  proof (cases "y < x")
    case True
    then show ?thesis by (simp add: circle_loop.simps octant.simps)
  next
    case False
    have "circle_loop cx cy color fill x y d m = (let m1 = draw_circle_points cx cy x y color fill m in
      if 0 < d then circle_loop cx cy color fill (x + 1) (y - 1) (d + (4 * (x - y) + 18)) m1
      else circle_loop cx cy color fill (x + 1) y (d + (4 * x + 10)) m1)"
      using False by (subst circle_loop.simps) (simp add: Let_def algebra_simps)
    moreover have e: "d + (4 * (x + 1 - (y - 1)) + 10) = d + (4 * (x - y) + 18)" "d + (4 * (x + 1) + 6) = d + (4 * x + 10)"
      by simp_all
    ultimately show ?thesis
      using "1.IH"(1) [OF False refl refl _ refl] "1.IH"(2) [OF False refl refl] False unfolding e
      by (simp add: octant.simps [of x y d] Let_def)
  qed
qed

text \<open>The decision variable is that of the midpoint circle, \<open>2 (x+1)^2 + y^2 + (y-1)^2 - 2 r^2\<close>, plus a drift: the
  code adds the increments with the coordinates it has changed already.\<close>

lemma octant_inside:
  assumes "0 \<le> x" "y \<le> r" "x \<le> y \<Longrightarrow> x * x + y * y \<le> r * r + r"
    and "d = 2 * ((x + 1) * (x + 1)) + y * y + (y - 1) * (y - 1) - 2 * (r * r) + 4 * x + 4 * (r - y)"
  shows "list_all (\<lambda>(x, y). 0 \<le> x \<and> x \<le> y \<and> y \<le> r \<and> x * x + y * y \<le> r * r + r) (octant x y d)"
  using assms
proof (induction x y d rule: octant.induct)
  case (1 x y d)
  show ?case
  proof (cases "y < x")
    case False
    consider "0 < d" | "d \<le> 0" by linarith
    then have "list_all (\<lambda>(x, y). 0 \<le> x \<and> x \<le> y \<and> y \<le> r \<and> x * x + y * y \<le> r * r + r)
      (if 0 < d then octant (x + 1) (y - 1) (d + (4 * (x - y) + 18)) else octant (x + 1) y (d + (4 * x + 10)))"
    proof cases
      case p: 1
      have "(x + 1) * (x + 1) + (y - 1) * (y - 1) \<le> r * r + r" if "x + 1 \<le> y - 1"
        using "1.prems"(3) that by (simp add: algebra_simps)
      then have "list_all (\<lambda>(x, y). 0 \<le> x \<and> x \<le> y \<and> y \<le> r \<and> x * x + y * y \<le> r * r + r)
          (octant (x + 1) (y - 1) (d + (4 * (x - y) + 18)))"
        by (intro "1.IH"(1) [OF False p]) (use "1.prems" in \<open>simp_all add: algebra_simps\<close>)
      then show ?thesis using p by simp
    next
      case p: 2
      have "2 * ((x + 1) * (x + 1)) + y * y + (y - 1) * (y - 1) \<le> 2 * (r * r)" using p "1.prems" by simp
      then have "(x + 1) * (x + 1) + y * y \<le> r * r + r" using "1.prems"(2) by (simp add: algebra_simps)
      then have "list_all (\<lambda>(x, y). 0 \<le> x \<and> x \<le> y \<and> y \<le> r \<and> x * x + y * y \<le> r * r + r)
          (octant (x + 1) y (d + (4 * x + 10)))"
        by (intro "1.IH"(2) [OF False]) (use p "1.prems" in \<open>simp_all add: algebra_simps\<close>)
      then show ?thesis using p by simp
    qed
    then show ?thesis using False "1.prems" by (subst octant.simps) simp
  qed (simp add: octant.simps)
qed

fun circle_dot :: "int \<Rightarrow> int \<times> int \<Rightarrow> int \<times> int \<Rightarrow> bool" where
  "circle_dot fill (x, y) (i, j) =
     (if fill \<noteq> 0 then \<bar>j\<bar> = y \<and> \<bar>i\<bar> \<le> x \<or> \<bar>j\<bar> = x \<and> \<bar>i\<bar> \<le> y
      else \<bar>i\<bar> = x \<and> \<bar>j\<bar> = y \<or> \<bar>i\<bar> = y \<and> \<bar>j\<bar> = x)"

definition circle_area :: "int \<Rightarrow> (int \<times> int) list \<Rightarrow> int \<times> int \<Rightarrow> bool" where
  "circle_area fill ps p \<longleftrightarrow> (\<exists>q\<in>set ps. circle_dot fill q p)"

lemma mirrored: "0 \<le> x \<Longrightarrow> \<bar>i - cx\<bar> = x \<longleftrightarrow> i = cx + x \<or> i = cx - x" for x :: int
  by auto

lemma circle_span:
  assumes "0 \<le> y"
  shows "draws (pixel VGA_ADDRESS) (beside VGA_ADDRESS) (ink (\<lambda>(i, j). \<bar>j - cy\<bar> = y \<and> \<bar>i - cx\<bar> \<le> x) color)
    (for_int (- x) (x + 1) (\<lambda>i m. vga_put_pixel (cx + i) (cy - y) color (vga_put_pixel (cx + i) (cy + y) color m)))"
proof (rule draws_weaken [OF draws_for_ink [OF draws_seq_ink [OF fb.dot fb.dot]]])
  fix p :: "int \<times> int"
  obtain i j where p: "p = (i, j)" by (cases p)
  have "(\<exists>k. - x \<le> k \<and> k < x + 1 \<and> (p = (cx + k, cy + y) \<or> p = (cx + k, cy - y))) \<longleftrightarrow> \<bar>j - cy\<bar> = y \<and> \<bar>i - cx\<bar> \<le> x"
    using assms by (auto simp: p abs_if intro!: exI [of _ "i - cx"])
  then show "ink (\<lambda>p. \<exists>k\<ge>- x. k < x + 1 \<and> (p = (cx + k, cy + y) \<or> p = (cx + k, cy - y))) color p
    = ink (\<lambda>(i, j). \<bar>j - cy\<bar> = y \<and> \<bar>i - cx\<bar> \<le> x) color p" by (simp add: ink_def p)
qed simp

lemma circle_points:
  assumes "0 \<le> x" "x \<le> y"
  shows "draws (pixel VGA_ADDRESS) (beside VGA_ADDRESS) (ink (\<lambda>(i, j). circle_dot fill (x, y) (i - cx, j - cy)) color)
    (draw_circle_points cx cy x y color fill)"
proof (cases "fill = 0")
  case True
  let ?l = "[(cx + x, cy + y), (cx - x, cy + y), (cx + x, cy - y), (cx - x, cy - y),
      (cx + y, cy + x), (cx - y, cy + x), (cx + y, cy - x), (cx - y, cy - x)]"
  have "draws (pixel VGA_ADDRESS) (beside VGA_ADDRESS) (ink (\<lambda>p. p \<in> set ?l) color) (draw_circle_points cx cy x y color fill)"
    by (rule draws_weaken [OF fb.points [of ?l color]]) (simp_all add: True draw_circle_points_def Let_def)
  then show ?thesis
    by (rule draws_weaken) (use assms in \<open>auto simp: ink_def True mirrored\<close>)
next
  case False
  from assms have "0 \<le> y" by simp
  from draws_seq_ink [OF circle_span [OF this] circle_span [OF assms(1)]] show ?thesis
    by (rule draws_weaken) (auto simp: ink_def draw_circle_points_def False Let_def)
qed

text \<open>Drawing a circle or a disc paints the pixels given by the octant's points and their eight mirror images
  (for a disc the spans between them) and nothing else. All of them lie in the bounding box of the circle and less than
  half a pixel outside it. The octant starts at the top, and it is empty only for a negative radius.\<close>

theorem vga_draw_circle_area:
  "\<exists>ps. draws (pixel VGA_ADDRESS) (beside VGA_ADDRESS) (ink (\<lambda>(i, j). circle_area fill ps (i - cx, j - cy)) color)
       (vga_draw_circle cx cy r color fill)
     \<and> list_all (\<lambda>(x, y). 0 \<le> x \<and> x \<le> y \<and> y \<le> r \<and> x * x + y * y \<le> r * r + r) ps
     \<and> hd_opt ps = (if r < 0 then None else Some (0, r))"
proof (intro exI conjI)
  let ?ps = "octant 0 r (3 - 2 * r)"
  show inside: "list_all (\<lambda>(x, y). 0 \<le> x \<and> x \<le> y \<and> y \<le> r \<and> x * x + y * y \<le> r * r + r) ?ps"
    by (rule octant_inside) (simp_all add: algebra_simps)
  show "draws (pixel VGA_ADDRESS) (beside VGA_ADDRESS) (ink (\<lambda>(i, j). circle_area fill ?ps (i - cx, j - cy)) color)
       (vga_draw_circle cx cy r color fill)"
  proof (rule draws_weaken)
    show "draws (pixel VGA_ADDRESS) (beside VGA_ADDRESS) (ink (\<lambda>(i, j). circle_area fill ?ps (i - cx, j - cy)) color)
        (fold (\<lambda>(x, y). draw_circle_points cx cy x y color fill) ?ps)"
    proof (rule draws_fold)
      fix k assume "k \<in> set ?ps"
      then have "0 \<le> fst k" "fst k \<le> snd k" using inside by (auto simp: list_all_iff)
      from circle_points [OF this] show "draws (pixel VGA_ADDRESS) (beside VGA_ADDRESS)
          (ink (\<lambda>(i, j). circle_dot fill k (i - cx, j - cy)) color) ((\<lambda>(x, y). draw_circle_points cx cy x y color fill) k)"
        by (simp add: case_prod_unfold)
    qed (auto simp: ink_eq_Some circle_area_def)
  qed (simp_all add: vga_draw_circle_def circle_loop_octant)
  show "hd_opt ?ps = (if r < 0 then None else Some (0, r))" by (simp add: octant.simps)
qed

text \<open>The drift makes the circle smaller than it should be: the pixel (3, 3) of the circle of radius 5 is more than
  half a pixel inside it, and the pixel (3, 4), which lies on it exactly, is not drawn.\<close>

lemma vga_circle_drifts: "octant 0 5 (3 - 2 * 5) = [(0, 5), (1, 5), (2, 4), (3, 3)]"
  by (simp add: octant.simps)

section \<open>The palette\<close>

text \<open>The bytes written to the ports of the colour registers, in order.\<close>

definition vga_set_palette_color :: "u8 \<Rightarrow> u8 \<Rightarrow> u8 \<Rightarrow> u8 \<Rightarrow> (u16 \<times> u8) list" where
  "vga_set_palette_color index r g b =
     [(0x3C8, index), (0x3C9, drop_bit 2 r), (0x3C9, drop_bit 2 g), (0x3C9, drop_bit 2 b)]"

end
