(* ===== verification/Vga_Text.thy ===== *)
theory Vga_Text
  imports Vga Ulib
begin

unbundle bit_operations_syntax

text \<open>
  The rest of \<^verbatim>\<open>vga_graphics.c\<close>: clearing and showing the back buffer, sprites, text in the 8 x 8 font of
  \<^verbatim>\<open>font8x8.h\<close>, and the waits. Sprites and strings are constant data: they are lists of bytes. The values that
  the status port and the clock variable show one after the other are lists too; a wait that uses up its list is still
  waiting, which is the value \<open>None\<close>.
\<close>

section \<open>The back buffer\<close>

definition vga_clear_buf :: "addr \<Rightarrow> u8 \<Rightarrow> mem \<Rightarrow> mem" where
  "vga_clear_buf vga_backbuffer color = for_int 0 (uint VGA_VRAM_SIZE) (\<lambda>i m. m(vga_backbuffer + word_of_int i := color))"

definition vga_render :: "addr \<Rightarrow> mem \<Rightarrow> mem" where
  "vga_render vga_backbuffer m = umemcpy m VGA_ADDRESS vga_backbuffer VGA_VRAM_SIZE"

definition vga_blit :: "addr \<Rightarrow> u8 list \<Rightarrow> int \<Rightarrow> int \<Rightarrow> int \<Rightarrow> int \<Rightarrow> u8 \<Rightarrow> mem \<Rightarrow> mem" where
  "vga_blit vga_backbuffer sprite w h x0 y0 transparent_color =
     for_int 0 h (\<lambda>y m.
       let yy = y0 + y in
       if yy < 0 \<or> VGA_HEIGHT \<le> yy then m
       else for_int 0 w (\<lambda>x m.
         let xx = x0 + x in
         if xx < 0 \<or> VGA_WIDTH \<le> xx then m
         else let p = sprite ! nat (y * w + x)
              in if p \<noteq> transparent_color then vga_put_pixel_buf vga_backbuffer xx yy p m else m) m)"

section \<open>Text\<close>

definition font8x8_table :: "(nat \<times> u8 list) list" where
  "font8x8_table =
    [(32, [0, 0, 0, 0, 0, 0, 0, 0]),
     (48, [0x3C, 0x66, 0x6E, 0x76, 0x66, 0x66, 0x3C, 0]),
     (49, [0x18, 0x38, 0x18, 0x18, 0x18, 0x18, 0x7E, 0]),
     (50, [0x3C, 0x66, 0x6, 0x1C, 0x30, 0x60, 0x7E, 0]),
     (51, [0x3C, 0x66, 0x6, 0x1C, 0x6, 0x66, 0x3C, 0]),
     (52, [0xC, 0x1C, 0x2C, 0x4C, 0x7E, 0xC, 0x1E, 0]),
     (53, [0x7E, 0x60, 0x7C, 0x6, 0x6, 0x66, 0x3C, 0]),
     (54, [0x3C, 0x60, 0x7C, 0x66, 0x66, 0x66, 0x3C, 0]),
     (55, [0x7E, 0x6, 0xC, 0x18, 0x30, 0x30, 0x30, 0]),
     (56, [0x3C, 0x66, 0x3C, 0x66, 0x66, 0x66, 0x3C, 0]),
     (57, [0x3C, 0x66, 0x66, 0x3E, 0x6, 0xC, 0x38, 0]),
     (65, [0x3C, 0x66, 0x66, 0x7E, 0x66, 0x66, 0x66, 0]),
     (66, [0x7C, 0x66, 0x66, 0x7C, 0x66, 0x66, 0x7C, 0]),
     (67, [0x3C, 0x66, 0x60, 0x60, 0x60, 0x66, 0x3C, 0]),
     (68, [0x78, 0x6C, 0x66, 0x66, 0x66, 0x6C, 0x78, 0]),
     (69, [0x7E, 0x60, 0x60, 0x7C, 0x60, 0x60, 0x7E, 0]),
     (70, [0x7E, 0x60, 0x60, 0x7C, 0x60, 0x60, 0x60, 0]),
     (71, [0x3C, 0x66, 0x60, 0x6E, 0x66, 0x66, 0x3C, 0]),
     (72, [0x66, 0x66, 0x66, 0x7E, 0x66, 0x66, 0x66, 0]),
     (73, [0x3C, 0x18, 0x18, 0x18, 0x18, 0x18, 0x3C, 0]),
     (74, [0x1E, 0xC, 0xC, 0xC, 0xC, 0x6C, 0x38, 0]),
     (75, [0x66, 0x6C, 0x78, 0x70, 0x78, 0x6C, 0x66, 0]),
     (76, [0x60, 0x60, 0x60, 0x60, 0x60, 0x60, 0x7E, 0]),
     (77, [0x63, 0x77, 0x7F, 0x6B, 0x63, 0x63, 0x63, 0]),
     (78, [0x66, 0x76, 0x7E, 0x6E, 0x66, 0x66, 0x66, 0]),
     (79, [0x3C, 0x66, 0x66, 0x66, 0x66, 0x66, 0x3C, 0]),
     (80, [0x7C, 0x66, 0x66, 0x7C, 0x60, 0x60, 0x60, 0]),
     (81, [0x3C, 0x66, 0x66, 0x66, 0x6E, 0x6C, 0x36, 0]),
     (82, [0x7C, 0x66, 0x66, 0x7C, 0x78, 0x6C, 0x66, 0]),
     (83, [0x3C, 0x66, 0x30, 0x1C, 0x6, 0x66, 0x3C, 0]),
     (84, [0x7E, 0x5A, 0x18, 0x18, 0x18, 0x18, 0x3C, 0]),
     (85, [0x66, 0x66, 0x66, 0x66, 0x66, 0x66, 0x3C, 0]),
     (86, [0x66, 0x66, 0x66, 0x66, 0x66, 0x3C, 0x18, 0]),
     (87, [0x63, 0x63, 0x63, 0x6B, 0x7F, 0x77, 0x63, 0]),
     (88, [0x63, 0x63, 0x36, 0x1C, 0x1C, 0x36, 0x63, 0]),
     (89, [0x66, 0x66, 0x66, 0x3C, 0x18, 0x18, 0x3C, 0]),
     (90, [0x7E, 0x6, 0xC, 0x18, 0x30, 0x60, 0x7E, 0])]"

definition font8x8_basic :: "nat \<Rightarrow> u8 list" where
  "font8x8_basic c = (case map_of font8x8_table c of None \<Rightarrow> replicate 8 0 | Some g \<Rightarrow> g)"

definition font8x8_get :: "u8 \<Rightarrow> u8 list" where
  "font8x8_get c =
     (let uc = (if 97 \<le> c \<and> c \<le> 122 then c - 32 else c)
      in if uc < 128 then font8x8_basic (unat uc) else font8x8_basic 0)"

definition vga_draw_char :: "addr \<Rightarrow> int \<Rightarrow> int \<Rightarrow> u8 \<Rightarrow> u8 \<Rightarrow> mem \<Rightarrow> mem" where
  "vga_draw_char vga_backbuffer x y c color =
     (let glyph = font8x8_get c in
      for_int 0 8 (\<lambda>row.
        let bits = glyph ! nat row in
        for_int 0 8 (\<lambda>col m.
          if bits AND push_bit (nat (7 - col)) 1 \<noteq> 0
          then vga_put_pixel_buf vga_backbuffer (x + col) (y + row) color m else m)))"

fun draw_string_loop :: "addr \<Rightarrow> int \<Rightarrow> u8 \<Rightarrow> int \<Rightarrow> int \<Rightarrow> u8 list \<Rightarrow> mem \<Rightarrow> mem" where
  "draw_string_loop vga_backbuffer x color cx cy [] m = m"
| "draw_string_loop vga_backbuffer x color cx cy (ch # str) m =
     (if ch = 10 then draw_string_loop vga_backbuffer x color x (cy + 8) str m
      else
        let m1 = vga_draw_char vga_backbuffer cx cy ch color m
        in if cx + 8 + 8 > VGA_WIDTH then draw_string_loop vga_backbuffer x color x (cy + 8) str m1
           else draw_string_loop vga_backbuffer x color (cx + 8) cy str m1)"

definition vga_draw_string :: "addr \<Rightarrow> int \<Rightarrow> int \<Rightarrow> u8 list \<Rightarrow> u8 \<Rightarrow> mem \<Rightarrow> mem" where
  "vga_draw_string vga_backbuffer x y str color = draw_string_loop vga_backbuffer x color x y str"

section \<open>Waiting\<close>

fun retrace_ends :: "u8 list \<Rightarrow> u8 list option" where
  "retrace_ends [] = None"
| "retrace_ends (s # rs) = (if s AND 8 \<noteq> 0 then retrace_ends rs else Some rs)"

fun retrace_starts :: "u8 list \<Rightarrow> u8 list option" where
  "retrace_starts [] = None"
| "retrace_starts (s # rs) = (if s AND 8 = 0 then retrace_starts rs else Some rs)"

definition vga_wait_vsync :: "u8 list \<Rightarrow> u8 list option" where
  "vga_wait_vsync rs = Option.bind (retrace_ends rs) retrace_starts"

function vga_delay_frames :: "u32 \<Rightarrow> u8 list \<Rightarrow> u8 list option" where
  "vga_delay_frames frames rs =
     (if frames = 0 then Some rs else Option.bind (vga_wait_vsync rs) (vga_delay_frames (frames - 1)))"
  by pat_completeness auto
termination
  by (relation "measure (\<lambda>(frames, rs). unat frames)") (auto simp: unat_minus_one unat_gt_0)

declare vga_delay_frames.simps [simp del]

fun sleep_until :: "u32 \<Rightarrow> u32 list \<Rightarrow> u32 list option" where
  "sleep_until end [] = None"
| "sleep_until end (system_time # ts) = (if system_time < end then sleep_until end ts else Some ts)"

definition vga_sleep_ms :: "u32 \<Rightarrow> u32 list \<Rightarrow> u32 list option" where
  "vga_sleep_ms ms ts = (case ts of [] \<Rightarrow> None | t # ts \<Rightarrow> sleep_until (t + (ms * 1000 + 500) div 1000) ts)"

section \<open>What they draw\<close>

lemma vga_clear_buf_eq: "vga_clear_buf b color m = (\<lambda>a. if inr b 0x10000 a then color else m a)"
proof -
  have *: "fold (\<lambda>i m. m(b + word_of_int i := color)) [0..int n - 1] m = (\<lambda>a. if inr b n a then color else m a)"
    if "n \<le> 0x10000" for n
    using that
  proof (induction n)
    case (Suc n)
    have "[0..int (Suc n) - 1] = [0..int n - 1] @ [int n]" by (simp add: upto_rec2)
    then show ?case using Suc by (auto simp: fun_eq_iff inr_Suc_end)
  qed (simp add: inr_def)
  show ?thesis using * [of "0x10000"] by (simp add: vga_clear_buf_def for_int_def)
qed

text \<open>Showing the back buffer puts each of its pixels on the screen and changes nothing outside the 64 KiB of
  video memory, when the buffer does not overlap them.\<close>

theorem vga_render_shows:
  assumes "apart b 0x10000 VGA_ADDRESS 0x10000"
  shows "on_screen p \<Longrightarrow> pixel VGA_ADDRESS (vga_render b m) p = pixel b m p"
    and "\<not> inr VGA_ADDRESS 0x10000 a \<Longrightarrow> vga_render b m a = m a"
proof -
  have eq: "vga_render b m = copied m VGA_ADDRESS b 0x10000"
    using assms unfolding vga_render_def umemcpy_def by (subst copy_up_eq) (simp_all add: apart_def)
  show "\<not> inr VGA_ADDRESS 0x10000 a \<Longrightarrow> vga_render b m a = m a" by (simp add: eq copied_def)
  show "pixel VGA_ADDRESS (vga_render b m) p = pixel b m p" if "on_screen p"
  proof (cases p)
    case (Pair i j)
    then have p: "0 \<le> i" "i < VGA_WIDTH" "0 \<le> j" "j < VGA_HEIGHT" using that by (simp_all add: on_screen_def)
    have "inr VGA_ADDRESS 0x10000 (VGA_ADDRESS + word_of_int (j * VGA_WIDTH + i))"
      using screen_index [OF p] by (simp add: inr_def unat_eq_nat_uint nat_less_iff del: of_int_add of_int_mult)
    then show ?thesis by (simp add: eq copied_def pixel_def Pair del: of_int_add of_int_mult)
  qed
qed

theorem vga_render_shows_witness:
  "pixel VGA_ADDRESS (vga_render 0x200000 ((\<lambda>_. 0)(0x200000 := 7))) (0, 0) = 7"
  using vga_render_shows(1) [of "0x200000" "(0, 0)" "(\<lambda>_. 0)(0x200000 := 7)"]
  by (simp add: apart_def on_screen_def pixel_def)

text \<open>A sprite is copied to its place in the back buffer, pixel by pixel, where it is on the screen and not of
  the transparent colour; every other pixel and every byte beside the buffer's screen keeps its value.\<close>

theorem vga_blit_exact:
  "draws (pixel b) (beside b)
     (\<lambda>(i, j). let p = sprite ! nat ((j - y0) * w + (i - x0))
       in if x0 \<le> i \<and> i < x0 + w \<and> y0 \<le> j \<and> j < y0 + h \<and> p \<noteq> transparent_color then Some p else None)
     (vga_blit b sprite w h x0 y0 transparent_color)"
proof -
  let ?p = "\<lambda>y x. sprite ! nat (y * w + x)"
  have px: "draws (pixel b) (beside b) (ink (\<lambda>p. p = (x0 + x, y0 + y) \<and> ?p y x \<noteq> transparent_color) (?p y x))
      (\<lambda>m. let xx = x0 + x in if xx < 0 \<or> VGA_WIDTH \<le> xx then m
         else let p = ?p y x in if p \<noteq> transparent_color then vga_put_pixel_buf b xx (y0 + y) p m else m)" for x y
  proof (cases "0 \<le> x0 + x \<and> x0 + x < VGA_WIDTH \<and> ?p y x \<noteq> transparent_color")
    case True
    show ?thesis by (rule draws_weaken [OF buf.dot [of b "x0 + x" "y0 + y" "?p y x"]]) (use True in \<open>auto simp: ink_def Let_def\<close>)
  next
    case False
    show ?thesis by (rule draws_weaken [OF draws_id]) (use False in \<open>auto simp: ink_def Let_def on_screen_def\<close>)
  qed
  let ?row = "\<lambda>y (i, j). if j = y0 + y \<and> x0 \<le> i \<and> i < x0 + w \<and> ?p y (i - x0) \<noteq> transparent_color
    then Some (?p y (i - x0)) else None"
  have row: "draws (pixel b) (beside b) (?row y)
      (\<lambda>m. let yy = y0 + y in if yy < 0 \<or> VGA_HEIGHT \<le> yy then m
         else for_int 0 w (\<lambda>x m. let xx = x0 + x in if xx < 0 \<or> VGA_WIDTH \<le> xx then m
           else let p = ?p y x in if p \<noteq> transparent_color then vga_put_pixel_buf b xx yy p m else m) m)" for y
  proof (cases "0 \<le> y0 + y \<and> y0 + y < VGA_HEIGHT")
    case True
    have "draws (pixel b) (beside b) (?row y) (for_int 0 w (\<lambda>x m. let xx = x0 + x in if xx < 0 \<or> VGA_WIDTH \<le> xx then m
           else let p = ?p y x in if p \<noteq> transparent_color then vga_put_pixel_buf b xx (y0 + y) p m else m))"
      by (rule draws_for [OF px]) (auto simp: ink_def split: if_splits intro!: exI [of _ "_ - x0"])
    then show ?thesis by (rule draws_weaken) (use True in \<open>auto simp: Let_def\<close>)
  next
    case False
    show ?thesis by (rule draws_weaken [OF draws_id]) (use False in \<open>auto simp: Let_def on_screen_def\<close>)
  qed
  have "draws (pixel b) (beside b)
     (\<lambda>(i, j). let p = ?p (j - y0) (i - x0)
       in if x0 \<le> i \<and> i < x0 + w \<and> y0 \<le> j \<and> j < y0 + h \<and> p \<noteq> transparent_color then Some p else None)
     (for_int 0 h (\<lambda>y m. let yy = y0 + y in if yy < 0 \<or> VGA_HEIGHT \<le> yy then m
         else for_int 0 w (\<lambda>x m. let xx = x0 + x in if xx < 0 \<or> VGA_WIDTH \<le> xx then m
           else let p = ?p y x in if p \<noteq> transparent_color then vga_put_pixel_buf b xx yy p m else m) m))"
    by (rule draws_for [OF row]) (auto simp: Let_def split: if_splits intro!: exI [of _ "_ - y0"])
  then show ?thesis by (simp add: vga_blit_def)
qed

text \<open>A character paints the set bits of its glyph, the most significant bit of each row first.\<close>

definition glyph_area :: "int \<Rightarrow> int \<Rightarrow> u8 \<Rightarrow> int \<times> int \<Rightarrow> bool" where
  "glyph_area x y c = (\<lambda>(i, j). x \<le> i \<and> i < x + 8 \<and> y \<le> j \<and> j < y + 8 \<and>
     bit (font8x8_get c ! nat (j - y)) (nat (7 - (i - x))))"

lemma and_push_bit_1: "w AND push_bit n 1 = 0 \<longleftrightarrow> \<not> bit w n" "w AND 2 ^ n = 0 \<longleftrightarrow> \<not> bit w n" for w :: u8
  using bit_iff_and_push_bit_not_eq_0 [of w n] by (simp_all add: push_bit_of_1)

lemma vga_draw_char_exact: "draws (pixel b) (beside b) (ink (glyph_area x y c) color) (vga_draw_char b x y c color)"
proof -
  let ?g = "font8x8_get c"
  have px: "draws (pixel b) (beside b) (ink (\<lambda>p. p = (x + col, y + row) \<and> bit (?g ! nat row) (nat (7 - col))) color)
      (\<lambda>m. if ?g ! nat row AND push_bit (nat (7 - col)) 1 \<noteq> 0 then vga_put_pixel_buf b (x + col) (y + row) color m else m)"
    for row col
  proof (cases "bit (?g ! nat row) (nat (7 - col))")
    case True
    show ?thesis by (rule draws_weaken [OF buf.dot [of b "x + col" "y + row" color]])
      (simp_all add: True and_push_bit_1 ink_def)
  next
    case False
    show ?thesis by (rule draws_weaken [OF draws_id]) (simp_all add: False and_push_bit_1 ink_def)
  qed
  have "draws (pixel b) (beside b) (ink (glyph_area x y c) color) (for_int 0 8 (\<lambda>row. for_int 0 8 (\<lambda>col m.
      if ?g ! nat row AND push_bit (nat (7 - col)) 1 \<noteq> 0 then vga_put_pixel_buf b (x + col) (y + row) color m else m)))"
  proof (rule draws_weaken [OF draws_for_ink [OF draws_for_ink [OF px]]])
    fix p
    have "(\<exists>row\<ge>0. row < 8 \<and> (\<exists>col\<ge>0. col < 8 \<and> p = (x + col, y + row) \<and> bit (?g ! nat row) (nat (7 - col))))
      \<longleftrightarrow> glyph_area x y c p" (is "?l \<longleftrightarrow> ?r")
    proof
      assume ?r
      then show ?l by (intro exI [of _ "snd p - y"] conjI exI [of _ "fst p - x"]) (auto simp: glyph_area_def)
    qed (auto simp: glyph_area_def)
    then show "ink (\<lambda>p. \<exists>row\<ge>0. row < 8 \<and> (\<exists>col\<ge>0. col < 8 \<and> p = (x + col, y + row) \<and> bit (?g ! nat row) (nat (7 - col)))) color p
      = ink (glyph_area x y c) color p" by (simp add: ink_def)
  qed simp
  then show ?thesis by (simp add: vga_draw_char_def Let_def)
qed

text \<open>Where the characters of a string go.\<close>

fun string_cells :: "int \<Rightarrow> int \<Rightarrow> int \<Rightarrow> u8 list \<Rightarrow> (int \<times> int \<times> u8) list" where
  "string_cells x cx cy [] = []"
| "string_cells x cx cy (ch # str) =
     (if ch = 10 then string_cells x x (cy + 8) str
      else (cx, cy, ch) # (if cx + 16 > VGA_WIDTH then string_cells x x (cy + 8) str else string_cells x (cx + 8) cy str))"

lemma draw_string_cells:
  "draw_string_loop b x color cx cy str m = fold (\<lambda>(cx, cy, ch). vga_draw_char b cx cy ch color) (string_cells x cx cy str) m"
  by (induction x cx cy str arbitrary: m rule: string_cells.induct) (simp_all add: Let_def add.assoc)

text \<open>C35. A string paints exactly the set bits of the glyphs of its characters, each at its place.\<close>

theorem vga_draw_string_exact:
  "draws (pixel b) (beside b) (ink (\<lambda>p. list_ex (\<lambda>(cx, cy, ch). glyph_area cx cy ch p) (string_cells x x y str)) color)
     (vga_draw_string b x y str color)"
proof -
  have "draws (pixel b) (beside b) (ink (\<lambda>p. list_ex (\<lambda>(cx, cy, ch). glyph_area cx cy ch p) (string_cells x x y str)) color)
     (fold (\<lambda>(cx, cy, ch). vga_draw_char b cx cy ch color) (string_cells x x y str))"
    by (rule draws_fold_ink) (auto simp: vga_draw_char_exact ink_eq_Some split: prod.splits)
  then show ?thesis by (rule draws_weaken) (simp_all add: vga_draw_string_def draw_string_cells)
qed

text \<open>A string without line feeds that starts on the screen is set in lines of \<open>(320 - x) div 8\<close> characters: the
  \<open>k\<close>-th one goes to the column \<open>k mod n\<close> of the line \<open>k div n\<close>, so no line leaves the screen on the right.\<close>

theorem vga_string_lines:
  assumes "n = (VGA_WIDTH - x) div 8" "0 < n" "list_all (\<lambda>ch. ch \<noteq> 10) str"
  shows "string_cells x x y str = map (\<lambda>k. (x + 8 * (int k mod n), y + 8 * (int k div n), str ! k)) [0..<length str]"
proof -
  have "string_cells x (x + 8 * (int k mod n)) (y + 8 * (int k div n)) s
    = map (\<lambda>i. (x + 8 * (int (k + i) mod n), y + 8 * (int (k + i) div n), s ! i)) [0..<length s]"
    if "list_all (\<lambda>ch. ch \<noteq> 10) s" for s k
    using that
  proof (induction s arbitrary: k)
    case (Cons c s)
    let ?q = "int k div n" and ?r = "int k mod n"
    have k: "int k = n * ?q + ?r" "0 \<le> ?r" "?r < n" using assms(2) by simp_all
    have "8 * n + (VGA_WIDTH - x) mod 8 = VGA_WIDTH - x" "0 \<le> (VGA_WIDTH - x) mod 8" "(VGA_WIDTH - x) mod 8 < 8"
      unfolding assms(1) by simp_all
    then have w: "8 * n \<le> VGA_WIDTH - x" "VGA_WIDTH - x < 8 * n + 8" by linarith+
    have next_cell: "(if ?r + 1 = n then 0 else ?r + 1) = int (Suc k) mod n" "(if ?r + 1 = n then ?q + 1 else ?q) = int (Suc k) div n"
    proof -
      have gen: "int (Suc k) mod n = R \<and> int (Suc k) div n = Q" if "int (Suc k) = n * Q + R" "0 \<le> R" "R < n" for Q R
        using that(2,3) unfolding that(1) by simp
      have Suc: "int (Suc k) = n * ?q + (?r + 1)" using k(1) by simp
      have "(if ?r + 1 = n then 0 else ?r + 1) = int (Suc k) mod n \<and> (if ?r + 1 = n then ?q + 1 else ?q) = int (Suc k) div n"
      proof (cases "?r + 1 = n")
        case True
        have "int (Suc k) = n * (?q + 1) + 0" using Suc unfolding True by (simp only: distrib_left mult_1_right add_0_right)
        from gen [OF this] show ?thesis using True assms(2) by (simp del: of_nat_Suc)
      next
        case False
        then have "?r + 1 < n" using k(3) by linarith
        from gen [OF Suc _ this] k(2) show ?thesis using False by (simp del: of_nat_Suc)
      qed
      then show "(if ?r + 1 = n then 0 else ?r + 1) = int (Suc k) mod n" "(if ?r + 1 = n then ?q + 1 else ?q) = int (Suc k) div n"
        by blast+
    qed
    have wrap: "x + 8 * ?r + 16 > VGA_WIDTH \<longleftrightarrow> ?r + 1 = n" using w k(3) by auto
    have "string_cells x (x + 8 * ?r) (y + 8 * ?q) (c # s)
      = (x + 8 * ?r, y + 8 * ?q, c) # string_cells x (x + 8 * (int (Suc k) mod n)) (y + 8 * (int (Suc k) div n)) s"
      unfolding next_cell [symmetric] using Cons.prems wrap by (cases "?r + 1 = n") (simp_all add: algebra_simps)
    also have "\<dots> = (x + 8 * ?r, y + 8 * ?q, c) # map (\<lambda>i. (x + 8 * (int (Suc k + i) mod n), y + 8 * (int (Suc k + i) div n), s ! i)) [0..<length s]"
      using Cons.IH [of "Suc k"] Cons.prems by simp
    also have "\<dots> = map (\<lambda>i. (x + 8 * (int (k + i) mod n), y + 8 * (int (k + i) div n), (c # s) ! i)) [0..<length (c # s)]"
      by (simp add: upt_conv_Cons map_Suc_upt [symmetric] ac_simps del: upt_Suc)
    finally show ?case .
  qed simp
  from this [of str 0] show ?thesis using assms by simp
qed

theorem vga_string_lines_witness:
  "string_cells 300 300 92 [72, 73, 33] = [(300, 92, 72), (308, 92, 73), (300, 100, 33)]"
  using vga_string_lines [of 2 300 "[72, 73, 33]" 92] by simp

section \<open>What they wait for\<close>

lemma and_8: "s AND 8 = 0 \<longleftrightarrow> \<not> bit s 3" for s :: u8
  using and_push_bit_1(2) [of s 3] by simp

lemma retrace_ends_eq: "retrace_ends rs = Some rest \<longleftrightarrow> (\<exists>a s. rs = a @ s # rest \<and> list_all (\<lambda>r. bit r 3) a \<and> \<not> bit s 3)"
proof (induction rs)
  case (Cons r rs)
  show ?case
  proof (cases "bit r 3")
    case True
    have "(\<exists>a s. r # rs = a @ s # rest \<and> list_all (\<lambda>r. bit r 3) a \<and> \<not> bit s 3)
      \<longleftrightarrow> (\<exists>a s. rs = a @ s # rest \<and> list_all (\<lambda>r. bit r 3) a \<and> \<not> bit s 3)"
      using True by (auto simp: Cons_eq_append_conv)
    then show ?thesis using Cons True by (simp add: and_8)
  next
    case False
    have "(\<exists>a s. r # rs = a @ s # rest \<and> list_all (\<lambda>r. bit r 3) a \<and> \<not> bit s 3) \<longleftrightarrow> rs = rest"
      using False by (auto simp: Cons_eq_append_conv)
    then show ?thesis using False by (simp add: and_8)
  qed
qed simp

lemma retrace_starts_ends: "retrace_starts rs = Some rest \<longleftrightarrow> retrace_ends (map not rs) = Some (map not rest)"
proof (induction rs)
  case (Cons r rs)
  have "not r AND 8 = 0 \<longleftrightarrow> r AND 8 \<noteq> 0" by (simp add: and_8 bit_simps)
  then show ?case using Cons by (auto simp: inj_map_eq_map inj_on_def)
qed simp

text \<open>A sleep whose length in ticks fits the counter waits for the first time at which that many ticks have
  passed: it reads the times before it, all of them earlier, and then returns.\<close>

theorem vga_sleep_ms_waits:
  assumes "unat ms * 1000 + 500 < 2 ^ 32" "unat t + unat ms < 2 ^ 32"
  shows "vga_sleep_ms ms (t # ts) = Some rest \<longleftrightarrow>
    (\<exists>a s. ts = a @ s # rest \<and> list_all (\<lambda>u. unat u < unat t + unat ms) a \<and> unat t + unat ms \<le> unat s)"
proof -
  have "unat (ms * 1000 + 500) = unat ms * 1000 + 500"
    using assms(1) by (simp add: unat_word_ariths)
  then have "(ms * 1000 + 500) div 1000 = ms" by (simp add: word_unat_eq_iff unat_div)
  then have e: "vga_sleep_ms ms (t # ts) = sleep_until (t + ms) ts" by (simp add: vga_sleep_ms_def)
  have lt: "u < t + ms \<longleftrightarrow> unat u < unat t + unat ms" for u
    using assms(2) by (simp add: word_less_nat_alt unat_word_ariths)
  have "sleep_until (t + ms) ts = Some rest \<longleftrightarrow>
    (\<exists>a s. ts = a @ s # rest \<and> list_all (\<lambda>u. unat u < unat t + unat ms) a \<and> unat t + unat ms \<le> unat s)"
  proof (induction ts)
    case (Cons u ts)
    show ?case
    proof (cases "unat u < unat t + unat ms")
      case True
      then show ?thesis using Cons by (auto simp: lt Cons_eq_append_conv not_le)
    next
      case False
      then show ?thesis by (auto simp: lt Cons_eq_append_conv not_less)
    qed
  qed simp
  then show ?thesis unfolding e .
qed

theorem vga_sleep_ms_waits_witness: "vga_sleep_ms 2 [100, 101, 101, 102, 103] = Some [103]"
proof -
  have "vga_sleep_ms 2 (100 # [101, 101, 102, 103]) = Some [103] \<longleftrightarrow>
    (\<exists>a s. [101, 101, 102, 103] = a @ s # [103 :: u32] \<and> list_all (\<lambda>u. unat u < unat (100 :: u32) + unat (2 :: u32)) a
      \<and> unat (100 :: u32) + unat (2 :: u32) \<le> unat s)"
    by (rule vga_sleep_ms_waits) simp_all
  then show ?thesis by (auto intro!: exI [of _ "[101, 101]"] exI [of _ "102"])
qed

text \<open>Beyond \<open>4294966\<close> ms the product wraps around, and the sleep is far too short.\<close>

lemma vga_sleep_ms_wraps: "vga_sleep_ms 4294968 [100, 101] = Some []"
  by (simp add: vga_sleep_ms_def unat_div word_less_nat_alt)

end
