(* ===== verification/Snake.thy ===== *)
theory Snake
  imports Vga_Text
begin

text \<open>
  The user program \<^verbatim>\<open>vga/snake.c\<close>: the state of a game, the placement of the food with its random numbers,
  one pass of the game loop for the key that was pressed (or none), and the frame it draws. A write behind the
  array of the snake's cells is the failure \<open>Wild\<close>; a search for a free cell that does not end is \<open>Hang\<close>.
\<close>

type_synonym point = "u8 \<times> u8"

abbreviation CELL :: int where "CELL \<equiv> 8"
abbreviation PLAY_W :: u32 where "PLAY_W \<equiv> 38"
abbreviation PLAY_H :: u32 where "PLAY_H \<equiv> 23"
abbreviation MAX_LEN :: nat where "MAX_LEN \<equiv> 874"

record game =
  snake_body :: "point list"
  snake_length :: nat
  dir_x :: int
  dir_y :: int
  food :: point
  rng_state :: u32

section \<open>The game\<close>

definition lcg_rand :: "u32 \<Rightarrow> u32" where
  "lcg_rand r = r * 1664525 + 1013904223"

text \<open>The cells of the snake are the first \<^verbatim>\<open>snake_length\<close> entries of the array; the search draws a column
  and a row until no cell is hit.\<close>

definition cells :: "game \<Rightarrow> point list" where
  "cells g = take (snake_length g) (snake_body g)"

partial_function (option) food_loop :: "point list \<Rightarrow> u32 \<Rightarrow> (point \<times> u32) option" where
  "food_loop body r =
     (let r1 = lcg_rand r; r2 = lcg_rand r1;
          p = (ucast (1 + r1 mod PLAY_W), ucast (1 + r2 mod PLAY_H))
      in if p \<in> set body then food_loop body r2 else Some (p, r2))"

definition place_food :: "game \<Rightarrow> game res" where
  "place_food g =
     (case food_loop (cells g) (rng_state g) of
        None \<Rightarrow> Inl Hang
      | Some (p, r) \<Rightarrow> Inr (g\<lparr>food := p, rng_state := r\<rparr>))"

text \<open>The start of a round; the array keeps what it held behind the first five cells.\<close>

definition init_game :: "u32 \<Rightarrow> game \<Rightarrow> game res" where
  "init_game system_time g =
     place_food (g\<lparr>rng_state := system_time, snake_length := 5,
       snake_body := fold (\<lambda>i b. b[i := (20 - of_nat i, 12)]) [0..<5] (snake_body g), dir_x := 1, dir_y := 0\<rparr>)"

definition steer :: "int \<Rightarrow> game \<Rightarrow> game" where
  "steer c g =
     (if (c = 119 \<or> c = 87 \<or> c = 56) \<and> dir_y g \<noteq> 1 then g\<lparr>dir_x := 0, dir_y := - 1\<rparr>
      else if (c = 115 \<or> c = 83 \<or> c = 50) \<and> dir_y g \<noteq> - 1 then g\<lparr>dir_x := 0, dir_y := 1\<rparr>
      else if (c = 97 \<or> c = 65 \<or> c = 52) \<and> dir_x g \<noteq> 1 then g\<lparr>dir_x := - 1, dir_y := 0\<rparr>
      else if (c = 100 \<or> c = 68 \<or> c = 54) \<and> dir_x g \<noteq> - 1 then g\<lparr>dir_x := 1, dir_y := 0\<rparr>
      else g)"

text \<open>The loop that moves the cells writes the entry \<^verbatim>\<open>snake_body[snake_length]\<close>.\<close>

definition move_body :: "game \<Rightarrow> game res" where
  "move_body g =
     (if MAX_LEN \<le> snake_length g then Inl Wild
      else
        let b = fold (\<lambda>i b. b[i := b ! (i - 1)]) (rev [1..<snake_length g + 1]) (snake_body g);
            (x, y) = b ! 0
        in Inr (g\<lparr>snake_body := b[0 := (word_of_int (uint x + dir_x g), word_of_int (uint y + dir_y g))]\<rparr>))"

fun in_play :: "point \<Rightarrow> bool" where
  "in_play (x, y) \<longleftrightarrow> \<not> (uint x < 1 \<or> uint x \<ge> 39 \<or> uint y < 1 \<or> uint y \<ge> 24)"

definition hits_itself :: "game \<Rightarrow> bool" where
  "hits_itself g \<longleftrightarrow> list_ex (\<lambda>i. snake_body g ! i = snake_body g ! 0) [1..<snake_length g]"

text \<open>The new length after eating, with the cap that the code puts on it.\<close>

definition eat :: "game \<Rightarrow> game res" where
  "eat g = place_food (g\<lparr>snake_length := (if snake_length g + 1 > MAX_LEN then MAX_LEN else snake_length g + 1)\<rparr>)"

text \<open>One pass of the game loop up to the drawing, for the key pressed; \<open>True\<close> when the game goes on.\<close>

definition game_step :: "int option \<Rightarrow> game \<Rightarrow> (bool \<times> game) res" where
  "game_step key g =
     (if key = Some 27 then Inr (False, g)
      else
        bindR (move_body (case key of None \<Rightarrow> g | Some c \<Rightarrow> steer c g)) (\<lambda>g1.
          if \<not> in_play (snake_body g1 ! 0) then Inr (False, g1)
          else if hits_itself g1 then Inr (False, g1)
          else if snake_body g1 ! 0 = food g1 then bindR (eat g1) (\<lambda>g2. Inr (True, g2))
          else Inr (True, g1)))"

fun play :: "int option list \<Rightarrow> game \<Rightarrow> (bool \<times> game) res" where
  "play [] g = Inr (True, g)"
| "play (k # ks) g = bindR (game_step k g) (\<lambda>(running, g'). if running then play ks g' else Inr (False, g'))"

section \<open>The frame\<close>

definition draw_cell :: "addr \<Rightarrow> int \<Rightarrow> int \<Rightarrow> u8 \<Rightarrow> mem \<Rightarrow> mem" where
  "draw_cell b gx gy color =
     (let px = gx * CELL; py = gy * CELL in
      for_int 0 CELL (\<lambda>dy. for_int 0 CELL (\<lambda>dx. vga_put_pixel_buf b (px + dx) (py + dy) color)))"

definition draw_border :: "addr \<Rightarrow> mem \<Rightarrow> mem" where
  "draw_border b m =
     (let m1 = vga_draw_rect_buf b 0 0 VGA_WIDTH CELL 15 1 m;
          m2 = vga_draw_rect_buf b 0 (VGA_HEIGHT - CELL) VGA_WIDTH CELL 15 1 m1;
          m3 = vga_draw_rect_buf b 0 0 CELL VGA_HEIGHT 15 1 m2
      in vga_draw_rect_buf b (VGA_WIDTH - CELL) 0 CELL VGA_HEIGHT 15 1 m3)"

definition draw_game :: "addr \<Rightarrow> game \<Rightarrow> mem \<Rightarrow> mem" where
  "draw_game b g m =
     (let m1 = vga_draw_rect_buf b CELL CELL (CELL * 38) (CELL * 23) 8 1 m;
          m2 = draw_cell b (uint (fst (food g))) (uint (snd (food g))) 4 m1;
          m3 = fold (\<lambda>i. draw_cell b (uint (fst (snake_body g ! i))) (uint (snd (snake_body g ! i))) 2) [0..<snake_length g] m2
      in draw_border b m3)"

text \<open>\<^verbatim>\<open>int_to_str\<close>: the digits are put into a local array and copied in reverse. A negative number gives the
  empty string.\<close>

function str_digits :: "int \<Rightarrow> u8 list" where
  "str_digits v = (if v > 0 then word_of_int (48 + v mod 10) # str_digits (v div 10) else [])"
  by pat_completeness auto
termination by (relation "measure nat") auto

declare str_digits.simps [simp del]

definition int_to_str :: "int \<Rightarrow> u8 list" where
  "int_to_str v = (if v = 0 then [48] else rev (str_digits v))"

text \<open>The two screens with text. A title of \<open>n\<close> characters starts at the column \<open>(320 - 8 n) / 2\<close>; the division is
  unsigned, because \<^verbatim>\<open>ustrlen\<close> is.\<close>

definition centre :: "u8 list \<Rightarrow> int" where
  "centre s = sint ((word_of_int VGA_WIDTH - of_nat (length s) * 8) div 2 :: u32)"

definition draw_title :: "addr \<Rightarrow> mem \<Rightarrow> mem" where
  "draw_title b m =
     (let title = [83, 78, 65, 75, 69];
          startp = [80, 82, 69, 83, 83, 32, 69, 78, 84, 69, 82, 32, 84, 79, 32, 83, 84, 65, 82, 84];
          m1 = draw_border b (vga_clear_buf b 0 m);
          m2 = vga_draw_string b (centre title) (VGA_HEIGHT div 2 - 16) title 14 m1
      in vga_draw_string b (centre startp) (VGA_HEIGHT div 2) startp 7 m2)"

definition draw_game_over :: "addr \<Rightarrow> game \<Rightarrow> mem \<Rightarrow> mem" where
  "draw_game_over b g m =
     (let go = [71, 65, 77, 69, 32, 79, 86, 69, 82, 33];
          score_line = [83, 67, 79, 82, 69, 58, 32] @ int_to_str (int (snake_length g) - 5);
          retry = [80, 82, 69, 83, 83, 32, 69, 78, 84, 69, 82, 32, 84, 79, 32, 80, 76, 65, 89, 32, 65, 71, 65, 73, 78];
          m1 = draw_border b (vga_clear_buf b 0 m);
          m2 = vga_draw_string b (centre go) (VGA_HEIGHT div 2 - 16) go 12 m1;
          m3 = vga_draw_string b (centre score_line) (VGA_HEIGHT div 2) score_line 10 m2
      in vga_draw_string b (centre retry) (VGA_HEIGHT div 2 + 16) retry 11 m3)"

text \<open>\<^verbatim>\<open>do c = cio_getchar(); while( c != 13 && c != 10 );\<close> on the characters that arrive.\<close>

fun wait_enter :: "int list \<Rightarrow> int list option" where
  "wait_enter [] = None"
| "wait_enter (c # cs) = (if c \<noteq> 13 \<and> c \<noteq> 10 then wait_enter cs else Some cs)"

lemma str_digits_rev: "0 < v \<Longrightarrow> rev (str_digits v) = numeral_str 10 (nat v)"
proof (induction v rule: str_digits.induct)
  case (1 v)
  have d: "word_of_int (48 + v mod 10) = hexdigits ! (nat v mod 10)"
  proof -
    have "v mod 10 = int (nat v mod 10)" using 1 by (simp add: zmod_int)
    then show ?thesis by (simp add: hexdigits_dec add.commute)
  qed
  show ?case
  proof (cases "v < 10")
    case True
    then have "v div 10 = 0" "nat v mod 10 = nat v" "nat v < 10" using 1 by auto
    then show ?thesis using 1 d by (subst str_digits.simps) (simp add: str_digits.simps [of 0] numeral_str_def digs_less)
  next
    case False
    then have q: "0 < v div 10" "nat (v div 10) = nat v div 10" "10 \<le> nat v" by (auto simp: nat_div_distrib)
    then show ?thesis using 1 d by (subst str_digits.simps) (simp add: numeral_str_def digs_step [of 10 "nat v"])
  qed
qed

lemma int_to_str_numeral: "0 \<le> v \<Longrightarrow> int_to_str v = numeral_str 10 (nat v)"
  by (auto simp: int_to_str_def str_digits_rev numeral_str_def digs_less hexdigits_def)

section \<open>The food\<close>

text \<open>What the search finds: a free cell of the play area. One draw changes the parity of the random number, so
  the column has always the parity of the number the search started with, and leaves a number of that parity.\<close>

lemma lcg_rand_parity: "even (uint (lcg_rand r)) \<longleftrightarrow> odd (uint r)"
proof -
  have "uint (lcg_rand r) = (uint r * 1664525 + 1013904223) mod 2 ^ 32"
    by (simp add: lcg_rand_def uint_word_ariths mod_simps)
  moreover have "even (x mod 2 ^ 32) \<longleftrightarrow> even x" for x :: int by (simp add: dvd_mod_iff)
  ultimately show ?thesis by simp
qed

lemma drawn_cell:
  fixes r :: u32
  shows "uint (ucast (1 + r mod 38) :: u8) = 1 + uint r mod 38" "uint (ucast (1 + r mod 23) :: u8) = 1 + uint r mod 23"
proof -
  have a: "uint (r mod 38) = uint r mod 38" "uint (r mod 23) = uint r mod 23" by (simp_all add: uint_mod)
  have b: "0 \<le> uint r mod 38" "uint r mod 38 < 38" "0 \<le> uint r mod 23" "uint r mod 23 < 23" by simp_all
  have "uint (1 + r mod 38) = 1 + uint r mod 38" "uint (1 + r mod 23) = 1 + uint r mod 23"
    using a b by (simp_all add: uint_word_ariths)
  then show "uint (ucast (1 + r mod 38) :: u8) = 1 + uint r mod 38" "uint (ucast (1 + r mod 23) :: u8) = 1 + uint r mod 23"
    using b by (simp_all add: unsigned_ucast_eq take_bit_int_eq_self_iff)
qed

lemma food_loop_finds:
  assumes "food_loop body r = Some (p, r')"
  shows "in_play p \<and> p \<notin> set body \<and> even (uint (fst p)) = even (uint r) \<and> even (uint r') = even (uint r)"
proof -
  have "case q of (p, r') \<Rightarrow> in_play p \<and> p \<notin> set body \<and> even (uint (fst p)) = even (uint r) \<and> even (uint r') = even (uint r)"
    if "food_loop body r = Some q" for q
    using that
  proof (rule food_loop.raw_induct [where P = "\<lambda>body r q. case q of (p, r') \<Rightarrow>
      in_play p \<and> p \<notin> set body \<and> even (uint (fst p)) = even (uint r) \<and> even (uint r') = even (uint r)", rotated])
    fix loop :: "point list \<Rightarrow> u32 \<Rightarrow> (point \<times> u32) option" and body r and q :: "point \<times> u32"
    assume IH: "\<And>body r q. loop body r = Some q \<Longrightarrow> case q of (p, r') \<Rightarrow>
        in_play p \<and> p \<notin> set body \<and> even (uint (fst p)) = even (uint r) \<and> even (uint r') = even (uint r)"
      and q: "(let r1 = lcg_rand r; r2 = lcg_rand r1; p = (ucast (1 + r1 mod PLAY_W), ucast (1 + r2 mod PLAY_H))
        in if p \<in> set body then loop body r2 else Some (p, r2)) = Some q"
    have ev: "even (uint (lcg_rand (lcg_rand r))) = even (uint r)" by (simp add: lcg_rand_parity)
    have par: "even (1 + uint (lcg_rand r) mod 38) = even (uint r)"
      using lcg_rand_parity [of r] by (simp add: dvd_mod_iff)
    have area: "in_play (ucast (1 + r mod 38), ucast (1 + s mod 23))" for r s :: u32
    proof -
      have "0 \<le> uint r mod 38" "uint r mod 38 < 38" "0 \<le> uint s mod 23" "uint s mod 23 < 23" by simp_all
      then show ?thesis unfolding in_play.simps drawn_cell by linarith
    qed
    show "case q of (p, r') \<Rightarrow> in_play p \<and> p \<notin> set body \<and> even (uint (fst p)) = even (uint r) \<and> even (uint r') = even (uint r)"
      using q IH [of body "lcg_rand (lcg_rand r)"] area ev par
      by (auto simp: Let_def drawn_cell simp del: in_play.simps split: if_splits prod.splits)
  qed
  from this [OF assms] show ?thesis by simp
qed

lemma place_food_finds:
  "place_food g = Inr g' \<Longrightarrow> in_play (food g') \<and> food g' \<notin> set (cells g') \<and> g' = g\<lparr>food := food g', rng_state := rng_state g'\<rparr>
     \<and> even (uint (fst (food g'))) = even (uint (rng_state g)) \<and> even (uint (rng_state g')) = even (uint (rng_state g))"
  using food_loop_finds [of "cells g" "rng_state g"]
  by (auto simp: place_food_def cells_def simp del: in_play.simps split: option.splits)

text \<open>When the snake covers the columns of that parity, the search never ends, although half of the play area is
  free.\<close>

lemma place_food_hangs:
  assumes "\<And>x y. in_play (x, y) \<Longrightarrow> even (uint x) = even (uint (rng_state g)) \<Longrightarrow> (x, y) \<in> set (cells g)"
  shows "place_food g = Inl Hang"
  using food_loop_finds [of "cells g" "rng_state g"] assms
  by (fastforce simp: place_food_def simp del: in_play.simps split: option.splits)

section \<open>The invariant of a game\<close>

definition game_ok :: "game \<Rightarrow> bool" where
  "game_ok g \<longleftrightarrow> length (snake_body g) = MAX_LEN \<and> 5 \<le> snake_length g \<and> snake_length g < MAX_LEN \<and>
     distinct (cells g) \<and> list_all in_play (cells g) \<and> in_play (food g) \<and> food g \<notin> set (cells g) \<and>
     even (uint (fst (food g))) = even (uint (rng_state g)) \<and> (dir_x g, dir_y g) \<in> {(0, - 1), (0, 1), (- 1, 0), (1, 0)}"

lemma card_in_play: "finite {p. in_play p}" "card {p. in_play p} \<le> MAX_LEN"
proof -
  let ?f = "\<lambda>(x, y). (word_of_int x, word_of_int y) :: point"
  have sub: "{p. in_play p} \<subseteq> ?f ` ({1..<39} \<times> {1..<24})"
  proof
    fix p assume "p \<in> {p. in_play p}"
    then have "p = ?f (uint (fst p), uint (snd p))" "(uint (fst p), uint (snd p)) \<in> {1..<39} \<times> {1..<24}"
      by (cases p, auto)+
    then show "p \<in> ?f ` ({1..<39} \<times> {1..<24})" by blast
  qed
  then show "finite {p. in_play p}" by (rule finite_subset) simp
  have "card {p. in_play p} \<le> card (?f ` ({1..<39} \<times> {1..<24}))" using sub by (intro card_mono) auto
  also have "\<dots> \<le> card ({1 :: int..<39} \<times> {1 :: int..<24})" by (rule card_image_le) simp
  finally show "card {p. in_play p} \<le> MAX_LEN" by simp
qed

lemma free_cell_left:
  assumes "list_all in_play ps" "distinct ps" "in_play q" "q \<notin> set ps"
  shows "length ps < MAX_LEN"
proof -
  have "Suc (length ps) = card (insert q (set ps))" using assms by (simp add: distinct_card)
  also have "\<dots> \<le> card {p. in_play p}" using assms by (intro card_mono card_in_play) (auto simp: list_all_iff)
  finally show ?thesis using card_in_play by simp
qed

lemma shift_cells:
  "n < length b \<Longrightarrow> fold (\<lambda>i b. b[i := b ! (i - 1)]) (rev [1..<n + 1]) b = take 1 b @ take n b @ drop (n + 1) b"
proof (induction n arbitrary: b)
  case 0
  then show ?case by (cases b) simp_all
next
  case (Suc n)
  have "fold (\<lambda>i b. b[i := b ! (i - 1)]) (rev [1..<Suc n + 1]) b
    = fold (\<lambda>i b. b[i := b ! (i - 1)]) (rev [1..<n + 1]) (b[n + 1 := b ! n])" by simp
  also have "\<dots> = take 1 (b[n + 1 := b ! n]) @ take n (b[n + 1 := b ! n]) @ drop (n + 1) (b[n + 1 := b ! n])"
    using Suc.prems by (intro Suc.IH) simp
  also have "\<dots> = take 1 b @ take (Suc n) b @ drop (Suc n + 1) b"
    using Suc.prems by (simp add: drop_update_swap take_Suc_conv_app_nth Cons_nth_drop_Suc [symmetric])
  finally show ?case .
qed

text \<open>The move puts a new head before the old cells; the last of them is behind the new length.\<close>

lemma move_body_moves:
  assumes "length (snake_body g) = MAX_LEN" "0 < snake_length g" "snake_length g < MAX_LEN"
  obtains h b where "move_body g = Inr (g\<lparr>snake_body := h # b\<rparr>)" "length b = MAX_LEN - 1" "take (snake_length g) b = cells g"
    "h = (word_of_int (uint (fst (snake_body g ! 0)) + dir_x g), word_of_int (uint (snd (snake_body g ! 0)) + dir_y g))"
proof -
  let ?n = "snake_length g" and ?b = "snake_body g"
  obtain c b0 where c: "?b = c # b0" using assms(1) by (cases ?b) auto
  have "fold (\<lambda>i b. b[i := b ! (i - 1)]) (rev [1..<?n + 1]) ?b = c # (take ?n ?b @ drop (?n + 1) ?b)"
    using shift_cells [of ?n ?b] assms by (simp add: c)
  then have "move_body g = Inr (g\<lparr>snake_body := (word_of_int (uint (fst (?b ! 0)) + dir_x g), word_of_int (uint (snd (?b ! 0)) + dir_y g))
      # (take ?n ?b @ drop (?n + 1) ?b)\<rparr>)"
    using assms(3) by (simp add: move_body_def c Let_def case_prod_unfold)
  then show thesis by (rule that) (use assms in \<open>simp_all add: cells_def\<close>)
qed

lemma steer_cells [simp]: "snake_body (steer c g) = snake_body g" "snake_length (steer c g) = snake_length g"
  "food (steer c g) = food g" "rng_state (steer c g) = rng_state g"
  by (simp_all add: steer_def)

lemma steer_ok: "game_ok g \<Longrightarrow> game_ok (steer c g)"
  unfolding game_ok_def cells_def steer_cells by (auto simp: steer_def simp del: in_play.simps)

lemma steer_never_reverses:
  assumes "(dir_x g, dir_y g) \<in> {(0, - 1), (0, 1), (- 1, 0), (1, 0)}"
  shows "(dir_x (steer c g), dir_y (steer c g)) \<noteq> (- dir_x g, - dir_y g)"
  using assms by (auto simp: steer_def)

lemma hits_itself_cells: "hits_itself g \<longleftrightarrow> (\<exists>i. 1 \<le> i \<and> i < snake_length g \<and> snake_body g ! i = snake_body g ! 0)"
  by (auto simp: hits_itself_def list_ex_iff)

text \<open>What one pass does to a game in order: it ends it, searches for food forever, moves, or eats.\<close>

lemma eat_ok:
  assumes g: "game_ok g" and b: "length b = MAX_LEN - 1" "take (snake_length g) b = cells g"
    and E: "eat (g\<lparr>snake_body := food g # b\<rparr>) = Inr g'"
  shows "game_ok g'" "snake_body g' ! 0 = food g" "cells g' = food g # cells g" "even (uint (rng_state g')) = even (uint (rng_state g))"
proof -
  have n: "\<not> snake_length g + 1 > MAX_LEN" using g by (simp add: game_ok_def)
  then have E': "place_food (g\<lparr>snake_body := food g # b, snake_length := snake_length g + 1\<rparr>) = Inr g'"
    using E by (simp add: eat_def)
  note F = place_food_finds [OF E']
  have g': "g' = g\<lparr>snake_body := food g # b, snake_length := snake_length g + 1, food := food g', rng_state := rng_state g'\<rparr>"
    using F by simp
  have c: "cells g' = food g # cells g" by (subst g') (simp add: cells_def b(2) [unfolded cells_def])
  have f: "in_play (food g')" "food g' \<notin> set (cells g')" using F by blast+
  have ok: "list_all in_play (cells g')" "distinct (cells g')" using g by (simp_all add: c game_ok_def)
  have "length (cells g') < MAX_LEN" by (rule free_cell_left [OF ok f])
  moreover have "length (cells g) = snake_length g" using g by (simp add: cells_def game_ok_def)
  ultimately have "snake_length g' < MAX_LEN" by (subst g') (simp add: c)
  moreover have "length (snake_body g') = MAX_LEN" "snake_length g' = snake_length g + 1" "dir_x g' = dir_x g" "dir_y g' = dir_y g"
    "snake_body g' ! 0 = food g"
    by (subst g', simp add: b)+
  moreover have "even (uint (fst (food g'))) = even (uint (rng_state g'))" using F by simp
  ultimately show "game_ok g'" "snake_body g' ! 0 = food g" using g f ok c by (simp_all add: game_ok_def)
  show "cells g' = food g # cells g" "even (uint (rng_state g')) = even (uint (rng_state g))" using c F by simp_all
qed

lemma game_step_cases:
  assumes "game_ok g"
  obtains (crash) g1 where "game_step key g = Inr (False, g1)"
  | (hang) "game_step key g = Inl Hang"
  | (move) g' where "game_step key g = Inr (True, g')" "game_ok g'" "snake_body g' ! 0 \<noteq> food g" "food g' = food g"
      "rng_state g' = rng_state g" "cells g' = snake_body g' ! 0 # butlast (cells g)"
  | (eat) g' where "game_step key g = Inr (True, g')" "game_ok g'" "snake_body g' ! 0 = food g" "cells g' = food g # cells g"
      "even (uint (rng_state g')) = even (uint (rng_state g))"
proof (cases "key = Some 27")
  case True
  then show thesis using crash by (simp add: game_step_def)
next
  case key: False
  define g0 where "g0 = (case key of None \<Rightarrow> g | Some c \<Rightarrow> steer c g)"
  have g0: "game_ok g0" "cells g0 = cells g" "food g0 = food g" "rng_state g0 = rng_state g" "snake_length g0 = snake_length g"
    using assms steer_ok by (auto simp: g0_def cells_def split: option.splits)
  let ?n = "snake_length g0"
  have n: "length (snake_body g0) = MAX_LEN" "0 < ?n" "?n < MAX_LEN" using g0(1) by (auto simp: game_ok_def)
  obtain h b where M: "move_body g0 = Inr (g0\<lparr>snake_body := h # b\<rparr>)" "length b = MAX_LEN - 1" "take ?n b = cells g0"
    by (rule move_body_moves [OF n])
  let ?g1 = "g0\<lparr>snake_body := h # b\<rparr>"
  have step: "game_step key g = (if \<not> in_play h then Inr (False, ?g1) else if hits_itself ?g1 then Inr (False, ?g1)
      else if h = food g then bindR (eat ?g1) (\<lambda>g2. Inr (True, g2)) else Inr (True, ?g1))"
    using key M(1) by (simp add: game_step_def g0_def [symmetric] g0(3))
  have tl: "take (?n - 1) b = butlast (cells g0)" using n(3) M(2) by (simp add: M(3) [symmetric] butlast_take)
  have "cells ?g1 = h # take (?n - 1) b" using n(2) by (cases ?n) (simp_all add: cells_def)
  then have c1: "cells ?g1 = h # butlast (cells g)" unfolding tl g0(2) .
  show thesis
  proof (cases "in_play h \<and> \<not> hits_itself ?g1")
    case False
    then have "game_step key g = Inr (False, ?g1)" using step by auto
    then show thesis by (rule crash)
  next
    case go: True
    have new: "h \<notin> set (butlast (cells g0))"
    proof
      assume "h \<in> set (butlast (cells g0))"
      then obtain i where "i < ?n - 1" "b ! i = h" unfolding tl [symmetric] by (auto simp: in_set_conv_nth)
      then have "hits_itself ?g1" unfolding hits_itself_cells by (intro exI [of _ "Suc i"]) simp
      then show False using go by simp
    qed
    show thesis
    proof (cases "h = food g")
      case True
      show thesis
      proof (cases "eat ?g1")
        case (Inr g')
        then have "eat (g0\<lparr>snake_body := food g0 # b\<rparr>) = Inr g'" using True g0(3) by simp
        note E = eat_ok [OF g0(1) M(2,3) this, unfolded g0]
        show thesis by (rule eat [OF _ E]) (use step True go Inr in simp)
      next
        case (Inl e)
        then have "e = Hang" by (auto simp: eat_def place_food_def split: option.splits if_splits)
        then show thesis using Inl True go step hang by simp
      qed
    next
      case False
      have sub: "set (butlast (cells g)) \<subseteq> set (cells g)" by (auto dest: in_set_butlastD)
      have old: "distinct (cells g)" "list_all in_play (cells g)" "food g \<notin> set (cells g)" using assms by (simp_all add: game_ok_def)
      have "distinct (cells ?g1)" using new old(1) unfolding c1 g0(2) by (simp add: distinct_butlast)
      moreover have "list_all in_play (cells ?g1)" using go old(2) sub unfolding c1 by (auto simp: list_all_iff simp del: in_play.simps)
      moreover have "food g \<notin> set (cells ?g1)" using False old(3) sub unfolding c1 by auto
      ultimately have "game_ok ?g1" using g0(1,3) n(1,2) M(2) unfolding game_ok_def by simp
      then show thesis using move [of ?g1] False go step c1 g0(3,4) by simp
    qed
  qed
qed

text \<open>C16. One pass of the game loop keeps a game in order: the cells of the snake are distinct and inside the play area,
  the food is on a free cell, the direction is one of four and the length stays below the size of the array. The
  snake moves by one cell, or grows by the cell of the food.\<close>

theorem game_step_keeps:
  assumes "game_ok g" "game_step key g = Inr (True, g')"
  shows "game_ok g' \<and> cells g' = snake_body g' ! 0 # (if snake_body g' ! 0 = food g then cells g else butlast (cells g))"
  using assms(1)
proof (cases rule: game_step_cases [where key = key])
  case (move g1)
  then show ?thesis using assms(2) by simp
next
  case (eat g1)
  then show ?thesis using assms(2) by simp
qed (use assms(2) in simp_all)

definition sample_game :: game where
  "sample_game = \<lparr>snake_body = [(20, 12), (19, 12), (18, 12), (17, 12), (16, 12)] @ replicate 869 (0, 0), snake_length = 5,
     dir_x = 1, dir_y = 0, food = (22, 12), rng_state = 4\<rparr>"

lemma sample_game_step:
  "game_ok sample_game" "game_step (Some 119) sample_game = Inr (True, sample_game\<lparr>
     snake_body := [(20, 11), (20, 12), (19, 12), (18, 12), (17, 12), (16, 12)] @ replicate 868 (0, 0), dir_x := 0, dir_y := - 1\<rparr>)"
proof -
  show "game_ok sample_game" by (simp add: game_ok_def sample_game_def cells_def)
  have u: "[Suc 0..<6] = [1, 2, 3, 4, 5]" and u4: "[Suc 0..<5] = [1, 2, 3, 4]" by (simp_all add: upt_rec)
  have "replicate 869 (0, 0) = (0, 0) # replicate 868 ((0, 0) :: point)" by (simp add: numeral_eq_Suc)
  then have "snake_body sample_game = [(20, 12), (19, 12), (18, 12), (17, 12), (16, 12), (0, 0)] @ replicate 868 (0, 0)"
    by (simp add: sample_game_def)
  then have "move_body (steer 119 sample_game) = Inr (sample_game\<lparr>
     snake_body := [(20, 11), (20, 12), (19, 12), (18, 12), (17, 12), (16, 12)] @ replicate 868 (0, 0), dir_x := 0, dir_y := - 1\<rparr>)"
    unfolding move_body_def steer_cells by (simp add: sample_game_def steer_def Let_def u)
  then show "game_step (Some 119) sample_game = Inr (True, sample_game\<lparr>
     snake_body := [(20, 11), (20, 12), (19, 12), (18, 12), (17, 12), (16, 12)] @ replicate 868 (0, 0), dir_x := 0, dir_y := - 1\<rparr>)"
    by (simp add: game_step_def hits_itself_def) (simp add: sample_game_def u4)
qed

theorem game_step_keeps_witness: "game_ok (sample_game\<lparr>
     snake_body := [(20, 11), (20, 12), (19, 12), (18, 12), (17, 12), (16, 12)] @ replicate 868 (0, 0), dir_x := 0, dir_y := - 1\<rparr>)"
  by (rule game_step_keeps [OF sample_game_step, THEN conjunct1])

lemma init_game_ok:
  assumes "length (snake_body g0) = MAX_LEN" "init_game t g0 = Inr g"
  shows "game_ok g" "even (uint (rng_state g)) = even (uint t)" "cells g = [(20, 12), (19, 12), (18, 12), (17, 12), (16, 12)]"
proof -
  obtain a b c d e r where l: "snake_body g0 = a # b # c # d # e # r"
  proof -
    have "length (snake_body g0) = Suc (Suc (Suc (Suc (Suc 869))))" using assms(1) by simp
    then show thesis using that unfolding length_Suc_conv by blast
  qed
  have u: "[0..<5] = [0, 1, 2, 3, 4 :: nat]" by (simp add: upt_rec)
  let ?b = "[(20, 12), (19, 12), (18, 12), (17, 12), (16, 12)] @ r"
  let ?g = "g0\<lparr>rng_state := t, snake_length := 5, snake_body := ?b, dir_x := 1, dir_y := 0\<rparr>"
  have P: "place_food ?g = Inr g" using assms(2) by (simp add: init_game_def u l)
  note F = place_food_finds [OF P]
  have c: "cells ?g = [(20, 12), (19, 12), (18, 12), (17, 12), (16, 12)]" by (simp add: cells_def)
  have g: "g = ?g\<lparr>food := food g, rng_state := rng_state g\<rparr>" using F by blast
  show cg: "cells g = [(20, 12), (19, 12), (18, 12), (17, 12), (16, 12)]" by (subst g) (simp add: cells_def)
  show "even (uint (rng_state g)) = even (uint t)" using F by simp
  have "length (snake_body g) = MAX_LEN" "snake_length g = 5" "dir_x g = 1" "dir_y g = 0"
    by (subst g, use assms(1) l in simp)+
  then show "game_ok g" using F cg by (simp add: game_ok_def)
qed

lemma play_keeps:
  assumes "game_ok g" "play ks g = Inr (True, g')"
  shows "game_ok g' \<and> even (uint (rng_state g')) = even (uint (rng_state g))"
  using assms
proof (induction ks arbitrary: g)
  case (Cons k ks)
  from Cons.prems(1) show ?case
  proof (cases rule: game_step_cases [where key = k])
    case (move g1)
    then show ?thesis using Cons.IH [OF move(2)] Cons.prems(2) by simp
  next
    case (eat g1)
    then show ?thesis using Cons.IH [OF eat(2)] Cons.prems(2) by simp
  qed (use Cons.prems(2) in simp_all)
qed simp

lemma play_never_wild:
  assumes "game_ok g"
  shows "play ks g \<noteq> Inl Wild"
  using assms
proof (induction ks arbitrary: g)
  case (Cons k ks)
  from Cons.prems show ?case
  proof (cases rule: game_step_cases [where key = k])
    case (move g1)
    then show ?thesis using Cons.IH [OF move(2)] by simp
  next
    case (eat g1)
    then show ?thesis using Cons.IH [OF eat(2)] by simp
  qed simp_all
qed simp

text \<open>C36. In a round that starts at the time \<open>t\<close>, whatever keys are pressed, the game stays in order as long as it runs
  and no pass writes behind the array of the snake's cells, although the array has no entry to spare; the food is always in
  columns of the parity of \<open>t\<close>.\<close>

theorem snake_round:
  assumes "length (snake_body g0) = MAX_LEN" "init_game t g0 = Inr g"
  shows "(play ks g = Inr (True, g') \<longrightarrow> game_ok g' \<and> even (uint (fst (food g'))) = even (uint t)) \<and> play ks g \<noteq> Inl Wild"
  using play_keeps [OF init_game_ok(1) [OF assms], of ks g'] init_game_ok(2) [OF assms]
    play_never_wild [OF init_game_ok(1) [OF assms], of ks]
  by (auto simp: game_ok_def)

theorem snake_round_witness: "\<exists>g. init_game 4 sample_game = Inr g \<and> play [Some 119, None] g \<noteq> Inl Wild"
proof -
  have "\<exists>g. init_game 4 sample_game = Inr g"
    by (simp add: init_game_def place_food_def cells_def sample_game_def upt_rec food_loop.simps lcg_rand_def Let_def)
  then obtain g where g: "init_game 4 sample_game = Inr g" by blast
  have "length (snake_body sample_game) = MAX_LEN" by (simp add: sample_game_def)
  from snake_round [OF this g] show ?thesis using g by blast
qed

section \<open>The picture\<close>

text \<open>The colour of each cell of the grid: the wall, the snake, the food, the ground.\<close>

definition cell_color :: "game \<Rightarrow> int \<times> int \<Rightarrow> u8" where
  "cell_color g = (\<lambda>(x, y).
     if x = 0 \<or> x = 39 \<or> y = 0 \<or> y = 24 then 15
     else if list_ex (\<lambda>i. (x, y) = (uint (fst (snake_body g ! i)), uint (snd (snake_body g ! i)))) [0..<snake_length g] then 2
     else if (x, y) = (uint (fst (food g)), uint (snd (food g))) then 4
     else 8)"

lemma draw_cell_exact: "draws (pixel b) (beside b) (ink (\<lambda>(i, j). i div CELL = gx \<and> j div CELL = gy) color) (draw_cell b gx gy color)"
proof -
  have "draws (pixel b) (beside b) (ink (\<lambda>(i, j). i div CELL = gx \<and> j div CELL = gy) color)
    (for_int 0 CELL (\<lambda>dy. for_int 0 CELL (\<lambda>dx. vga_put_pixel_buf b (gx * CELL + dx) (gy * CELL + dy) color)))"
  proof (rule draws_weaken [OF draws_for_ink [OF draws_for_ink [OF buf.dot]]])
    fix p :: "int \<times> int"
    have "(\<exists>dy\<ge>0. dy < CELL \<and> (\<exists>dx\<ge>0. dx < CELL \<and> p = (gx * CELL + dx, gy * CELL + dy)))
      \<longleftrightarrow> fst p div CELL = gx \<and> snd p div CELL = gy" (is "?l \<longleftrightarrow> ?r")
    proof
      assume ?r
      then show ?l by (intro exI [of _ "snd p mod CELL"] conjI exI [of _ "fst p mod CELL"]) auto
    qed auto
    then show "ink (\<lambda>p. \<exists>dy\<ge>0. dy < CELL \<and> (\<exists>dx\<ge>0. dx < CELL \<and> p = (gx * CELL + dx, gy * CELL + dy))) color p
      = ink (\<lambda>(i, j). i div CELL = gx \<and> j div CELL = gy) color p" by (simp add: ink_def case_prod_unfold)
  qed simp
  then show ?thesis by (simp add: draw_cell_def Let_def)
qed

lemma edge_cells:
  assumes "0 \<le> i" "i < VGA_WIDTH" "0 \<le> j" "j < VGA_HEIGHT"
  shows "i div CELL = 0 \<longleftrightarrow> i < CELL" "i div CELL = 39 \<longleftrightarrow> 312 \<le> i" "j div CELL = 0 \<longleftrightarrow> j < CELL" "j div CELL = 24 \<longleftrightarrow> 192 \<le> j"
proof -
  have "i = CELL * (i div CELL) + i mod CELL" "0 \<le> i mod CELL" "i mod CELL < CELL"
    "j = CELL * (j div CELL) + j mod CELL" "0 \<le> j mod CELL" "j mod CELL < CELL" by simp_all
  then show "i div CELL = 0 \<longleftrightarrow> i < CELL" "i div CELL = 39 \<longleftrightarrow> 312 \<le> i" "j div CELL = 0 \<longleftrightarrow> j < CELL" "j div CELL = 24 \<longleftrightarrow> 192 \<le> j"
    using assms by (linarith, linarith, linarith, linarith)
qed

lemma draw_border_exact:
  "draws (pixel b) (beside b) (ink (\<lambda>(i, j). i div CELL = 0 \<or> i div CELL = 39 \<or> j div CELL = 0 \<or> j div CELL = 24) 15) (draw_border b)"
proof -
  have "draws (pixel b) (beside b) (ink (\<lambda>p. ((rect_area 0 0 VGA_WIDTH CELL 1 p \<or> rect_area 0 (VGA_HEIGHT - CELL) VGA_WIDTH CELL 1 p)
      \<or> rect_area 0 0 CELL VGA_HEIGHT 1 p) \<or> rect_area (VGA_WIDTH - CELL) 0 CELL VGA_HEIGHT 1 p) 15) (draw_border b)"
    by (rule draws_weaken [OF draws_seq_ink [OF draws_seq_ink [OF draws_seq_ink [OF rect_buf_draws rect_buf_draws] rect_buf_draws]
          rect_buf_draws]]) (simp_all add: draw_border_def Let_def)
  then show ?thesis
  proof (rule draws_weaken)
    fix p :: "int \<times> int" assume "on_screen p"
    then obtain i j where "p = (i, j)" "0 \<le> i" "i < VGA_WIDTH" "0 \<le> j" "j < VGA_HEIGHT" by (cases p) (auto simp: on_screen_def)
    then show "ink (\<lambda>p. ((rect_area 0 0 VGA_WIDTH CELL 1 p \<or> rect_area 0 (VGA_HEIGHT - CELL) VGA_WIDTH CELL 1 p)
        \<or> rect_area 0 0 CELL VGA_HEIGHT 1 p) \<or> rect_area (VGA_WIDTH - CELL) 0 CELL VGA_HEIGHT 1 p) 15 p
      = ink (\<lambda>(i, j). i div CELL = 0 \<or> i div CELL = 39 \<or> j div CELL = 0 \<or> j div CELL = 24) 15 p"
      using edge_cells [of i j] by (simp add: ink_def rect_area_def)
  qed simp
qed

text \<open>The frame that the game draws shows the game: each pixel of the back buffer has the colour of its cell,
  whatever the buffer held before, and no byte beside the buffer's screen changes.\<close>

theorem draw_game_exact:
  "draws (pixel b) (beside b) (\<lambda>(i, j). Some (cell_color g (i div CELL, j div CELL))) (draw_game b g)"
proof -
  let ?X = "\<lambda>k. uint (fst (snake_body g ! k))" and ?Y = "\<lambda>k. uint (snd (snake_body g ! k))"
  have body: "draws (pixel b) (beside b) (ink (\<lambda>(i, j). list_ex (\<lambda>k. (i div CELL, j div CELL) = (?X k, ?Y k)) [0..<snake_length g]) 2)
    (fold (\<lambda>k. draw_cell b (?X k) (?Y k) 2) [0..<snake_length g])"
    by (rule draws_weaken [OF draws_fold_ink [OF draw_cell_exact]]) (simp_all add: ink_def case_prod_unfold)
  have "draws (pixel b) (beside b)
     (((ink (rect_area CELL CELL (CELL * 38) (CELL * 23) 1) 8
        ++ ink (\<lambda>(i, j). i div CELL = uint (fst (food g)) \<and> j div CELL = uint (snd (food g))) 4)
        ++ ink (\<lambda>(i, j). list_ex (\<lambda>k. (i div CELL, j div CELL) = (?X k, ?Y k)) [0..<snake_length g]) 2)
        ++ ink (\<lambda>(i, j). i div CELL = 0 \<or> i div CELL = 39 \<or> j div CELL = 0 \<or> j div CELL = 24) 15) (draw_game b g)"
    by (rule draws_weaken [OF draws_seq [OF draws_seq [OF draws_seq [OF rect_buf_draws draw_cell_exact] body] draw_border_exact]])
      (simp_all add: draw_game_def Let_def)
  then show ?thesis
  proof (rule draws_weaken)
    fix p assume "on_screen p"
    then obtain i j where p: "p = (i, j)" "0 \<le> i" "i < VGA_WIDTH" "0 \<le> j" "j < VGA_HEIGHT" by (cases p) (auto simp: on_screen_def)
    have ground: "rect_area CELL CELL (CELL * 38) (CELL * 23) 1 (i, j)
      \<longleftrightarrow> \<not> (i div CELL = 0 \<or> i div CELL = 39 \<or> j div CELL = 0 \<or> j div CELL = 24)"
      unfolding edge_cells [OF p(2-5)] using p(2-5) by (auto simp: rect_area_def)
    show "(((ink (rect_area CELL CELL (CELL * 38) (CELL * 23) 1) 8
        ++ ink (\<lambda>(i, j). i div CELL = uint (fst (food g)) \<and> j div CELL = uint (snd (food g))) 4)
        ++ ink (\<lambda>(i, j). list_ex (\<lambda>k. (i div CELL, j div CELL) = (?X k, ?Y k)) [0..<snake_length g]) 2)
        ++ ink (\<lambda>(i, j). i div CELL = 0 \<or> i div CELL = 39 \<or> j div CELL = 0 \<or> j div CELL = 24) 15) p
      = (\<lambda>(i, j). Some (cell_color g (i div CELL, j div CELL))) p"
      unfolding p(1) map_add_def ink_def ground by (simp add: cell_color_def del: One_nat_def)
  qed simp
qed

end
