(* ===== verification/Cio_Text.thy ===== *)
theory Cio_Text
  imports Cio
begin

unbundle bit_operations_syntax

text \<open>
  What the output routines of the console do with text: formatted output at the cursor is plain output of what
  \<^verbatim>\<open>sprint\<close> makes of the format and its arguments, and plain output always succeeds while there is room for
  its copy in the buffer of the serial driver.
\<close>

section \<open>Formatted output is output of the formatted text\<close>

text \<open>The conversion characters of a format.\<close>

function conversions :: "u8 list \<Rightarrow> u8 list" where
  "conversions [] = []"
| "conversions (ch # fmt) =
     (if ch = 0 then []
      else if ch = 37 then
        (case fmt_opts fmt of Inl e \<Rightarrow> [] | Inr (left, padchar, width, c, f) \<Rightarrow> c # conversions f)
      else conversions fmt)"
  by pat_completeness auto
termination by (relation "measure length") (auto dest: fmt_opts_shorter)

lemma cio_puts_append: "cio_puts (xs @ ys) = (\<lambda>s. bindR (cio_puts xs s) (cio_puts ys))"
  by (induction xs) (rule ext, simp add: bindR_assoc)+

lemma pad_loop_puts: "pad_loop n NO_POS NO_POS c = (\<lambda>s. bindR (cio_puts (replicate n c) s) (\<lambda>s'. Inr (NO_POS, s')))"
  by (induction n) (rule ext, simp add: bindR_assoc)+

lemma bindR_Inr_pair: "bindR m (\<lambda>s. Inr (x, s)) = map_sum id (Pair x) m"
  by (simp add: bindR_def split: sum.splits)

text \<open>Every conversion gives its characters with their number or with -1.\<close>

lemma convert_length:
  assumes "convert m c ap = Inr (Some (str, len), ap')"
  shows "len = int (length str) \<or> len = - 1"
  using assms by (auto simp: convert_def Let_def bindR_eq_Inr split: if_splits list.splits option.splits)

lemma mypadstr_puts:
  assumes "len = int (length str) \<or> len = - 1"
  shows "mypadstr NO_POS NO_POS str len width left padchar s =
    bindR (cio_puts (padstr [] str len width left padchar) s) (\<lambda>s'. Inr (NO_POS, s'))"
proof -
  have "take (nat (if len < 0 then int (length str) else len)) str = str" using assms by auto
  then show ?thesis
    unfolding mypadstr_def padstr_def Let_def mypad_def pad_eq
    by (auto simp: cio_puts_append bindR_assoc pad_loop_puts)
qed

lemma padstr_dst: "padstr dst str len width left padchar = dst @ padstr [] str len width left padchar"
  by (simp add: padstr_def Let_def pad_eq)

lemma sprint_loop_dst: "sprint_loop m (dst @ d) fmt ap = map_sum id ((@) dst) (sprint_loop m d fmt ap)"
proof (induction m d fmt ap arbitrary: dst rule: sprint_loop.induct)
  case (2 m d ch fmt ap)
  consider "ch = 0" | "ch = 37" | "ch \<noteq> 0" "ch \<noteq> 37" by blast
  then show ?case
  proof cases
    case 2
    then show ?thesis
      using "2.IH"(1,2) padstr_dst [of "dst @ d"] padstr_dst [of d]
      by (auto simp: bindR_def split: sum.splits option.splits)
  next
    case 3
    then show ?thesis using "2.IH"(3) [of dst] by simp
  qed simp
qed simp

lemma sprint_loop_Nil: "sprint_loop m dst fmt ap = map_sum id ((@) dst) (sprint_loop m [] fmt ap)"
  using sprint_loop_dst [of m dst "[]"] by simp

lemma do_printf_sprint:
  assumes "sprint_loop m [] fmt ap = Inr buf" "98 \<notin> set (conversions fmt)"
  shows "do_printf m NO_POS NO_POS fmt ap = cio_puts buf"
  using assms
proof (induction fmt arbitrary: ap buf rule: conversions.induct)
  case (2 ch fmt)
  consider "ch = 0" | "ch = 37" | "ch \<noteq> 0" "ch \<noteq> 37" by blast
  then show ?case
  proof cases
    case 2
    obtain left padchar width c f where o: "fmt_opts fmt = Inr (left, padchar, width, c, f)"
      using "2.prems"(1) 2 by (auto simp: bindR_eq_Inr)
    obtain r ap' where cv: "convert m c ap = Inr (r, ap')" using "2.prems"(1) 2 o by (auto simp: bindR_eq_Inr)
    have nb: "c \<noteq> 98" "98 \<notin> set (conversions f)" using "2.prems"(2) 2 o by auto
    note IH = "2.IH"(1) [OF _ _ o refl refl refl refl, of ap']
    show ?thesis
    proof (cases r)
      case None
      then show ?thesis using "2.prems"(1) 2 o cv nb IH by (intro ext) (simp add: convert_b_def)
    next
      case (Some sl)
      obtain str len where sl: "sl = (str, len)" by (cases sl)
      let ?p = "padstr [] str len width left padchar"
      have "map_sum id ((@) ?p) (sprint_loop m [] f ap') = Inr buf"
        using "2.prems"(1) 2 o cv Some sl by (simp add: sprint_loop_Nil [of m ?p])
      then obtain b where b: "sprint_loop m [] f ap' = Inr b" "buf = ?p @ b"
        by (cases "sprint_loop m [] f ap'") auto
      have "len = int (length str) \<or> len = - 1" using convert_length cv Some sl by blast
      from mypadstr_puts [OF this] show ?thesis
        using 2 o cv nb Some sl b IH [OF _ _ b(1)] by (intro ext) (simp add: convert_b_def cio_puts_append bindR_assoc)
    qed
  next
    case 3
    obtain b where b: "sprint_loop m [] fmt ap = Inr b" "buf = ch # b"
      using "2.prems"(1) 3 sprint_loop_Nil [of m "[ch]" fmt ap] by (cases "sprint_loop m [] fmt ap") auto
    then show ?thesis using 3 "2.IH"(2) [OF 3 b(1)] "2.prems"(2) by (intro ext) simp
  qed (use "2.prems" in \<open>intro ext, simp\<close>)
qed simp


declare getstr.simps [code]


section \<open>Output succeeds while there is room\<close>

definition text_char :: "u8 \<Rightarrow> bool" where
  "text_char c \<longleftrightarrow> c = 9 \<or> c = 10 \<or> 32 \<le> c \<and> c < 127"

text \<open>The bytes that a text can put into the serial output buffer: a line feed blanks the rest of the line.\<close>

definition char_cost :: "u8 \<Rightarrow> nat" where
  "char_cost c = (if c = 10 then 80 else 1)"

definition cost :: "u8 list \<Rightarrow> nat" where
  "cost str = sum_list (map char_cost str)"

lemma cost_simps [simp]: "cost [] = 0" "cost (c # str) = char_cost c + cost str" "cost (xs @ ys) = cost xs + cost ys"
  by (simp_all add: cost_def)

text \<open>What output does to the two drivers: cells and the cursor change on the screen, and the serial output
  buffer grows by at most \<open>n\<close> bytes.\<close>

definition drawn :: "cio_state \<Rightarrow> cio_state \<Rightarrow> bool" where
  "drawn ci ci' \<longleftrightarrow> ci' = ci\<lparr>video := video ci', curr_x := curr_x ci', curr_y := curr_y ci'\<rparr>"

definition grew :: "nat \<Rightarrow> sio_state \<Rightarrow> sio_state \<Rightarrow> bool" where
  "grew n d d' \<longleftrightarrow> outlast d' \<le> outlast d + n \<and> inbuffer d' = inbuffer d \<and> inlast d' = inlast d \<and>
     innext d' = innext d \<and> incount d' = incount d \<and> outnext d' = outnext d"

lemma drawn_refl [simp]: "drawn ci ci"
  by (simp add: drawn_def)

lemma drawn_trans: "drawn a b \<Longrightarrow> drawn b c \<Longrightarrow> drawn a c"
  by (cases a, cases b, cases c) (simp add: drawn_def)

lemma drawn_upd [simp]: "drawn a (b\<lparr>video := v\<rparr>) = drawn a b" "drawn a (b\<lparr>curr_x := x\<rparr>) = drawn a b"
  "drawn a (b\<lparr>curr_y := y\<rparr>) = drawn a b"
  by (cases a, cases b, simp add: drawn_def)+

lemma grew_refl [simp]: "grew n d d"
  by (simp add: grew_def)

lemma grew_trans: "grew m a b \<Longrightarrow> grew n b c \<Longrightarrow> grew (m + n) a c"
  by (auto simp: grew_def)

lemma put_out_room:
  assumes "outlast d + 1 \<le> BUF_SIZE"
  shows "\<exists>d'. put_out c d = Inr d' \<and> grew 1 d d'"
  using assms by (auto simp: put_out_def grew_def sio_enable_def outb_def Let_def)

lemma text_char_enum:
  assumes "text_char c"
  shows "c \<in> set (map word_of_int (9 # 10 # [32..126]))"
proof -
  have "uint c = 9 \<or> uint c = 10 \<or> 32 \<le> uint c \<and> uint c \<le> 126"
    using assms by (auto simp: text_char_def word_le_def word_less_def)
  then have "uint c \<in> set (9 # 10 # [32..126])" by (simp only: list.set set_upto insert_iff atLeastAtMost_iff)
  then have "word_of_int (uint c) \<in> set (map word_of_int (9 # 10 # [32..126]) :: u8 list)" unfolding set_map by (rule imageI)
  then show ?thesis by simp
qed

lemma text_char_facts:
  assumes "text_char c"
  shows "isprint (sx c AND 0xffff)" "isprint (sx c)" "sx c AND 0xff = 10 \<longleftrightarrow> c = 10" "sx c AND 0xff \<noteq> 13"
    "c \<noteq> 10 \<Longrightarrow> (ucast ((sx c AND 0xffff) AND 0xff) :: u8) \<noteq> 10" "c \<noteq> 10 \<Longrightarrow> (ucast (sx c AND 0xff) :: u8) \<noteq> 10"
proof -
  have "\<forall>c\<in>set (map word_of_int (9 # 10 # [32..126])). isprint (sx c AND 0xffff) \<and> isprint (sx c) \<and>
      (sx c AND 0xff = 10 \<longleftrightarrow> c = 10) \<and> sx c AND 0xff \<noteq> 13 \<and>
      (c = 10 \<or> (ucast ((sx c AND 0xffff) AND 0xff) :: u8) \<noteq> 10 \<and> (ucast (sx c AND 0xff) :: u8) \<noteq> 10)" by code_simp
  then show "isprint (sx c AND 0xffff)" "isprint (sx c)" "sx c AND 0xff = 10 \<longleftrightarrow> c = 10" "sx c AND 0xff \<noteq> 13"
    "c \<noteq> 10 \<Longrightarrow> (ucast ((sx c AND 0xffff) AND 0xff) :: u8) \<noteq> 10" "c \<noteq> 10 \<Longrightarrow> (ucast (sx c AND 0xff) :: u8) \<noteq> 10"
    using text_char_enum [OF assms] by blast+
qed

lemma putchar_at_room:
  assumes "outlast d + 1 \<le> BUF_SIZE" "text_char c" "c \<noteq> 10"
  shows "\<exists>v d'. putchar_at x y (sx c) (ci, d) = Inr (ci\<lparr>video := v\<rparr>, d') \<and> grew 1 d d'"
proof -
  note f = text_char_facts [OF assms(2)]
  have w: "\<exists>d'. sio_writec ch d = Inr d' \<and> grew 1 d d'" if "ch \<noteq> 10" for ch
    using put_out_room [OF assms(1)] that by (simp add: sio_writec_def)
  have v: "\<exists>v. ci = ci\<lparr>video := v\<rparr>" by (rule exI [of _ "video ci"]) simp
  show ?thesis
    using w [OF f(5) [OF assms(3)]] w [OF f(6) [OF assms(3)]] f(1,2) v
    by (auto simp: putchar_at_def Let_def)
qed

lemma put_spaces_room:
  assumes "outlast d + length xs \<le> BUF_SIZE"
  shows "\<exists>v d'. put_spaces xs y (ci, d) = Inr (ci\<lparr>video := v\<rparr>, d') \<and> grew (length xs) d d'"
  using assms
proof (induction xs arbitrary: ci d)
  case Nil
  then show ?case by (auto intro: exI [of _ "video ci"])
next
  case (Cons x xs)
  have sp: "text_char 32" "(32 :: u8) \<noteq> 10" "sx 32 = 32" by (simp_all add: text_char_def sx_def)
  obtain v d1 where 1: "putchar_at x y (sx 32) (ci, d) = Inr (ci\<lparr>video := v\<rparr>, d1)" "grew 1 d d1"
    using putchar_at_room [of d 32 x y ci] sp Cons.prems by auto
  obtain v' d' where 2: "put_spaces xs y (ci\<lparr>video := v\<rparr>, d1) = Inr (ci\<lparr>video := v\<rparr>\<lparr>video := v'\<rparr>, d')" "grew (length xs) d1 d'"
    using Cons.IH [of d1 "ci\<lparr>video := v\<rparr>"] 1(2) Cons.prems by (auto simp: grew_def)
  show ?case using 1 2 sp(3) grew_trans [OF 1(2) 2(2)] by (intro exI [of _ v'] exI [of _ d']) simp
qed

lemma line_length:
  assumes "screen_ok ci"
  shows "length (upto_u32 (curr_x ci) (scroll_max_x ci)) \<le> 80"
proof -
  have "scroll_max_x ci \<le> 79" using assms by (auto simp: screen_ok_def intro: order.trans)
  then have "unat (scroll_max_x ci) \<le> 79" by (simp add: word_le_nat_alt)
  then show ?thesis unfolding upto_u32_def length_map length_upt by linarith
qed

lemma scrolled_drawn: "drawn ci (scrolled ci)"
proof -
  obtain v cx cy where "cio_scroll (curr_y ci - scroll_max_y ci) ci = ci\<lparr>video := v, curr_x := cx, curr_y := cy\<rparr>"
    using cio_scroll_geometry by metis
  then show ?thesis by (simp add: scrolled_def)
qed

lemma cio_putchar_room:
  assumes "screen_ok ci" "text_char c" "outlast d + char_cost c \<le> BUF_SIZE"
  shows "\<exists>ci' d'. cio_putchar (sx c) (ci, d) = Inr (ci', d') \<and> screen_ok ci' \<and> drawn ci ci' \<and> grew (char_cost c) d d'"
proof -
  let ?ci = "scrolled ci"
  note f = text_char_facts [OF assms(2)]
  have ok: "screen_ok ?ci" by (rule scrolled_ok(1) [OF assms(1)])
  note dr = scrolled_drawn [of ci]
  have "\<exists>ci' d'. cio_putchar (sx c) (ci, d) = Inr (ci', d') \<and> drawn ci ci' \<and> grew (char_cost c) d d'"
  proof (cases "c = 10")
    case True
    let ?xs = "upto_u32 (curr_x ?ci) (scroll_max_x ?ci)"
    have n: "length ?xs \<le> 80" by (rule line_length [OF ok])
    then obtain v d' where P: "put_spaces ?xs (curr_y ?ci) (?ci, d) = Inr (?ci\<lparr>video := v\<rparr>, d')" "grew (length ?xs) d d'"
      using put_spaces_room [of d ?xs "curr_y ?ci" ?ci] assms(3) True by (auto simp: char_cost_def)
    moreover have "grew 80 d d'" using P(2) n by (auto simp: grew_def)
    ultimately show ?thesis using True f(3) dr by (auto simp: cio_putchar_cases Let_def char_cost_def)
  next
    case False
    obtain v d' where P: "putchar_at (curr_x ?ci) (curr_y ?ci) (sx c) (?ci, d) = Inr (?ci\<lparr>video := v\<rparr>, d')" "grew 1 d d'"
      using putchar_at_room [OF _ assms(2) False, of d "curr_x ?ci" "curr_y ?ci" ?ci] assms(3) False by (auto simp: char_cost_def)
    then show ?thesis using False f(3,4) dr by (auto simp: cio_putchar_cases Let_def char_cost_def)
  qed
  then show ?thesis using cio_putchar_screen_ok [OF assms(1)] by blast
qed

lemma cio_puts_room:
  assumes "screen_ok ci" "list_all text_char str" "outlast d + cost str \<le> BUF_SIZE"
  shows "\<exists>ci' d'. cio_puts str (ci, d) = Inr (ci', d') \<and> screen_ok ci' \<and> drawn ci ci' \<and> grew (cost str) d d'"
  using assms
proof (induction str arbitrary: ci d)
  case (Cons c str)
  obtain ci1 d1 where 1: "cio_putchar (sx c) (ci, d) = Inr (ci1, d1)" "screen_ok ci1" "drawn ci ci1" "grew (char_cost c) d d1"
    using cio_putchar_room [OF Cons.prems(1), of c d] Cons.prems(2,3) by auto
  obtain ci' d' where "cio_puts str (ci1, d1) = Inr (ci', d')" "screen_ok ci'" "drawn ci1 ci'" "grew (cost str) d1 d'"
    using Cons.IH [OF 1(2), of d1] 1(4) Cons.prems(2,3) by (auto simp: grew_def)
  then show ?case using 1 drawn_trans grew_trans by fastforce
qed simp

lemma cio_printf_room:
  assumes "sprint m fmt ap = Inr buf" "98 \<notin> set (conversions fmt)" "list_all text_char buf" "cost buf \<le> n"
    and "screen_ok ci" "outlast d + n \<le> BUF_SIZE"
  shows "\<exists>ci' d'. cio_printf m fmt ap (ci, d) = Inr (ci', d') \<and> screen_ok ci' \<and> drawn ci ci' \<and> grew n d d'"
proof -
  have "cio_printf m fmt ap (ci, d) = cio_puts buf (ci, d)"
    using do_printf_sprint [of m fmt ap buf] assms(1,2) by (simp add: cio_printf_def sprint_def)
  moreover obtain ci' d' where "cio_puts buf (ci, d) = Inr (ci', d')" "screen_ok ci'" "drawn ci ci'" "grew (cost buf) d d'"
    using cio_puts_room [OF assms(5,3), of d] assms(4,6) by auto
  ultimately show ?thesis using assms(4) by (auto simp: grew_def)
qed

section \<open>Formats of the kernel's messages\<close>

text \<open>Text of one line.\<close>

definition plain :: "u8 list \<Rightarrow> bool" where
  "plain str \<longleftrightarrow> list_all (\<lambda>c. 32 \<le> c \<and> c < 127) str"

lemma plain_simps [simp]: "plain []" "plain (c # str) \<longleftrightarrow> 32 \<le> c \<and> c < 127 \<and> plain str" "plain (xs @ ys) \<longleftrightarrow> plain xs \<and> plain ys"
  by (auto simp: plain_def)

lemma plain_text: "plain str \<Longrightarrow> list_all text_char str" "plain str \<Longrightarrow> cost str = length str"
  by (induction str) (auto simp: text_char_def char_cost_def)

lemma plain_numeral:
  assumes "2 \<le> b" "b \<le> 16"
  shows "plain (numeral_str b n)"
proof -
  have "list_all (\<lambda>c. 32 \<le> c \<and> c < 127) hexdigits" by (simp add: hexdigits_def)
  moreover have "d < length hexdigits" if "d \<in> set (digs b n)" for d
    using digs_bound [OF assms(1) that] assms(2) by (simp add: hexdigits_def)
  ultimately show ?thesis by (auto simp: plain_def numeral_str_def list_all_iff)
qed

lemma cvt_plain:
  "plain (cvtdec (sint (v :: u32)))" "length (cvtdec (sint v)) \<le> 11" "plain (cvthex v)" "length (cvthex v) \<le> 11"
  using conversions_print_numerals [of v] plain_numeral [of 10] plain_numeral [of 16] by auto

lemma sprint_loop_dec: "sprint_loop m dst (37 # 100 # f) (a # ap) = sprint_loop m (dst @ cvtdec (sint a)) f ap"
proof -
  have "fmt_opts (100 # f) = Inr (False, 32, 0, 100, f)" by (simp add: fmt_opts_def next_ch_def fmt_width_stop)
  moreover have "padstr dst str (int (length str)) 0 False 32 = dst @ str" if "length str \<le> 11" for str
    using that by (subst padstr_eq) simp_all
  ultimately show ?thesis using cvt_plain(2) [of a] by (simp add: convert_def Let_def)
qed

lemma sprint_loop_hex2:
  "sprint_loop m dst (37 # 48 # 50 # 120 # f) (a # ap) = sprint_loop m (dst @ replicate (2 - length (cvthex a)) 48 @ cvthex a) f ap"
proof -
  have "fmt_opts (48 # 50 # 120 # f) = Inr (False, 48, 2, 120, f)"
    by (simp add: fmt_opts_def next_ch_def fmt_width_stop wrap32_def)
  moreover have "padstr dst str (int (length str)) 2 False 48 = dst @ replicate (2 - length str) 48 @ str" if "length str \<le> 11" for str
    using that by (subst padstr_eq) (simp_all add: Let_def)
  ultimately show ?thesis using cvt_plain(4) [of a] by (simp add: convert_def Let_def)
qed

lemma sprint_loop_hex4:
  "sprint_loop m dst (37 # 48 # 52 # 120 # f) (a # ap) = sprint_loop m (dst @ replicate (4 - length (cvthex a)) 48 @ cvthex a) f ap"
proof -
  have "fmt_opts (48 # 52 # 120 # f) = Inr (False, 48, 4, 120, f)"
    by (simp add: fmt_opts_def next_ch_def fmt_width_stop wrap32_def)
  moreover have "padstr dst str (int (length str)) 4 False 48 = dst @ replicate (4 - length str) 48 @ str" if "length str \<le> 11" for str
    using that by (subst padstr_eq) (simp_all add: Let_def)
  ultimately show ?thesis using cvt_plain(4) [of a] by (simp add: convert_def Let_def)
qed

lemma conversions_dec [simp]: "conversions (37 # 100 # f) = 100 # conversions f"
  by (simp add: fmt_opts_def next_ch_def fmt_width_stop)

lemma conversions_hex2 [simp]: "conversions (37 # 48 # 50 # 120 # f) = 120 # conversions f"
  by (simp add: fmt_opts_def next_ch_def fmt_width_stop)

lemma conversions_hex4 [simp]: "conversions (37 # 48 # 52 # 120 # f) = 120 # conversions f"
  by (simp add: fmt_opts_def next_ch_def fmt_width_stop)

lemma sprint_loop_char: "ch \<noteq> 0 \<Longrightarrow> ch \<noteq> 37 \<Longrightarrow> sprint_loop m dst (ch # f) ap = sprint_loop m (dst @ [ch]) f ap"
  and sprint_loop_end: "sprint_loop m dst (0 # f) ap = Inr dst"
  by simp_all

lemma conversions_char: "ch \<noteq> 0 \<Longrightarrow> ch \<noteq> 37 \<Longrightarrow> conversions (ch # f) = conversions f"
  and conversions_end: "conversions (0 # f) = []"
  by simp_all

text \<open>Rewriting a literal format to the text it prints.\<close>

lemmas format_eqs = sprint_loop_char sprint_loop_end sprint_loop_dec sprint_loop_hex2 sprint_loop_hex4
  conversions_char conversions_end conversions_dec conversions_hex2 conversions_hex4

end
