(* ===== verification/Support.thy ===== *)
theory Support
  imports Clock Cio_Text
begin

unbundle bit_operations_syntax

text \<open>
  The interrupt support, \<^verbatim>\<open>support.c\<close>: the interrupt descriptor table in memory, the table of the
  second-stage handlers, the initialization of the interrupt controllers, and the handlers for interrupts that no
  module claims. The addresses of the stubs, which are assembly code, are a parameter. \<^verbatim>\<open>panic\<close> prints its
  message and loops: it is the failure \<open>Kpanic\<close>.
\<close>

section \<open>Handlers\<close>

text \<open>The functions that the kernel puts into \<^verbatim>\<open>isr_table\<close>.\<close>

datatype handler = Unexpected | Default | Mystery | Clk_isr | Sio_isr | Keyboard_isr | Sys_isr

type_synonym isr_table = "int \<Rightarrow> handler"

abbreviation N_EXCEPTIONS :: int where "N_EXCEPTIONS \<equiv> 256"
abbreviation VEC_TIMER :: int where "VEC_TIMER \<equiv> 0x20"
abbreviation VEC_KBD :: int where "VEC_KBD \<equiv> 0x21"
abbreviation VEC_COM1 :: int where "VEC_COM1 \<equiv> 0x24"
abbreviation VEC_MYSTERY :: int where "VEC_MYSTERY \<equiv> 0x27"
abbreviation VEC_SYSCALL :: int where "VEC_SYSCALL \<equiv> 0x80"
abbreviation PIC2_CMD :: u16 where "PIC2_CMD \<equiv> 0xA0"

text \<open>\<^verbatim>\<open>install_isr\<close>: the handler that was installed before and the new table. A vector outside the table is an
  access outside the array.\<close>

definition install_isr :: "int \<Rightarrow> handler \<Rightarrow> isr_table \<Rightarrow> (handler \<times> isr_table) res" where
  "install_isr vector h t = (if 0 \<le> vector \<and> vector < N_EXCEPTIONS then Inr (t vector, t(vector := h)) else Inl Wild)"

definition port_write :: "u16 \<Rightarrow> u8 \<Rightarrow> kernel \<Rightarrow> kernel" where
  "port_write p v k = k\<lparr>port_out := port_out k @ [(p, v)]\<rparr>"

text \<open>The kernel is built with \<^verbatim>\<open>RPT_INT_UNEXP\<close>: the handlers report the interrupt first.\<close>

definition report :: "string \<Rightarrow> u32 list \<Rightarrow> kernel \<Rightarrow> kernel res" where
  "report fmt args k = on_con (cio_printf (k_mem (km (kst k))) (cstring fmt) args) k"

definition NL :: string where
  "NL = [CHR 0x0A]"

definition unexpected_handler :: "int \<Rightarrow> int \<Rightarrow> kernel \<Rightarrow> kernel res" where
  "unexpected_handler vector code k =
     bindR (report (NL @ ''** UNEXPECTED vector 0x%02x code %d'' @ NL) [word_of_int vector, word_of_int code] k)
       (\<lambda>_. Inl (Kpanic ''Unexpected interrupt''))"

definition default_handler :: "int \<Rightarrow> int \<Rightarrow> kernel \<Rightarrow> kernel res" where
  "default_handler vector code k =
     bindR (report (NL @ ''** vector %d code %d'' @ NL) [word_of_int vector, word_of_int code] k) (\<lambda>k1.
       if vector \<ge> 0x20 \<and> vector < 0x30 then
         Inr (port_write PIC1_CMD PIC_EOI (if vector > 0x27 then port_write PIC2_CMD PIC_EOI k1 else k1))
       else
         bindR (report (NL @ ''** DEFAULT vector 0x%02x code %d'' @ NL) [word_of_int vector, word_of_int code] k1)
           (\<lambda>_. Inl (Kpanic (''Unexpected '' @ [CHR 0x22] @ ''expected'' @ [CHR 0x22] @ '' interrupt!''))))"

definition mystery_handler :: "int \<Rightarrow> int \<Rightarrow> kernel \<Rightarrow> kernel res" where
  "mystery_handler vector code k =
     bindR (report (NL @ ''Mystery interrupt!'' @ NL @ ''Vector=0x%02x, code=%d'' @ NL) [word_of_int vector, word_of_int code] k)
       (\<lambda>k1. Inr (port_write PIC1_CMD PIC_EOI k1))"

section \<open>The descriptor table\<close>

abbreviation IDT_ADDR :: addr where "IDT_ADDR \<equiv> 0x2500"

definition store16 :: "mem \<Rightarrow> addr \<Rightarrow> u16 \<Rightarrow> mem" where
  "store16 m a v = m(a := ucast v, a + 1 := ucast (drop_bit 8 v))"

definition set_idt_entry :: "int \<Rightarrow> u32 \<Rightarrow> mem \<Rightarrow> mem" where
  "set_idt_entry entry h m =
     (let g = IDT_ADDR + 8 * word_of_int entry;
          m1 = store16 m g (ucast (h AND 0xffff));
          m2 = store16 m1 (g + 2) 0x0010;
          m3 = store16 m2 (g + 4) (0x8000 OR 0 OR 0x0e00)
      in store16 m3 (g + 6) (ucast (drop_bit 16 h AND 0xffff)))"

fun idt_loop :: "(int \<Rightarrow> u32) \<Rightarrow> int list \<Rightarrow> mem \<times> isr_table \<Rightarrow> (mem \<times> isr_table) res" where
  "idt_loop isr_stub_table [] mt = Inr mt"
| "idt_loop isr_stub_table (i # is) (m, t) =
     bindR (install_isr i Unexpected t) (\<lambda>(_, t'). idt_loop isr_stub_table is (set_idt_entry i (isr_stub_table i) m, t'))"

definition init_idt :: "(int \<Rightarrow> u32) \<Rightarrow> mem \<times> isr_table \<Rightarrow> (mem \<times> isr_table) res" where
  "init_idt isr_stub_table mt =
     bindR (idt_loop isr_stub_table [0..N_EXCEPTIONS - 1] mt) (\<lambda>(m, t).
     bindR (install_isr VEC_KBD Default t) (\<lambda>(_, t).
     bindR (install_isr VEC_COM1 Default t) (\<lambda>(_, t).
     bindR (install_isr VEC_TIMER Default t) (\<lambda>(_, t).
     bindR (install_isr VEC_SYSCALL Default t) (\<lambda>(_, t).
     bindR (install_isr VEC_MYSTERY Mystery t) (\<lambda>(_, t). Inr (m, t)))))))"

section \<open>The interrupt controllers\<close>

definition init_pic :: "kernel \<Rightarrow> kernel" where
  "init_pic = fold (\<lambda>(p, v). port_write p v)
     [(0x20, 0x10 OR 0x01), (0xA0, 0x10 OR 0x01), (0x21, 0x20), (0xA1, 0x28), (0x21, 0x04), (0xA1, 0x02),
      (0x21, 0x01), (0xA1, 0x01), (0x21, 0), (0xA1, 0)]"

definition set_mem :: "mem \<Rightarrow> kernel \<Rightarrow> kernel" where
  "set_mem m k = k\<lparr>kst := mem_upd (\<lambda>_. m) (kst k)\<rparr>"

definition init_interrupts :: "(int \<Rightarrow> u32) \<Rightarrow> kernel \<times> isr_table \<Rightarrow> (kernel \<times> isr_table) res" where
  "init_interrupts isr_stub_table = (\<lambda>(k, t).
     bindR (init_idt isr_stub_table (k_mem (km (kst k)), t)) (\<lambda>(m, t'). Inr (init_pic (set_mem m k), t')))"

text \<open>The busy loop of \<^verbatim>\<open>delay\<close>: the number of times the inner counter is incremented.\<close>

function delay :: "int \<Rightarrow> nat" where
  "delay len = (let len' = len - 1 in if len' \<ge> 0 then 10000000 + delay len' else 0)"
  by pat_completeness auto
termination by (relation "measure nat") auto

declare delay.simps [simp del]

lemma delay_eq: "delay len = 10000000 * nat len"
proof (induction len rule: delay.induct)
  case (1 len)
  show ?case using "1.IH" [OF refl] by (subst delay.simps) (auto simp: nat_diff_distrib algebra_simps)
qed

section \<open>What the tables hold\<close>

text \<open>The eight bytes of a gate, and how the processor reads them: the offset, the selector and the flags.\<close>

definition gate_bytes :: "u32 \<Rightarrow> u8 list" where
  "gate_bytes h = [ucast h, ucast (drop_bit 8 h), 0x10, 0, 0, 0x8e, ucast (drop_bit 16 h), ucast (drop_bit 24 h)]"

definition gate_offset :: "mem \<Rightarrow> nat \<Rightarrow> u32" where
  "gate_offset m v = (let g = IDT_ADDR + 8 * of_nat v in load32 m g AND 0xffff OR load32 m (g + 4) AND 0xffff0000)"

definition gate_selector :: "mem \<Rightarrow> nat \<Rightarrow> u16" where
  "gate_selector m v = ucast (drop_bit 16 (load32 m (IDT_ADDR + 8 * of_nat v)))"

definition gate_flags :: "mem \<Rightarrow> nat \<Rightarrow> u16" where
  "gate_flags m v = ucast (load32 m (IDT_ADDR + 8 * of_nat v + 4))"

lemma half_bytes:
  fixes h :: u32
  shows "ucast (ucast (h AND 0xffff) :: u16) = (ucast h :: u8)" "ucast (drop_bit 8 (ucast (h AND 0xffff) :: u16)) = (ucast (drop_bit 8 h) :: u8)"
    "ucast (ucast (drop_bit 16 h AND 0xffff) :: u16) = (ucast (drop_bit 16 h) :: u8)"
    "ucast (drop_bit 8 (ucast (drop_bit 16 h AND 0xffff) :: u16)) = (ucast (drop_bit 24 h) :: u8)"
proof -
  have m: "0xffff = (mask 16 :: u32)" by (simp add: mask_eq_exp_minus_1)
  show "ucast (ucast (h AND 0xffff) :: u16) = (ucast h :: u8)" "ucast (drop_bit 8 (ucast (h AND 0xffff) :: u16)) = (ucast (drop_bit 8 h) :: u8)"
    "ucast (ucast (drop_bit 16 h AND 0xffff) :: u16) = (ucast (drop_bit 16 h) :: u8)"
    "ucast (drop_bit 8 (ucast (drop_bit 16 h AND 0xffff) :: u16)) = (ucast (drop_bit 24 h) :: u8)"
    unfolding m by ((rule bit_word_eqI)?, auto simp: bit_simps)+
qed

lemma set_idt_entry_bytes:
  "set_idt_entry entry h m x =
     (let j = unat (x - (IDT_ADDR + 8 * word_of_int entry)) in if j < 8 then gate_bytes h ! j else m x)"
proof -
  define g :: u32 where "g = IDT_ADDR + 8 * word_of_int entry"
  define d where "d = x - g"
  have x: "x = g + d" by (simp add: d_def)
  have seven: "d = 0 \<or> d = 1 \<or> d = 2 \<or> d = 3 \<or> d = 4 \<or> d = 5 \<or> d = 6 \<or> d = 7" if "unat d < 8"
  proof -
    have "unat d = 0 \<or> unat d = 1 \<or> unat d = 2 \<or> unat d = 3 \<or> unat d = 4 \<or> unat d = 5 \<or> unat d = 6 \<or> unat d = 7"
      using that by linarith
    then show ?thesis by (simp add: word_unat_eq_iff)
  qed
  have low: "(g + d = g + c) = (d = c)" "(g + d = g) = (d = 0)" for c by simp_all
  show ?thesis
  proof (cases "unat d < 8")
    case True
    then show ?thesis using seven [OF True]
      unfolding set_idt_entry_def Let_def store16_def g_def [symmetric] d_def [symmetric] x gate_bytes_def half_bytes
      by (elim disjE) simp_all
  next
    case False
    then have "d \<noteq> 0" "d \<noteq> 1" "d \<noteq> 2" "d \<noteq> 3" "d \<noteq> 4" "d \<noteq> 5" "d \<noteq> 6" "d \<noteq> 7" by auto
    then show ?thesis using False
      unfolding set_idt_entry_def Let_def store16_def g_def [symmetric] d_def [symmetric] x by (simp add: add.assoc)
  qed
qed

definition idt_from :: "nat \<Rightarrow> (int \<Rightarrow> u32) \<Rightarrow> mem \<Rightarrow> mem" where
  "idt_from n stubs m x =
     (let j = unat (x - IDT_ADDR) in if 8 * n \<le> j \<and> j < 2048 then gate_bytes (stubs (int (j div 8))) ! (j mod 8) else m x)"

lemma idt_from_entry:
  assumes "n < 256"
  shows "idt_from (n + 1) stubs (set_idt_entry (int n) (stubs (int n)) m) = idt_from n stubs m"
proof (rule ext)
  fix x
  define j where "j = unat (x - IDT_ADDR)"
  have "8 * (of_nat n :: u32) = of_nat (8 * n)" by simp
  then have u: "unat (8 * of_nat n :: u32) = 8 * n" using assms by (simp only: unat_of_nat) simp
  have e: "x - (IDT_ADDR + 8 * word_of_int (int n)) = (x - IDT_ADDR) - 8 * of_nat n" by simp
  have j': "unat (x - (IDT_ADDR + 8 * word_of_int (int n))) = (if 8 * n \<le> j then j - 8 * n else 2 ^ 32 + j - 8 * n)"
    unfolding e unat_sub_if' u j_def by simp
  consider "j < 8 * n" | "8 * n \<le> j" "j < 8 * n + 8" | "8 * n + 8 \<le> j" by linarith
  then show "idt_from (n + 1) stubs (set_idt_entry (int n) (stubs (int n)) m) x = idt_from n stubs m x"
  proof cases
    case 1
    then have "\<not> 2 ^ 32 + j - 8 * n < 8" "\<not> 8 * (n + 1) \<le> j" "\<not> 8 * n \<le> j" using assms by simp_all
    then show ?thesis unfolding idt_from_def set_idt_entry_bytes j' j_def [symmetric] Let_def by (simp only: simp_thms if_False)
  next
    case 2
    then obtain r where r: "j = 8 * n + r" "r < 8" using le_Suc_ex by (metis nat_add_left_cancel_less)
    then have "j div 8 = n" "j mod 8 = r" "j - 8 * n = r" "j < 2048" "\<not> 8 * (n + 1) \<le> j" "8 * n \<le> j" using assms by simp_all
    then show ?thesis unfolding idt_from_def set_idt_entry_bytes j' j_def [symmetric] Let_def
      using r(2) by (simp only: simp_thms if_True if_False)
  next
    case 3
    then have "8 * n \<le> j" "8 * (n + 1) \<le> j" "\<not> j - 8 * n < 8" by simp_all
    then show ?thesis unfolding idt_from_def set_idt_entry_bytes j' j_def [symmetric] Let_def by (simp only: simp_thms if_True if_False)
  qed
qed

lemma idt_loop_eq:
  assumes "n \<le> 256"
  shows "idt_loop stubs [int n..255] (m, t) =
    Inr (idt_from n stubs m, \<lambda>i. if int n \<le> i \<and> i < 256 then Unexpected else t i)"
  using assms
proof (induction "256 - n" arbitrary: n m t)
  case 0
  then have "n = 256" by simp
  then show ?case by (auto simp: idt_from_def fun_eq_iff Let_def)
next
  case (Suc k)
  then have n: "n < 256" by simp
  then have "[int n..255] = int n # [int (n + 1)..255]" by (simp add: upto_rec1 add.commute)
  then have "idt_loop stubs [int n..255] (m, t) =
      idt_loop stubs [int (n + 1)..255] (set_idt_entry (int n) (stubs (int n)) m, t(int n := Unexpected))"
    using n by (simp add: install_isr_def)
  also have "\<dots> = Inr (idt_from (n + 1) stubs (set_idt_entry (int n) (stubs (int n)) m),
      \<lambda>i. if int (n + 1) \<le> i \<and> i < 256 then Unexpected else (t(int n := Unexpected)) i)"
    using Suc.hyps(1) [of "n + 1"] Suc.hyps(2) n by simp
  also have "(\<lambda>i. if int (n + 1) \<le> i \<and> i < 256 then Unexpected else (t(int n := Unexpected)) i) =
      (\<lambda>i. if int n \<le> i \<and> i < 256 then Unexpected else t i)" using n by (auto simp: fun_eq_iff)
  finally show ?case unfolding idt_from_entry [OF n] .
qed

text \<open>The second-stage handlers after the initialization of the table.\<close>

definition first_handlers :: "isr_table \<Rightarrow> isr_table" where
  "first_handlers t vector =
     (if vector \<in> {VEC_TIMER, VEC_KBD, VEC_COM1, VEC_SYSCALL} then Default
      else if vector = VEC_MYSTERY then Mystery
      else if 0 \<le> vector \<and> vector < 256 then Unexpected else t vector)"

lemma init_idt_eq: "init_idt stubs (m, t) = Inr (idt_from 0 stubs m, first_handlers t)"
  unfolding init_idt_def using idt_loop_eq [of 0 stubs m t]
  by (auto simp: install_isr_def first_handlers_def fun_eq_iff)

lemma gate_loads:
  fixes g :: u32
  assumes "\<And>j. j < 8 \<Longrightarrow> m (g + of_nat j) = gate_bytes h ! j"
  shows "load32 m g AND 0xffff OR load32 m (g + 4) AND 0xffff0000 = h" "(ucast (drop_bit 16 (load32 m g)) :: u16) = 0x10"
    "(ucast (load32 m (g + 4)) :: u16) = 0x8e00"
proof -
  have b: "m g = ucast h" "m (g + 1) = ucast (drop_bit 8 h)" "m (g + 2) = 0x10" "m (g + 3) = 0" "m (g + 4) = 0"
    "m (g + 5) = 0x8e" "m (g + 6) = ucast (drop_bit 16 h)" "m (g + 7) = ucast (drop_bit 24 h)"
    using assms [of 0] assms [of 1] assms [of 2] assms [of 3] assms [of 4] assms [of 5] assms [of 6] assms [of 7]
    by (simp_all add: gate_bytes_def)
  have lo: "load32 m g = ucast (ucast h :: u8) OR push_bit 8 (ucast (ucast (drop_bit 8 h) :: u8)) OR push_bit 16 0x10"
    unfolding load32_def b by simp
  have "g + 4 + 1 = g + 5" "g + 4 + 2 = g + 6" "g + 4 + 3 = g + 7" by simp_all
  then have hi: "load32 m (g + 4) = push_bit 8 (ucast (0x8e :: u8)) OR push_bit 16 (ucast (ucast (drop_bit 16 h) :: u8)) OR
      push_bit 24 (ucast (ucast (drop_bit 24 h) :: u8))"
    unfolding load32_def by (simp only: b) simp
  have flags: "(0x8e00 :: u16) = push_bit 8 (ucast (0x8e :: u8))" by simp
  have lob: "bit (load32 m g) n \<longleftrightarrow> n < 16 \<and> bit h n \<or> 16 \<le> n \<and> n < 32 \<and> bit (0x10 :: u16) (n - 16)" for n
    unfolding lo bit_or_iff bit_push_bit_iff bit_unsigned_iff bit_drop_bit_eq
    by (cases "n < 8"; cases "n < 16") (auto dest: bit_imp_le_length simp del: bit_numeral_simps)
  have hib: "bit (load32 m (g + 4)) n \<longleftrightarrow> n < 16 \<and> bit (0x8e00 :: u16) n \<or> 16 \<le> n \<and> n < 32 \<and> bit h n" for n
    unfolding hi flags bit_or_iff bit_push_bit_iff bit_unsigned_iff bit_drop_bit_eq
    by (cases "n < 8"; cases "n < 16"; cases "n < 24") (auto dest: bit_imp_le_length simp del: bit_numeral_simps)
  have masks: "bit (0xffff :: u32) n \<longleftrightarrow> n < 16" "bit (0xffff0000 :: u32) n \<longleftrightarrow> 16 \<le> n \<and> n < 32" for n
  proof -
    have m: "(0xffff :: u32) = mask 16" "(0xffff0000 :: u32) = push_bit 16 (mask 16)" by (simp_all add: mask_eq_exp_minus_1)
    show "bit (0xffff :: u32) n \<longleftrightarrow> n < 16" unfolding m(1) bit_mask_iff by auto
    show "bit (0xffff0000 :: u32) n \<longleftrightarrow> 16 \<le> n \<and> n < 32" unfolding m(2) bit_push_bit_iff bit_mask_iff by auto
  qed
  show "load32 m g AND 0xffff OR load32 m (g + 4) AND 0xffff0000 = h"
    by (rule bit_word_eqI) (unfold bit_or_iff bit_and_iff masks lob hib, auto)
  show "(ucast (drop_bit 16 (load32 m g)) :: u16) = 0x10"
    by (rule bit_word_eqI) (unfold bit_unsigned_iff bit_drop_bit_eq lob, auto)
  show "(ucast (load32 m (g + 4)) :: u16) = 0x8e00"
    by (rule bit_word_eqI) (unfold bit_unsigned_iff hib, auto)
qed

lemma idt_from_gates:
  assumes "v < 256"
  shows "gate_offset (idt_from 0 stubs m) v = stubs (int v)" "gate_selector (idt_from 0 stubs m) v = 0x10"
    "gate_flags (idt_from 0 stubs m) v = 0x8e00"
proof -
  let ?g = "IDT_ADDR + 8 * of_nat v :: u32"
  have "idt_from 0 stubs m (?g + of_nat j) = gate_bytes (stubs (int v)) ! j" if "j < 8" for j
  proof -
    have "?g + of_nat j - IDT_ADDR = of_nat (8 * v + j)" by simp
    then have "unat (?g + of_nat j - IDT_ADDR) = 8 * v + j" using assms that by (simp only: unat_of_nat) simp
    then show ?thesis using assms that by (simp add: idt_from_def)
  qed
  from gate_loads [OF this]
  show "gate_offset (idt_from 0 stubs m) v = stubs (int v)" "gate_selector (idt_from 0 stubs m) v = 0x10"
    "gate_flags (idt_from 0 stubs m) v = 0x8e00"
    by (simp_all add: gate_offset_def gate_selector_def gate_flags_def Let_def)
qed

text \<open>C12. \<^verbatim>\<open>init_interrupts\<close> succeeds; the processor reads every gate of the table as a present 32-bit interrupt
  gate for the kernel code segment at the address of the stub of its vector; no byte outside the 2048 bytes of the
  table changes; and the second-stage handlers are those of \<open>first_handlers\<close>.\<close>

theorem init_interrupts_gates:
  assumes "v < 256"
  shows "\<exists>m. init_interrupts stubs (k, t) = Inr (init_pic (set_mem m k), first_handlers t) \<and>
    gate_offset m v = stubs (int v) \<and> gate_selector m v = 0x10 \<and> gate_flags m v = 0x8e00 \<and>
    {x. m x \<noteq> k_mem (km (kst k)) x} \<subseteq> {x. inr IDT_ADDR 2048 x}"
proof (intro exI conjI)
  let ?m = "idt_from 0 stubs (k_mem (km (kst k)))"
  show "init_interrupts stubs (k, t) = Inr (init_pic (set_mem ?m k), first_handlers t)"
    by (simp add: init_interrupts_def init_idt_eq)
  show "{x. ?m x \<noteq> k_mem (km (kst k)) x} \<subseteq> {x. inr IDT_ADDR 2048 x}"
    by (auto simp: idt_from_def inr_def Let_def split: if_splits)
qed (rule idt_from_gates [OF assms])+

theorem init_interrupts_gates_witness:
  "\<exists>m. init_interrupts (\<lambda>v. 0x10000 + 16 * word_of_int v) (sample_kernel, \<lambda>_. Unexpected) =
       Inr (init_pic (set_mem m sample_kernel), first_handlers (\<lambda>_. Unexpected)) \<and> gate_offset m 0x80 = 0x10800"
  using init_interrupts_gates [where v = "0x80" and stubs = "\<lambda>v. 0x10000 + 16 * word_of_int v" and k = sample_kernel] by auto

section \<open>Acknowledging interrupts\<close>

text \<open>A routine that prints: given a valid screen and room for \<open>n\<close> bytes in the serial buffer, it comes back and has changed
  only the two drivers.\<close>

definition prints :: "nat \<Rightarrow> (kernel \<Rightarrow> kernel res) \<Rightarrow> bool" where
  "prints n f \<longleftrightarrow> (\<forall>k. screen_ok (cio k) \<and> outlast (sio k) + n \<le> BUF_SIZE \<longrightarrow>
     (\<exists>ci d. f k = Inr (k\<lparr>cio := ci, sio := d\<rparr>) \<and> screen_ok ci \<and> drawn (cio k) ci \<and> grew n (sio k) d))"

lemma printsE:
  assumes "prints n f" "screen_ok (cio k)" "outlast (sio k) + n \<le> BUF_SIZE"
  shows "\<exists>ci d. f k = Inr (k\<lparr>cio := ci, sio := d\<rparr>) \<and> screen_ok ci \<and> drawn (cio k) ci \<and> grew n (sio k) d"
  using assms unfolding prints_def by blast

lemma prints_seq:
  assumes "prints m f" "prints n g"
  shows "prints (m + n) (\<lambda>k. bindR (f k) g)"
  unfolding prints_def
proof (intro allI impI, elim conjE)
  fix k :: kernel
  assume k: "screen_ok (cio k)" "outlast (sio k) + (m + n) \<le> BUF_SIZE"
  then obtain ci d where 1: "f k = Inr (k\<lparr>cio := ci, sio := d\<rparr>)" "screen_ok ci" "drawn (cio k) ci" "grew m (sio k) d"
    using printsE [OF assms(1), of k] by auto
  then obtain ci' d' where "g (k\<lparr>cio := ci, sio := d\<rparr>) = Inr (k\<lparr>cio := ci, sio := d, cio := ci', sio := d'\<rparr>)"
      "screen_ok ci'" "drawn ci ci'" "grew n d d'"
    using printsE [OF assms(2), of "k\<lparr>cio := ci, sio := d\<rparr>"] k(2) by (auto simp: grew_def)
  then show "\<exists>ci d. bindR (f k) g = Inr (k\<lparr>cio := ci, sio := d\<rparr>) \<and> screen_ok ci \<and> drawn (cio k) ci \<and> grew (m + n) (sio k) d"
    using 1 drawn_trans [of "cio k" ci ci'] grew_trans [of m "sio k" d n d'] by (intro exI [of _ ci'] exI [of _ d']) simp
qed

lemma prints_puts:
  assumes "list_all text_char str"
  shows "prints (cost str) (on_con (cio_puts str))"
  unfolding prints_def
proof (intro allI impI, elim conjE)
  fix k :: kernel
  assume "screen_ok (cio k)" "outlast (sio k) + cost str \<le> BUF_SIZE"
  then obtain ci d where "cio_puts str (cio k, sio k) = Inr (ci, d)" "screen_ok ci" "drawn (cio k) ci" "grew (cost str) (sio k) d"
    using cio_puts_room [OF _ assms] by blast
  then show "\<exists>ci d. on_con (cio_puts str) k = Inr (k\<lparr>cio := ci, sio := d\<rparr>) \<and> screen_ok ci \<and> drawn (cio k) ci \<and> grew (cost str) (sio k) d"
    by (auto simp: on_con_def)
qed

lemma prints_report:
  assumes "98 \<notin> set (conversions (cstring fmt))" "\<And>m. sprint m (cstring fmt) args = Inr buf" "list_all text_char buf" "cost buf \<le> n"
  shows "prints n (report fmt args)"
  unfolding prints_def
proof (intro allI impI, elim conjE)
  fix k :: kernel
  assume "screen_ok (cio k)" "outlast (sio k) + n \<le> BUF_SIZE"
  then obtain ci d where "cio_printf (k_mem (km (kst k))) (cstring fmt) args (cio k, sio k) = Inr (ci, d)" "screen_ok ci"
      "drawn (cio k) ci" "grew n (sio k) d"
    using cio_printf_room [OF assms(2,1,3,4)] by blast
  then show "\<exists>ci d. report fmt args k = Inr (k\<lparr>cio := ci, sio := d\<rparr>) \<and> screen_ok ci \<and> drawn (cio k) ci \<and> grew n (sio k) d"
    by (auto simp: report_def on_con_def)
qed

text \<open>The texts of the reports; each blanks at most two lines.\<close>

lemma report_texts:
  "sprint m (cstring (NL @ ''** vector %d code %d'' @ NL)) [v, c] =
     Inr (map of_char (NL @ ''** vector '') @ cvtdec (sint v) @ map of_char '' code '' @ cvtdec (sint c) @ map of_char NL)"
  "sprint m (cstring (NL @ ''** DEFAULT vector 0x%02x code %d'' @ NL)) [v, c] =
     Inr (map of_char (NL @ ''** DEFAULT vector 0x'') @ (replicate (2 - length (cvthex v)) 48 @ cvthex v) @ map of_char '' code '' @
       cvtdec (sint c) @ map of_char NL)"
  "sprint m (cstring (NL @ ''** UNEXPECTED vector 0x%02x code %d'' @ NL)) [v, c] =
     Inr (map of_char (NL @ ''** UNEXPECTED vector 0x'') @ (replicate (2 - length (cvthex v)) 48 @ cvthex v) @ map of_char '' code '' @
       cvtdec (sint c) @ map of_char NL)"
  "98 \<notin> set (conversions (cstring (NL @ ''** vector %d code %d'' @ NL)))"
  "98 \<notin> set (conversions (cstring (NL @ ''** DEFAULT vector 0x%02x code %d'' @ NL)))"
  "98 \<notin> set (conversions (cstring (NL @ ''** UNEXPECTED vector 0x%02x code %d'' @ NL)))"
  by (simp_all add: sprint_def cstring_def NL_def format_eqs del: sprint_loop.simps conversions.simps)

lemma report_shape:
  assumes "plain a" "plain b" "length a \<le> 11" "length b \<le> 11" "plain t" "length t \<le> 30"
  defines "buf \<equiv> (10 # t) @ a @ map of_char '' code '' @ b @ map of_char NL"
  shows "list_all text_char buf" "cost buf \<le> 220"
  using assms plain_text by (simp_all add: NL_def text_char_def char_cost_def)

lemma hex2_plain: "plain (replicate (2 - length (cvthex v)) 48 @ cvthex v)" "length (replicate (2 - length (cvthex v)) 48 @ cvthex v) \<le> 11"
  using cvt_plain(3,4) [of v] by (auto simp: plain_def list_all_iff)

lemma reports_print:
  "prints 220 (report (NL @ ''** vector %d code %d'' @ NL) [v, c])"
  "prints 220 (report (NL @ ''** DEFAULT vector 0x%02x code %d'' @ NL) [v, c])"
  "prints 220 (report (NL @ ''** UNEXPECTED vector 0x%02x code %d'' @ NL) [v, c])"
proof -
  note dec = cvt_plain(1,2) [of v] and c = cvt_plain(1,2) [of c] and hex = hex2_plain [of v]
  have head: "map of_char (NL @ t) = (10 # map of_char t :: u8 list)" for t by (simp add: NL_def)
  show "prints 220 (report (NL @ ''** vector %d code %d'' @ NL) [v, c])"
    by (rule prints_report [OF report_texts(4) report_texts(1)], unfold head)
      (rule report_shape [OF dec(1) c(1) dec(2) c(2)]; simp)+
  show "prints 220 (report (NL @ ''** DEFAULT vector 0x%02x code %d'' @ NL) [v, c])"
    by (rule prints_report [OF report_texts(5) report_texts(2)], unfold head)
      (rule report_shape [OF hex(1) c(1) hex(2) c(2)]; simp)+
  show "prints 220 (report (NL @ ''** UNEXPECTED vector 0x%02x code %d'' @ NL) [v, c])"
    by (rule prints_report [OF report_texts(6) report_texts(3)], unfold head)
      (rule report_shape [OF hex(1) c(1) hex(2) c(2)]; simp)+
qed

text \<open>C15. \<^verbatim>\<open>default_handler\<close> acknowledges exactly the vectors of the two interrupt controllers: for 0x20 to 0x2f it
  comes back and has sent an end of interrupt to the primary controller, and before that to the secondary one
  when the vector is the secondary's; for every other vector it reports twice and panics. This is so in every state with
  a valid screen and room for the reports in the serial buffer.\<close>

theorem default_handler_acknowledges:
  assumes "screen_ok (cio k)" "outlast (sio k) + 440 \<le> BUF_SIZE"
  shows "if vector \<in> {0x20..0x2f} then
      \<exists>ci d. default_handler vector code k = Inr (k\<lparr>cio := ci, sio := d, port_out := port_out k @
        (if 0x28 \<le> vector then [(PIC2_CMD, PIC_EOI)] else []) @ [(PIC1_CMD, PIC_EOI)]\<rparr>) \<and> screen_ok ci
    else \<exists>msg. default_handler vector code k = Inl (Kpanic msg)"
proof -
  obtain ci d where 1: "report (NL @ ''** vector %d code %d'' @ NL) [word_of_int vector, word_of_int code] k = Inr (k\<lparr>cio := ci, sio := d\<rparr>)"
    "screen_ok ci" "grew 220 (sio k) d"
    using printsE [OF reports_print(1) assms(1), of "word_of_int vector" "word_of_int code"] assms(2) by auto
  obtain ci' d' where 2: "report (NL @ ''** DEFAULT vector 0x%02x code %d'' @ NL) [word_of_int vector, word_of_int code]
      (k\<lparr>cio := ci, sio := d\<rparr>) = Inr (k\<lparr>cio := ci, sio := d, cio := ci', sio := d'\<rparr>)"
    using printsE [OF reports_print(2), of "k\<lparr>cio := ci, sio := d\<rparr>" "word_of_int vector" "word_of_int code"] 1(2,3) assms(2)
    unfolding grew_def by fastforce
  show ?thesis unfolding default_handler_def 1(1) bindR_simps 2 using 1(2) by (auto simp: port_write_def)
qed

theorem default_handler_acknowledges_witness:
  "(\<exists>ci d. default_handler 0x2c 0 sample_kernel =
     Inr (sample_kernel\<lparr>cio := ci, sio := d, port_out := port_out sample_kernel @ [(PIC2_CMD, PIC_EOI), (PIC1_CMD, PIC_EOI)]\<rparr>)) \<and>
   (\<exists>msg. default_handler 0x80 0 sample_kernel = Inl (Kpanic msg))"
proof -
  have "screen_ok (cio sample_kernel)" "outlast (sio sample_kernel) + 440 \<le> BUF_SIZE"
    using sample_cio_ok(1) sample_sio_simps by (simp_all add: sample_kernel_def)
  from default_handler_acknowledges [OF this, where vector = "0x2c" and code = 0]
    default_handler_acknowledges [OF this, where vector = "0x80" and code = 0]
  show ?thesis by auto
qed

text \<open>The other two handlers: one always panics, the other acknowledges the primary controller only.\<close>

lemma unexpected_handler_panics:
  assumes "screen_ok (cio k)" "outlast (sio k) + 220 \<le> BUF_SIZE"
  shows "unexpected_handler vector code k = Inl (Kpanic ''Unexpected interrupt'')"
  using printsE [OF reports_print(3) assms, of "word_of_int vector" "word_of_int code"]
  by (auto simp: unexpected_handler_def)

end
