(* ===== verification/Pci.thy ===== *)
theory Pci
  imports Prelude
begin

unbundle bit_operations_syntax

text \<open>
  Access to the PCI configuration space and the search for devices, \<^verbatim>\<open>pci.c\<close>. The configuration space
  itself is hardware: it is a parameter, a pair of functions that read and write the register at an address, on a
  state of any type. The state of the two ports is the address written last and that state. The lines that the
  routines print are not modelled.
\<close>

section \<open>The ports\<close>

record 'd pci =
  cf_addr :: u32
  cfg :: 'd

type_synonym 'd pci_bus = "('d \<Rightarrow> u32 \<Rightarrow> u32) \<times> (u32 \<Rightarrow> u32 \<Rightarrow> 'd \<Rightarrow> 'd)"

record pci_func =
  busno :: u32
  device :: u8
  function_no :: u8
  base_addr :: "u32 list"
  bar_size :: "u32 list"

abbreviation PCI_MAP_REG_START :: u32 where "PCI_MAP_REG_START \<equiv> 0x10"
abbreviation PCI_MAP_REG_END :: u32 where "PCI_MAP_REG_END \<equiv> 0x28"

definition conf_addr :: "u32 \<Rightarrow> u32 \<Rightarrow> u32 \<Rightarrow> u32 \<Rightarrow> u32" where
  "conf_addr bus dev func offset =
     push_bit 31 1 OR push_bit 16 bus OR push_bit 11 dev OR push_bit 8 func OR (offset AND 0xFC)"

definition conf_set_addr :: "u32 \<Rightarrow> u32 \<Rightarrow> u32 \<Rightarrow> u32 \<Rightarrow> 'd pci \<Rightarrow> 'd pci" where
  "conf_set_addr bus dev func offset s = s\<lparr>cf_addr := conf_addr bus dev func offset\<rparr>"

definition conf_read :: "'d pci_bus \<Rightarrow> pci_func \<Rightarrow> u32 \<Rightarrow> 'd pci \<Rightarrow> u32 \<times> 'd pci" where
  "conf_read bus pcif offset s =
     (let s' = conf_set_addr (busno pcif) (ucast (device pcif)) (ucast (function_no pcif)) offset s
      in (fst bus (cfg s') (cf_addr s'), s'))"

definition conf_write :: "'d pci_bus \<Rightarrow> pci_func \<Rightarrow> u32 \<Rightarrow> u32 \<Rightarrow> 'd pci \<Rightarrow> 'd pci" where
  "conf_write bus pcif offset v s =
     (let s' = conf_set_addr (busno pcif) (ucast (device pcif)) (ucast (function_no pcif)) offset s
      in s'\<lparr>cfg := snd bus (cf_addr s') v (cfg s')\<rparr>)"

definition pci_read_config :: "'d pci_bus \<Rightarrow> u8 \<Rightarrow> u8 \<Rightarrow> u8 \<Rightarrow> u8 \<Rightarrow> 'd pci \<Rightarrow> u32 \<times> 'd pci" where
  "pci_read_config bus busn dev func offset s =
     (let s' = conf_set_addr (ucast busn) (ucast dev) (ucast func) (ucast offset) s
      in (fst bus (cfg s') (cf_addr s'), s'))"

section \<open>Enabling a function\<close>

text \<open>The size in a register that has been written with ones: the lowest bit of the address part.\<close>

definition low_bit :: "u32 \<Rightarrow> u32" where
  "low_bit v = v AND - v"

lemma bar_steps: "bar < PCI_MAP_REG_END \<Longrightarrow> unat (PCI_MAP_REG_END + 8 - (bar + 4)) < unat (PCI_MAP_REG_END + 8 - bar)"
  "bar < PCI_MAP_REG_END \<Longrightarrow> unat (PCI_MAP_REG_END + 8 - (bar + 8)) < unat (PCI_MAP_REG_END + 8 - bar)" for bar :: u32
  by (simp_all add: word_less_nat_alt unat_sub_if' unat_word_ariths)

function probe_bars :: "'d pci_bus \<Rightarrow> u32 \<Rightarrow> pci_func \<Rightarrow> 'd pci \<Rightarrow> pci_func \<times> 'd pci" where
  "probe_bars bus bar pcif s =
     (if bar < PCI_MAP_REG_END then
        let (oldv, s1) = conf_read bus pcif bar s;
            s2 = conf_write bus pcif bar 0xFFFFFFFF s1;
            (newv, s3) = conf_read bus pcif bar s2;
            s4 = conf_write bus pcif bar oldv s3
        in if newv = 0 then probe_bars bus (bar + 4) pcif s4
           else
             let reg = unat ((bar - PCI_MAP_REG_START) div 4);
                 mem = (newv AND 1 = 0);
                 bar_width = (if mem \<and> newv AND 6 = 4 then 8 else 4);
                 size = (if mem then low_bit (newv AND 0xfffffff0) else low_bit (newv AND 0xfffffffc));
                 base = (if mem then oldv AND 0xfffffff0 else oldv AND 0xfffffffc)
             in probe_bars bus (bar + bar_width)
                  (pcif\<lparr>base_addr := (base_addr pcif)[reg := base], bar_size := (bar_size pcif)[reg := size]\<rparr>) s4
      else (pcif, s))"
  by pat_completeness auto

termination
  by (relation "measure (\<lambda>(bus, bar, pcif, s). unat (PCI_MAP_REG_END + 8 - bar))") (auto simp: bar_steps [simplified])

declare probe_bars.simps [simp del]

definition pci_func_enable :: "'d pci_bus \<Rightarrow> pci_func \<Rightarrow> 'd pci \<Rightarrow> pci_func \<times> 'd pci" where
  "pci_func_enable bus pcif s =
     (let (v, s1) = pci_read_config bus (ucast (busno pcif)) (device pcif) (function_no pcif) 4 s;
          cmd = (v AND 0xFFFF) OR 2 OR 4;
          s2 = conf_write bus pcif 4 cmd s1;
          (pcif', s3) = probe_bars bus PCI_MAP_REG_START pcif s2
      in (pcif', snd (pci_read_config bus (ucast (busno pcif')) (device pcif') (function_no pcif') 4 s3)))"

section \<open>Finding a device\<close>

text \<open>The nested loops of the search by vendor and device, as one pass over the triples in their order.\<close>

fun find_id_loop :: "'d pci_bus \<Rightarrow> u16 \<Rightarrow> u16 \<Rightarrow> (nat \<times> nat \<times> nat) list \<Rightarrow> pci_func \<Rightarrow> 'd pci \<Rightarrow> int \<times> pci_func \<times> 'd pci" where
  "find_id_loop bus vendor_id device_id [] pcif s = (- 1, pcif, s)"
| "find_id_loop bus vendor_id device_id ((b, d, f) # bdfs) pcif s =
     (let (v, s1) = pci_read_config bus (of_nat b) (of_nat d) (of_nat f) 0 s
      in if v AND 0xFFFF = ucast vendor_id \<and> drop_bit 16 v AND 0xFFFF = ucast device_id
         then let (pcif', s2) = pci_func_enable bus (pcif\<lparr>busno := of_nat b, device := of_nat d, function_no := of_nat f\<rparr>) s1
              in (0, pcif', s2)
         else find_id_loop bus vendor_id device_id bdfs pcif s1)"

definition pci_find_device_by_id :: "'d pci_bus \<Rightarrow> u16 \<Rightarrow> u16 \<Rightarrow> pci_func \<Rightarrow> 'd pci \<Rightarrow> int \<times> pci_func \<times> 'd pci" where
  "pci_find_device_by_id bus vendor_id device_id =
     find_id_loop bus vendor_id device_id (List.product [0..<256] (List.product [0..<32] [0..<8]))"

text \<open>The search by class counts the buses in a byte, so that its outer loop has no end: \<open>None\<close> when it does not
  return.\<close>

fun scan_bus :: "'d pci_bus \<Rightarrow> u8 \<Rightarrow> u8 \<Rightarrow> u8 \<Rightarrow> (nat \<times> nat) list \<Rightarrow> 'd pci \<Rightarrow> (nat \<times> nat) option \<times> 'd pci" where
  "scan_bus bus base_class sub_class b [] s = (None, s)"
| "scan_bus bus base_class sub_class b ((d, f) # dfs) s =
     (let (v, s1) = pci_read_config bus b (of_nat d) (of_nat f) 8 s;
          found_class = drop_bit 8 v
      in if ucast (drop_bit 16 found_class) = base_class \<and> ucast (drop_bit 8 found_class AND 0xFF) = sub_class
         then (Some (d, f), s1)
         else scan_bus bus base_class sub_class b dfs s1)"

partial_function (option) find_class_loop ::
    "'d pci_bus \<Rightarrow> u8 \<Rightarrow> u8 \<Rightarrow> u8 \<Rightarrow> pci_func \<Rightarrow> 'd pci \<Rightarrow> (int \<times> pci_func \<times> 'd pci) option" where
  "find_class_loop bus base_class sub_class b pcif s =
     (case scan_bus bus base_class sub_class b (List.product [0..<32] [0..<8]) s of
        (None, s1) \<Rightarrow> find_class_loop bus base_class sub_class (b + 1) pcif s1
      | (Some (d, f), s1) \<Rightarrow>
          let (pcif', s2) = pci_func_enable bus (pcif\<lparr>busno := ucast b, device := of_nat d, function_no := of_nat f\<rparr>) s1
          in Some (0, pcif', s2))"

definition pci_find_device_by_class :: "'d pci_bus \<Rightarrow> u8 \<Rightarrow> u8 \<Rightarrow> pci_func \<Rightarrow> 'd pci \<Rightarrow> (int \<times> pci_func \<times> 'd pci) option" where
  "pci_find_device_by_class bus base_class sub_class pcif s = find_class_loop bus base_class sub_class 0 pcif s"

section \<open>What the searches find\<close>

definition cfg_at :: "'d pci_bus \<Rightarrow> 'd pci \<Rightarrow> nat \<Rightarrow> nat \<Rightarrow> nat \<Rightarrow> u32 \<Rightarrow> u32" where
  "cfg_at bus s b d f offset = fst bus (cfg s) (conf_addr (ucast (of_nat b :: u8)) (ucast (of_nat d :: u8)) (ucast (of_nat f :: u8)) offset)"

definition has_id :: "'d pci_bus \<Rightarrow> 'd pci \<Rightarrow> u16 \<Rightarrow> u16 \<Rightarrow> nat \<times> nat \<times> nat \<Rightarrow> bool" where
  "has_id bus s vendor_id device_id = (\<lambda>(b, d, f). let v = cfg_at bus s b d f 0 in
     v AND 0xFFFF = ucast vendor_id \<and> drop_bit 16 v AND 0xFFFF = ucast device_id)"

definition has_class :: "'d pci_bus \<Rightarrow> 'd pci \<Rightarrow> u8 \<Rightarrow> u8 \<Rightarrow> nat \<times> nat \<times> nat \<Rightarrow> bool" where
  "has_class bus s base_class sub_class = (\<lambda>(b, d, f). let c = drop_bit 8 (cfg_at bus s b d f 8) in
     ucast (drop_bit 16 c) = base_class \<and> ucast (drop_bit 8 c AND 0xFF) = sub_class)"

text \<open>The places where a function can be, in the order of the search.\<close>

definition places :: "(nat \<times> nat \<times> nat) list" where
  "places = List.product [0..<256] (List.product [0..<32] [0..<8])"

lemma read_config: "pci_read_config bus (of_nat b) (of_nat d) (of_nat f) offset s
    = (cfg_at bus s b d f (ucast offset), s\<lparr>cf_addr := conf_addr (ucast (of_nat b :: u8)) (ucast (of_nat d :: u8)) (ucast (of_nat f :: u8)) (ucast offset)\<rparr>)"
  by (simp add: pci_read_config_def conf_set_addr_def cfg_at_def Let_def)

lemma cfg_at_latch [simp]: "cfg_at bus (s\<lparr>cf_addr := a\<rparr>) = cfg_at bus s"
  by (simp add: cfg_at_def fun_eq_iff)

lemma has_latch [simp]: "has_id bus (s\<lparr>cf_addr := a\<rparr>) = has_id bus s" "has_class bus (s\<lparr>cf_addr := a\<rparr>) = has_class bus s"
  by (simp_all add: has_id_def has_class_def fun_eq_iff)

lemma enable_latch [simp]: "pci_func_enable bus pcif (s\<lparr>cf_addr := a\<rparr>) = pci_func_enable bus pcif s"
  by (simp add: pci_func_enable_def pci_read_config_def conf_set_addr_def)

definition at_place :: "pci_func \<Rightarrow> nat \<times> nat \<times> nat \<Rightarrow> pci_func" where
  "at_place pcif = (\<lambda>(b, d, f). pcif\<lparr>busno := of_nat b, device := of_nat d, function_no := of_nat f\<rparr>)"

lemma find_id_loop_eq:
  "\<exists>a. find_id_loop bus vendor_id device_id ps pcif s = (case find (has_id bus s vendor_id device_id) ps of
     None \<Rightarrow> (- 1, pcif, s\<lparr>cf_addr := a\<rparr>) | Some p \<Rightarrow> (0, pci_func_enable bus (at_place pcif p) s))"
proof (induction ps arbitrary: s)
  case Nil
  show ?case by (rule exI [of _ "cf_addr s"]) simp
next
  case (Cons p ps)
  obtain b d f where p: "p = (b, d, f)" by (cases p) auto
  show ?case
  proof (cases "has_id bus s vendor_id device_id p")
    case True
    then show ?thesis
      by (auto simp: p read_config has_id_def at_place_def Let_def split: prod.splits)
  next
    case False
    then have "find_id_loop bus vendor_id device_id (p # ps) pcif s = find_id_loop bus vendor_id device_id ps pcif
        (s\<lparr>cf_addr := conf_addr (ucast (of_nat b :: u8)) (ucast (of_nat d :: u8)) (ucast (of_nat f :: u8)) 0\<rparr>)"
      by (auto simp: p read_config has_id_def Let_def)
    with Cons.IH [of "s\<lparr>cf_addr := conf_addr (ucast (of_nat b :: u8)) (ucast (of_nat d :: u8)) (ucast (of_nat f :: u8)) 0\<rparr>"]
    show ?thesis using False by (auto cong: option.case_cong)
  qed
qed

text \<open>C33. The search by vendor and device enables the first function, in the order of bus, device and function number,
  that has the two identifiers, and returns 0; without one it returns -1 and changes nothing but the address
  port.\<close>

theorem pci_find_device_by_id_first:
  "\<exists>a. pci_find_device_by_id bus vendor_id device_id pcif s = (case find (has_id bus s vendor_id device_id) places of
     None \<Rightarrow> (- 1, pcif, s\<lparr>cf_addr := a\<rparr>) | Some p \<Rightarrow> (0, pci_func_enable bus (at_place pcif p) s))"
  unfolding pci_find_device_by_id_def places_def by (rule find_id_loop_eq)

lemma find_product:
  "find P (List.product (x # xs) ys) = (case find (\<lambda>y. P (x, y)) ys of None \<Rightarrow> find P (List.product xs ys) | Some y \<Rightarrow> Some (x, y))"
proof -
  have "find P (map (Pair x) ys @ zs) = (case find (\<lambda>y. P (x, y)) ys of None \<Rightarrow> find P zs | Some y \<Rightarrow> Some (x, y))" for zs
    by (induction ys) auto
  then show ?thesis by simp
qed

lemma scan_bus_eq:
  "\<exists>a. scan_bus bus base_class sub_class (of_nat b) dfs s
    = (find (\<lambda>df. has_class bus s base_class sub_class (b, df)) dfs, s\<lparr>cf_addr := a\<rparr>)"
proof (induction dfs arbitrary: s)
  case Nil
  show ?case by (rule exI [of _ "cf_addr s"]) simp
next
  case (Cons p dfs)
  obtain d f where p: "p = (d, f)" by (cases p)
  show ?case
  proof (cases "has_class bus s base_class sub_class (b, p)")
    case True
    then show ?thesis by (auto simp: p read_config has_class_def Let_def)
  next
    case False
    then have "scan_bus bus base_class sub_class (of_nat b) (p # dfs) s = scan_bus bus base_class sub_class (of_nat b) dfs
        (s\<lparr>cf_addr := conf_addr (ucast (of_nat b :: u8)) (ucast (of_nat d :: u8)) (ucast (of_nat f :: u8)) 8\<rparr>)"
      by (auto simp: p read_config has_class_def Let_def)
    with Cons.IH [of "s\<lparr>cf_addr := conf_addr (ucast (of_nat b :: u8)) (ucast (of_nat d :: u8)) (ucast (of_nat f :: u8)) 8\<rparr>"]
    show ?thesis using False by (auto cong: option.case_cong)
  qed
qed

lemma find_class_from:
  assumes "n \<le> 256"
  shows "find (has_class bus s base_class sub_class) (List.product [n..<256] (List.product [0..<32] [0..<8])) = Some p \<Longrightarrow>
    find_class_loop bus base_class sub_class (of_nat n) pcif s = Some (0, pci_func_enable bus (at_place pcif p) s)"
  using assms
proof (induction n arbitrary: s rule: inc_induct)
  case base
  then show ?case by simp
next
  case (step n)
  let ?dfs = "List.product [0..<32] [0..<8]"
  have up: "[n..<256] = n # [Suc n..<256]" using step.hyps by (simp add: upt_rec)
  obtain a where scan: "scan_bus bus base_class sub_class (of_nat n) ?dfs s
      = (find (\<lambda>df. has_class bus s base_class sub_class (n, df)) ?dfs, s\<lparr>cf_addr := a\<rparr>)"
    using scan_bus_eq by blast
  have b: "(ucast (of_nat n :: u8) :: u32) = of_nat n" using step.hyps
    by (simp add: word_unat_eq_iff unsigned_ucast_eq unsigned_of_nat take_bit_nat_eq_self)
  show ?case
  proof (cases "find (\<lambda>df. has_class bus s base_class sub_class (n, df)) ?dfs")
    case None
    then have "find (has_class bus (s\<lparr>cf_addr := a\<rparr>) base_class sub_class) (List.product [Suc n..<256] ?dfs) = Some p"
      using step.prems(1) unfolding up find_product by simp
    from step.IH [OF this] show ?thesis
      by (subst find_class_loop.simps) (simp add: scan None add.commute)
  next
    case (Some df)
    obtain d f where df: "df = (d, f)" by (cases df)
    have "p = (n, d, f)" using step.prems(1) Some unfolding up find_product df by simp
    then show ?thesis using Some
      by (subst find_class_loop.simps) (auto simp: scan df b at_place_def split: prod.splits)
  qed
qed

lemma find_SomeD: "find P xs = Some x \<Longrightarrow> x \<in> set xs \<and> P x"
  by (induction xs) (auto split: if_splits)

lemma find_class_never:
  assumes "find_class_loop bus base_class sub_class b pcif s = Some r"
  shows "\<exists>p\<in>set places. has_class bus s base_class sub_class p"
proof (rule find_class_loop.raw_induct [where P = "\<lambda>bus base_class sub_class b pcif s r.
      \<exists>p\<in>set places. has_class bus s base_class sub_class p", OF _ assms])
  fix loop and bus :: "'a pci_bus" and base_class sub_class b :: u8 and pcif s r
  assume IH: "\<And>bus base_class sub_class b pcif (s :: 'a pci) r. loop bus base_class sub_class b pcif s = Some r \<Longrightarrow>
      \<exists>p\<in>set places. has_class bus s base_class sub_class p"
    and r: "(case scan_bus bus base_class sub_class b (List.product [0..<32] [0..<8]) s of
        (None, s1) \<Rightarrow> loop bus base_class sub_class (b + 1) pcif s1
      | (Some (d, f), s1) \<Rightarrow>
          let (pcif', s2) = pci_func_enable bus (pcif\<lparr>busno := ucast b, device := of_nat d, function_no := of_nat f\<rparr>) s1
          in Some (0, pcif', s2)) = Some r"
  let ?dfs = "List.product [0..<32] [0..<8]"
  have b: "of_nat (unat b) = b" "unat b < 256" using unsigned_less [of b, where ?'a = nat] by simp_all
  obtain a where scan: "scan_bus bus base_class sub_class b ?dfs s
      = (find (\<lambda>df. has_class bus s base_class sub_class (unat b, df)) ?dfs, s\<lparr>cf_addr := a\<rparr>)"
    using scan_bus_eq [of bus base_class sub_class "unat b" ?dfs s] b(1) by auto
  show "\<exists>p\<in>set places. has_class bus s base_class sub_class p"
  proof (cases "find (\<lambda>df. has_class bus s base_class sub_class (unat b, df)) ?dfs")
    case None
    then have "loop bus base_class sub_class (b + 1) pcif (s\<lparr>cf_addr := a\<rparr>) = Some r" using r scan by simp
    from IH [OF this] show ?thesis by simp
  next
    case (Some df)
    then have "df \<in> set ?dfs" "has_class bus s base_class sub_class (unat b, df)" by (auto dest: find_SomeD)
    then show ?thesis using b(2) by (intro bexI [of _ "(unat b, df)"]) (auto simp: places_def)
  qed
qed

text \<open>The search by class enables the first function of the class, in the order of the search, and returns 0. When
  no function has the class it does not return: its -1 is never reached.\<close>

theorem pci_find_device_by_class_first:
  "pci_find_device_by_class bus base_class sub_class pcif s = (case find (has_class bus s base_class sub_class) places of
     None \<Rightarrow> None | Some p \<Rightarrow> Some (0, pci_func_enable bus (at_place pcif p) s))"
proof (cases "find (has_class bus s base_class sub_class) places")
  case None
  then have "\<not> (\<exists>p\<in>set places. has_class bus s base_class sub_class p)" by (auto simp: find_None_iff)
  then have "pci_find_device_by_class bus base_class sub_class pcif s = None"
    using find_class_never unfolding pci_find_device_by_class_def by (metis option.exhaust)
  then show ?thesis using None by simp
next
  case (Some p)
  then show ?thesis
    using find_class_from [of 0 bus s base_class sub_class p pcif]
    by (simp add: pci_find_device_by_class_def places_def)
qed

section \<open>What enabling a function does\<close>

text \<open>A configuration space of registers: a write changes only the register at its address, there only the bits of \<open>w\<close>,
  and the other bits have fixed values.\<close>

definition config_space :: "'d pci_bus \<Rightarrow> (u32 \<Rightarrow> u32) \<Rightarrow> (u32 \<Rightarrow> u32) \<Rightarrow> bool" where
  "config_space bus w fixed \<longleftrightarrow>
     (\<forall>d a v a'. fst bus (snd bus a v d) a' = (if a' = a then (v AND w a) OR fixed a else fst bus d a')) \<and>
     (\<forall>d a. (fst bus d a AND w a) OR fixed a = fst bus d a)"

definition reg_of :: "pci_func \<Rightarrow> u32 \<Rightarrow> u32" where
  "reg_of pcif offset = conf_addr (busno pcif) (ucast (device pcif)) (ucast (function_no pcif)) offset"

text \<open>The entries that one register gives, from its value and what it reads after ones have been written.\<close>

definition bar_entry :: "u32 \<Rightarrow> u32 \<Rightarrow> nat \<Rightarrow> pci_func \<Rightarrow> pci_func" where
  "bar_entry newv oldv reg pcif =
     (if newv = 0 then pcif
      else let mask = (if newv AND 1 = 0 then 0xfffffff0 else 0xfffffffc)
           in pcif\<lparr>base_addr := (base_addr pcif)[reg := oldv AND mask], bar_size := (bar_size pcif)[reg := low_bit (newv AND mask)]\<rparr>)"

lemma bar_entry_place [simp]: "reg_of (bar_entry n old i pcif) = reg_of pcif"
  by (simp add: bar_entry_def reg_of_def fun_eq_iff Let_def)

lemma probe_bars_step:
  fixes pcif :: pci_func and s :: "'d pci"
  assumes "config_space bus w fixed" "bar < PCI_MAP_REG_END"
  defines "newv \<equiv> w (reg_of pcif bar) OR fixed (reg_of pcif bar)" and "oldv \<equiv> fst bus (cfg s) (reg_of pcif bar)"
  obtains s' where "probe_bars bus bar pcif s
      = probe_bars bus (bar + (if newv \<noteq> 0 \<and> newv AND 1 = 0 \<and> newv AND 6 = 4 then 8 else 4))
          (bar_entry newv oldv (unat ((bar - PCI_MAP_REG_START) div 4)) pcif) s'"
    "fst bus (cfg s') = fst bus (cfg s)"
proof -
  let ?A = "reg_of pcif bar"
  have rd: "conf_read bus pcif bar s = (fst bus (cfg s) ?A, s\<lparr>cf_addr := ?A\<rparr>)" for s
    by (simp add: conf_read_def conf_set_addr_def reg_of_def Let_def)
  have wr: "conf_write bus pcif bar v s = s\<lparr>cf_addr := ?A, cfg := snd bus ?A v (cfg s)\<rparr>" for v s
    by (simp add: conf_write_def conf_set_addr_def reg_of_def Let_def)
  note C = assms(1) [unfolded config_space_def]
  let ?s4 = "s\<lparr>cf_addr := ?A, cfg := snd bus ?A oldv (snd bus ?A 0xFFFFFFFF (cfg s))\<rparr>"
  have m1: "0xFFFFFFFF AND x = x" for x :: u32
  proof -
    have "(0xFFFFFFFF :: u32) = - 1" by (simp add: word_uint_eq_iff unsigned_minus_1_eq_mask mask_eq_exp_minus_1)
    then show ?thesis by (simp only: and.left_neutral)
  qed
  have new: "fst bus (snd bus ?A 0xFFFFFFFF (cfg s)) ?A = newv" using C by (simp add: newv_def m1)
  have old: "fst bus (cfg s) ?A = oldv" by (simp add: oldv_def)
  have "fst bus (cfg ?s4) a = fst bus (cfg s) a" for a using C by (simp add: oldv_def)
  then have view: "fst bus (cfg ?s4) = fst bus (cfg s)" by blast
  have "probe_bars bus bar pcif s = probe_bars bus (bar + (if newv \<noteq> 0 \<and> newv AND 1 = 0 \<and> newv AND 6 = 4 then 8 else 4))
          (bar_entry newv oldv (unat ((bar - PCI_MAP_REG_START) div 4)) pcif) ?s4"
    using assms(2) by (subst probe_bars.simps) (simp add: rd wr new old Let_def bar_entry_def)
  then show thesis using view by (rule that)
qed

lemma probe_bars_restores:
  assumes "config_space bus w fixed"
  shows "fst bus (cfg (snd (probe_bars bus bar pcif s))) = fst bus (cfg s)"
proof (induction "unat (PCI_MAP_REG_END + 8 - bar)" arbitrary: bar pcif s rule: less_induct)
  case less
  show ?case
  proof (cases "bar < PCI_MAP_REG_END")
    case True
    define k :: u32 where "k = (if w (reg_of pcif bar) OR fixed (reg_of pcif bar) \<noteq> 0 \<and> (w (reg_of pcif bar) OR fixed (reg_of pcif bar)) AND 1 = 0
      \<and> (w (reg_of pcif bar) OR fixed (reg_of pcif bar)) AND 6 = 4 then 8 else 4)"
    obtain s' where s': "probe_bars bus bar pcif s = probe_bars bus (bar + k)
        (bar_entry (w (reg_of pcif bar) OR fixed (reg_of pcif bar)) (fst bus (cfg s) (reg_of pcif bar))
          (unat ((bar - PCI_MAP_REG_START) div 4)) pcif) s'" "fst bus (cfg s') = fst bus (cfg s)"
      unfolding k_def by (rule probe_bars_step [OF assms True])
    have "unat (PCI_MAP_REG_END + 8 - (bar + k)) < unat (PCI_MAP_REG_END + 8 - bar)"
      using bar_steps [OF True] by (simp add: k_def)
    from less [OF this] show ?thesis unfolding s'(1) s'(2) [symmetric] .
  qed (subst probe_bars.simps, simp)
qed

lemma enable_eq:
  "pci_func_enable bus pcif s = (let (pcif', s') = probe_bars bus PCI_MAP_REG_START pcif
      (conf_write bus pcif 4 ((fst bus (cfg s) (conf_addr (ucast (ucast (busno pcif) :: u8)) (ucast (device pcif)) (ucast (function_no pcif)) 4)
         AND 0xFFFF) OR 2 OR 4) s)
    in (pcif', s'\<lparr>cf_addr := conf_addr (ucast (ucast (busno pcif') :: u8)) (ucast (device pcif')) (ucast (function_no pcif')) 4\<rparr>))"
  by (simp add: pci_func_enable_def pci_read_config_def conf_write_def conf_set_addr_def Let_def case_prod_unfold)

text \<open>C14. Enabling a function turns on memory access and bus mastering in its command register as far as the register
  has these bits, keeps the rest of the command, and leaves every other register of every function with the value it had:
  the base address registers are restored after their sizes have been read.\<close>

theorem pci_func_enable_restores:
  assumes "config_space bus w fixed" "unat (busno pcif) < 256" "a = reg_of pcif 4"
  shows "fst bus (cfg (snd (pci_func_enable bus pcif s))) = (fst bus (cfg s))
    (a := ((fst bus (cfg s) a AND 0xFFFF OR 6) AND w a) OR fixed a)"
proof -
  have "unat (ucast (ucast (busno pcif) :: u8) :: u32) = unat (busno pcif)"
    using assms(2) by (simp add: unsigned_ucast_eq unsigned_take_bit_eq take_bit_nat_eq_self)
  then have b: "(ucast (ucast (busno pcif) :: u8) :: u32) = busno pcif" by (simp add: word_unat_eq_iff)
  have 6: "x OR 2 OR 4 = x OR 6" for x :: u32 by (simp add: or.assoc)
  let ?s = "conf_write bus pcif 4 ((fst bus (cfg s) a AND 0xFFFF) OR 2 OR 4) s"
  have "fst bus (cfg (snd (pci_func_enable bus pcif s))) = fst bus (cfg (snd (probe_bars bus PCI_MAP_REG_START pcif ?s)))"
    unfolding enable_eq b assms(3) by (simp add: Let_def case_prod_unfold reg_of_def)
  also have "\<dots> = fst bus (cfg ?s)" by (rule probe_bars_restores [OF assms(1)])
  also have "\<dots> = (fst bus (cfg s)) (a := ((fst bus (cfg s) a AND 0xFFFF OR 6) AND w a) OR fixed a)"
    using assms(1) unfolding 6 by (auto simp: config_space_def conf_write_def conf_set_addr_def reg_of_def assms(3) Let_def)
  finally show ?thesis .
qed

text \<open>A device with a memory register of 4 KiB and an I/O register of 64 bytes: its registers hold what is written
  to their writable bits.\<close>

definition dev_writable :: "u32 \<Rightarrow> u32" where
  "dev_writable a = (if a = conf_addr 0 3 0 0x10 then 0xFFFFF000 else if a = conf_addr 0 3 0 0x14 then 0xFFFFFFC0
     else if a = conf_addr 0 3 0 4 then 7 else 0)"

definition dev_fixed :: "u32 \<Rightarrow> u32" where
  "dev_fixed a = (if a = conf_addr 0 3 0 0 then 0x12298086 else if a = conf_addr 0 3 0 0x14 then 1 else 0)"

definition dev_bus :: "(u32 \<Rightarrow> u32) pci_bus" where
  "dev_bus = (\<lambda>d a. (d a AND dev_writable a) OR dev_fixed a, \<lambda>a v d. d(a := v))"

lemma dev_bus_space: "config_space dev_bus dev_writable dev_fixed"
proof -
  have "((x AND w) OR f) AND w OR f = (x AND w) OR f" for x w f :: u32
    by (rule bit_word_eqI) (auto simp: bit_simps)
  then show ?thesis by (auto simp: config_space_def dev_bus_def)
qed

definition sample_func :: pci_func where
  "sample_func = \<lparr>busno = 0, device = 3, function_no = 0, base_addr = replicate 6 0, bar_size = replicate 6 0\<rparr>"

theorem pci_func_enable_restores_witness:
  "fst dev_bus (cfg (snd (pci_func_enable dev_bus sample_func \<lparr>cf_addr = 0, cfg = (\<lambda>_. 0xFEB00000)\<rparr>))) (conf_addr 0 3 0 4) = 6"
  by (subst pci_func_enable_restores [OF dev_bus_space _ refl])
    (simp_all add: sample_func_def reg_of_def dev_bus_def dev_writable_def dev_fixed_def conf_addr_def)

text \<open>Which entries the caller gets: for a function whose registers are all of the 32-bit kind, entry \<open>i\<close> is the
  address part of the register and the lowest bit that can be set in it; an unimplemented register leaves the entry as it
  was.\<close>

lemma probe_bars_entries:
  assumes "config_space bus w fixed" "n \<le> 6"
    and "\<And>i. i < 6 \<Longrightarrow> \<not> ((w (reg_of pcif (0x10 + 4 * of_nat i)) OR fixed (reg_of pcif (0x10 + 4 * of_nat i))) AND 1 = 0
        \<and> (w (reg_of pcif (0x10 + 4 * of_nat i)) OR fixed (reg_of pcif (0x10 + 4 * of_nat i))) AND 6 = 4)"
  shows "fst (probe_bars bus (0x10 + 4 * of_nat n) pcif s) = fold (\<lambda>i. bar_entry
     (w (reg_of pcif (0x10 + 4 * of_nat i)) OR fixed (reg_of pcif (0x10 + 4 * of_nat i)))
     (fst bus (cfg s) (reg_of pcif (0x10 + 4 * of_nat i))) i) [n..<6] pcif"
  using assms(2,3)
proof (induction n arbitrary: pcif s rule: inc_induct)
  case base
  show ?case by (subst probe_bars.simps) simp
next
  case (step n)
  let ?bar = "0x10 + 4 * of_nat n :: u32"
  have n: "n \<in> {0, 1, 2, 3, 4, 5}" using step.hyps by auto
  then have bar: "?bar < PCI_MAP_REG_END" "unat ((?bar - PCI_MAP_REG_START) div 4) = n" "?bar + 4 = 0x10 + 4 * of_nat (Suc n)"
    by (auto simp: word_less_nat_alt)
  let ?new = "\<lambda>i. w (reg_of pcif (0x10 + 4 * of_nat i)) OR fixed (reg_of pcif (0x10 + 4 * of_nat i))"
  have no64: "\<not> (?new n \<noteq> 0 \<and> ?new n AND 1 = 0 \<and> ?new n AND 6 = 4)" using step.prems [of n] step.hyps by simp
  obtain s' where s': "probe_bars bus ?bar pcif s = probe_bars bus (?bar + 4)
      (bar_entry (?new n) (fst bus (cfg s) (reg_of pcif ?bar)) n pcif) s'" "fst bus (cfg s') = fst bus (cfg s)"
    using probe_bars_step [OF assms(1) bar(1), of pcif s] unfolding if_not_P [OF no64] bar(2) by blast
  have up: "[n..<6] = n # [Suc n..<6]" using step.hyps by (simp add: upt_rec)
  show ?case unfolding s'(1) bar(3) up
    by (subst step.IH) (use step.prems s'(2) in \<open>simp_all add: s'(2)\<close>)
qed

end
