(* ===== verification/Nic_Init.thy ===== *)
theory Nic_Init
  imports Net Pci
begin

unbundle bit_operations_syntax

text \<open>
  Bringing up the Ethernet device: the probing and initialization of \<^verbatim>\<open>intel8255x.c\<close> and \<^verbatim>\<open>net_init\<close>.
  What the device's registers return is a list of the values read one after the other; a wait that uses up the
  list is still waiting, which is \<open>None\<close> and the failure \<open>Hang\<close>. The diagnostic lines that
  \<^verbatim>\<open>cio_printf\<close> prints are not modelled.
\<close>

section \<open>Registers\<close>

type_synonym nic_io = "u32 list \<times> nic_state"

definition read_reg :: "nic_io \<Rightarrow> (u32 \<times> nic_io) option" where
  "read_reg io = (case io of ([], n) \<Rightarrow> None | (v # rs, n) \<Rightarrow> Some (v, (rs, n)))"

definition set_reg :: "i8255x \<Rightarrow> u32 \<Rightarrow> u32 \<Rightarrow> nic_io \<Rightarrow> nic_io" where
  "set_reg dev off v = (\<lambda>(rs, n). (rs, write_reg dev off v n))"

text \<open>The first register that is not zero and not marked as an I/O register.\<close>

fun get_mmio_addr :: "u32 list \<Rightarrow> u32" where
  "get_mmio_addr [] = 0"
| "get_mmio_addr (bar # bars) = (if bar = 0 \<or> bar AND 1 \<noteq> 0 then get_mmio_addr bars else bar AND 0xFFFFFFF0)"

section \<open>The hardware address\<close>

text \<open>The loop that waits for the EEPROM: the last value read and what is left of the timeout.\<close>

fun eeprom_wait :: "nat \<Rightarrow> u32 list \<Rightarrow> (u32 \<times> nat \<times> u32 list) option" where
  "eeprom_wait timeout [] = None"
| "eeprom_wait timeout (data # rs) =
     (if data AND 16 \<noteq> 0 then Some (data, timeout, rs)
      else if timeout - 1 = 0 then Some (data, 0, rs)
      else eeprom_wait (timeout - 1) rs)"

definition i8255x_read_eeprom :: "i8255x \<Rightarrow> u8 \<Rightarrow> nic_io \<Rightarrow> (u16 \<times> nic_io) option" where
  "i8255x_read_eeprom dev addr io =
     Option.bind (read_reg io) (\<lambda>(status, io).
       if status AND 256 = 0 then Some (0xFFFF, io)
       else Option.bind (read_reg io) (\<lambda>(before, io).
         let (rs, n) = set_reg dev 0x14 (push_bit 8 (ucast addr) OR 1) io
         in Option.bind (eeprom_wait 1000000 rs) (\<lambda>(data, timeout, rs).
              if timeout = 0 then Some (0xFFFF, (rs, n)) else Some (ucast (drop_bit 16 data), (rs, n)))))"

definition word_bytes :: "u16 \<Rightarrow> u8 list" where
  "word_bytes w = [ucast (w AND 0xFF), ucast (drop_bit 8 w AND 0xFF)]"

definition get_mac_addr :: "i8255x \<Rightarrow> nic_io \<Rightarrow> (u8 list \<times> nic_io) option" where
  "get_mac_addr dev io =
     Option.bind (read_reg io) (\<lambda>(status, io).
     Option.bind
       (if status AND 256 \<noteq> 0 then
          Option.bind (i8255x_read_eeprom dev 0 io) (\<lambda>(w0, io).
          Option.bind (i8255x_read_eeprom dev 1 io) (\<lambda>(w1, io).
          Option.bind (i8255x_read_eeprom dev 2 io) (\<lambda>(w2, io).
            Some (word_bytes w0 @ word_bytes w1 @ word_bytes w2, io))))
        else
          Option.bind (read_reg io) (\<lambda>(lo, io).
          Option.bind (read_reg io) (\<lambda>(hi, io).
            Some ([ucast (lo AND 0xFF), ucast (drop_bit 8 lo AND 0xFF), ucast (drop_bit 16 lo AND 0xFF),
                   ucast (drop_bit 24 lo AND 0xFF), ucast (hi AND 0xFF), ucast (drop_bit 8 hi AND 0xFF)], io))))
       (\<lambda>(mac, io).
         let all_zero = list_all (\<lambda>b. b = 0) mac; all_ff = list_all (\<lambda>b. b = 0xFF) mac
         in Some (if all_zero \<or> all_ff then [0, 0x11, 0x22, 0x33, 0x44, 0x55] else mac, io)))"

section \<open>Initialization\<close>

fun reset_wait :: "u32 list \<Rightarrow> u32 list option" where
  "reset_wait [] = None"
| "reset_wait (v # rs) = (if v AND 0x400000 \<noteq> 0 then reset_wait rs else Some rs)"

definition rar_low :: "u8 list \<Rightarrow> u32" where
  "rar_low mac = ucast (mac ! 0) OR push_bit 8 (ucast (mac ! 1)) OR push_bit 16 (ucast (mac ! 2)) OR push_bit 24 (ucast (mac ! 3))"

definition rar_high :: "u8 list \<Rightarrow> u32" where
  "rar_high mac = ucast (mac ! 4) OR push_bit 8 (ucast (mac ! 5)) OR push_bit 31 1"

definition puts_line :: "string \<Rightarrow> kernel \<Rightarrow> kernel res" where
  "puts_line s = on_con (cio_puts (map of_char (s @ [CHR 0x0A])))"

text \<open>The device structure in a slice that has been cleared.\<close>

definition new_dev :: "addr \<Rightarrow> u32 \<Rightarrow> i8255x" where
  "new_dev a base =
     \<lparr>dev_addr = a, mmio_base = base,
      rx_ring = (\<lambda>_. \<lparr>rd_addr = 0, rd_length = 0, rd_csum = 0, rd_status = 0, rd_errors = 0, rd_special = 0\<rparr>),
      tx_ring = (\<lambda>_. \<lparr>td_addr = 0, td_length = 0, td_cso = 0, td_cmd = 0, td_status = 0, td_css = 0, td_special = 0\<rparr>)\<rparr>"

text \<open>From the reset of the device to the clearing of the multicast table.\<close>

definition i8255x_program :: "i8255x \<Rightarrow> u32 list \<Rightarrow> nic_state \<Rightarrow> nic_io option" where
  "i8255x_program dev reads n =
     Option.bind (reset_wait reads) (\<lambda>reads1.
     Option.bind (get_mac_addr dev (reads1, write_reg dev 0 0x400000 n)) (\<lambda>(mac, io).
     Option.bind (read_reg (set_reg dev 0x5404 (rar_high mac) (set_reg dev 0x5400 (rar_low mac) io))) (\<lambda>(verify_low, io).
     Option.bind (read_reg io) (\<lambda>(verify_high, (reads2, n2)).
       Some (reads2, fold (\<lambda>i. write_reg dev (0x5200 + push_bit 2 (of_nat i)) 0) [0..<128]
                       (n2\<lparr>net_src_mac := (\<lambda>i. if i < 6 then mac ! i else net_src_mac n2 i)\<rparr>))))))"

definition i8255x_init :: "'d pci_bus \<Rightarrow> 'd pci \<Rightarrow> u32 list \<Rightarrow> kernel \<Rightarrow> (int \<times> 'd pci \<times> u32 list \<times> kernel) res" where
  "i8255x_init bus s reads k =
     bindR (km_slice_alloc (km (kst k))) (\<lambda>(pcif_at, ms).
       let k1 = set_km ms k;
           pcif0 = \<lparr>busno = 0, device = 0, function_no = 0, base_addr = replicate 6 0, bar_size = replicate 6 0\<rparr>;
           (r1, pcif1, s1) = pci_find_device_by_id bus 0x8086 0x1227 pcif0 s;
           (r, pcif, s2) = (if r1 \<noteq> 0 then pci_find_device_by_id bus 0x8086 0x1229 pcif1 s1 else (r1, pcif1, s1))
       in if r \<noteq> 0 then bindR (puts_line ''No Intel 8255x NIC found'' k1) (\<lambda>k2. Inr (- 1, s2, reads, k2))
          else
            bindR (km_slice_alloc (km (kst k1))) (\<lambda>(dev_at, ms).
              let k2 = set_km ms k1; dev = new_dev dev_at (get_mmio_addr (base_addr pcif))
              in if mmio_base dev = 0
                 then bindR (puts_line ''Failed to get MMIO base'' k2) (\<lambda>k3. Inr (- 1, s2, reads, k3))
                 else
                   (case i8255x_program dev reads (nic k2) of
                      None \<Rightarrow> Inl Hang
                    | Some (reads', n) \<Rightarrow>
                        bindR (i8255x_setup_rings (on_nic (\<lambda>_. n\<lparr>global_dev := Some dev\<rparr>) k2)) (\<lambda>k3.
                        bindR (puts_line ''8255x setup complete'' k3) (\<lambda>k4. Inr (0, s2, reads', k4))))))"

text \<open>\<^verbatim>\<open>net_init\<close>; \<open>test_str\<close> is the address of the string constant that it sends, and \<open>l\<close> are the locals of
  the call of \<^verbatim>\<open>net_transmit\<close>, which reads the tail register.\<close>

definition net_init :: "'d pci_bus \<Rightarrow> 'd pci \<Rightarrow> u32 list \<Rightarrow> addr \<Rightarrow> net_locals \<Rightarrow> kernel \<Rightarrow> (int \<times> 'd pci \<times> u32 list \<times> kernel) res" where
  "net_init bus s reads test_str l k =
     bindR (i8255x_init bus s reads k) (\<lambda>(r, s', reads', k1).
       if r \<noteq> 0 then bindR (puts_line ''Failed to initialize i8255x'' k1) (\<lambda>k2. Inr (- 1, s', reads', k2))
       else
         bindR (puts_line ''i8255x initialized successfully'' k1) (\<lambda>k2.
           case reads' of
             [] \<Rightarrow> Inl Hang
           | tail # rs \<Rightarrow> bindR (net_transmit l tail test_str 10 k2) (\<lambda>(_, k3). Inr (- 1, s', rs, k3))))"

section \<open>What the address is\<close>

lemma get_mac_addr_cases:
  assumes "get_mac_addr dev io = Some (mac, io')"
  shows "length mac = 6" "\<not> list_all (\<lambda>b. b = 0) mac" "\<not> list_all (\<lambda>b. b = 0xFF) mac"
  using assms
  by (auto simp: get_mac_addr_def word_bytes_def Let_def bind_eq_Some_conv split: if_splits)

lemma rar_bytes:
  fixes mac :: "u8 list"
  shows "ucast (rar_low mac) = mac ! 0" "ucast (drop_bit 8 (rar_low mac)) = mac ! 1" "ucast (drop_bit 16 (rar_low mac)) = mac ! 2"
    "ucast (drop_bit 24 (rar_low mac)) = mac ! 3" "ucast (rar_high mac) = mac ! 4" "ucast (drop_bit 8 (rar_high mac)) = mac ! 5"
    "bit (rar_high mac) 31"
proof -
  have low: "bit (rar_low mac) n \<longleftrightarrow> n < 8 \<and> bit (mac ! 0) n \<or> 8 \<le> n \<and> n < 16 \<and> bit (mac ! 1) (n - 8)
      \<or> 16 \<le> n \<and> n < 24 \<and> bit (mac ! 2) (n - 16) \<or> 24 \<le> n \<and> n < 32 \<and> bit (mac ! 3) (n - 24)" for n
    unfolding rar_low_def bit_or_iff bit_push_bit_iff bit_unsigned_iff by (auto dest: bit_imp_le_length)
  have b31: "bit (push_bit 31 1 :: u32) n \<longleftrightarrow> n = 31" for n unfolding bit_push_bit_iff bit_1_iff by auto
  have high: "bit (rar_high mac) n \<longleftrightarrow> n < 8 \<and> bit (mac ! 4) n \<or> 8 \<le> n \<and> n < 16 \<and> bit (mac ! 5) (n - 8) \<or> n = 31" for n
    unfolding rar_high_def bit_or_iff b31 unfolding bit_push_bit_iff bit_unsigned_iff by (auto dest: bit_imp_le_length)
  show "ucast (rar_low mac) = mac ! 0" "ucast (drop_bit 8 (rar_low mac)) = mac ! 1" "ucast (drop_bit 16 (rar_low mac)) = mac ! 2"
    "ucast (drop_bit 24 (rar_low mac)) = mac ! 3" "ucast (rar_high mac) = mac ! 4" "ucast (drop_bit 8 (rar_high mac)) = mac ! 5"
    by (rule bit_word_eqI, simp add: bit_unsigned_iff bit_drop_bit_eq low high)+
  show "bit (rar_high mac) 31" by (simp add: high)
qed

text \<open>What is written to the registers on the way.\<close>

lemma read_reg_out: "read_reg io = Some (v, io') \<Longrightarrow> snd io' = snd io"
  by (auto simp: read_reg_def split: prod.splits list.splits)

lemma set_reg_out: "mmio_out (snd (set_reg dev off v io)) = mmio_out (snd io) @ [(mmio_base dev + off, v)]"
  "net_src_mac (snd (set_reg dev off v io)) = net_src_mac (snd io)"
  by (simp_all add: set_reg_def write_reg_def case_prod_unfold)

lemma read_eeprom_out:
  assumes "i8255x_read_eeprom dev a io = Some (w, io')"
  shows "\<exists>xs. mmio_out (snd io') = mmio_out (snd io) @ xs"
proof -
  obtain status io1 where r1: "read_reg io = Some (status, io1)" using assms by (auto simp: i8255x_read_eeprom_def bind_eq_Some_conv)
  show ?thesis
  proof (cases "status AND 256 = 0")
    case True
    then show ?thesis using assms r1 read_reg_out [OF r1] by (auto simp: i8255x_read_eeprom_def)
  next
    case False
    then obtain before io2 where r2: "read_reg io1 = Some (before, io2)" using assms r1 by (auto simp: i8255x_read_eeprom_def bind_eq_Some_conv)
    have "snd io' = snd (set_reg dev 0x14 (push_bit 8 (ucast a) OR 1) io2)"
      using assms r1 r2 False by (auto simp: i8255x_read_eeprom_def bind_eq_Some_conv set_reg_def split: if_splits prod.splits)
    then show ?thesis using read_reg_out [OF r1] read_reg_out [OF r2] set_reg_out(1) by metis
  qed
qed

lemma get_mac_addr_out:
  assumes "get_mac_addr dev io = Some (mac, io')"
  shows "\<exists>xs. mmio_out (snd io') = mmio_out (snd io) @ xs"
proof -
  obtain status io1 where r1: "read_reg io = Some (status, io1)" using assms by (auto simp: get_mac_addr_def bind_eq_Some_conv)
  show ?thesis
  proof (cases "status AND 256 = 0")
    case True
    then obtain lo hi io2 where "read_reg io1 = Some (lo, io2)" "read_reg io2 = Some (hi, io')"
      using assms r1 by (auto simp: get_mac_addr_def bind_eq_Some_conv Let_def split: if_splits)
    then show ?thesis using read_reg_out r1 by (metis append_Nil2)
  next
    case False
    then obtain w0 w1 w2 io2 io3 where "i8255x_read_eeprom dev 0 io1 = Some (w0, io2)" "i8255x_read_eeprom dev 1 io2 = Some (w1, io3)"
      "i8255x_read_eeprom dev 2 io3 = Some (w2, io')"
      using assms r1 by (auto simp: get_mac_addr_def bind_eq_Some_conv Let_def split: if_splits)
    then show ?thesis using read_eeprom_out read_reg_out [OF r1] by (metis append.assoc)
  qed
qed

lemma fold_write_reg: "mmio_out (fold (\<lambda>i. write_reg dev (f i) v) is n) = mmio_out n @ map (\<lambda>i. (mmio_base dev + f i, v)) is"
  "net_src_mac (fold (\<lambda>i. write_reg dev (f i) v) is n) = net_src_mac n"
  by (induction "is" arbitrary: n) (simp_all add: write_reg_def)

text \<open>When the device has been programmed, the driver and the device have the same address of six bytes, neither
  all zeros nor all ones: the receive address registers hold its bytes in order and are marked valid, and after them
  the 128 entries of the multicast table are cleared.\<close>

theorem i8255x_program_sets_address:
  assumes "i8255x_program dev reads n = Some (reads', n')"
  shows "\<exists>lo hi before. mmio_out n' = mmio_out n @ before @ [(mmio_base dev + 0x5400, lo), (mmio_base dev + 0x5404, hi)]
       @ map (\<lambda>i. (mmio_base dev + (0x5200 + push_bit 2 (of_nat i)), 0)) [0..<128]
     \<and> map (net_src_mac n') [0..<6] = [ucast lo, ucast (drop_bit 8 lo), ucast (drop_bit 16 lo), ucast (drop_bit 24 lo),
         ucast hi, ucast (drop_bit 8 hi)]
     \<and> bit hi 31 \<and> \<not> list_all (\<lambda>b. b = 0) (map (net_src_mac n') [0..<6]) \<and> \<not> list_all (\<lambda>b. b = 0xFF) (map (net_src_mac n') [0..<6])"
proof -
  obtain reads1 mac io v1 io1 v2 n2 where P: "reset_wait reads = Some reads1"
    "get_mac_addr dev (reads1, write_reg dev 0 0x400000 n) = Some (mac, io)"
    "read_reg (set_reg dev 0x5404 (rar_high mac) (set_reg dev 0x5400 (rar_low mac) io)) = Some (v1, io1)"
    "read_reg io1 = Some (v2, (reads', n2))"
    "n' = fold (\<lambda>i. write_reg dev (0x5200 + push_bit 2 (of_nat i)) 0) [0..<128]
       (n2\<lparr>net_src_mac := (\<lambda>i. if i < 6 then mac ! i else net_src_mac n2 i)\<rparr>)"
    using assms by (fastforce simp: i8255x_program_def bind_eq_Some_conv)
  obtain xs where xs: "mmio_out (snd io) = mmio_out (write_reg dev 0 0x400000 n) @ xs" using get_mac_addr_out [OF P(2)] by auto
  have n2: "mmio_out n2 = mmio_out (snd io) @ [(mmio_base dev + 0x5400, rar_low mac), (mmio_base dev + 0x5404, rar_high mac)]"
    using read_reg_out [OF P(3)] read_reg_out [OF P(4)] by (simp add: set_reg_out)
  have m: "map (net_src_mac n') [0..<6] = mac"
  proof -
    have "map (net_src_mac n') [0..<6] = map ((!) mac) [0..<6]" unfolding P(5) fold_write_reg(2) by simp
    then show ?thesis using get_mac_addr_cases(1) [OF P(2)] by (metis map_nth)
  qed
  have six: "mac = [mac ! 0, mac ! 1, mac ! 2, mac ! 3, mac ! 4, mac ! 5]"
    using get_mac_addr_cases(1) [OF P(2)] by (simp add: list_eq_iff_nth_eq nth_Cons' numeral_eq_Suc less_Suc_eq)
  have out: "mmio_out n' = mmio_out n @ ((mmio_base dev + 0, 0x400000) # xs) @ [(mmio_base dev + 0x5400, rar_low mac),
      (mmio_base dev + 0x5404, rar_high mac)] @ map (\<lambda>i. (mmio_base dev + (0x5200 + push_bit 2 (of_nat i)), 0)) [0..<128]"
    unfolding P(5) fold_write_reg(1) using n2 xs by (simp add: write_reg_def)
  have bytes: "map (net_src_mac n') [0..<6] = [ucast (rar_low mac), ucast (drop_bit 8 (rar_low mac)), ucast (drop_bit 16 (rar_low mac)),
      ucast (drop_bit 24 (rar_low mac)), ucast (rar_high mac), ucast (drop_bit 8 (rar_high mac))]"
    unfolding m rar_bytes by (rule six)
  show ?thesis using out bytes rar_bytes(7) [of mac] get_mac_addr_cases(2,3) [OF P(2)] unfolding m by blast
qed

definition sample_nic :: nic_state where
  "sample_nic = \<lparr>global_dev = None, rx_next = 0, net_src_mac = (\<lambda>_. 0), mmio_out = []\<rparr>"

theorem i8255x_program_sets_address_witness:
  "\<exists>n'. i8255x_program (new_dev 0x1000 0xFEB00000) [0, 0, 0x12005452, 0x5634, 0, 0] sample_nic = Some ([], n')
     \<and> \<not> list_all (\<lambda>b. b = 0) (map (net_src_mac n') [0..<6])"
proof -
  obtain n' where n': "i8255x_program (new_dev 0x1000 0xFEB00000) [0, 0, 0x12005452, 0x5634, 0, 0] sample_nic = Some ([], n')"
    by (simp add: i8255x_program_def get_mac_addr_def read_reg_def set_reg_def)
  from i8255x_program_sets_address [OF this] show ?thesis using n' by blast
qed

section \<open>Which register is the base\<close>

text \<open>Probing masks the type bits out of every entry, so that no entry looks like an I/O register to
  \<^verbatim>\<open>get_mmio_addr\<close>: it takes the first entry that is not zero, of either kind.\<close>

lemma probe_bars_no_io:
  assumes "list_all (\<lambda>b. b AND 1 = 0) (base_addr pcif)"
  shows "list_all (\<lambda>b. b AND 1 = 0) (base_addr (fst (probe_bars bus bar pcif s)))"
  using assms
proof (induction bus bar pcif s rule: probe_bars.induct)
  case (1 bus bar pcif s)
  have m: "(v AND 0xfffffff0) AND 1 = 0" "(v AND 0xfffffffc) AND 1 = 0" for v :: u32 by (simp_all add: and.assoc)
  have upd: "list_all P xs \<Longrightarrow> P x \<Longrightarrow> list_all P (xs[i := x])" for P xs i and x :: u32
    by (auto simp: list_all_iff dest!: subsetD [OF set_update_subset_insert])
  show ?case
  proof (cases "bar < PCI_MAP_REG_END")
    case True
    obtain oldv s1 where r1: "conf_read bus pcif bar s = (oldv, s1)" by fastforce
    obtain newv s3 where r3: "conf_read bus pcif bar (conf_write bus pcif bar 0xFFFFFFFF s1) = (newv, s3)" by fastforce
    show ?thesis
      using "1.IH" [OF True r1 [symmetric] refl refl r3 [symmetric] refl refl] "1.prems" upd m True
      by (subst probe_bars.simps) (simp add: r1 r3 Let_def)
  qed (use "1.prems" in \<open>subst probe_bars.simps, simp\<close>)
qed

lemma get_mmio_addr_first:
  assumes "list_all (\<lambda>b. b AND 1 = 0) bars"
  shows "get_mmio_addr bars = (case find (\<lambda>b. b \<noteq> 0) bars of None \<Rightarrow> 0 | Some b \<Rightarrow> b AND 0xFFFFFFF0)"
  using assms by (induction bars) simp_all

section \<open>How net_init ends\<close>

text \<open>The code returns -1 on every way.\<close>

lemma net_init_fails:
  assumes "net_init bus s reads test_str l k = Inr (r, s', reads', k')"
  shows "r = - 1"
  using assms by (auto simp: net_init_def bindR_eq_Inr neq_Nil_conv split: if_splits list.splits)

lemma puts_line_kst: "puts_line str k = Inr k' \<Longrightarrow> kst k' = kst k"
  by (auto simp: puts_line_def on_con_def bindR_eq_Inr)

text \<open>Without a device the slice of the search is lost: the memory is that after its allocation.\<close>

lemma i8255x_init_no_device:
  assumes "find (has_id bus s 0x8086 0x1227) places = None" "find (has_id bus s 0x8086 0x1229) places = None"
    and "km_slice_alloc (km (kst k)) = Inr (a, ms)" "i8255x_init bus s reads k = Inr (r, s', reads', k')"
  shows "r = - 1" "km (kst k') = ms" "reads' = reads"
proof -
  let ?p = "\<lparr>busno = 0, device = 0, function_no = 0, base_addr = replicate 6 0, bar_size = replicate 6 0\<rparr>"
  obtain a1 where f1: "pci_find_device_by_id bus 0x8086 0x1227 ?p s = (- 1, ?p, s\<lparr>cf_addr := a1\<rparr>)"
    using find_id_loop_eq [of bus "0x8086" "0x1227" places ?p s] assms(1) by (auto simp: pci_find_device_by_id_def places_def)
  obtain a2 where f2: "pci_find_device_by_id bus 0x8086 0x1229 ?p (s\<lparr>cf_addr := a1\<rparr>) = (- 1, ?p, s\<lparr>cf_addr := a1, cf_addr := a2\<rparr>)"
    using find_id_loop_eq [of bus "0x8086" "0x1229" places ?p "s\<lparr>cf_addr := a1\<rparr>"] assms(2)
    by (auto simp: pci_find_device_by_id_def places_def)
  obtain k2 where "puts_line ''No Intel 8255x NIC found'' (set_km ms k) = Inr k2" "r = - 1" "k' = k2" "reads' = reads"
    using assms(4) unfolding i8255x_init_def assms(3) bindR_simps prod.case Let_def f1
    by (auto simp: f2 bindR_eq_Inr)
  then show "r = - 1" "km (kst k') = ms" "reads' = reads" using puts_line_kst by fastforce+
qed

end
