(* ===== verification/Hda.thy ===== *)
theory Hda
  imports Pci
begin

unbundle bit_operations_syntax

text \<open>
  The audio driver, \<^verbatim>\<open>hda.c\<close>: commands to the codecs through the immediate command registers, the walk over
  the codecs that prints what it finds, and the initialization. The controller is hardware and a parameter: a pair of
  functions that read and write a register of a width in bytes at an address, on a state of any type; a read may change
  that state, because time passes. A wait for the device that never ends is \<open>None\<close>. What is printed is recorded as the
  list of the calls of \<^verbatim>\<open>cio_printf\<close>, the latest last.
\<close>

section \<open>Registers\<close>

type_synonym 'd mmio = "(nat \<Rightarrow> addr \<Rightarrow> 'd \<Rightarrow> u32 \<times> 'd) \<times> (nat \<Rightarrow> addr \<Rightarrow> u32 \<Rightarrow> 'd \<Rightarrow> 'd)"

datatype parg = Num u32 | Str string

type_synonym line = "string \<times> parg list"

abbreviation HDA_GCAP :: addr where "HDA_GCAP \<equiv> 0x00"
abbreviation HDA_VMIN :: addr where "HDA_VMIN \<equiv> 0x02"
abbreviation HDA_VMAJ :: addr where "HDA_VMAJ \<equiv> 0x03"
abbreviation HDA_GCTL :: addr where "HDA_GCTL \<equiv> 0x08"
abbreviation HDA_STATESTS :: addr where "HDA_STATESTS \<equiv> 0x0E"
abbreviation HDA_ICOI :: addr where "HDA_ICOI \<equiv> 0x60"
abbreviation HDA_ICII :: addr where "HDA_ICII \<equiv> 0x64"
abbreviation HDA_ICIS :: addr where "HDA_ICIS \<equiv> 0x68"

abbreviation HDA_VERB_PARAM_GET :: u16 where "HDA_VERB_PARAM_GET \<equiv> 0xF00"
abbreviation HDA_VERB_AMP_GET :: u16 where "HDA_VERB_AMP_GET \<equiv> 0xB"
abbreviation HDA_VERB_AMP_SET :: u16 where "HDA_VERB_AMP_SET \<equiv> 0x3"
abbreviation HDA_PARAM_VID :: u8 where "HDA_PARAM_VID \<equiv> 0x00"
abbreviation HDA_PARAM_SUBORDCNT :: u8 where "HDA_PARAM_SUBORDCNT \<equiv> 0x04"
abbreviation HDA_PARAM_FGTYPE :: u8 where "HDA_PARAM_FGTYPE \<equiv> 0x05"
abbreviation HDA_PARAM_FGCAPS :: u8 where "HDA_PARAM_FGCAPS \<equiv> 0x08"
abbreviation HDA_PARAM_AWCAPS :: u8 where "HDA_PARAM_AWCAPS \<equiv> 0x09"

definition hda_write32 :: "'d mmio \<Rightarrow> addr \<Rightarrow> u32 \<Rightarrow> u32 \<Rightarrow> 'd \<Rightarrow> 'd" where
  "hda_write32 dev regs off val d = snd dev 4 (regs + off) val d"

definition hda_read32 :: "'d mmio \<Rightarrow> addr \<Rightarrow> u32 \<Rightarrow> 'd \<Rightarrow> u32 \<times> 'd" where
  "hda_read32 dev regs off d = fst dev 4 (regs + off) d"

text \<open>\<^verbatim>\<open>while( reg & mask ) delay(1);\<close> and its negation.\<close>

partial_function (option) poll :: "(nat \<Rightarrow> addr \<Rightarrow> 'd \<Rightarrow> u32 \<times> 'd) \<Rightarrow> nat \<Rightarrow> addr \<Rightarrow> (u32 \<Rightarrow> bool) \<Rightarrow> 'd \<Rightarrow> 'd option" where
  "poll rd w a busy d = (let (v, d') = rd w a d in if busy v then poll rd w a busy d' else Some d')"

text \<open>\<^verbatim>\<open>reg |= bits\<close> and \<^verbatim>\<open>reg &= ~bits\<close>.\<close>

definition modify :: "'d mmio \<Rightarrow> nat \<Rightarrow> addr \<Rightarrow> (u32 \<Rightarrow> u32) \<Rightarrow> 'd \<Rightarrow> 'd" where
  "modify dev w a f d = (let (v, d') = fst dev w a d in snd dev w a (f v) d')"

section \<open>Commands\<close>

definition verb_word :: "u8 \<Rightarrow> u8 \<Rightarrow> u16 \<Rightarrow> u16 \<Rightarrow> u32" where
  "verb_word caddr nid verb data =
     (if verb > 0xF
      then push_bit 28 (ucast caddr) OR push_bit 20 (ucast nid) OR push_bit 8 (ucast verb) OR (ucast data AND 0xFF)
      else push_bit 28 (ucast caddr) OR push_bit 20 (ucast nid) OR push_bit 16 (ucast verb) OR ucast data)"

definition send_verb_imm :: "'d mmio \<Rightarrow> addr \<Rightarrow> u8 \<Rightarrow> u8 \<Rightarrow> u16 \<Rightarrow> u16 \<Rightarrow> bool \<Rightarrow> 'd \<Rightarrow> (u32 \<times> 'd) option" where
  "send_verb_imm dev regs caddr nid verb data with_response d =
     Option.bind (poll (fst dev) 2 (regs + HDA_ICIS) (\<lambda>v. v AND 1 \<noteq> 0) d) (\<lambda>d1.
       let d2 = snd dev 4 (regs + HDA_ICOI) (verb_word (caddr AND 0xF) nid verb data) d1;
           d3 = modify dev 2 (regs + HDA_ICIS) (\<lambda>v. v OR (if with_response then 3 else 1)) d2
       in Option.bind (poll (fst dev) 2 (regs + HDA_ICIS) (\<lambda>v. v AND 1 \<noteq> 0) d3) (\<lambda>d4.
            if with_response
            then map_option (fst dev 4 (regs + HDA_ICII)) (poll (fst dev) 2 (regs + HDA_ICIS) (\<lambda>v. v AND 2 = 0) d4)
            else Some (0, d4)))"

definition get_param :: "'d mmio \<Rightarrow> addr \<Rightarrow> u8 \<Rightarrow> u8 \<Rightarrow> u8 \<Rightarrow> 'd \<Rightarrow> (u32 \<times> 'd) option" where
  "get_param dev regs caddr nid param d = send_verb_imm dev regs caddr nid HDA_VERB_PARAM_GET (ucast param) True d"

section \<open>The walk over the codecs\<close>

text \<open>A byte as it is promoted to \<^verbatim>\<open>int\<close> and passed to \<^verbatim>\<open>cio_printf\<close>.\<close>

abbreviation byte_arg :: "u8 \<Rightarrow> parg" where
  "byte_arg b \<equiv> Num (ucast b)"

definition mute_str :: "u8 \<Rightarrow> parg" where
  "mute_str m = Str (if m \<noteq> 0 then ''unmute'' else ''muted'')"

definition widget_lines :: "u8 \<Rightarrow> u32 \<Rightarrow> u32 \<Rightarrow> u32 \<Rightarrow> line list" where
  "widget_lines wi caps inamp outamp =
     [(''hda:     |-> widget %d type %x caps 0x%08x'' @ [CHR 0x0A], [byte_arg wi, byte_arg (ucast (drop_bit 20 caps)), Num caps]),
      (''hda:         in: %s %d, out: %s %d'' @ [CHR 0x0A],
        [mute_str (ucast (drop_bit 7 inamp)), byte_arg (ucast (inamp AND 0x7F)),
         mute_str (ucast (drop_bit 7 outamp)), byte_arg (ucast (outamp AND 0x7F))])]"

definition widget_step :: "'d mmio \<Rightarrow> addr \<Rightarrow> u8 \<Rightarrow> u8 \<Rightarrow> line list \<times> 'd \<Rightarrow> (line list \<times> 'd) option" where
  "widget_step dev regs i wi = (\<lambda>(out, d).
     Option.bind (get_param dev regs i wi HDA_PARAM_AWCAPS d) (\<lambda>(caps, d1).
     Option.bind (send_verb_imm dev regs i wi HDA_VERB_AMP_GET 0 True d1) (\<lambda>(inamp, d2).
     Option.bind (send_verb_imm dev regs i wi HDA_VERB_AMP_GET 0x8000 True d2) (\<lambda>(outamp, d3).
       Some (out @ widget_lines wi caps inamp outamp, d3)))))"

text \<open>The loop over the widgets counts them in a byte up to the sum of two bytes.\<close>

partial_function (option) widget_loop ::
    "'d mmio \<Rightarrow> addr \<Rightarrow> u8 \<Rightarrow> u8 \<Rightarrow> int \<Rightarrow> line list \<times> 'd \<Rightarrow> (line list \<times> 'd) option" where
  "widget_loop dev regs i wi bound s =
     (if uint wi < bound
      then Option.bind (widget_step dev regs i wi s) (\<lambda>s'. widget_loop dev regs i (wi + 1) bound s')
      else Some s)"

definition group_line :: "u8 \<Rightarrow> u8 \<Rightarrow> u8 \<Rightarrow> u8 \<Rightarrow> u8 \<Rightarrow> line" where
  "group_line j count fg_type s_start s_count =
     (''hda: |-> subordinate %d fg type %d has subordinates %d-%d'' @ [CHR 0x0A],
       [Num (ucast j + ucast count), byte_arg fg_type, byte_arg s_start, Num (ucast s_start + ucast s_count - 1)])"

definition group_step :: "'d mmio \<Rightarrow> addr \<Rightarrow> u8 \<Rightarrow> u8 \<Rightarrow> u8 \<Rightarrow> u8 \<Rightarrow> line list \<times> 'd \<Rightarrow> (line list \<times> 'd) option" where
  "group_step dev regs i start count j = (\<lambda>(out, d).
     Option.bind (get_param dev regs i (j + start) HDA_PARAM_FGTYPE d) (\<lambda>(r1, d1).
     Option.bind (get_param dev regs i (j + start) HDA_PARAM_SUBORDCNT d1) (\<lambda>(r2, d2).
       let fg_type = ucast (r1 AND 0xFF); s_start = ucast (drop_bit 16 r2); s_count = ucast (r2 AND 0xFF);
           out1 = out @ [group_line j count fg_type s_start s_count]
       in if fg_type = 1 then
            Option.bind (get_param dev regs i (j + start) HDA_PARAM_FGCAPS d2) (\<lambda>(caps, d3).
              widget_loop dev regs i s_start (uint s_start + uint s_count)
                (out1 @ [(''hda:     audio function group caps 0x%08x'' @ [CHR 0x0A], [Num caps])], d3))
          else Some (out1, d2))))"

fun group_loop :: "'d mmio \<Rightarrow> addr \<Rightarrow> u8 \<Rightarrow> u8 \<Rightarrow> u8 \<Rightarrow> nat list \<Rightarrow> line list \<times> 'd \<Rightarrow> (line list \<times> 'd) option" where
  "group_loop dev regs i start count [] s = Some s"
| "group_loop dev regs i start count (j # js) s =
     Option.bind (group_step dev regs i start count (of_nat j) s) (group_loop dev regs i start count js)"

definition codec_line :: "u8 \<Rightarrow> u32 \<Rightarrow> u8 \<Rightarrow> u8 \<Rightarrow> line" where
  "codec_line i vid start count =
     (''hda: codec present on caddr %d, vendor ID %04x:%04x, subordinates %d-%d'' @ [CHR 0x0A],
       [byte_arg i, Num (ucast (ucast (drop_bit 16 vid) :: u16)), Num (ucast (ucast (vid AND 0xFFFF) :: u16)),
        byte_arg start, Num (ucast start + ucast count - 1)])"

definition codec_step :: "'d mmio \<Rightarrow> addr \<Rightarrow> u8 \<Rightarrow> line list \<times> 'd \<Rightarrow> (line list \<times> 'd) option" where
  "codec_step dev regs i = (\<lambda>(out, d0).
     let (statests, d) = fst dev 2 (regs + HDA_STATESTS) d0
     in if statests AND push_bit (unat i) 1 \<noteq> 0 then
          Option.bind (get_param dev regs i 0 HDA_PARAM_VID d) (\<lambda>(vid, d1).
          Option.bind (get_param dev regs i 0 HDA_PARAM_SUBORDCNT d1) (\<lambda>(r, d2).
            let start = ucast (drop_bit 16 r); count = ucast (r AND 0xFF)
            in group_loop dev regs i start count [0..<unat count] (out @ [codec_line i vid start count], d2)))
        else Some (out, d))"

fun codec_loop :: "'d mmio \<Rightarrow> addr \<Rightarrow> nat list \<Rightarrow> line list \<times> 'd \<Rightarrow> (line list \<times> 'd) option" where
  "codec_loop dev regs [] s = Some s"
| "codec_loop dev regs (i # is) s = Option.bind (codec_step dev regs (of_nat i) s) (codec_loop dev regs is)"

definition enumerate_codecs :: "'d mmio \<Rightarrow> addr \<Rightarrow> line list \<times> 'd \<Rightarrow> (line list \<times> 'd) option" where
  "enumerate_codecs dev regs = codec_loop dev regs [0..<15]"

section \<open>Initialization, volume and playback\<close>

definition print_controller_info :: "'d mmio \<Rightarrow> addr \<Rightarrow> line list \<times> 'd \<Rightarrow> line list \<times> 'd" where
  "print_controller_info dev regs = (\<lambda>(out, d).
     let (vmaj, d1) = fst dev 1 (regs + HDA_VMAJ) d; (vmin, d2) = fst dev 1 (regs + HDA_VMIN) d1; (gcap, d3) = fst dev 2 (regs + HDA_GCAP) d2
     in (out @ [(''hda: controller v%d.%d, capabilities: 0x%x'' @ [CHR 0x0A], [Num vmaj, Num vmin, Num gcap])], d3))"

text \<open>The reset: the controller goes into it and comes out of it.\<close>

definition hda_reset :: "'d mmio \<Rightarrow> addr \<Rightarrow> 'd \<Rightarrow> 'd option" where
  "hda_reset dev regs d =
     Option.bind (poll (fst dev) 4 (regs + HDA_GCTL) (\<lambda>v. v AND 1 \<noteq> 0) (modify dev 4 (regs + HDA_GCTL) (\<lambda>v. v AND NOT 1) d)) (\<lambda>d1.
       poll (fst dev) 4 (regs + HDA_GCTL) (\<lambda>v. v AND 1 = 0) (modify dev 4 (regs + HDA_GCTL) (\<lambda>v. v OR 1) d1))"

text \<open>\<open>pcif0\<close> is the local structure, which the code does not initialize; the result also has the address that
  \<^verbatim>\<open>hda->regs\<close> is set to, if it is. A search that fails sets no address.\<close>

definition hda_init :: "'p pci_bus \<Rightarrow> 'd mmio \<Rightarrow> pci_func \<Rightarrow> 'p pci \<times> line list \<times> 'd \<Rightarrow> (addr option \<times> 'p pci \<times> line list \<times> 'd) option" where
  "hda_init bus dev pcif0 = (\<lambda>(s, out, d).
     Option.bind (pci_find_device_by_class bus 0x04 0x03 pcif0 s) (\<lambda>(r, pcif, s').
       if (word_of_int r :: u8) \<noteq> 0 then Some (None, s', out @ [(''error: failed to find intel HDA device'' @ [CHR 0x0A], [])], d)
       else
         let out1 = out @ [(''found intel HDA device on bus %d, device %d, func %d'' @ [CHR 0x0A],
               [Num (busno pcif), byte_arg (device pcif), byte_arg (function_no pcif)])];
             regs = base_addr pcif ! 0
         in Option.bind (hda_reset dev regs d) (\<lambda>d1.
              map_option (\<lambda>(out2, d2). (Some regs, s', out2, d2))
                (enumerate_codecs dev regs (print_controller_info dev regs (out1, d1))))))"

definition volume_payload :: "u8 \<Rightarrow> bool \<Rightarrow> bool \<Rightarrow> bool \<Rightarrow> u16" where
  "volume_payload volume inp outp mute =
     push_bit 15 (if outp then 1 else 0) OR push_bit 14 (if inp then 1 else 0) OR push_bit 12 3
       OR push_bit 7 (if mute then 1 else 0) OR ucast (volume AND 0x7F)"

definition hda_set_volume :: "'d mmio \<Rightarrow> addr \<Rightarrow> u8 \<Rightarrow> u8 \<Rightarrow> u8 \<Rightarrow> bool \<Rightarrow> bool \<Rightarrow> bool \<Rightarrow> 'd \<Rightarrow> 'd option" where
  "hda_set_volume dev regs caddr nid volume inp outp mute d =
     map_option snd (send_verb_imm dev regs caddr nid HDA_VERB_AMP_SET (volume_payload volume inp outp mute) False d)"

definition hda_setup_playback_stream :: "'d mmio \<Rightarrow> addr \<Rightarrow> u8 \<Rightarrow> u32 \<Rightarrow> u16 \<Rightarrow> u16 \<Rightarrow> 'd \<Rightarrow> int \<times> 'd" where
  "hda_setup_playback_stream dev regs stream bdl_addr lvi fmt d =
     (0, fold (\<lambda>(off, v). hda_write32 dev regs off v)
          [(0x80 + ucast stream * 0x20, 0), (0x84 + ucast stream * 0x20, 4 OR 16), (0x88 + ucast stream * 0x20, bdl_addr),
           (0x90 + ucast stream * 0x20, ucast lvi), (0x100 + ucast stream * 0x10, ucast fmt), (0x80 + ucast stream * 0x20, 2 OR 4)] d)"

section \<open>Waiting\<close>

text \<open>The device leaves the busy condition after finitely many reads.\<close>

inductive settles :: "(nat \<Rightarrow> addr \<Rightarrow> 'd \<Rightarrow> u32 \<times> 'd) \<Rightarrow> nat \<Rightarrow> addr \<Rightarrow> (u32 \<Rightarrow> bool) \<Rightarrow> 'd \<Rightarrow> 'd \<Rightarrow> bool"
  for rd w a busy where
  ready: "rd w a d = (v, d') \<Longrightarrow> \<not> busy v \<Longrightarrow> settles rd w a busy d d'"
| again: "rd w a d = (v, d1) \<Longrightarrow> busy v \<Longrightarrow> settles rd w a busy d1 d' \<Longrightarrow> settles rd w a busy d d'"

lemma poll_settlesD:
  assumes "poll rd w a busy d = Some d'"
  shows "settles rd w a busy d d'"
proof (rule poll.raw_induct [where P = settles, OF _ assms])
  fix loop and rd :: "nat \<Rightarrow> addr \<Rightarrow> 'd \<Rightarrow> u32 \<times> 'd" and w a busy d d'
  assume IH: "\<And>rd w a busy (d :: 'd) d'. loop rd w a busy d = Some d' \<Longrightarrow> settles rd w a busy d d'"
    and r: "(let (v, d') = rd w a d in if busy v then loop rd w a busy d' else Some d') = Some d'"
  then show "settles rd w a busy d d'"
    by (auto split: prod.splits if_splits intro: settles.intros IH)
qed

lemma poll_settles: "poll rd w a busy d = Some d' \<longleftrightarrow> settles rd w a busy d d'"
proof
  show "settles rd w a busy d d' \<Longrightarrow> poll rd w a busy d = Some d'"
    by (induction rule: settles.induct) (subst poll.simps, simp)+
qed (rule poll_settlesD)

text \<open>A controller whose codecs answer: between commands it is in a state of \<open>idle\<close>, in which it takes a command word
  after finitely many reads of the busy flag, and after finitely many more has the answer; the presence bits are \<open>sts\<close>.\<close>

definition answers :: "'d mmio \<Rightarrow> addr \<Rightarrow> (u32 \<Rightarrow> u32) \<Rightarrow> u32 \<Rightarrow> ('d \<Rightarrow> bool) \<Rightarrow> bool" where
  "answers dev regs ans sts idle \<longleftrightarrow>
     (\<forall>d. idle d \<longrightarrow> (\<exists>d'. fst dev 2 (regs + HDA_STATESTS) d = (sts, d') \<and> idle d') \<and>
       (\<exists>d1. settles (fst dev) 2 (regs + HDA_ICIS) (\<lambda>v. v AND 1 \<noteq> 0) d d1 \<and>
         (\<forall>c. \<exists>d2 d3 d4. settles (fst dev) 2 (regs + HDA_ICIS) (\<lambda>v. v AND 1 \<noteq> 0)
              (modify dev 2 (regs + HDA_ICIS) (\<lambda>v. v OR 3) (snd dev 4 (regs + HDA_ICOI) c d1)) d2 \<and>
            settles (fst dev) 2 (regs + HDA_ICIS) (\<lambda>v. v AND 2 = 0) d2 d3 \<and>
            fst dev 4 (regs + HDA_ICII) d3 = (ans c, d4) \<and> idle d4)))"

lemma send_verb_answer:
  assumes "answers dev regs ans sts idle" "idle d"
  shows "\<exists>d'. send_verb_imm dev regs caddr nid verb data True d = Some (ans (verb_word (caddr AND 0xF) nid verb data), d') \<and> idle d'"
proof -
  obtain d1 where d1: "settles (fst dev) 2 (regs + HDA_ICIS) (\<lambda>v. v AND 1 \<noteq> 0) d d1"
    "\<And>c. \<exists>d2 d3 d4. settles (fst dev) 2 (regs + HDA_ICIS) (\<lambda>v. v AND 1 \<noteq> 0)
              (modify dev 2 (regs + HDA_ICIS) (\<lambda>v. v OR 3) (snd dev 4 (regs + HDA_ICOI) c d1)) d2 \<and>
            settles (fst dev) 2 (regs + HDA_ICIS) (\<lambda>v. v AND 2 = 0) d2 d3 \<and>
            fst dev 4 (regs + HDA_ICII) d3 = (ans c, d4) \<and> idle d4"
    using assms unfolding answers_def by blast
  from d1(2) [of "verb_word (caddr AND 0xF) nid verb data"] show ?thesis
    unfolding poll_settles [symmetric] using d1(1) [folded poll_settles] by (auto simp: send_verb_imm_def)
qed

lemma statests_answer: "answers dev regs ans sts idle \<Longrightarrow> idle d \<Longrightarrow> \<exists>d'. fst dev 2 (regs + HDA_STATESTS) d = (sts, d') \<and> idle d'"
  unfolding answers_def by blast

section \<open>What the walk prints\<close>

text \<open>The lines as a function of the codecs' answers.\<close>

definition param_of :: "(u32 \<Rightarrow> u32) \<Rightarrow> u8 \<Rightarrow> u8 \<Rightarrow> u8 \<Rightarrow> u32" where
  "param_of ans i nid p = ans (verb_word (i AND 0xF) nid HDA_VERB_PARAM_GET (ucast p))"

definition widget_report :: "(u32 \<Rightarrow> u32) \<Rightarrow> u8 \<Rightarrow> u8 \<Rightarrow> line list" where
  "widget_report ans i wi = widget_lines wi (param_of ans i wi HDA_PARAM_AWCAPS)
     (ans (verb_word (i AND 0xF) wi HDA_VERB_AMP_GET 0)) (ans (verb_word (i AND 0xF) wi HDA_VERB_AMP_GET 0x8000))"

definition sub_start :: "(u32 \<Rightarrow> u32) \<Rightarrow> u8 \<Rightarrow> u8 \<Rightarrow> u8" where
  "sub_start ans i nid = ucast (drop_bit 16 (param_of ans i nid HDA_PARAM_SUBORDCNT))"

definition sub_count :: "(u32 \<Rightarrow> u32) \<Rightarrow> u8 \<Rightarrow> u8 \<Rightarrow> u8" where
  "sub_count ans i nid = ucast (param_of ans i nid HDA_PARAM_SUBORDCNT AND 0xFF)"

definition audio_group :: "(u32 \<Rightarrow> u32) \<Rightarrow> u8 \<Rightarrow> u8 \<Rightarrow> bool" where
  "audio_group ans i nid \<longleftrightarrow> (ucast (param_of ans i nid HDA_PARAM_FGTYPE AND 0xFF) :: u8) = 1"

definition group_report :: "(u32 \<Rightarrow> u32) \<Rightarrow> u8 \<Rightarrow> nat \<Rightarrow> line list" where
  "group_report ans i j =
     (let nid = of_nat j + sub_start ans i 0
      in group_line (of_nat j) (sub_count ans i 0) (ucast (param_of ans i nid HDA_PARAM_FGTYPE AND 0xFF)) (sub_start ans i nid) (sub_count ans i nid) #
         (if audio_group ans i nid
          then (''hda:     audio function group caps 0x%08x'' @ [CHR 0x0A], [Num (param_of ans i nid HDA_PARAM_FGCAPS)]) #
            concat (map (\<lambda>n. widget_report ans i (sub_start ans i nid + of_nat n)) [0..<unat (sub_count ans i nid)])
          else []))"

definition codec_report :: "(u32 \<Rightarrow> u32) \<Rightarrow> u32 \<Rightarrow> nat \<Rightarrow> line list" where
  "codec_report ans sts i =
     (if bit sts i
      then codec_line (of_nat i) (param_of ans (of_nat i) 0 HDA_PARAM_VID) (sub_start ans (of_nat i) 0) (sub_count ans (of_nat i) 0) #
        concat (map (group_report ans (of_nat i)) [0..<unat (sub_count ans (of_nat i) 0)])
      else [])"

text \<open>The node numbers of the widgets of every audio group fit into a byte.\<close>

definition nodes_fit :: "(u32 \<Rightarrow> u32) \<Rightarrow> bool" where
  "nodes_fit ans \<longleftrightarrow> (\<forall>i nid. audio_group ans i nid \<longrightarrow> uint (sub_start ans i nid) + uint (sub_count ans i nid) \<le> 255)"

lemma get_param_answer:
  assumes "answers dev regs ans sts idle" "idle d"
  shows "\<exists>d'. get_param dev regs i nid p d = Some (param_of ans i nid p, d') \<and> idle d'"
  unfolding get_param_def param_of_def using send_verb_answer [OF assms] by blast

lemma widget_step_answer:
  assumes A: "answers dev regs ans sts idle" and "idle d"
  shows "\<exists>d'. widget_step dev regs i wi (out, d) = Some (out @ widget_report ans i wi, d') \<and> idle d'"
proof -
  obtain d1 where d1: "get_param dev regs i wi HDA_PARAM_AWCAPS d = Some (param_of ans i wi HDA_PARAM_AWCAPS, d1)" "idle d1"
    using get_param_answer [OF A assms(2)] by blast
  obtain d2 where d2: "send_verb_imm dev regs i wi HDA_VERB_AMP_GET 0 True d1 = Some (ans (verb_word (i AND 0xF) wi HDA_VERB_AMP_GET 0), d2)" "idle d2"
    using send_verb_answer [OF A d1(2)] by blast
  obtain d3 where "send_verb_imm dev regs i wi HDA_VERB_AMP_GET 0x8000 True d2 = Some (ans (verb_word (i AND 0xF) wi HDA_VERB_AMP_GET 0x8000), d3)" "idle d3"
    using send_verb_answer [OF A d2(2)] by blast
  then show ?thesis using d1(1) d2(1) by (simp add: widget_step_def widget_report_def)
qed

lemma widget_loop_answer:
  assumes A: "answers dev regs ans sts idle" and "idle d" "unat wi + n \<le> 255"
  shows "\<exists>d'. widget_loop dev regs i wi (int (unat wi + n)) (out, d) =
    Some (out @ concat (map (\<lambda>k. widget_report ans i (wi + of_nat k)) [0..<n]), d') \<and> idle d'"
  using assms(2,3)
proof (induction n arbitrary: wi d out)
  case 0
  then show ?case by (subst widget_loop.simps) simp
next
  case (Suc n)
  obtain d1 where d1: "widget_step dev regs i wi (out, d) = Some (out @ widget_report ans i wi, d1)" "idle d1"
    using widget_step_answer [OF A Suc.prems(1)] by blast
  have u: "unat (wi + 1) = unat wi + 1" using Suc.prems(2) by (simp add: unat_word_ariths)
  obtain d' where d': "widget_loop dev regs i (wi + 1) (int (unat wi + Suc n)) (out @ widget_report ans i wi, d1) =
      Some ((out @ widget_report ans i wi) @ concat (map (\<lambda>k. widget_report ans i (wi + 1 + of_nat k)) [0..<n]), d')" "idle d'"
    using Suc.IH [of d1 "wi + 1" "out @ widget_report ans i wi"] d1(2) Suc.prems(2) u by auto
  have "[0..<Suc n] = 0 # map Suc [0..<n]" by (simp add: upt_conv_Cons map_Suc_upt del: upt_Suc)
  then have "concat (map (\<lambda>k. widget_report ans i (wi + of_nat k)) [0..<Suc n]) =
      widget_report ans i wi @ concat (map (\<lambda>k. widget_report ans i (wi + 1 + of_nat k)) [0..<n])"
    by (simp add: comp_def add.assoc del: upt_Suc)
  moreover have "uint wi < int (unat wi + Suc n)" by simp
  then have "widget_loop dev regs i wi (int (unat wi + Suc n)) (out, d) =
      widget_loop dev regs i (wi + 1) (int (unat wi + Suc n)) (out @ widget_report ans i wi, d1)"
    by (subst widget_loop.simps) (simp only: d1(1) if_True bind.bind_lunit)
  ultimately show ?case using d' by (metis append_assoc)
qed

lemma group_step_answer:
  assumes A: "answers dev regs ans sts idle" and "idle d" "nodes_fit ans"
  shows "\<exists>d'. group_step dev regs i (sub_start ans i 0) (sub_count ans i 0) (of_nat j) (out, d) = Some (out @ group_report ans i j, d') \<and> idle d'"
proof -
  let ?nid = "of_nat j + sub_start ans i 0"
  obtain d1 where d1: "get_param dev regs i ?nid HDA_PARAM_FGTYPE d = Some (param_of ans i ?nid HDA_PARAM_FGTYPE, d1)" "idle d1"
    using get_param_answer [OF A assms(2)] by blast
  obtain d2 where d2: "get_param dev regs i ?nid HDA_PARAM_SUBORDCNT d1 = Some (param_of ans i ?nid HDA_PARAM_SUBORDCNT, d2)" "idle d2"
    using get_param_answer [OF A d1(2)] by blast
  note step = group_step_def [of dev regs i "sub_start ans i 0" "sub_count ans i 0" "of_nat j"]
  show ?thesis
  proof (cases "audio_group ans i ?nid")
    case False
    then show ?thesis
      using d1(1) d2 by (simp add: step group_report_def audio_group_def sub_start_def [symmetric] sub_count_def [symmetric] Let_def)
  next
    case True
    obtain d3 where d3: "get_param dev regs i ?nid HDA_PARAM_FGCAPS d2 = Some (param_of ans i ?nid HDA_PARAM_FGCAPS, d3)" "idle d3"
      using get_param_answer [OF A d2(2)] by blast
    have b: "uint (sub_start ans i ?nid) + uint (sub_count ans i ?nid) = int (unat (sub_start ans i ?nid) + unat (sub_count ans i ?nid))"
      by simp
    have "uint (sub_start ans i ?nid) + uint (sub_count ans i ?nid) \<le> 255" using assms(3) True by (simp add: nodes_fit_def)
    then have fit: "unat (sub_start ans i ?nid) + unat (sub_count ans i ?nid) \<le> 255" unfolding b by linarith
    let ?out = "out @ [group_line (of_nat j) (sub_count ans i 0) 1 (sub_start ans i ?nid) (sub_count ans i ?nid),
          (''hda:     audio function group caps 0x%08x'' @ [CHR 0x0A], [Num (param_of ans i ?nid HDA_PARAM_FGCAPS)])]"
    have one: "(ucast (param_of ans i ?nid HDA_PARAM_FGTYPE AND 0xFF) :: u8) = 1" using True by (simp add: audio_group_def)
    have "group_step dev regs i (sub_start ans i 0) (sub_count ans i 0) (of_nat j) (out, d) =
        widget_loop dev regs i (sub_start ans i ?nid) (int (unat (sub_start ans i ?nid) + unat (sub_count ans i ?nid))) (?out, d3)"
      unfolding step prod.case d1(1) d2(1) bind.bind_lunit Let_def one d3(1) sub_start_def [symmetric] sub_count_def [symmetric] b
      by simp
    moreover have "out @ group_report ans i j = ?out @ concat (map (\<lambda>k. widget_report ans i (sub_start ans i ?nid + of_nat k)) [0..<unat (sub_count ans i ?nid)])"
      using True one by (simp add: group_report_def Let_def)
    ultimately show ?thesis using widget_loop_answer [OF A d3(2) fit, of i ?out] by metis
  qed
qed

lemma group_loop_answer:
  assumes A: "answers dev regs ans sts idle" and "idle d" "nodes_fit ans"
  shows "\<exists>d'. group_loop dev regs i (sub_start ans i 0) (sub_count ans i 0) js (out, d) =
    Some (out @ concat (map (group_report ans i) js), d') \<and> idle d'"
  using assms(2)
proof (induction js arbitrary: d out)
  case (Cons j js)
  obtain d1 where d1: "group_step dev regs i (sub_start ans i 0) (sub_count ans i 0) (of_nat j) (out, d) = Some (out @ group_report ans i j, d1)" "idle d1"
    using group_step_answer [OF A Cons.prems assms(3)] by blast
  show ?case using Cons.IH [OF d1(2), of "out @ group_report ans i j"] d1(1) by simp
qed simp

lemma codec_step_answer:
  assumes A: "answers dev regs ans sts idle" and "idle d" "nodes_fit ans" "i < 15"
  shows "\<exists>d'. codec_step dev regs (of_nat i) (out, d) = Some (out @ codec_report ans sts i, d') \<and> idle d'"
proof -
  let ?i = "of_nat i :: u8"
  have u: "unat ?i = i" using assms(4) by (simp add: unat_of_nat)
  have bit: "(sts AND push_bit (unat ?i) 1 \<noteq> 0) = bit sts i"
    unfolding u by (simp add: bit_iff_and_push_bit_not_eq_0)
  obtain d0 where d0: "fst dev 2 (regs + HDA_STATESTS) d = (sts, d0)" "idle d0" using statests_answer [OF A assms(2)] by blast
  obtain d1 where d1: "get_param dev regs ?i 0 HDA_PARAM_VID d0 = Some (param_of ans ?i 0 HDA_PARAM_VID, d1)" "idle d1"
    using get_param_answer [OF A d0(2)] by blast
  obtain d2 where d2: "get_param dev regs ?i 0 HDA_PARAM_SUBORDCNT d1 = Some (param_of ans ?i 0 HDA_PARAM_SUBORDCNT, d2)" "idle d2"
    using get_param_answer [OF A d1(2)] by blast
  show ?thesis
  proof (cases "bit sts i")
    case False
    then show ?thesis using d0 bit by (simp add: codec_step_def codec_report_def)
  next
    case True
    from group_loop_answer [OF A d2(2) assms(3), of ?i "[0..<unat (sub_count ans ?i 0)]"
        "out @ [codec_line ?i (param_of ans ?i 0 HDA_PARAM_VID) (sub_start ans ?i 0) (sub_count ans ?i 0)]"]
    show ?thesis using d0(1) d1(1) d2(1) bit True
      by (simp add: codec_step_def codec_report_def sub_start_def [symmetric] sub_count_def [symmetric] Let_def)
  qed
qed

text \<open>C13. With a controller whose codecs answer every command, the walk over the codecs ends and prints exactly the tree of
  the answers: a line for every codec that is present, one for each of its function groups, and for the audio groups one
  for the group and two for each widget; and the controller is idle again. The node numbers of each audio group have to
  fit into a byte.\<close>

theorem enumerate_codecs_prints_tree:
  assumes "answers dev regs ans sts idle" "idle d" "nodes_fit ans"
  shows "\<exists>d'. enumerate_codecs dev regs (out, d) = Some (out @ concat (map (codec_report ans sts) [0..<15]), d') \<and> idle d'"
proof -
  have "\<exists>d'. codec_loop dev regs ks (out, d) = Some (out @ concat (map (codec_report ans sts) ks), d') \<and> idle d'"
    if "set ks \<subseteq> {..<15}" "idle d" for ks out d
    using that
  proof (induction ks arbitrary: out d)
    case (Cons i ks)
    obtain d1 where d1: "codec_step dev regs (of_nat i) (out, d) = Some (out @ codec_report ans sts i, d1)" "idle d1"
      using codec_step_answer [OF assms(1) Cons.prems(2) assms(3), of i out] Cons.prems(1) by auto
    show ?case using Cons.IH [of d1 "out @ codec_report ans sts i"] Cons.prems(1) d1 by simp
  qed simp
  moreover have "set [0..<15] \<subseteq> {..<15::nat}" by auto
  ultimately show ?thesis using assms(2) unfolding enumerate_codecs_def by blast
qed

text \<open>A controller with one codec, at address 0; every node is an audio group with one subordinate, node 1. Its state is the last
  command; it is never busy and its answers are always valid.\<close>

definition sample_answer :: "u32 \<Rightarrow> u32" where
  "sample_answer c = (let v = take_bit 20 c in if v = 0xF0004 then 0x00010001 else if v = 0xF0005 then 1 else 0x40)"

definition sample_hda :: "u32 mmio" where
  "sample_hda =
     (\<lambda>w a d. (if a = 0xF000000E then 1 else if a = 0xF0000068 then 2 else if a = 0xF0000064 then sample_answer d else 0, d),
      \<lambda>w a v d. if a = 0xF0000060 then v else d)"

lemma sample_hda_answers: "answers sample_hda 0xF0000000 sample_answer 1 (\<lambda>_. True)"
  unfolding answers_def
  by (auto simp: sample_hda_def modify_def intro!: exI intro: settles.ready)

lemma sample_nodes_fit: "nodes_fit sample_answer"
proof -
  have "take_bit 20 (verb_word (i AND 0xF) nid HDA_VERB_PARAM_GET 4) = 0xF0004" for i nid
    by (simp add: verb_word_def take_bit_or take_bit_push_bit)
  then show ?thesis
    by (simp add: nodes_fit_def sub_start_def sub_count_def param_of_def sample_answer_def)
qed

theorem enumerate_codecs_prints_tree_witness:
  "\<exists>d. enumerate_codecs sample_hda 0xF0000000 ([], 0 :: u32) = Some (concat (map (codec_report sample_answer 1) [0..<15]), d)"
  using enumerate_codecs_prints_tree [OF sample_hda_answers _ sample_nodes_fit, where d = 0 and out = "[]"] by simp

text \<open>When the node numbers of a group's widgets go past 255, the loop over the widgets never ends, whatever the
  device answers: its counter is a byte.\<close>

theorem widget_loop_endless:
  assumes "255 < uint (s_start :: u8) + uint (s_count :: u8)"
  shows "widget_loop dev regs i s_start (uint s_start + uint s_count) s = None"
proof (rule ccontr)
  assume "widget_loop dev regs i s_start (uint s_start + uint s_count) s \<noteq> None"
  then obtain r where r: "widget_loop dev regs i s_start (uint s_start + uint s_count) s = Some r" by blast
  have "bound \<le> 255" if "widget_loop dev regs i wi bound s = Some r" for wi bound s and r
  proof (rule widget_loop.raw_induct [where P = "\<lambda>dev regs i wi bound s r. bound \<le> 255", OF _ that])
    fix loop and dev :: "'a mmio" and regs i wi bound s r
    assume IH: "\<And>dev regs i wi bound (s :: line list \<times> 'a) r. loop dev regs i wi bound s = Some r \<Longrightarrow> bound \<le> 255"
      and r: "(if uint wi < bound then Option.bind (widget_step dev regs i wi s) (\<lambda>s'. loop dev regs i (wi + 1) bound s') else Some s) = Some r"
    have "uint wi \<le> 255" using unsigned_less [of wi, where ?'a = int] by simp
    then consider "bound \<le> 255" | s' where "loop dev regs i (wi + 1) bound s' = Some r"
      using r by (auto simp: bind_eq_Some_conv split: if_splits)
    then show "bound \<le> 255" using IH by cases blast+
  qed
  from this [OF r] assms show False by simp
qed

theorem widget_loop_endless_witness: "widget_loop sample_hda 0xF0000000 0 250 (uint (250 :: u8) + uint (10 :: u8)) ([], 0) = None"
  by (rule widget_loop_endless) simp

lemma bit_three: "bit (3 :: u16) n \<longleftrightarrow> n = 0 \<or> n = 1" "bit (3 :: u32) n \<longleftrightarrow> n = 0 \<or> n = 1"
proof -
  have m: "(3 :: u16) = mask 2" "(3 :: u32) = mask 2" by (simp_all add: mask_eq_exp_minus_1)
  show "bit (3 :: u16) n \<longleftrightarrow> n = 0 \<or> n = 1" unfolding m(1) bit_mask_iff by auto
  show "bit (3 :: u32) n \<longleftrightarrow> n = 0 \<or> n = 1" unfolding m(2) bit_mask_iff by auto
qed

lemma bit_volume_payload:
  "bit (volume_payload volume inp outp mute) n \<longleftrightarrow>
     n = 15 \<and> outp \<or> n = 14 \<and> inp \<or> n = 13 \<or> n = 12 \<or> n = 7 \<and> mute \<or> n < 7 \<and> bit volume n"
proof -
  have m: "(0x7F :: u8) = mask 7" by (simp add: mask_eq_exp_minus_1)
  have one: "bit (push_bit k (if b then 1 else 0) :: u16) n \<longleftrightarrow> b \<and> n = k \<and> k < 16" for k b
    by (auto simp: bit_push_bit_iff bit_1_iff)
  have three: "bit (push_bit 12 3 :: u16) n \<longleftrightarrow> n = 12 \<or> n = 13" unfolding bit_push_bit_iff bit_three by auto
  show ?thesis
    unfolding volume_payload_def bit_or_iff one three bit_unsigned_iff bit_and_iff m bit_mask_iff
    by (auto dest: bit_imp_le_length)
qed

lemma bit_short_verb:
  assumes "verb \<le> 0xF"
  shows "bit (verb_word caddr nid verb data) n \<longleftrightarrow> 28 \<le> n \<and> n < 32 \<and> bit caddr (n - 28) \<or>
    20 \<le> n \<and> bit nid (n - 20) \<or> 16 \<le> n \<and> n < 32 \<and> bit verb (n - 16) \<or> bit data n"
  using assms unfolding verb_word_def
  by (auto simp: bit_or_iff bit_push_bit_iff bit_unsigned_iff not_less dest: bit_imp_le_length)

text \<open>The command that sets a volume carries the codec address, the node, the verb of four bits and the payload in
  their places: bit 15 selects the output, 14 the input, 13 and 12 both channels, bit 7 mutes, and the low seven bits are
  the volume.\<close>

theorem volume_command_fields:
  "let w = verb_word (caddr AND 0xF) nid HDA_VERB_AMP_SET (volume_payload volume inp outp mute)
   in ucast (drop_bit 28 w) = caddr AND 0xF \<and> ucast (drop_bit 20 w) = nid \<and> drop_bit 16 w AND 0xF = 3 \<and>
     bit w 15 = outp \<and> bit w 14 = inp \<and> bit w 13 \<and> bit w 12 \<and> bit w 7 = mute \<and> w AND 0x7F = ucast (volume AND 0x7F)"
proof -
  let ?w = "verb_word (caddr AND 0xF) nid HDA_VERB_AMP_SET (volume_payload volume inp outp mute)"
  have masks: "bit (0xF :: u8) n \<longleftrightarrow> n < 4" "bit (0xF :: u32) n \<longleftrightarrow> n < 4" "bit (0x7F :: u32) n \<longleftrightarrow> n < 7" "bit (0x7F :: u8) n \<longleftrightarrow> n < 7" for n
  proof -
    have "(0xF :: u8) = mask 4" "(0xF :: u32) = mask 4" "(0x7F :: u32) = mask 7" "(0x7F :: u8) = mask 7"
      by (simp_all add: mask_eq_exp_minus_1)
    then show "bit (0xF :: u8) n \<longleftrightarrow> n < 4" "bit (0xF :: u32) n \<longleftrightarrow> n < 4" "bit (0x7F :: u32) n \<longleftrightarrow> n < 7" "bit (0x7F :: u8) n \<longleftrightarrow> n < 7"
      by (simp_all only: bit_mask_iff) auto
  qed
  have short: "HDA_VERB_AMP_SET \<le> 0xF" by simp
  have w: "bit ?w n \<longleftrightarrow> 28 \<le> n \<and> n < 32 \<and> bit caddr (n - 28) \<or> 20 \<le> n \<and> n < 28 \<and> bit nid (n - 20) \<or> n = 16 \<or> n = 17 \<or>
      bit (volume_payload volume inp outp mute) n" for n
    unfolding bit_short_verb [OF short] bit_and_iff masks bit_three by (auto dest: bit_imp_le_length)
  note all = w [unfolded bit_volume_payload]
  have "ucast (drop_bit 28 ?w) = caddr AND 0xF"
    by (rule bit_word_eqI) (unfold bit_unsigned_iff bit_drop_bit_eq bit_and_iff masks all, auto)
  moreover have "ucast (drop_bit 20 ?w) = nid"
    by (rule bit_word_eqI) (unfold bit_unsigned_iff bit_drop_bit_eq all, auto)
  moreover have "drop_bit 16 ?w AND 0xF = 3"
    by (rule bit_word_eqI) (unfold bit_drop_bit_eq bit_and_iff masks bit_three all, auto)
  moreover have "?w AND 0x7F = ucast (volume AND 0x7F)"
    by (rule bit_word_eqI) (unfold bit_and_iff bit_unsigned_iff masks all, auto dest: bit_imp_le_length)
  moreover have "bit ?w 15 = outp" "bit ?w 14 = inp" "bit ?w 13" "bit ?w 12" "bit ?w 7 = mute" unfolding all by simp_all
  ultimately show ?thesis unfolding Let_def by blast
qed

end
