(* ===== verification/Boot.thy ===== *)
theory Boot
  imports Kernel_Run Support Nic_Init Hda
begin

unbundle bit_operations_syntax

text \<open>
  The start of the kernel, \<^verbatim>\<open>main.c\<close>: it initializes the modules one after the other, creates the process
  \<^verbatim>\<open>init\<close>, dispatches it and enables the serial line. The build is the default one: \<^verbatim>\<open>CONSOLE_STATS\<close>, \<^verbatim>\<open>TRACE_CX\<close>,
  \<^verbatim>\<open>RPT_INT_UNEXP\<close>, \<^verbatim>\<open>CIO_DUP2_SIO\<close> and \<^verbatim>\<open>T_INIT\<close>. The addresses of assembly routines, functions and string
  constants are fields of the image. The busy loops of \<^verbatim>\<open>delay\<close> are left out, and the lines that \<^verbatim>\<open>hda_init\<close> prints
  are recorded but not put on the screen.
\<close>

section \<open>What the linker decides\<close>

record image =
  isr_stub_table :: "int \<Rightarrow> u32"
  fake_exit_at :: u32
  init_at :: u32
  init_str :: addr    \<comment> \<open>the string constants of the argument vector\<close>
  plus_str :: addr
  args_at :: addr     \<comment> \<open>the local array \<open>args\<close> on the kernel stack\<close>
  test_str_at :: addr

section \<open>Printing\<close>

definition kputs :: "string \<Rightarrow> kernel \<Rightarrow> kernel res" where
  "kputs s = on_con (cio_puts (map of_char s))"

text \<open>Before \<^verbatim>\<open>sio_init\<close> the pointer \<^verbatim>\<open>outlast\<close> of the serial driver is NULL: what the console copies to the driver is
  stored from address 0 on. The buffer of the model then stands for the memory that starts there.\<close>

definition early_puts :: "string \<Rightarrow> kernel \<Rightarrow> kernel res" where
  "early_puts s k =
     (let m = k_mem (km (kst k))
      in bindR (cio_puts (map of_char s) (cio k, (sio k)\<lparr>outbuffer := \<lambda>i. m (of_nat i)\<rparr>)) (\<lambda>(ci, d).
           Inr (set_mem (\<lambda>a. if unat a < outlast d then outbuffer d (unat a) else m a) (k\<lparr>cio := ci, sio := d\<rparr>))))"

definition dashes :: string where
  "dashes = ''-------------------------------'' @ NL"

definition kreport :: "kernel \<Rightarrow> kernel res" where
  "kreport k =
     bindR (kputs (NL @ dashes) k) (\<lambda>k.
     bindR (report ''Config:  N_PROCS = %d'' [25] k) (\<lambda>k.
     bindR (report '' N_PRIOS = %d'' [4] k) (\<lambda>k.
     bindR (report '' N_STATES = %d'' [9] k) (\<lambda>k.
     bindR (report ('' CLOCK = %dHz'' @ NL) [CLOCK_FREQ] k) (\<lambda>k.
     bindR (kputs ''Options:  R-uint CX Cstats'' k) (\<lambda>k.
     bindR (report '' SANITY = %d'' [9999] k) (\<lambda>k.
     bindR (report ('' TRACE = 0x%04x'' @ NL) [0x100] k) (\<lambda>k.
     bindR (kputs ''Tracing: INIT'' k) (\<lambda>k.
       on_con (cio_putchar 10) k)))))))))"

section \<open>The modules\<close>

definition init_modules :: "image \<Rightarrow> kernel \<times> isr_table \<Rightarrow> (kernel \<times> isr_table) res" where
  "init_modules im kt =
     bindR (init_interrupts (isr_stub_table im) kt) (\<lambda>(k, t).
     bindR (install_isr VEC_KBD Keyboard_isr t) (\<lambda>(_, t).
     bindR (early_puts (''System initialization starting.'' @ NL) (k\<lparr>cio := cio_clearscreen (cio_init (cio k))\<rparr>)) (\<lambda>k.
     bindR (early_puts dashes k) (\<lambda>k.
     bindR (early_puts ''Modules:'' k) (\<lambda>k.
     bindR (early_puts '' Kmem'' k) (\<lambda>k.
     bindR (km_init (km (kst k))) (\<lambda>ms.
     bindR (early_puts '' Clock'' (set_km ms k)) (\<lambda>k.
     bindR (install_isr VEC_TIMER Clk_isr t) (\<lambda>(_, t).
     bindR (early_puts '' Procs'' (clk_init k)) (\<lambda>k.
     bindR (pcb_init (kp (kst k))) (\<lambda>ps.
     bindR (early_puts '' Sio'' (k\<lparr>kst := (kst k)\<lparr>kp := ps\<rparr>\<rparr>)) (\<lambda>k.
     bindR (install_isr VEC_COM1 Sio_isr t) (\<lambda>(_, t).
     bindR (kputs '' Sys'' (k\<lparr>sio := sio_init (sio k)\<rparr>)) (\<lambda>k.
     bindR (install_isr VEC_SYSCALL Sys_isr t) (\<lambda>(_, t).
     bindR (kputs '' User'' k) (\<lambda>k. Inr (k, t)))))))))))))))))"

section \<open>The first process\<close>

text \<open>The initialized local array \<^verbatim>\<open>args\<close>.\<close>

definition store_args :: "image \<Rightarrow> mem \<Rightarrow> mem" where
  "store_args im m = store32 (store32 (store32 m (args_at im) (init_str im)) (args_at im + 4) (plus_str im)) (args_at im + 8) 0"

definition create_init :: "image \<Rightarrow> kstate \<Rightarrow> kstate res" where
  "create_init im s =
     bindR (pcb_alloc (kp s)) (\<lambda>(st, tmp, ps).
     if st \<noteq> SUCCESS then Inl (Assert ''pcb_alloc(&init_pcb) == SUCCESS'')
     else case tmp of None \<Rightarrow> Inl Wild | Some p \<Rightarrow>
       let s1 = mem_upd (store_args im) (s\<lparr>kp := upd_pcb p (\<lambda>c. c\<lparr>p_pid := PID_INIT, p_state := STATE_NEW, p_priority := 0\<rparr>)
                  (ps\<lparr>init_pcb := Some p\<rparr>)\<rparr>)
       in bindR (pcb_stack_alloc N_USTKPAGES (km s1)) (\<lambda>(stk, ms).
          if stk = 0 then Inl (Assert ''init_pcb->stack != NULL'')
          else
            let s2 = kp_upd (upd_pcb p (\<lambda>c. c\<lparr>p_stack := stk, p_stkpgs := N_USTKPAGES\<rparr>)) (s1\<lparr>km := ms\<rparr>)
            in bindR (stack_setup (fake_exit_at im) p (init_at im) (args_at im) s2) (\<lambda>(ctx, s3).
               if ctx = 0 then Inl (Assert ''init_pcb->context != NULL'')
               else
                 let s4 = kp_upd (upd_pcb p (\<lambda>c. c\<lparr>p_context := ctx, p_parent := Some p\<rparr>)) s3
                 in bindR (schedule (Some p) s4) (\<lambda>s5.
                    bindR (dispatch ((kp s5)\<lparr>current := None\<rparr>)) (\<lambda>ps. Inr (s5\<lparr>kp := ps\<rparr>))))))"

section \<open>main\<close>

text \<open>The screen after the process has been created: the lower part scrolls.\<close>

definition setup_screen :: "kernel \<Rightarrow> kernel res" where
  "setup_screen k =
     (let ci = cio_clearscroll (cio_setscroll 0 7 99 99 (cio_clearscreen (cio k)))
      in bindR (on_con (cio_puts_at 0 0 (map of_char (CHR 0x2A # replicate 79 (CHR 0x20)))) (k\<lparr>cio := ci\<rparr>))
           (on_con (cio_puts_at 0 6 (map of_char (replicate 80 (CHR 0x3D))))))"

text \<open>\<open>lsr\<close> are the bytes that reads of the serial line return while its input is discarded.\<close>

definition main_to_hda :: "image \<Rightarrow> 'p pci_bus \<Rightarrow> 'p pci \<Rightarrow> u32 list \<Rightarrow> net_locals \<Rightarrow> u8 list \<Rightarrow> kernel \<times> isr_table \<Rightarrow>
    ('p pci \<times> kernel \<times> isr_table) res" where
  "main_to_hda im bus pci nic_reads l lsr kt =
     bindR (init_modules im kt) (\<lambda>(k, t).
     bindR (net_init bus pci nic_reads (test_str_at im) l k) (\<lambda>(_, pci, _, k).
     bindR (kputs (NL @ ''Module initialization complete.'' @ NL) k) (\<lambda>k.
     bindR (kreport k) (\<lambda>k.
     bindR (kputs dashes k) (\<lambda>k.
     bindR (kputs ''Creating initial user process...'' k) (\<lambda>k.
     bindR (create_init im (kst k)) (\<lambda>s.
     bindR (kputs ('' done.'' @ NL) (k\<lparr>kst := s\<rparr>)) (\<lambda>k.
     bindR (setup_screen k) (\<lambda>k.
     bindR (sio_flush lsr (SIO_RX OR SIO_TX) (sio k)) (\<lambda>(_, d).
       Inr (pci, k\<lparr>sio := snd (sio_enable SIO_RX d)\<rparr>, t)))))))))))"

definition main :: "image \<Rightarrow> 'p pci_bus \<Rightarrow> 'd mmio \<Rightarrow> pci_func \<Rightarrow> 'p pci \<Rightarrow> u32 list \<Rightarrow> net_locals \<Rightarrow> u8 list \<Rightarrow> 'd \<Rightarrow>
    kernel \<times> isr_table \<Rightarrow> (kernel \<times> isr_table) res" where
  "main im bus hda pcif pci nic_reads l lsr d kt =
     bindR (main_to_hda im bus pci nic_reads l lsr kt) (\<lambda>(pci, k, t).
       case hda_init bus hda pcif (pci, [], d) of
         None \<Rightarrow> Inl Hang
       | Some _ \<Rightarrow>
           bindR (kputs (''System initialization complete.'' @ NL) k) (\<lambda>k.
           bindR (kputs dashes k) (\<lambda>k. Inr (k, t))))"

section \<open>Output before the serial driver is initialized\<close>

text \<open>Early output succeeds while it is short, and stores what it copies below address 2048.\<close>

definition rows :: "cio_state \<Rightarrow> bool" where
  "rows ci \<longleftrightarrow> min_y ci = 0 \<and> max_y ci = 24"

lemma drawn_rows: "drawn ci ci' \<Longrightarrow> rows ci' = rows ci"
  unfolding drawn_def rows_def by (cases ci, cases ci') simp

definition early :: "nat \<Rightarrow> kernel \<Rightarrow> kernel \<Rightarrow> bool" where
  "early n k k' \<longleftrightarrow> (\<exists>ci d m. k' = set_mem m (k\<lparr>cio := ci, sio := d\<rparr>) \<and> screen_ok ci \<and> drawn (cio k) ci \<and> outlast d \<le> outlast (sio k) + n \<and>
     (\<forall>a. 2048 \<le> unat a \<longrightarrow> m a = k_mem (km (kst k)) a))"

lemma early_puts_ok:
  assumes "screen_ok (cio k)" "list_all text_char (map of_char s)" "outlast (sio k) + cost (map of_char s) \<le> BUF_SIZE"
  shows "\<exists>k'. early_puts s k = Inr k' \<and> early (cost (map of_char s)) k k'"
proof -
  let ?d = "(sio k)\<lparr>outbuffer := \<lambda>i. k_mem (km (kst k)) (of_nat i)\<rparr>"
  obtain ci d where p: "cio_puts (map of_char s) (cio k, ?d) = Inr (ci, d)" "screen_ok ci" "drawn (cio k) ci" "grew (cost (map of_char s)) ?d d"
    using cio_puts_room [OF assms(1,2), of ?d] assms(3) by auto
  then have "outlast d \<le> outlast (sio k) + cost (map of_char s)" by (simp add: grew_def)
  then show ?thesis using p(1-3) assms(3) unfolding early_puts_def early_def Let_def p(1) bindR_simps prod.case
    by (intro exI [of _ "set_mem _ _"] conjI refl exI [of _ ci] exI [of _ d] exI) auto
qed

lemma earlyD:
  assumes "early n k k'"
  shows "screen_ok (cio k')" "outlast (sio k') \<le> outlast (sio k) + n" "kp (kst k') = kp (kst k)"
    "2048 \<le> unat a \<Longrightarrow> k_mem (km (kst k')) a = k_mem (km (kst k)) a" "\<exists>m. km (kst k') = (km (kst k))\<lparr>k_mem := m\<rparr>" "rows (cio k') = rows (cio k)"
  using assms by (auto simp: early_def set_mem_def mem_upd_def drawn_rows)

text \<open>The addresses from the end of the descriptor table to the memory of the allocator.\<close>

definition low_same :: "mem \<Rightarrow> mem \<Rightarrow> bool" where
  "low_same m m' \<longleftrightarrow> (\<forall>x. 0x2d00 \<le> unat x \<and> unat x < 0x100000 \<longrightarrow> m' x = m x)"

lemma low_same_refl [simp]: "low_same m m"
  by (simp add: low_same_def)

lemma low_same_trans: "low_same a b \<Longrightarrow> low_same b c \<Longrightarrow> low_same a c"
  by (simp add: low_same_def)

lemma early_low_same: "early n k k' \<Longrightarrow> low_same (k_mem (km (kst k))) (k_mem (km (kst k')))"
  using earlyD(4) by (fastforce simp: low_same_def)

lemma early_frep:
  assumes "early n k k'" "frep (km (kst k)) xs" "\<forall>b\<in>set xs. 0x100000 \<le> unat (fst b)"
  shows "frep (km (kst k')) xs"
proof -
  obtain m where m: "km (kst k') = (km (kst k))\<lparr>k_mem := m\<rparr>" using earlyD(5) [OF assms(1)] by blast
  have "m x = k_mem (km (kst k)) x" if "unat x \<in> bytes xs" for x
  proof -
    have "2048 \<le> unat x" using bytes_high [OF assms(3), of x] that by (cases "unat x < 0x100000") auto
    then show ?thesis using earlyD(4) [OF assms(1), of x] m by simp
  qed
  from frep_outside [OF assms(2) this] show ?thesis by (simp add: m)
qed

section \<open>The allocator and the process table\<close>

text \<open>What the memory map has to be: it fits below 1 MB, none of its regions wraps around, and the usable parts do
  not overlap.\<close>

definition map_ok :: "mem \<Rightarrow> nat \<Rightarrow> bool" where
  "map_ok m n \<longleftrightarrow> load32 m MMAP_ADDR = of_nat n \<and> 0 < n \<and> 24 * n \<le> 0xfd2fc \<and> regions_ok m n (MMAP_ADDR + 4) \<and>
     disjoint_blocks (usable_blocks m n (MMAP_ADDR + 4))"

definition boot_pool :: "mem \<Rightarrow> nat \<Rightarrow> block list" where
  "boot_pool m n = fold insert_block (usable_blocks m n (MMAP_ADDR + 4)) []"

lemma boot_pool_high:
  assumes "regions_ok m n reg"
  shows "\<forall>b\<in>set (fold insert_block (usable_blocks m n reg) xs). b \<in> set xs \<or> 0x100000 \<le> unat (fst b)"
  using assms
proof (induction n arbitrary: reg xs)
  case (Suc n)
  show ?case
  proof (cases "usable_part (load_region m reg)")
    case None
    then show ?thesis using Suc.IH [of "reg + 24" xs] Suc.prems by simp
  next
    case (Some bl)
    obtain b l where bl: "bl = (b, l)" by fastforce
    then have "0x100000 \<le> unat b" using usable_part_bounds(1) [of "load_region m reg" b l] Some Suc.prems by simp
    then show ?thesis using Suc.IH [of "reg + 24" xs] Suc.IH [of "reg + 24" "insert_block (b, B2P l) xs"] Suc.prems Some bl
      by (auto simp: set_insert_block)
  qed
qed simp

lemma map_ok_low_same:
  assumes "map_ok m n" "low_same m m'"
  shows "map_ok m' n" "boot_pool m' n = boot_pool m n"
proof -
  have n: "24 * n \<le> 0xfd2fc" using assms(1) by (simp add: map_ok_def)
  have same: "m' x = m x" if "unat (MMAP_ADDR + 4) \<le> unat x" "unat x < 0x100000" for x
    using assms(2) that by (simp add: low_same_def)
  have bound: "unat (MMAP_ADDR + 4) + 24 * n \<le> 0x100000" using n by simp
  note cong = map_cong_low [OF same bound]
  have "load32 m' MMAP_ADDR = load32 m MMAP_ADDR"
  proof (rule load32_cong)
    fix x assume "inr MMAP_ADDR 4 x"
    then have "0x2d00 \<le> unat x" "unat x < 0x2d04" by (simp_all add: inr_nowrap)
    then show "m' x = m x" using assms(2) by (simp add: low_same_def)
  qed
  then show "map_ok m' n" "boot_pool m' n = boot_pool m n"
    using assms(1) cong by (simp_all add: map_ok_def boot_pool_def)
qed

lemma km_init_frep:
  assumes "map_ok (k_mem s) n"
  shows "\<exists>s'. km_init s = Inr s' \<and> frep s' (boot_pool (k_mem s) n) \<and> km_initialized s' \<and> free_slices s' = 0 \<and> low_same (k_mem s) (k_mem s')"
proof -
  define s0 where "s0 = s\<lparr>free_slices := 0, free_pages := 0, n_pages := 0, n_slices := 0, km_initialized := False\<rparr>"
  have s0: "k_mem s0 = k_mem s" "frep s0 []" "free_slices s0 = 0" by (simp_all add: s0_def frep_def)
  have n: "0 < n" "24 * n \<le> 0xfd2fc" "load32 (k_mem s) MMAP_ADDR = of_nat n" using assms by (simp_all add: map_ok_def)
  have "sint (of_nat n :: u32) = int n" using n(2) by (simp add: signed_of_nat signed_take_bit_int_eq_self)
  then have si: "sint (load32 (k_mem s) MMAP_ADDR) = int n" by (simp add: n(3))
  have "unat (MMAP_ADDR + 4) + 24 * n \<le> 0x100000" using n(2) by simp
  from km_init_loop_frep [OF s0(2) _ this] assms obtain s1 where
    S: "km_init_loop n (MMAP_ADDR + 4) s0 = Inr s1" "frep s1 (boot_pool (k_mem s) n)" "free_slices s1 = 0"
      "\<forall>x. unat x < 0x100000 \<longrightarrow> k_mem s1 x = k_mem s0 x"
    by (auto simp: s0 map_ok_def boot_pool_def)
  have "km_init s = Inr (s1\<lparr>km_initialized := True\<rparr>)"
    using S(1) si n(1) by (simp add: km_init_def Let_def flip: s0_def) (simp add: s0_def)
  then show ?thesis using S(2-4) s0(1) by (auto simp: frep_fields low_same_def)
qed

lemma pcb_init_outside:
  assumes "pcb_init s = Inr s'" "N_PROCS \<le> x"
  shows "p_state (ptable s' x) = p_state (ptable s x)"
proof -
  let ?r = "\<lambda>ord qu. qu\<lparr>q_head := None, q_tail := None, q_order := ord, q_length := (0 :: u32)\<rparr>"
  define s0 where "s0 = upd_queue Q_sioread (?r O_FIFO) (upd_queue Q_zombie (?r O_PID)
    (upd_queue Q_sleeping (?r O_WAKEUP) (upd_queue Q_waiting (?r O_PID) (upd_queue Q_ready (?r O_PRIO)
    (upd_queue Q_freelist (?r O_FIFO) (s\<lparr>current := None, next_pid := FIRST_USER_PID\<rparr>))))))"
  have init: "pcb_init s = free_all [0..<N_PROCS] s0" by (simp add: pcb_init_def QINIT_ok s0_def)
  have "qrep s0 Q_freelist []" "q_order (queues s0 Q_freelist) = O_FIFO" by (simp_all add: qrep_def s0_def)
  moreover have "set [0..<N_PROCS] \<subseteq> {..<N_PROCS}" by auto
  ultimately obtain s1 where "free_all [0..<N_PROCS] s0 = Inr s1" "\<forall>x. x \<notin> set [0..<N_PROCS] \<longrightarrow> p_state (ptable s1 x) = p_state (ptable s0 x)"
    using free_all_fifo [of s0 "[]" "[0..<N_PROCS]"] unfolding append_Nil by (metis distinct_upt)
  then show ?thesis using assms init by (auto simp: s0_def)
qed

text \<open>The table after its initialization: every PCB is in the free list and none waits.\<close>

lemma pcb_init_placed:
  assumes "\<forall>x\<ge>N_PROCS. calm (p_state (ptable s x))"
  shows "\<exists>s'. pcb_init s = Inr s' \<and> placed {} boot_lists s' \<and> current s' = None \<and> next_pid s' = FIRST_USER_PID"
proof -
  obtain s' where s': "pcb_init s = Inr s'" "qreps s' boot_lists" "current s' = None" "next_pid s' = FIRST_USER_PID"
    "\<forall>p<N_PROCS. p_state (ptable s' p) = STATE_UNUSED" by (rule pcb_init_ok)
  have "calm (p_state (ptable s' x))" for x
    using s'(5) pcb_init_outside [OF s'(1), of x] assms by (cases "x < N_PROCS") auto
  moreover have "x \<in> set (boot_lists q) \<longleftrightarrow> q = Q_freelist \<and> x < N_PROCS" for x q by (simp add: boot_lists_def del: upt_rec_numeral)
  ultimately have "placed {} boot_lists s'" using s'(2,5) by (auto simp: placed_def)
  then show ?thesis using s' by blast
qed

section \<open>The modules come up\<close>

definition boot_handlers :: "isr_table \<Rightarrow> isr_table" where
  "boot_handlers t = (first_handlers t)
     (VEC_KBD := Keyboard_isr, VEC_TIMER := Clk_isr, VEC_COM1 := Sio_isr, VEC_SYSCALL := Sys_isr)"

lemma early_step:
  assumes "screen_ok (cio k)" "outlast (sio k) \<le> b" "list_all text_char (map of_char s)" "cost (map of_char s) \<le> c" "b + c \<le> BUF_SIZE"
  obtains k' where "early_puts s k = Inr k'" "early c k k'" "screen_ok (cio k')" "outlast (sio k') \<le> b + c"
proof -
  obtain k' where k': "early_puts s k = Inr k'" "early (cost (map of_char s)) k k'"
    using early_puts_ok [OF assms(1,3)] assms(2,4,5) by auto
  have "early c k k'" using k'(2) assms(4) unfolding early_def by (auto intro: le_trans [OF _ add_left_mono])
  then show thesis using that k'(1) earlyD(1,2) assms(2) by (meson add_le_mono1 le_trans)
qed

lemma early_texts:
  "list_all text_char (map of_char (''System initialization starting.'' @ NL))" "cost (map of_char (''System initialization starting.'' @ NL)) \<le> 120"
  "list_all text_char (map of_char dashes)" "cost (map of_char dashes) \<le> 120"
  "list_all text_char (map of_char ''Modules:'')" "cost (map of_char ''Modules:'') \<le> 10"
  "list_all text_char (map of_char '' Kmem'')" "cost (map of_char '' Kmem'') \<le> 10"
  "list_all text_char (map of_char '' Clock'')" "cost (map of_char '' Clock'') \<le> 10"
  "list_all text_char (map of_char '' Procs'')" "cost (map of_char '' Procs'') \<le> 10"
  "list_all text_char (map of_char '' Sio'')" "cost (map of_char '' Sio'') \<le> 10"
  by (simp_all add: NL_def dashes_def text_char_def char_cost_def)

text \<open>The state in which the first module starts.\<close>

lemma init_interrupts_low:
  "\<exists>m. init_interrupts stubs (k, t) = Inr (init_pic (set_mem m k), first_handlers t) \<and> low_same (k_mem (km (kst k))) m"
proof (intro exI conjI)
  let ?m = "idt_from 0 stubs (k_mem (km (kst k)))"
  show "init_interrupts stubs (k, t) = Inr (init_pic (set_mem ?m k), first_handlers t)"
    by (simp add: init_interrupts_def init_idt_eq)
  have "\<not> unat (x - IDT_ADDR) < 2048" if "0x2d00 \<le> unat x" for x
    using that by (simp add: unat_sub word_le_nat_alt)
  then show "low_same (k_mem (km (kst k))) ?m" by (simp add: low_same_def idt_from_def Let_def)
qed

lemma init_pic_fields [simp]: "kst (init_pic k) = kst k" "sio (init_pic k) = sio k" "cio (init_pic k) = cio k"
  by (simp_all add: init_pic_def port_write_def)

lemma set_mem_fields [simp]: "sio (set_mem m k) = sio k" "cio (set_mem m k) = cio k" "kp (kst (set_mem m k)) = kp (kst k)"
  "km (kst (set_mem m k)) = (km (kst k))\<lparr>k_mem := m\<rparr>"
  by (simp_all add: set_mem_def mem_upd_def)

lemma set_km_fields [simp]: "sio (set_km ms k) = sio k" "cio (set_km ms k) = cio k" "kp (kst (set_km ms k)) = kp (kst k)"
  "km (kst (set_km ms k)) = ms"
  by (simp_all add: set_km_def)

lemma clk_init_fields [simp]: "kst (clk_init k) = kst k" "sio (clk_init k) = sio k" "cio (clk_init k) = cio k"
  by (simp_all add: clk_init_def)

lemma cleared_screen_ok: "screen_ok (cio_clearscreen (cio_init ci))"
  by (simp add: cio_clearscreen_def cio_init_def screen_ok_def Let_def)

text \<open>The allocator with the pool \<open>xs\<close> above 1 MB and no slices.\<close>

definition fresh_pool :: "kms \<Rightarrow> block list \<Rightarrow> bool" where
  "fresh_pool s xs \<longleftrightarrow> frep s xs \<and> km_initialized s \<and> free_slices s = 0"

lemma early_fresh_pool:
  assumes "early n k k'" "fresh_pool (km (kst k)) xs" "\<forall>b\<in>set xs. 0x100000 \<le> unat (fst b)"
  shows "fresh_pool (km (kst k')) xs"
  using early_frep [OF assms(1) _ assms(3)] assms(2) earlyD(5) [OF assms(1)] by (auto simp: fresh_pool_def)

lemma prints_kputs:
  assumes "list_all text_char (map of_char s)" "cost (map of_char s) \<le> n"
  shows "prints n (kputs s)"
  unfolding prints_def
proof (intro allI impI, elim conjE)
  fix k :: kernel
  assume "screen_ok (cio k)" "outlast (sio k) + n \<le> BUF_SIZE"
  then obtain ci d where "kputs s k = Inr (k\<lparr>cio := ci, sio := d\<rparr>)" "screen_ok ci" "drawn (cio k) ci" "grew (cost (map of_char s)) (sio k) d"
    using printsE [OF prints_puts [OF assms(1)], of k] assms(2) by (auto simp: kputs_def)
  then show "\<exists>ci d. kputs s k = Inr (k\<lparr>cio := ci, sio := d\<rparr>) \<and> screen_ok ci \<and> drawn (cio k) ci \<and> grew n (sio k) d"
    using assms(2) by (intro exI [of _ ci] exI [of _ d]) (simp add: grew_def)
qed

lemma sys_user_prints: "prints 4 (kputs '' Sys'')" "prints 5 (kputs '' User'')"
  by (rule prints_kputs; simp add: text_char_def char_cost_def)+

lemma init_modules_ok:
  fixes k :: kernel and t :: isr_table
  assumes map: "map_ok (k_mem (km (kst k))) n" and bss: "outlast (sio k) = 0"
    and tab: "\<forall>x\<ge>N_PROCS. calm (p_state (ptable (kp (kst k)) x))"
  defines "xs \<equiv> boot_pool (k_mem (km (kst k))) n"
  shows "\<exists>k'. init_modules im (k, t) = Inr (k', boot_handlers t) \<and> screen_ok (cio k') \<and> outlast (sio k') \<le> 9 \<and>
    fresh_pool (km (kst k')) xs \<and> low_same (k_mem (km (kst k))) (k_mem (km (kst k'))) \<and>
    placed {} boot_lists (kp (kst k')) \<and> current (kp (kst k')) = None \<and> rows (cio k')"
proof -
  let ?m0 = "k_mem (km (kst k))"
  obtain m where m: "init_interrupts (isr_stub_table im) (k, t) = Inr (init_pic (set_mem m k), first_handlers t)" "low_same ?m0 m"
    using init_interrupts_low by blast
  have high: "\<forall>b\<in>set xs. 0x100000 \<le> unat (fst b)"
    using boot_pool_high [of ?m0 n "MMAP_ADDR + 4" "[]"] map by (simp add: xs_def boot_pool_def map_ok_def)
  define k0 where "k0 = (init_pic (set_mem m k))\<lparr>cio := cio_clearscreen (cio_init (cio (init_pic (set_mem m k))))\<rparr>"
  have s0: "screen_ok (cio k0)" "outlast (sio k0) \<le> 0" "low_same ?m0 (k_mem (km (kst k0)))" "kp (kst k0) = kp (kst k)" "rows (cio k0)"
    using m(2) bss cleared_screen_ok by (simp_all add: k0_def rows_def cio_clearscreen_def cio_init_def)
  obtain k1 where k1: "early_puts (''System initialization starting.'' @ NL) k0 = Inr k1" "early 120 k0 k1" "screen_ok (cio k1)" "outlast (sio k1) \<le> 120"
    using early_step [OF s0(1,2) early_texts(1,2)] by auto
  obtain k2 where k2: "early_puts dashes k1 = Inr k2" "early 120 k1 k2" "screen_ok (cio k2)" "outlast (sio k2) \<le> 240"
    using early_step [OF k1(3,4) early_texts(3,4)] by auto
  obtain k3 where k3: "early_puts ''Modules:'' k2 = Inr k3" "early 10 k2 k3" "screen_ok (cio k3)" "outlast (sio k3) \<le> 250"
    using early_step [OF k2(3,4) early_texts(5,6)] by auto
  obtain k4 where k4: "early_puts '' Kmem'' k3 = Inr k4" "early 10 k3 k4" "screen_ok (cio k4)" "outlast (sio k4) \<le> 260"
    using early_step [OF k3(3,4) early_texts(7,8)] by auto
  have low4: "low_same ?m0 (k_mem (km (kst k4)))"
    using s0(3) k1(2) k2(2) k3(2) k4(2) by (meson early_low_same low_same_trans)
  obtain ms where ms: "km_init (km (kst k4)) = Inr ms" "fresh_pool ms xs" "low_same (k_mem (km (kst k4))) (k_mem ms)"
    using km_init_frep [OF map_ok_low_same(1) [OF map low4]] map_ok_low_same(2) [OF map low4] by (auto simp: fresh_pool_def xs_def)
  obtain k5 where k5: "early_puts '' Clock'' (set_km ms k4) = Inr k5" "early 10 (set_km ms k4) k5" "screen_ok (cio k5)" "outlast (sio k5) \<le> 270"
    using early_step [OF _ _ early_texts(9,10), of "set_km ms k4" 260] k4(3,4) by auto
  obtain k6 where k6: "early_puts '' Procs'' (clk_init k5) = Inr k6" "early 10 (clk_init k5) k6" "screen_ok (cio k6)" "outlast (sio k6) \<le> 280"
    using early_step [OF _ _ early_texts(11,12), of "clk_init k5" 270] k5(3,4) by auto
  have kp6: "kp (kst k6) = kp (kst k)"
    using s0(4) earlyD(3) [OF k1(2)] earlyD(3) [OF k2(2)] earlyD(3) [OF k3(2)] earlyD(3) [OF k4(2)] earlyD(3) [OF k5(2)] earlyD(3) [OF k6(2)]
    by simp
  have rows6: "rows (cio k6)"
    using s0(5) earlyD(6) [OF k1(2)] earlyD(6) [OF k2(2)] earlyD(6) [OF k3(2)] earlyD(6) [OF k4(2)] earlyD(6) [OF k5(2)] earlyD(6) [OF k6(2)]
    by simp
  obtain ps where ps: "pcb_init (kp (kst k6)) = Inr ps" "placed {} boot_lists ps" "current ps = None"
    using pcb_init_placed [of "kp (kst k6)"] tab kp6 by auto
  let ?k6 = "k6\<lparr>kst := (kst k6)\<lparr>kp := ps\<rparr>\<rparr>"
  obtain k7 where k7: "early_puts '' Sio'' ?k6 = Inr k7" "early 10 ?k6 k7" "screen_ok (cio k7)" "outlast (sio k7) \<le> 290"
    using early_step [OF _ _ early_texts(13,14), of ?k6 280] k6(3,4) by auto
  have pool: "fresh_pool (km (kst k7)) xs"
    using early_fresh_pool [OF k5(2) _ high] early_fresh_pool [OF k6(2) _ high] early_fresh_pool [OF k7(2) _ high] ms(2) by simp
  have low: "low_same ?m0 (k_mem (km (kst k7)))"
    using low4 ms(3) early_low_same [OF k5(2)] early_low_same [OF k6(2)] early_low_same [OF k7(2)] by (auto elim!: low_same_trans)
  have rows: "rows (cio k7)" using rows6 earlyD(6) [OF k7(2)] by simp
  let ?k7 = "k7\<lparr>sio := sio_init (sio k7)\<rparr>"
  have s7: "screen_ok (cio ?k7)" "outlast (sio ?k7) = 0" using k7(3) by (simp_all add: sio_init_def outb_def)
  obtain ci d where 8: "kputs '' Sys'' ?k7 = Inr (?k7\<lparr>cio := ci, sio := d\<rparr>)" "screen_ok ci" "grew 4 (sio ?k7) d" "drawn (cio k7) ci"
    using printsE [OF sys_user_prints(1) s7(1)] s7(2) by auto
  let ?k8 = "?k7\<lparr>cio := ci, sio := d\<rparr>"
  obtain ci' d' where 9: "kputs '' User'' ?k8 = Inr (?k8\<lparr>cio := ci', sio := d'\<rparr>)" "screen_ok ci'" "grew 5 d d'" "drawn ci ci'"
    using printsE [OF sys_user_prints(2), of ?k8] 8(2,3) s7(2) by (auto simp: grew_def)
  let ?k9 = "?k8\<lparr>cio := ci', sio := d'\<rparr>"
  have inst: "install_isr VEC_KBD h t = Inr (t VEC_KBD, t(VEC_KBD := h))" "install_isr VEC_TIMER h t = Inr (t VEC_TIMER, t(VEC_TIMER := h))"
    "install_isr VEC_COM1 h t = Inr (t VEC_COM1, t(VEC_COM1 := h))" "install_isr VEC_SYSCALL h t = Inr (t VEC_SYSCALL, t(VEC_SYSCALL := h))" for h t
    by (simp_all add: install_isr_def)
  have "init_modules im (k, t) = Inr (?k9, boot_handlers t)"
    unfolding init_modules_def m(1) bindR_simps prod.case inst k0_def [symmetric] k1(1) k2(1) k3(1) k4(1) ms(1) k5(1) k6(1) ps(1)
      k7(1) 8(1) 9(1) boot_handlers_def by (rule refl)
  moreover have "screen_ok (cio ?k9)" "outlast (sio ?k9) \<le> 9" "fresh_pool (km (kst ?k9)) xs"
    "low_same ?m0 (k_mem (km (kst ?k9)))" "placed {} boot_lists (kp (kst ?k9))" "current (kp (kst ?k9)) = None" "rows (cio ?k9)"
    using drawn_rows [OF 8(4)] drawn_rows [OF 9(4)] rows 8(3) 9(2,3) s7(2) pool low earlyD(3) [OF k7(2)] ps(2,3) by (simp_all add: grew_def)
  ultimately show ?thesis by blast
qed

section \<open>The network without a device\<close>

lemma net_init_no_device:
  fixes k :: kernel
  assumes none: "find (has_id bus pci 0x8086 0x1227) places = None" "find (has_id bus pci 0x8086 0x1229) places = None"
    and pool: "fresh_pool (km (kst k)) xs" "first_fit 1 xs = Some (p, ys)" "\<forall>b\<in>set xs. 0x100000 \<le> unat (fst b)"
    and con: "screen_ok (cio k)" "outlast (sio k) + 230 \<le> BUF_SIZE"
  shows "\<exists>a ms ci d. net_init bus pci reads test_str l k = Inr (- 1, pci\<lparr>cf_addr := a\<rparr>, reads, (set_km ms k)\<lparr>cio := ci, sio := d\<rparr>) \<and>
    frep ms ys \<and> km_initialized ms \<and> low_same (k_mem (km (kst k))) (k_mem ms) \<and> screen_ok ci \<and> drawn (cio k) ci \<and> grew 230 (sio k) d"
proof -
  let ?pc = "\<lparr>busno = 0, device = 0, function_no = 0, base_addr = replicate 6 0, bar_size = replicate 6 0\<rparr>"
  obtain ms where ms: "km_slice_alloc (km (kst k)) = Inr (p + 3072, ms)" "frep ms ys" "km_initialized ms"
    "\<forall>x. unat x \<notin> bytes xs \<longrightarrow> k_mem ms x = k_mem (km (kst k)) x"
    using km_slice_alloc_carves [of "km (kst k)" xs p ys] pool(1,2) unfolding fresh_pool_def by metis
  have low: "low_same (k_mem (km (kst k))) (k_mem ms)" using ms(4) bytes_high [OF pool(3)] unfolding low_same_def by blast
  obtain a1 where f1: "pci_find_device_by_id bus 0x8086 0x1227 ?pc pci = (- 1, ?pc, pci\<lparr>cf_addr := a1\<rparr>)"
    using find_id_loop_eq [of bus "0x8086" "0x1227" places ?pc pci] none(1) by (auto simp: pci_find_device_by_id_def places_def)
  obtain a2 where f2: "pci_find_device_by_id bus 0x8086 0x1229 ?pc (pci\<lparr>cf_addr := a1\<rparr>) = (- 1, ?pc, pci\<lparr>cf_addr := a2\<rparr>)"
    using find_id_loop_eq [of bus "0x8086" "0x1229" places ?pc "pci\<lparr>cf_addr := a1\<rparr>"] none(2)
    by (auto simp: pci_find_device_by_id_def places_def)
  have pr: "prints 110 (puts_line ''No Intel 8255x NIC found'')" "prints 120 (puts_line ''Failed to initialize i8255x'')"
    using prints_kputs [of "''No Intel 8255x NIC found'' @ NL" 110] prints_kputs [of "''Failed to initialize i8255x'' @ NL" 120]
    by (simp_all add: puts_line_def kputs_def NL_def text_char_def char_cost_def)
  obtain ci d where 1: "puts_line ''No Intel 8255x NIC found'' (set_km ms k) = Inr ((set_km ms k)\<lparr>cio := ci, sio := d\<rparr>)"
    "screen_ok ci" "grew 110 (sio k) d" "drawn (cio k) ci"
    using printsE [OF pr(1), of "set_km ms k"] con by auto
  let ?k1 = "(set_km ms k)\<lparr>cio := ci, sio := d\<rparr>"
  obtain ci' d' where 2: "puts_line ''Failed to initialize i8255x'' ?k1 = Inr (?k1\<lparr>cio := ci', sio := d'\<rparr>)" "screen_ok ci'" "grew 120 d d'" "drawn ci ci'"
    using printsE [OF pr(2), of ?k1] con(2) 1(2,3) by (auto simp: grew_def)
  have "net_init bus pci reads test_str l k = Inr (- 1, pci\<lparr>cf_addr := a2\<rparr>, reads, ?k1\<lparr>cio := ci', sio := d'\<rparr>)"
    unfolding net_init_def i8255x_init_def ms(1) bindR_simps prod.case Let_def f1 using f2 1(1) 2(1) by simp
  then show ?thesis using ms(2,3) low 2(2) grew_trans [OF 1(3) 2(3)] drawn_trans [OF 1(4) 2(4)] by fastforce
qed

section \<open>The first process is created\<close>

text \<open>The string constants lie in the image of the kernel, and the kernel stack with the local array behind them.\<close>

definition in_image :: "image \<Rightarrow> mem \<Rightarrow> addr \<Rightarrow> string \<Rightarrow> bool" where
  "in_image im m p s \<longleftrightarrow> 0x10000 \<le> unat p \<and> unat p + length s < unat (args_at im) \<and> cstr m p (map of_char s)"

definition image_ok :: "image \<Rightarrow> mem \<Rightarrow> bool" where
  "image_ok im m \<longleftrightarrow> in_image im m (init_str im) ''init'' \<and> in_image im m (plus_str im) ''+'' \<and> unat (args_at im) + 12 \<le> 0x100000"

lemma in_image_same:
  assumes "in_image im m p s" "unat (args_at im) + 12 \<le> 0x100000"
    and "\<And>x. 0x10000 \<le> unat x \<Longrightarrow> unat x < unat (args_at im) \<Longrightarrow> m' x = m x"
  shows "in_image im m' p s"
proof -
  have "m' (p + of_nat i) = m (p + of_nat i)" if "i \<le> length (map of_char s :: u8 list)" for i
  proof -
    have "unat (p + of_nat i) = unat p + i" using assms(1,2) that by (intro unat_add_nowrap) (simp add: in_image_def)
    then show ?thesis using assms that by (simp add: in_image_def)
  qed
  then have "cstr m' p (map of_char s) = cstr m p (map of_char s)" by (intro cstr_cong) simp
  then show ?thesis using assms(1) by (simp add: in_image_def)
qed

lemma image_ok_low_same:
  assumes "image_ok im m" "low_same m m'"
  shows "image_ok im m'"
proof -
  have "m' x = m x" if "0x10000 \<le> unat x" "unat x < unat (args_at im)" for x
    using assms that by (simp add: low_same_def image_ok_def)
  then show ?thesis using assms(1) in_image_same unfolding image_ok_def by blast
qed

lemma store_args_argv:
  assumes "image_ok im m" "low_same (store_args im m) m'"
  shows "argv m' (args_at im) [map of_char ''init'', map of_char ''+'']"
proof -
  let ?a = "args_at im" and ?m = "store_args im m"
  have a: "unat ?a + 12 \<le> 0x100000" "0x10000 < unat ?a" using assms(1) by (auto simp: image_ok_def in_image_def)
  have u: "unat (?a + 4) = unat ?a + 4" "unat (?a + 8) = unat ?a + 8"
    using unat_add_nowrap [of ?a 4] unat_add_nowrap [of ?a 8] a by simp_all
  have args: "load32 ?m ?a = init_str im" "load32 ?m (?a + 4) = plus_str im" "load32 ?m (?a + 8) = 0"
    by (simp_all add: store_args_def load32_store32_apart apart_def)
  have "load32 m' (?a + of_nat k) = load32 ?m (?a + of_nat k)" if "k \<le> 8" for k
  proof (rule load32_cong)
    fix x assume "inr (?a + of_nat k) 4 x"
    moreover have "unat (?a + of_nat k) = unat ?a + k" using a that by (intro unat_add_nowrap) simp
    ultimately show "m' x = ?m x" using assms(2) a that by (simp add: low_same_def inr_nowrap)
  qed
  from this [of 0] this [of 4] this [of 8] args
  have loads: "load32 m' ?a = init_str im" "load32 m' (?a + 4) = plus_str im" "load32 m' (?a + 8) = 0" by simp_all
  have "m' x = m x" if "0x10000 \<le> unat x" "unat x < unat ?a" for x
  proof -
    have "\<not> inr ?a 4 x" "\<not> inr (?a + 4) 4 x" "\<not> inr (?a + 8) 4 x" using that a u by (simp_all add: inr_nowrap)
    then show ?thesis using assms(2) that a(1) by (simp add: low_same_def store_args_def store32_other)
  qed
  then have "in_image im m' (init_str im) ''init''" "in_image im m' (plus_str im) ''+''"
    using assms(1) in_image_same unfolding image_ok_def by blast+
  then show ?thesis using loads by (auto simp: in_image_def add.assoc)
qed

text \<open>The first PCB of the free list becomes the process \<open>0\<close>, which is scheduled and dispatched.\<close>

lemma first_pcb:
  assumes "placed {} boot_lists s"
  obtains s' where "pcb_alloc s = Inr (SUCCESS, Some 0, s')" "sched_inv {0} s'"
    "qreps s' (boot_lists(Q_freelist := [1..<N_PROCS]))" "current s' = current s"
proof -
  have "boot_lists Q_freelist = 0 # [1..<N_PROCS]" unfolding boot_lists_def by (simp del: upt_rec_numeral add: upt_conv_Cons)
  from pcb_alloc_qreps [OF placedD(1) [OF assms] this] obtain s' where
    a: "pcb_alloc s = Inr (SUCCESS, Some 0, s')" "qreps s' (boot_lists(Q_freelist := [1..<N_PROCS]))"
    "frame Q_freelist (set (boot_lists Q_freelist)) s s'" .
  then have r: "pcb_queue_remove Q_freelist s = Inr (SUCCESS, Some 0, s')" by (auto simp: pcb_alloc_def bindR_eq_Inr split: if_splits)
  have "sched_inv {} s" using assms by (auto simp: sched_inv_def)
  from sched_inv_remove(1) [OF this r] have "sched_inv {0} s'" by simp
  moreover have "current s' = current s" using a(3) by (simp add: frame_def)
  ultimately show thesis using that a(1,2) by blast
qed

lemma first_dispatch:
  assumes "sched_inv {0} (kp s)" "qreps (kp s) (boot_lists(Q_freelist := [1..<N_PROCS]))" "p_state (ptable (kp s) 0) = STATE_NEW"
  obtains s' ps where "schedule (Some 0) s = Inr s'" "dispatch ((kp s')\<lparr>current := None\<rparr>) = Inr ps" "km s' = km s" "runs 0 ps"
    "init_pcb ps = init_pcb (kp s)"
    "same_pcb (ptable ps 0) ((ptable (kp s) 0)\<lparr>p_state := STATE_RUNNING, p_ticks := QUANTUM_STANDARD\<rparr>)"
proof -
  define L where "L = boot_lists(Q_freelist := [1..<N_PROCS])"
  have L: "qreps (kp s) L" "0 \<notin> set (L q)" "L Q_ready = []" for q using assms(2) by (simp_all add: L_def boot_lists_def)
  have "p_state (ptable (kp s) 0) \<noteq> STATE_KILLED" by (simp add: assms(3))
  from schedule_not_killed [OF L(1) _ L(2) this] obtain s' where
    S: "schedule (Some 0) s = Inr s'" "km s' = km s" "qreps (kp s') (L(Q_ready := qins (kp s) Q_ready 0 (L Q_ready)))"
    "\<forall>x. same_pcb (ptable (kp s') x) (if x = 0 then (ptable (kp s) x)\<lparr>p_state := STATE_READY\<rparr> else ptable (kp s) x)"
    "init_pcb (kp s') = init_pcb (kp s)" by auto
  have q: "qins (kp s) Q_ready 0 (L Q_ready) = [0]" unfolding L(3) by (simp add: qins_def insert_after_def)
  let ?s1 = "(kp s')\<lparr>current := None\<rparr>"
  have "qreps ?s1 (L(Q_ready := [0]))" using S(3) unfolding q by simp
  from dispatch_qreps [OF this, of 0 "[]"] obtain ps where
    D: "dispatch ?s1 = Inr ps" "current ps = Some 0" "init_pcb ps = init_pcb ?s1"
    "\<forall>x. same_pcb (ptable ps x) (if x = 0 then (ptable ?s1 x)\<lparr>p_state := STATE_RUNNING, p_ticks := QUANTUM_STANDARD\<rparr> else ptable ?s1 x)"
    by auto
  have pcb0: "same_pcb (ptable ps 0) ((ptable (kp s) 0)\<lparr>p_state := STATE_RUNNING, p_ticks := QUANTUM_STANDARD\<rparr>)"
    using D(4) [rule_format, of 0] S(4) [rule_format, of 0] by (simp add: same_pcb_iff)
  have "sched_inv {} ?s1" using sched_inv_schedule(1) [OF assms(1) _ S(1)] by simp
  from sched_inv_dispatch [OF this D(1)] D(2) have "sched_inv {0} ps" by auto
  then have "runs 0 ps" using D(2) pcb0 by (simp add: runs_def same_pcb_iff)
  then show thesis using that S(1,2,5) D(1,3) pcb0 by simp
qed

lemma sched_inv_init_pcb [simp]: "sched_inv S (s\<lparr>init_pcb := i\<rparr>) = sched_inv S s"
  by (simp add: sched_inv_def placed_def)

lemma filled_pcb:
  fixes ctx stk :: addr and n :: u32
  assumes "sched_inv {0} s" "qreps s L"
  defines "s' \<equiv> upd_pcb 0 (\<lambda>c. c\<lparr>p_context := ctx, p_parent := Some 0\<rparr>)
    (upd_pcb 0 (\<lambda>c. c\<lparr>p_stack := stk, p_stkpgs := n\<rparr>)
      (upd_pcb 0 (\<lambda>c. c\<lparr>p_pid := PID_INIT, p_state := STATE_NEW, p_priority := 0\<rparr>) (s\<lparr>init_pcb := Some 0\<rparr>)))"
  shows "sched_inv {0} s'" "qreps s' L" "p_state (ptable s' 0) = STATE_NEW" "init_pcb s' = Some 0"
    "p_pid (ptable s' 0) = PID_INIT" "p_parent (ptable s' 0) = Some 0" "p_context (ptable s' 0) = ctx"
    "p_stack (ptable s' 0) = stk" "p_stkpgs (ptable s' 0) = n" "p_priority (ptable s' 0) = 0"
  using assms(1,2) unfolding s'_def by (auto intro!: sched_inv_upd qreps_upd_pcb)

text \<open>The stack of \<^verbatim>\<open>init\<close> comes from the pool; the argument vector lies outside it.\<close>

lemma boot_stack:
  assumes "frep k ys" "km_initialized k" "\<forall>b\<in>set ys. 0x100000 \<le> unat (fst b)" "first_fit N_USTKPAGES ys = Some (stk, zs)"
    and "image_ok im (k_mem k)"
  obtains ms where "pcb_stack_alloc N_USTKPAGES (k\<lparr>k_mem := store_args im (k_mem k)\<rparr>) = Inr (stk, ms)"
    "pool ms (bytes ys - span stk N_USTKPAGES)" "span stk N_USTKPAGES \<subseteq> bytes ys" "unat stk + 2 * SZ_PAGE \<le> 2 ^ 32" "0x100000 \<le> unat stk"
    "low_same (store_args im (k_mem k)) (k_mem ms)"
proof -
  let ?k = "k\<lparr>k_mem := store_args im (k_mem k)\<rparr>"
  have "store_args im (k_mem k) x = k_mem k x" if "unat x \<in> bytes ys" for x
  proof -
    have "0x100000 \<le> unat x" using bytes_high [OF assms(3), of x] that by linarith
    then have "\<not> inr (args_at im) 4 x" "\<not> inr (args_at im + 4) 4 x" "\<not> inr (args_at im + 8) 4 x"
      using assms(5) unat_add_nowrap [of "args_at im" 4] unat_add_nowrap [of "args_at im" 8] by (simp_all add: image_ok_def inr_nowrap)
    then show ?thesis by (simp add: store_args_def store32_other)
  qed
  then have rep: "frep ?k ys" by (rule frep_outside [OF assms(1)])
  obtain as n bs where "ys = as @ (stk, n) # bs" using first_fit_Some [OF assms(4)] by metis
  then have high: "0x100000 \<le> unat stk" "stk \<noteq> 0" using assms(3) by auto
  obtain k1 where "km_page_alloc N_USTKPAGES ?k = Inr (stk, k1)"
    using km_page_alloc_Some [OF rep _ _ assms(4)] assms(2) by auto
  then obtain ms where a: "pcb_stack_alloc N_USTKPAGES ?k = Inr (stk, ms)" by (simp add: pcb_stack_alloc_def)
  have "pool ?k (bytes ys)" using rep assms(2) by (auto simp: pool_def)
  note S = pcb_stack_alloc_pool [OF this a high(2)]
  have pages: "stk_pages N_USTKPAGES = N_USTKPAGES" by (simp add: stk_pages_def)
  have "low_same (store_args im (k_mem k)) (k_mem ms)" using S(5) bytes_high [OF assms(3)] unfolding low_same_def by force
  then show thesis using that a S(1-3) high(1) unfolding pages stack_ok_def by simp
qed

lemma create_init_ok:
  assumes "placed {} boot_lists (kp s)"
    and "frep (km s) ys" "km_initialized (km s)" "\<forall>b\<in>set ys. 0x100000 \<le> unat (fst b)" "first_fit N_USTKPAGES ys = Some (stk, zs)"
    and "image_ok im (k_mem (km s))" "unat stk mod 4 = 0"
  shows "\<exists>s' ctx. create_init im s = Inr s' \<and> runs 0 (kp s') \<and> init_pcb (kp s') = Some 0 \<and>
    p_pid (ptable (kp s') 0) = PID_INIT \<and> p_parent (ptable (kp s') 0) = Some 0 \<and> p_priority (ptable (kp s') 0) = 0 \<and>
    p_ticks (ptable (kp s') 0) = QUANTUM_STANDARD \<and> p_context (ptable (kp s') 0) = ctx \<and> unat ctx \<in> span stk N_USTKPAGES \<and>
    load32 (k_mem (km s')) (ctx + 60) = init_at im \<and> load32 (k_mem (km s')) (ctx + 72) = fake_exit_at im \<and>
    argv (k_mem (km s')) (ctx + 84) [map of_char ''init'', map of_char ''+''] \<and>
    pool (km s') (bytes ys - span stk N_USTKPAGES)"
proof -
  let ?ss = "[map of_char ''init'', map of_char ''+''] :: u8 list list" and ?B = "bytes ys - span stk N_USTKPAGES"
  from first_pcb [OF assms(1)] obtain ps where
    a: "pcb_alloc (kp s) = Inr (SUCCESS, Some 0, ps)" "sched_inv {0} ps" "qreps ps (boot_lists(Q_freelist := [1..<N_PROCS]))" by metis
  from boot_stack [OF assms(2-6)] obtain ms where
    b: "pcb_stack_alloc N_USTKPAGES ((km s)\<lparr>k_mem := store_args im (k_mem (km s))\<rparr>) = Inr (stk, ms)" "pool ms ?B"
      "unat stk + 2 * SZ_PAGE \<le> 2 ^ 32" "0x100000 \<le> unat stk" "low_same (store_args im (k_mem (km s))) (k_mem ms)" by metis
  let ?s1 = "mem_upd (store_args im) (s\<lparr>kp := upd_pcb 0 (\<lambda>c. c\<lparr>p_pid := PID_INIT, p_state := STATE_NEW, p_priority := 0\<rparr>)
                  (ps\<lparr>init_pcb := Some 0\<rparr>)\<rparr>)"
  let ?s2 = "kp_upd (upd_pcb 0 (\<lambda>c. c\<lparr>p_stack := stk, p_stkpgs := N_USTKPAGES\<rparr>)) (?s1\<lparr>km := ms\<rparr>)"
  have s1: "km ?s1 = (km s)\<lparr>k_mem := store_args im (k_mem (km s))\<rparr>" by (simp add: mem_upd_def)
  have s2: "stk = p_stack (ptable (kp ?s2) 0)" "km ?s2 = ms" by (simp_all add: kp_upd_def)
  have "argv (k_mem (km ?s2)) (args_at im) ?ss" unfolding s2(2) by (rule store_args_argv [OF assms(6) b(5)])
  from stack_setup_frame [OF s2(1) assms(7) b(3) this, of "fake_exit_at im" "init_at im"] obtain ctx m' where
    c: "stack_setup (fake_exit_at im) 0 (init_at im) (args_at im) ?s2 = Inr (ctx, mem_upd (\<lambda>_. m') ?s2)"
      "unat stk \<le> unat ctx" "unat ctx < unat stk + 2 * SZ_PAGE" "load32 m' (ctx + 60) = init_at im"
      "load32 m' (ctx + 72) = fake_exit_at im" "argv m' (ctx + 84) ?ss" "\<forall>x. \<not> inr stk (2 * SZ_PAGE) x \<longrightarrow> m' x = k_mem ms x"
    unfolding s2(2) by auto
  let ?s4 = "kp_upd (upd_pcb 0 (\<lambda>c. c\<lparr>p_context := ctx, p_parent := Some 0\<rparr>)) (mem_upd (\<lambda>_. m') ?s2)"
  have kp4: "kp ?s4 = upd_pcb 0 (\<lambda>c. c\<lparr>p_context := ctx, p_parent := Some 0\<rparr>)
    (upd_pcb 0 (\<lambda>c. c\<lparr>p_stack := stk, p_stkpgs := N_USTKPAGES\<rparr>)
      (upd_pcb 0 (\<lambda>c. c\<lparr>p_pid := PID_INIT, p_state := STATE_NEW, p_priority := 0\<rparr>) (ps\<lparr>init_pcb := Some 0\<rparr>)))"
    "km ?s4 = ms\<lparr>k_mem := m'\<rparr>"
    by (simp_all add: kp_upd_def mem_upd_def)
  note F = filled_pcb [OF a(2,3), where ctx = ctx and stk = stk and n = N_USTKPAGES, folded kp4(1)]
  from first_dispatch [OF F(1-3)] obtain s5 ps' where
    d: "schedule (Some 0) ?s4 = Inr s5" "dispatch ((kp s5)\<lparr>current := None\<rparr>) = Inr ps'" "km s5 = km ?s4" "runs 0 ps'"
      "init_pcb ps' = init_pcb (kp ?s4)"
      "same_pcb (ptable ps' 0) ((ptable (kp ?s4) 0)\<lparr>p_state := STATE_RUNNING, p_ticks := QUANTUM_STANDARD\<rparr>)" by metis
  have nz: "stk \<noteq> 0" "ctx \<noteq> 0" using b(4) c(2) by auto
  have "create_init im s = Inr (s5\<lparr>kp := ps'\<rparr>)"
    using nz c(1) d(1,2) unfolding create_init_def a(1) bindR_simps prod.case Let_def option.case s1 b(1) by simp
  moreover have "pool (ms\<lparr>k_mem := m'\<rparr>) ?B"
    using c(7) b(3) by (intro pool_write [OF b(2)]) (auto simp: span_def inr_nowrap)
  ultimately show ?thesis using d(3-6) F(4-10) c(2-6) kp4(2)
    by (intro exI [of _ "s5\<lparr>kp := ps'\<rparr>"] exI [of _ ctx]) (simp add: same_pcb_iff span_def)
qed

section \<open>The report of the configuration\<close>

lemma prints_mono: "prints m f \<Longrightarrow> m \<le> n \<Longrightarrow> prints n f"
  unfolding prints_def grew_def by (fastforce intro: le_trans)

lemma prints_newline: "prints 80 (on_con (cio_putchar 10))"
proof -
  have "on_con (cio_putchar 10) = on_con (cio_puts [10])" by (rule ext) (simp add: on_con_def sx_def bindR_def split: sum.splits)
  moreover have "cost [10] = 80" "list_all text_char [10]" by (simp_all add: char_cost_def text_char_def)
  ultimately show ?thesis using prints_puts [of "[10]"] by simp
qed

text \<open>A line with one number.\<close>

lemma prints_number:
  assumes "\<And>m. sprint m (cstring fmt) [v] = Inr (map of_char pre @ num @ map of_char post)" "98 \<notin> set (conversions (cstring fmt))"
    and "plain num" "length num \<le> 11" "list_all text_char (map of_char pre)" "list_all text_char (map of_char post)"
    and "cost (map of_char pre) + cost (map of_char post) + 11 \<le> n"
  shows "prints n (report fmt [v])"
  by (rule prints_report [OF assms(2,1)]) (use assms(3-7) plain_text [OF assms(3)] in simp_all)

lemma config_texts:
  "sprint m (cstring ''Config:  N_PROCS = %d'') [v] = Inr (map of_char ''Config:  N_PROCS = '' @ cvtdec (sint v) @ map of_char [])"
  "sprint m (cstring '' N_PRIOS = %d'') [v] = Inr (map of_char '' N_PRIOS = '' @ cvtdec (sint v) @ map of_char [])"
  "sprint m (cstring '' N_STATES = %d'') [v] = Inr (map of_char '' N_STATES = '' @ cvtdec (sint v) @ map of_char [])"
  "sprint m (cstring ('' CLOCK = %dHz'' @ NL)) [v] = Inr (map of_char '' CLOCK = '' @ cvtdec (sint v) @ map of_char (''Hz'' @ NL))"
  "sprint m (cstring '' SANITY = %d'') [v] = Inr (map of_char '' SANITY = '' @ cvtdec (sint v) @ map of_char [])"
  "sprint m (cstring ('' TRACE = 0x%04x'' @ NL)) [v] =
     Inr (map of_char '' TRACE = 0x'' @ (replicate (4 - length (cvthex v)) 48 @ cvthex v) @ map of_char NL)"
  by (simp_all add: sprint_def cstring_def NL_def format_eqs del: sprint_loop.simps conversions.simps)

lemma config_conversions:
  "98 \<notin> set (conversions (cstring ''Config:  N_PROCS = %d''))" "98 \<notin> set (conversions (cstring '' N_PRIOS = %d''))"
  "98 \<notin> set (conversions (cstring '' N_STATES = %d''))" "98 \<notin> set (conversions (cstring ('' CLOCK = %dHz'' @ NL)))"
  "98 \<notin> set (conversions (cstring '' SANITY = %d''))" "98 \<notin> set (conversions (cstring ('' TRACE = 0x%04x'' @ NL)))"
  by (simp_all add: cstring_def NL_def format_eqs del: conversions.simps)

lemma hex4_plain: "plain (replicate (4 - length (cvthex v)) 48 @ cvthex v)" "length (replicate (4 - length (cvthex v)) 48 @ cvthex v) \<le> 11"
  using cvt_plain(3,4) [of v] by (auto simp: plain_def list_all_iff)

lemma config_prints:
  "prints 40 (report ''Config:  N_PROCS = %d'' [v])" "prints 40 (report '' N_PRIOS = %d'' [v])" "prints 40 (report '' N_STATES = %d'' [v])"
  "prints 120 (report ('' CLOCK = %dHz'' @ NL) [v])" "prints 40 (report '' SANITY = %d'' [v])"
  "prints 120 (report ('' TRACE = 0x%04x'' @ NL) [v])"
  by (rule prints_number, rule config_texts, rule config_conversions, rule cvt_plain hex4_plain, rule cvt_plain hex4_plain;
    simp add: text_char_def char_cost_def NL_def)+

lemma kreport_puts:
  "prints 200 (kputs (NL @ dashes))" "prints 40 (kputs ''Options:  R-uint CX Cstats'')" "prints 20 (kputs ''Tracing: INIT'')"
  "prints 120 (kputs dashes)" "prints 200 (kputs (NL @ ''Module initialization complete.'' @ NL))"
  "prints 40 (kputs ''Creating initial user process...'')" "prints 90 (kputs ('' done.'' @ NL))"
  by (rule prints_kputs; simp add: text_char_def char_cost_def NL_def dashes_def)+

lemma prints_kreport: "prints 740 kreport"
proof (rule prints_mono)
  show "prints (200 + (40 + (40 + (40 + (120 + (40 + (40 + (120 + (20 + 80))))))))) kreport"
    unfolding kreport_def [abs_def] by (intro prints_seq kreport_puts config_prints prints_newline)
qed simp

section \<open>The screen and the serial line\<close>

lemma prints_above: "quiet (cio k, sio k) (f (cio k, sio k)) \<Longrightarrow> \<exists>v. on_con f k = Inr (k\<lparr>cio := (cio k)\<lparr>video := v\<rparr>\<rparr>)"
  by (auto simp: quiet_def on_con_def)

lemma setup_screen_ok:
  assumes "rows (cio k)"
  shows "\<exists>v. setup_screen k = Inr (k\<lparr>cio := (cio_setscroll 0 7 99 99 (cio k))\<lparr>video := v\<rparr>\<rparr>)"
proof -
  let ?sc = "cio_setscroll 0 7 99 99 (cio k)" and ?ci = "cio_clearscroll (cio_setscroll 0 7 99 99 (cio_clearscreen (cio k)))"
  have ci: "\<exists>v. ?ci = ?sc\<lparr>video := v\<rparr>" by (auto simp: cio_clearscroll_def cio_setscroll_def cio_clearscreen_def Let_def)
  have min: "scroll_min_y ?ci = 7" using assms
    by (simp add: cio_clearscroll_def cio_setscroll_def cio_clearscreen_def Let_def rows_def bound_def)
  let ?k = "k\<lparr>cio := ?ci\<rparr>" and ?top = "map of_char (CHR 0x2A # replicate 79 (CHR 0x20))" and ?sep = "map of_char (replicate 80 (CHR 0x3D))"
  obtain v1 where 1: "on_con (cio_puts_at 0 0 ?top) ?k = Inr (?k\<lparr>cio := ?ci\<lparr>video := v1\<rparr>\<rparr>)"
    using prints_above [of ?k "cio_puts_at 0 0 ?top", OF cio_puts_at_quiet] min by (auto simp: above_def)
  let ?k1 = "?k\<lparr>cio := ?ci\<lparr>video := v1\<rparr>\<rparr>"
  obtain v2 where 2: "on_con (cio_puts_at 0 6 ?sep) ?k1 = Inr (?k1\<lparr>cio := ?ci\<lparr>video := v1\<rparr>\<lparr>video := v2\<rparr>\<rparr>)"
    using prints_above [of ?k1 "cio_puts_at 0 6 ?sep", OF cio_puts_at_quiet] min by (auto simp: above_def)
  have "setup_screen k = Inr (k\<lparr>cio := ?ci\<lparr>video := v2\<rparr>\<rparr>)"
    unfolding setup_screen_def Let_def 1 bindR_simps 2 by simp
  then show ?thesis using ci by auto
qed

lemma enable_rx: "\<exists>u. snd (sio_enable SIO_RX d) = d\<lparr>ier := ier d OR 1, uart_out := u\<rparr>"
proof -
  have "d = d\<lparr>uart_out := uart_out d\<rparr>" by simp
  then have "snd (sio_enable SIO_RX d) =
      d\<lparr>ier := ier d OR 1, uart_out := (if ier d \<noteq> ier d OR 1 then uart_out d @ [(UA4_IER, ier d OR 1)] else uart_out d)\<rparr>"
    by (cases d) (simp add: sio_enable_def outb_def Let_def)
  then show ?thesis by blast
qed

text \<open>Both buffers are empty, the transmitter is idle and the receiver is enabled.\<close>

definition line_ready :: "sio_state \<Rightarrow> bool" where
  "line_ready d \<longleftrightarrow> incount d = 0 \<and> inlast d = 0 \<and> innext d = 0 \<and> outcount d = 0 \<and> outlast d = 0 \<and> outnext d = 0 \<and>
     \<not> sending d \<and> ier d AND UA4_IER_RX_IE \<noteq> 0"

lemma flush_enable:
  assumes "lsr AND UA4_LSR_RXDA = 0"
  shows "\<exists>d'. sio_flush (lsr # bs) (SIO_RX OR SIO_TX) d = Inr (bs, d') \<and> line_ready (snd (sio_enable SIO_RX d'))"
proof -
  let ?d = "d\<lparr>incount := 0, inlast := 0, innext := 0, outcount := 0, outlast := 0, outnext := 0, sending := False\<rparr>"
  have "sio_flush (lsr # bs) (SIO_RX OR SIO_TX) d = Inr (bs, ?d)" using assms by (simp add: sio_flush_def)
  moreover have "(i OR 1) AND 1 = (1 :: u8)" for i by (rule bit_word_eqI) (auto simp: bit_simps)
  then have "line_ready (snd (sio_enable SIO_RX ?d))" using enable_rx [of ?d] by (auto simp: line_ready_def)
  ultimately show ?thesis by blast
qed

section \<open>From the reset to the first process\<close>

text \<open>What the initialization of the modules needs of the memory and the table.\<close>

definition boot_ready :: "image \<Rightarrow> nat \<Rightarrow> addr \<Rightarrow> kernel \<Rightarrow> bool" where
  "boot_ready im n stk k \<longleftrightarrow> map_ok (k_mem (km (kst k))) n \<and> outlast (sio k) = 0 \<and>
     (\<forall>x\<ge>N_PROCS. calm (p_state (ptable (kp (kst k)) x))) \<and> image_ok im (k_mem (km (kst k))) \<and> unat stk mod 4 = 0 \<and>
     (\<exists>p ys zs. first_fit 1 (boot_pool (k_mem (km (kst k))) n) = Some (p, ys) \<and> first_fit N_USTKPAGES ys = Some (stk, zs))"

text \<open>The first process runs at the entry of \<^verbatim>\<open>init\<close> with its two arguments.\<close>

definition init_runs :: "image \<Rightarrow> kstate \<Rightarrow> bool" where
  "init_runs im s \<longleftrightarrow> (let c = ptable (kp s) 0; m = k_mem (km s)
     in runs 0 (kp s) \<and> init_pcb (kp s) = Some 0 \<and> p_pid c = PID_INIT \<and> p_parent c = Some 0 \<and> p_priority c = 0 \<and>
        p_ticks c = QUANTUM_STANDARD \<and> load32 m (p_context c + 60) = init_at im \<and> load32 m (p_context c + 72) = fake_exit_at im \<and>
        argv m (p_context c + 84) [map of_char ''init'', map of_char ''+''])"

lemma first_fit_high:
  assumes "first_fit c xs = Some (p, ys)" "\<forall>b\<in>set xs. 0x100000 \<le> unat (fst b)" "blocks_ok xs" "1 \<le> c"
  shows "\<forall>b\<in>set ys. 0x100000 \<le> unat (fst b)"
proof -
  obtain as n bs where s: "xs = as @ (p, n) # bs" "c \<le> n" "ys = as @ (if n = c then [] else [(p + P2B c, n - c)]) @ bs"
    using first_fit_Some [OF assms(1)] by metis
  have "0x100000 \<le> unat (p + P2B c)" if "n \<noteq> c"
  proof -
    have "block_ok (p, n)" "c < n" using s assms(3) that by (simp_all add: blocks_ok_def)
    from fragment_block(1) [OF this assms(4)] show ?thesis using s(1) assms(2) by simp
  qed
  then show ?thesis using s assms(2) by auto
qed

text \<open>The messages between the network and the first process.\<close>

definition boot_messages :: "kernel \<Rightarrow> kernel res" where
  "boot_messages k =
     bindR (kputs (NL @ ''Module initialization complete.'' @ NL) k) (\<lambda>k. bindR (kreport k) (\<lambda>k.
     bindR (kputs dashes k) (kputs ''Creating initial user process...'')))"

lemma prints_boot_messages: "prints 1100 boot_messages"
proof (rule prints_mono)
  show "prints (200 + (740 + (120 + 40))) boot_messages"
    unfolding boot_messages_def [abs_def] by (intro prints_seq kreport_puts prints_kreport)
qed simp

lemma main_to_hda_parts:
  "main_to_hda im bus pci reads l lsr kt =
     bindR (init_modules im kt) (\<lambda>(k, t). bindR (net_init bus pci reads (test_str_at im) l k) (\<lambda>(_, pci, _, k).
     bindR (boot_messages k) (\<lambda>k. bindR (create_init im (kst k)) (\<lambda>s.
     bindR (kputs ('' done.'' @ NL) (k\<lparr>kst := s\<rparr>)) (\<lambda>k. bindR (setup_screen k) (\<lambda>k.
     bindR (sio_flush lsr (SIO_RX OR SIO_TX) (sio k)) (\<lambda>(_, d). Inr (pci, k\<lparr>sio := snd (sio_enable SIO_RX d)\<rparr>, t))))))))"
  by (simp only: main_to_hda_def boot_messages_def bindR_assoc)

lemma boot_to_messages:
  fixes k :: kernel and t :: isr_table
  assumes "boot_ready im n stk k"
    and none: "find (has_id bus pci 0x8086 0x1227) places = None" "find (has_id bus pci 0x8086 0x1229) places = None"
  shows "\<exists>k1 a k2 k3 ys zs. init_modules im (k, t) = Inr (k1, boot_handlers t) \<and>
    net_init bus pci reads (test_str_at im) l k1 = Inr (- 1, pci\<lparr>cf_addr := a\<rparr>, reads, k2) \<and> boot_messages k2 = Inr k3 \<and>
    placed {} boot_lists (kp (kst k3)) \<and> frep (km (kst k3)) ys \<and> km_initialized (km (kst k3)) \<and>
    (\<forall>b\<in>set ys. 0x100000 \<le> unat (fst b)) \<and> first_fit N_USTKPAGES ys = Some (stk, zs) \<and> image_ok im (k_mem (km (kst k3))) \<and>
    screen_ok (cio k3) \<and> rows (cio k3) \<and> outlast (sio k3) + 90 \<le> BUF_SIZE"
proof -
  let ?m = "k_mem (km (kst k))"
  let ?xs = "boot_pool ?m n"
  have R: "map_ok ?m n" "outlast (sio k) = 0" "\<forall>x\<ge>N_PROCS. calm (p_state (ptable (kp (kst k)) x))" "image_ok im ?m"
    using assms(1) by (simp_all add: boot_ready_def)
  obtain p ys zs where ff: "first_fit 1 ?xs = Some (p, ys)" "first_fit N_USTKPAGES ys = Some (stk, zs)"
    using assms(1) by (auto simp: boot_ready_def)
  have high: "\<forall>b\<in>set ?xs. 0x100000 \<le> unat (fst b)"
    using boot_pool_high [of ?m n "MMAP_ADDR + 4" "[]"] R(1) by (simp add: boot_pool_def map_ok_def)
  obtain k1 where 1: "init_modules im (k, t) = Inr (k1, boot_handlers t)" "screen_ok (cio k1)" "outlast (sio k1) \<le> 9"
    "fresh_pool (km (kst k1)) ?xs" "low_same ?m (k_mem (km (kst k1)))" "placed {} boot_lists (kp (kst k1))" "rows (cio k1)"
    using init_modules_ok [OF R(1-3)] by blast
  have room: "outlast (sio k1) + 230 \<le> BUF_SIZE" using 1(3) by simp
  obtain a ms ci d where 2: "net_init bus pci reads (test_str_at im) l k1 = Inr (- 1, pci\<lparr>cf_addr := a\<rparr>, reads, (set_km ms k1)\<lparr>cio := ci, sio := d\<rparr>)"
    "frep ms ys" "km_initialized ms" "low_same (k_mem (km (kst k1))) (k_mem ms)" "screen_ok ci" "drawn (cio k1) ci" "grew 230 (sio k1) d"
    using net_init_no_device [OF none 1(4) ff(1) high 1(2) room, where reads = reads and l = l and test_str = "test_str_at im"] by blast
  let ?k2 = "(set_km ms k1)\<lparr>cio := ci, sio := d\<rparr>"
  obtain ci' d' where 3: "boot_messages ?k2 = Inr (?k2\<lparr>cio := ci', sio := d'\<rparr>)" "screen_ok ci'" "drawn ci ci'" "grew 1100 d d'"
    using printsE [OF prints_boot_messages, of ?k2] 1(3) 2(5,7) by (auto simp: grew_def)
  have "image_ok im (k_mem ms)" using image_ok_low_same [OF R(4) low_same_trans [OF 1(5) 2(4)]] .
  moreover have "blocks_ok ?xs" using 1(4) by (simp add: fresh_pool_def frep_def)
  then have "\<forall>b\<in>set ys. 0x100000 \<le> unat (fst b)" using first_fit_high [OF ff(1) high] by simp
  moreover have "rows ci'" using 1(7) drawn_rows [OF 2(6)] drawn_rows [OF 3(3)] by simp
  moreover have "outlast d' + 90 \<le> BUF_SIZE" using 1(3) 2(7) 3(4) by (simp add: grew_def)
  ultimately show ?thesis using 1(1,6) 2(1-3) 3(1,2) ff(2) by fastforce
qed

lemma main_reaches_init:
  fixes k :: kernel and t :: isr_table
  assumes "boot_ready im n stk k"
    and none: "find (has_id bus pci 0x8086 0x1227) places = None" "find (has_id bus pci 0x8086 0x1229) places = None"
    and lsr: "lsr AND UA4_LSR_RXDA = 0"
  shows "\<exists>a k'. main_to_hda im bus pci reads l (lsr # bs) (k, t) = Inr (pci\<lparr>cf_addr := a\<rparr>, k', boot_handlers t) \<and>
    init_runs im (kst k') \<and> scroll_min_y (cio k') = 7 \<and> line_ready (sio k')"
proof -
  obtain k1 a k2 k3 ys zs where B: "init_modules im (k, t) = Inr (k1, boot_handlers t)"
    "net_init bus pci reads (test_str_at im) l k1 = Inr (- 1, pci\<lparr>cf_addr := a\<rparr>, reads, k2)" "boot_messages k2 = Inr k3"
    "placed {} boot_lists (kp (kst k3))" "frep (km (kst k3)) ys" "km_initialized (km (kst k3))"
    "\<forall>b\<in>set ys. 0x100000 \<le> unat (fst b)" "first_fit N_USTKPAGES ys = Some (stk, zs)" "image_ok im (k_mem (km (kst k3)))"
    "screen_ok (cio k3)" "rows (cio k3)" "outlast (sio k3) + 90 \<le> BUF_SIZE"
    using boot_to_messages [OF assms(1-3)] by blast
  have "unat stk mod 4 = 0" using assms(1) by (simp add: boot_ready_def)
  then obtain s ctx where 4: "create_init im (kst k3) = Inr s" "init_runs im s"
    using create_init_ok [OF B(4-9)] unfolding init_runs_def Let_def by metis
  let ?k4 = "k3\<lparr>kst := s\<rparr>"
  obtain ci d where 5: "kputs ('' done.'' @ NL) ?k4 = Inr (?k4\<lparr>cio := ci, sio := d\<rparr>)" "drawn (cio k3) ci"
    using printsE [OF kreport_puts(7), of ?k4] B(10,12) by auto
  let ?k5 = "?k4\<lparr>cio := ci, sio := d\<rparr>"
  have rows: "rows ci" using drawn_rows [OF 5(2)] B(11) by simp
  then obtain v where 6: "setup_screen ?k5 = Inr (?k5\<lparr>cio := (cio_setscroll 0 7 99 99 ci)\<lparr>video := v\<rparr>\<rparr>)"
    using setup_screen_ok [of ?k5] by auto
  let ?k6 = "?k5\<lparr>cio := (cio_setscroll 0 7 99 99 ci)\<lparr>video := v\<rparr>\<rparr>"
  obtain d' where 7: "sio_flush (lsr # bs) (SIO_RX OR SIO_TX) (sio ?k6) = Inr (bs, d')" "line_ready (snd (sio_enable SIO_RX d'))"
    using flush_enable [OF lsr, of bs "sio ?k6"] by blast
  let ?k7 = "?k6\<lparr>sio := snd (sio_enable SIO_RX d')\<rparr>"
  have "main_to_hda im bus pci reads l (lsr # bs) (k, t) = Inr (pci\<lparr>cf_addr := a\<rparr>, ?k7, boot_handlers t)"
    unfolding main_to_hda_parts B(1) bindR_simps prod.case B(2,3) 4(1) 5(1) 6 7(1) by (rule refl)
  moreover have "scroll_min_y (cio_setscroll 0 7 99 99 ci) = 7" using rows by (simp add: cio_setscroll_def rows_def bound_def Let_def)
  then have "init_runs im (kst ?k7)" "scroll_min_y (cio ?k7) = 7" "line_ready (sio ?k7)" using 4(2) 7(2) by simp_all
  ultimately show ?thesis by blast
qed


text \<open>A small machine: four free pages at 1 MB, no PCI device, the strings at 128 KB.\<close>

definition sample_image :: image where
  "sample_image = \<lparr>isr_stub_table = (\<lambda>v. 0x10000 + 16 * word_of_int v), fake_exit_at = 0x12000, init_at = 0x13000,
     init_str = 0x20000, plus_str = 0x20010, args_at = 0x90000, test_str_at = 0x20020\<rparr>"

definition sample_boot_map :: mem where
  "sample_boot_map = store32 (store32 (store32 sample_map 0x20000 0x74696e69) 0x20004 0) 0x20010 0x2b"

definition sample_boot :: kernel where
  "sample_boot = sample_kernel\<lparr>kst := \<lparr>kp = sample_procs, km = sample_kms\<lparr>k_mem := sample_boot_map\<rparr>\<rparr>\<rparr>"

definition no_devices :: "unit pci_bus" where
  "no_devices = (\<lambda>_ _. 0xFFFFFFFF, \<lambda>_ _ d. d)"

lemma no_devices_found:
  "find (has_id no_devices s 0x8086 d) places = None" "find (has_class no_devices s 0x04 c) places = None"
  by (simp_all add: find_None_iff no_devices_def has_id_def has_class_def cfg_at_def Let_def split: prod.splits)

lemma sample_boot_ready: "boot_ready sample_image 1 0x101000 sample_boot"
proof -
  have L: "load32 sample_boot_map 0x2d00 = 1" "load32 sample_boot_map 0x2d04 = 0x100000" "load32 sample_boot_map 0x2d08 = 0"
    "load32 sample_boot_map 0x2d0c = 0x4000" "load32 sample_boot_map 0x2d10 = 0" "load32 sample_boot_map 0x2d14 = 1"
    "load32 sample_boot_map 0x2d18 = 1"
    by (simp_all add: sample_boot_map_def sample_map_def load32_store32_apart apart_def) (simp_all add: load32_def)
  have r: "load_region sample_boot_map (MMAP_ADDR + 4) = \<lparr>r_base = 0x100000, r_length = 0x4000, r_type = 1, r_acpi = 1\<rparr>"
    by (simp add: load_region_def load64_def L)
  then have u: "usable_blocks sample_boot_map 1 (MMAP_ADDR + 4) = [(0x100000, 4)]"
    by (simp add: usable_part_def B2P_def)
  have "map_ok sample_boot_map 1" using L(1) r u by (simp add: map_ok_def disjoint_blocks_def)
  moreover have "boot_pool sample_boot_map 1 = [(0x100000, 4)]" unfolding boot_pool_def u by (simp add: insert_block_def)
  moreover have "image_ok sample_image sample_boot_map"
    by (simp add: image_ok_def in_image_def sample_image_def sample_boot_map_def store32_def)
  ultimately show ?thesis
    by (simp add: boot_ready_def sample_boot_def sample_kernel_def sample_sio_def sample_procs_def sample_pcb_def P2B_def)
qed


section \<open>Without an audio device\<close>

text \<open>The search for the audio controller does not end when no function has its class: \<^verbatim>\<open>main\<close> does not return.\<close>

lemma main_hangs_without_audio:
  assumes "boot_ready im n stk k" "lsr AND UA4_LSR_RXDA = 0"
    and "find (has_id bus pci 0x8086 0x1227) places = None" "find (has_id bus pci 0x8086 0x1229) places = None"
    and "find (has_class bus pci 0x04 0x03) places = None"
  shows "main im bus hda pcif pci reads l (lsr # bs) d (k, t) = Inl Hang"
proof -
  obtain a k' where M: "main_to_hda im bus pci reads l (lsr # bs) (k, t) = Inr (pci\<lparr>cf_addr := a\<rparr>, k', boot_handlers t)"
    using main_reaches_init [OF assms(1,3,4,2)] by blast
  have "has_class bus (pci\<lparr>cf_addr := a\<rparr>) = has_class bus pci" by (intro ext) (simp add: has_class_def cfg_at_def)
  then have none: "\<not> (\<exists>p\<in>set places. has_class bus (pci\<lparr>cf_addr := a\<rparr>) 0x04 0x03 p)"
    using assms(5) by (simp only: find_None_iff) blast
  have "pci_find_device_by_class bus 0x04 0x03 pcif (pci\<lparr>cf_addr := a\<rparr>) = None"
  proof (cases "pci_find_device_by_class bus 0x04 0x03 pcif (pci\<lparr>cf_addr := a\<rparr>)")
    case (Some r)
    then show ?thesis using find_class_never none unfolding pci_find_device_by_class_def by blast
  qed
  then have "hda_init bus hda pcif (pci\<lparr>cf_addr := a\<rparr>, [], d) = None" unfolding hda_init_def prod.case by (simp only: bind.simps)
  then show ?thesis unfolding main_def M bindR_simps prod.case by simp
qed

end
