(* ===== verification/Shell.thy ===== *)
theory Shell
  imports Prelude
begin

unbundle bit_operations_syntax

text \<open>
  The programs that start the others: the shell (\<^verbatim>\<open>usercode/shell.c\<close>) and the process \<^verbatim>\<open>init\<close>
  (\<^verbatim>\<open>usercode/init.c\<close>) with the spawn table of \<^verbatim>\<open>userland.c\<close> and \<^verbatim>\<open>spawn\<close> of \<^verbatim>\<open>usercode/uextras.c\<close>. A program
  sees the kernel through its system calls: these are parameters, functions on a state of any type. \<^verbatim>\<open>fork\<close> is seen
  by the parent; its argument says which calls the child makes, given its priority. Text is recorded as a format with
  its arguments, as \<^verbatim>\<open>usprint\<close> gets them. The busy waits are left out.
\<close>

section \<open>System calls\<close>

datatype channel = To_console | To_serial

datatype arg = Num int | Chr u8 | Str string | Own_pid

datatype call = Getpid | Getprio | Setprio u8 | Exec u32 "string list" | Write channel string "arg list" | Exit int | Go_on

record 'w os =
  os_read :: "nat \<Rightarrow> 'w \<Rightarrow> int \<times> u8 list \<times> 'w"
  os_sleep :: "int \<Rightarrow> 'w \<Rightarrow> 'w"
  os_fork :: "(u8 \<Rightarrow> call list) \<Rightarrow> 'w \<Rightarrow> int \<times> 'w"
  os_waitpid :: "'w \<Rightarrow> int \<times> int \<times> 'w"
  os_write :: "channel \<Rightarrow> string \<Rightarrow> arg list \<Rightarrow> 'w \<Rightarrow> 'w"

record proc_t =
  pe_entry :: u32
  pe_select :: u8
  pe_prio :: u8
  pe_valid :: bool
  pe_pid :: int
  pe_args :: "string list"

abbreviation line_end :: string where "line_end \<equiv> [CHR 0x0A]"
abbreviation max_args :: nat where "max_args \<equiv> 10"

text \<open>The child gets the call of \<^verbatim>\<open>exec\<close>, which returns only when it fails.\<close>

definition spawn :: "'w os \<Rightarrow> u32 \<Rightarrow> string list \<Rightarrow> 'w \<Rightarrow> int \<times> 'w" where
  "spawn os entry args w =
     os_fork os (\<lambda>_. [Getpid, Exec entry args,
       Write To_console (''Child %d exec() %08x failed'' @ line_end) [Own_pid, Num (uint entry)], Exit (- 1)]) w"

definition cwrites :: "'w os \<Rightarrow> string \<Rightarrow> arg list \<Rightarrow> 'w \<Rightarrow> 'w" where
  "cwrites os = os_write os To_console"

definition swrites :: "'w os \<Rightarrow> string \<Rightarrow> arg list \<Rightarrow> 'w \<Rightarrow> 'w" where
  "swrites os = os_write os To_serial"

definition swritech :: "'w os \<Rightarrow> u8 \<Rightarrow> 'w \<Rightarrow> 'w" where
  "swritech os c = os_write os To_serial ''%c'' [Chr c]"

section \<open>Commands of the shell\<close>

record 'w shell =
  children :: int
  time_to_stop :: bool
  world :: 'w

definition on_world :: "('w \<Rightarrow> 'w) \<Rightarrow> 'w shell \<Rightarrow> 'w shell" where
  "on_world f s = s\<lparr>world := f (world s)\<rparr>"

definition LCASE :: "u8 \<Rightarrow> u8" where
  "LCASE c = (if c \<ge> 65 \<and> c \<le> 90 then c OR 0x20 else c)"

fun usage_loop :: "'w os \<Rightarrow> proc_t list \<Rightarrow> 'w \<Rightarrow> 'w" where
  "usage_loop os [] w = w"
| "usage_loop os (p # ps) w =
     (if pe_valid p then usage_loop os ps (swritech os (pe_select p) (swritech os 32 w)) else w)"

definition usage :: "'w os \<Rightarrow> proc_t list \<Rightarrow> 'w \<Rightarrow> 'w" where
  "usage os table w =
     swrites os (line_end @ ''Other commands: @* (all), @h (help), @x (exit), @@ (dump)'' @ line_end) []
       (usage_loop os table
         (swrites os (line_end @ ''Tests - run with '' @ [CHR 0x27] @ ''@x'' @ [CHR 0x27] @ '', where '' @ [CHR 0x27] @ ''x'' @ [CHR 0x27] @
            '' is one or more of:'' @ line_end @ '' '') [] w))"

text \<open>The table as the command \<^verbatim>\<open>@@\<close> prints it.\<close>

fun dump_table :: "'w os \<Rightarrow> proc_t list \<Rightarrow> nat \<Rightarrow> 'w \<Rightarrow> 'w" where
  "dump_table os [] i w = w"
| "dump_table os (p # ps) i w =
     (if pe_valid p then
        let w1 = cwrites os ('' %2d: 0x%08x '' @ [CHR 0x27] @ ''%s'' @ [CHR 0x27] @ '' pr %d %s pid %d'')
              [Num (int i), Num (uint (pe_entry p)), Str [char_of (unat (pe_select p))], Num (uint (pe_prio p)),
               Str (if pe_valid p then ''V'' else ''!V''), Num (pe_pid p)] w;
            w2 = fold (\<lambda>a. cwrites os '' %s'' [Str a]) (take max_args (pe_args p)) w1
        in dump_table os ps (i + 1) (cwrites os line_end [] w2)
      else w)"

definition start :: "'w os \<Rightarrow> proc_t \<Rightarrow> 'w shell \<Rightarrow> int \<times> 'w shell" where
  "start os p s =
     (let (status, w) = spawn os (pe_entry p) (pe_args p) (world s)
      in (status, s\<lparr>children := (if status > 0 then children s + 1 else children s), world := w\<rparr>))"

fun run_all :: "'w os \<Rightarrow> proc_t list \<Rightarrow> 'w shell \<Rightarrow> 'w shell" where
  "run_all os [] s = s"
| "run_all os (p # ps) s = (if pe_valid p then run_all os ps (snd (start os p s)) else s)"

fun find_entry :: "u8 \<Rightarrow> proc_t list \<Rightarrow> proc_t option" where
  "find_entry lwhich [] = None"
| "find_entry lwhich (p # ps) =
     (if pe_valid p then if LCASE (pe_select p) = lwhich then Some p else find_entry lwhich ps else None)"

definition run :: "'w os \<Rightarrow> proc_t list \<Rightarrow> u8 \<Rightarrow> 'w shell \<Rightarrow> int \<times> 'w shell" where
  "run os table which s =
     (let lwhich = LCASE which in
      if lwhich = 0x68 then (0, on_world (usage os table) s)
      else if lwhich = 0x40 then (0, on_world (\<lambda>w. dump_table os table 0 (cwrites os (''Shell command table:'' @ line_end) [] w)) s)
      else if lwhich = 0x78 then (0, s\<lparr>time_to_stop := True\<rparr>)
      else if lwhich = 0x2A then (0, run_all os table s)
      else
        case find_entry lwhich table of
          Some p \<Rightarrow> start os p s
        | None \<Rightarrow> (0, on_world (\<lambda>w. usage os table
              (swrites os (''shell: unknown cmd '' @ [CHR 0x27] @ ''%c'' @ [CHR 0x27] @ line_end) [Chr which] w)) s))"

section \<open>Reading a line\<close>

text \<open>The array \<^verbatim>\<open>line\<close> is a list; \<^verbatim>\<open>ptr\<close> is an index. The end of line is stripped, a NUL stored behind it.\<close>

fun strip :: "u8 list \<Rightarrow> nat \<Rightarrow> nat" where
  "strip line 0 = 0"
| "strip line (Suc n) = (if line ! n = 10 \<or> line ! n = 13 then strip line n else Suc n)"

definition edit :: "u8 list \<Rightarrow> nat \<Rightarrow> nat \<times> u8 list" where
  "edit line n = (let n' = strip line n in (n', if n' > 0 then line[n' := 0] else line))"

text \<open>The search for the newline among the \<open>n\<close> characters from \<^verbatim>\<open>ptr\<close> on.\<close>

fun find_newline :: "nat \<Rightarrow> u8 list \<Rightarrow> nat \<Rightarrow> nat \<times> bool" where
  "find_newline 0 buf p = (p, False)"
| "find_newline (Suc n) buf p = (if buf ! p = 10 then (p + 1, True) else find_newline n buf (p + 1))"

record 'w reader =
  r_buf :: "u8 list"
  r_ptr :: nat
  r_num :: nat
  r_len :: nat
  r_world :: 'w

definition store_at :: "nat \<Rightarrow> u8 list \<Rightarrow> u8 list \<Rightarrow> u8 list" where
  "store_at p bs buf = take p buf @ bs @ drop (p + length bs) buf"

text \<open>One round of the loop; the flag says that it is left by \<^verbatim>\<open>break\<close>.\<close>

definition read_step :: "'w os \<Rightarrow> 'w reader \<Rightarrow> bool \<times> 'w reader" where
  "read_step os r =
     (let (n, bs, w) = os_read os (r_len r) (r_world r); r1 = r\<lparr>r_world := w\<rparr>
      in if n < 0 then (True, r1)
         else if n = 0 then (False, r1\<lparr>r_world := os_sleep os 1000 w\<rparr>)
         else
           let buf = store_at (r_ptr r) bs (r_buf r);
               (p, found) = find_newline (nat n) buf (r_ptr r)
           in (False, r1\<lparr>r_buf := buf, r_ptr := p, r_num := r_num r + nat n, r_len := (if found then 0 else r_len r - nat n)\<rparr>))"

partial_function (option) readline_loop :: "'w os \<Rightarrow> 'w reader \<Rightarrow> 'w reader option" where
  "readline_loop os r =
     (if r_len r = 0 then Some r
      else let r' = read_step os r in if fst r' then Some (snd r') else readline_loop os (snd r'))"

definition readline :: "'w os \<Rightarrow> u8 list \<Rightarrow> 'w \<Rightarrow> (nat \<times> u8 list \<times> 'w) option" where
  "readline os buf w =
     (if length buf < 2 then Some (0, buf, w)
      else map_option (\<lambda>r. (r_num r, (r_buf r)[r_ptr r := 0], r_world r))
             (readline_loop os \<lparr>r_buf = buf, r_ptr = 0, r_num = 0, r_len = length buf - 1, r_world = w\<rparr>))"

section \<open>The loop of the shell\<close>

text \<open>The commands behind the first \<^verbatim>\<open>@\<close>, up to the NUL.\<close>

fun commands :: "'w os \<Rightarrow> proc_t list \<Rightarrow> string \<Rightarrow> u8 list \<Rightarrow> 'w shell \<Rightarrow> 'w shell" where
  "commands os table name [] s = s"
| "commands os table name (c # cs) s =
     (if c = 0 then s
      else
        let (pid, s1) = run os table c s;
            s2 = (if pid < 0 then on_world (cwrites os (''+++ %s spawn %c failed, code %d'' @ line_end) [Str name, Chr c, Num pid]) s1
                  else s1)
        in if time_to_stop s2 then s2 else commands os table name cs s2)"

text \<open>The wait for the children. The flag says that the loop is left by \<^verbatim>\<open>break\<close>.\<close>

definition collect_step :: "'w os \<Rightarrow> string \<Rightarrow> 'w shell \<Rightarrow> bool \<times> 'w shell" where
  "collect_step os name s =
     (let (whom, status, w) = os_waitpid os (world s); s1 = s\<lparr>world := w\<rparr>
      in if whom = E_NO_CHILDREN then (True, s1)
         else if whom < 1 then
           (False, on_world (swrites os (''%s: waitpid() returned %d'' @ line_end) [Str name, Num whom]) s1)
         else
           let s2 = s1\<lparr>children := children s1 - 1\<rparr>
           in (False, if status \<noteq> 0
                then on_world (swrites os (''%s: PID %d exit status %d'' @ line_end) [Str name, Num whom, Num status]) s2 else s2))"

partial_function (option) collect :: "'w os \<Rightarrow> string \<Rightarrow> 'w shell \<Rightarrow> 'w shell option" where
  "collect os name s =
     (if children s > 0
      then let r = collect_step os name s in if fst r then Some (snd r) else collect os name (snd r)
      else Some s)"

definition command_line :: "'w os \<Rightarrow> proc_t list \<Rightarrow> string \<Rightarrow> nat \<Rightarrow> u8 list \<Rightarrow> 'w shell \<Rightarrow> 'w shell option" where
  "command_line os table name num buf s =
     (if num < 3 then Some s
      else let (n, line) = edit buf num in
        if n < 2 then Some s
        else let i = length (takeWhile (\<lambda>c. c \<noteq> 0x40) (take n line)) in
          if i < n then collect os name (commands os table name (drop (i + 1) line) s) else Some s)"

definition shell_round :: "'w os \<Rightarrow> proc_t list \<Rightarrow> string \<Rightarrow> 'w shell \<Rightarrow> 'w shell option" where
  "shell_round os table name s =
     (case readline os (replicate 128 0) (swrites os (line_end @ ''> '') [] (world s)) of
        None \<Rightarrow> None
      | Some (num, buf, w) \<Rightarrow> command_line os table name num buf (s\<lparr>world := w\<rparr>))"

partial_function (option) shell_loop :: "'w os \<Rightarrow> proc_t list \<Rightarrow> string \<Rightarrow> 'w shell \<Rightarrow> 'w shell option" where
  "shell_loop os table name s =
     (if time_to_stop s then Some s
      else Option.bind (shell_round os table name s) (shell_loop os table name))"

definition program_name :: "string list \<Rightarrow> string" where
  "program_name argv = (case argv of [] \<Rightarrow> ''nobody'' | a # _ \<Rightarrow> a)"

text \<open>The result is the state in which the shell calls \<^verbatim>\<open>exit\<close>.\<close>

definition shell :: "'w os \<Rightarrow> proc_t list \<Rightarrow> string list \<Rightarrow> 'w shell \<Rightarrow> 'w shell option" where
  "shell os table argv s =
     (let name = program_name argv in
      map_option (on_world (cwrites os (''!!! shell exited loop???'' @ line_end) []))
        (shell_loop os table name (on_world (usage os table) (on_world (swrites os (''%s is ready'' @ line_end) [Str name]) s))))"

section \<open>The process init\<close>

text \<open>The pid of an entry is stored where the code stores it. What the child does is an argument of \<^verbatim>\<open>fork\<close>: when
  \<^verbatim>\<open>exec\<close> fails, it returns from \<^verbatim>\<open>process\<close> like its parent.\<close>

definition process :: "'w os \<Rightarrow> u8 \<Rightarrow> proc_t \<times> 'w \<Rightarrow> proc_t \<times> 'w" where
  "process os ch = (\<lambda>(proc, w).
     let (p, w1) = os_fork os (\<lambda>cprio. [Getprio] @ (if cprio \<noteq> pe_prio proc then [Setprio (pe_prio proc)] else []) @
           [Exec (pe_entry proc) (pe_args proc),
            Write To_console (''INIT: exec(0x%08x) failed'' @ line_end) [Num (uint (pe_entry proc))], Go_on]) w
     in if p < 0 then
          (proc, cwrites os (''INIT: fork for #%d failed'' @ line_end) [Num (sint (pe_entry proc))] w1)
        else (proc\<lparr>pe_pid := p\<rparr>, swrites os ''%c%c%c'' [Chr ch, Chr (pe_select proc), Chr ch] w1))"

fun process_all :: "'w os \<Rightarrow> u8 \<Rightarrow> proc_t list \<Rightarrow> 'w \<Rightarrow> proc_t list \<times> 'w" where
  "process_all os ch [] w = ([], w)"
| "process_all os ch (p # ps) w =
     (if pe_valid p then
        let (p', w1) = process os ch (p, w); (ps', w2) = process_all os ch ps w1 in (p' # ps', w2)
      else (p # ps, w))"

definition spawn_char :: "string list \<Rightarrow> u8 \<Rightarrow> u8" where
  "spawn_char argv ch =
     (if length argv > 1 then
        let i = (case argv ! 1 of [] \<Rightarrow> 0 | c # _ \<Rightarrow> of_nat (of_char c :: nat)) in if i > 0x20 \<and> i < 0x7F then i else ch
      else ch)"

definition init_start :: "'w os \<Rightarrow> string list \<Rightarrow> proc_t list \<times> 'w \<Rightarrow> proc_t list \<times> 'w" where
  "init_start os argv = (\<lambda>(table, w).
     let name = program_name argv; ch = spawn_char argv 0x2B;
         w1 = swrites os (''$+$'' @ line_end) [] w;
         w2 = cwrites os (''%s: started'' @ line_end) [Str name] w1;
         w3 = swrites os (line_end @ ''Spem relinquunt qui huc intrasti!'' @ line_end) [] w2;
         w4 = cwrites os (''%s: starting user processes'' @ line_end @ ''!!! '') [Str name] w3;
         (table', w5) = process_all os ch table w4;
         w6 = swrites os ('' !!!'' @ [CHR 0x0D] @ line_end @ line_end) [] w5
     in (table', cwrites os (''%s: transitioning to wait() mode'' @ line_end) [Str name] w6))"

fun restart :: "'w os \<Rightarrow> u8 \<Rightarrow> int \<Rightarrow> proc_t list \<Rightarrow> 'w \<Rightarrow> proc_t list \<times> 'w" where
  "restart os ch whom [] w = ([], w)"
| "restart os ch whom (p # ps) w =
     (if pe_valid p then
        if pe_pid p = whom then let (p', w') = process os ch (p\<lparr>pe_pid := 0\<rparr>, w) in (p' # ps, w')
        else let (ps', w') = restart os ch whom ps w in (p # ps', w')
      else (p # ps, w))"

definition init_round :: "'w os \<Rightarrow> string list \<Rightarrow> proc_t list \<times> 'w \<Rightarrow> proc_t list \<times> 'w" where
  "init_round os argv = (\<lambda>(table, w).
     let name = program_name argv; (whom, status, w1) = os_waitpid os w
     in if whom \<le> 0 then (table, cwrites os (''%s: waitpid() returned %d???'' @ line_end) [Str name, Num whom] w1)
        else restart os (spawn_char argv 0x2B) whom table
          (cwrites os (''%s: pid %d exit(%d)'' @ line_end) [Str name, Num whom, Num status] w1))"

text \<open>The loop does not end; this is the state after \<open>n\<close> rounds.\<close>

definition init :: "'w os \<Rightarrow> string list \<Rightarrow> nat \<Rightarrow> proc_t list \<times> 'w \<Rightarrow> proc_t list \<times> 'w" where
  "init os argv n = (init_round os argv ^^ n) \<circ> init_start os argv"

section \<open>A typed line\<close>

text \<open>The characters \<open>cs\<close> of a line arrive in the state \<open>w\<close>, where \<open>n\<close> are accepted: in pieces of any size, after any
  number of reads that find nothing, the newline at the end of a piece.\<close>

inductive arrives :: "'w os \<Rightarrow> nat \<Rightarrow> 'w \<Rightarrow> u8 list \<Rightarrow> 'w \<Rightarrow> bool" for os :: "'w os" where
  nothing: "0 < n \<Longrightarrow> os_read os n w = (0, bs, w1) \<Longrightarrow> arrives os n (os_sleep os 1000 w1) cs w' \<Longrightarrow> arrives os n w cs w'"
| part: "os_read os n w = (int (length bs), bs, w1) \<Longrightarrow> bs \<noteq> [] \<Longrightarrow> length bs < n \<Longrightarrow> 10 \<notin> set bs \<Longrightarrow>
    arrives os (n - length bs) w1 cs w' \<Longrightarrow> arrives os n w (bs @ cs) w'"
| rest: "os_read os n w = (int (length bs + 1), bs @ [10], w') \<Longrightarrow> length bs < n \<Longrightarrow> 10 \<notin> set bs \<Longrightarrow> arrives os n w (bs @ [10]) w'"

lemma arrives_length: "arrives os n w cs w' \<Longrightarrow> length cs \<le> n \<and> cs \<noteq> []"
  by (induction rule: arrives.induct) auto

lemma length_store_at [simp]: "p + length bs \<le> length buf \<Longrightarrow> length (store_at p bs buf) = length buf"
  by (simp add: store_at_def)

lemma store_at_nth: "p + length bs \<le> length buf \<Longrightarrow> i < length bs \<Longrightarrow> store_at p bs buf ! (p + i) = bs ! i"
  by (simp add: store_at_def nth_append)

lemma store_at_twice:
  assumes "p + length bs + length cs \<le> length buf"
  shows "store_at (p + length bs) cs (store_at p bs buf) = store_at p (bs @ cs) buf"
proof -
  have "take (p + length bs) (store_at p bs buf) = take p buf @ bs" using assms by (simp add: store_at_def)
  moreover have "drop (p + length bs + length cs) (store_at p bs buf) = drop (p + length (bs @ cs)) buf"
    using assms by (simp add: store_at_def add.commute add.left_commute)
  ultimately show ?thesis by (simp add: store_at_def)
qed

lemma find_newline_none: "(\<And>i. i < n \<Longrightarrow> buf ! (p + i) \<noteq> 10) \<Longrightarrow> find_newline n buf p = (p + n, False)"
proof (induction n arbitrary: p)
  case (Suc n)
  have "buf ! p \<noteq> 10" using Suc.prems [of 0] by simp
  moreover have "buf ! (p + 1 + i) \<noteq> 10" if "i < n" for i using Suc.prems [of "Suc i"] that by simp
  ultimately show ?case using Suc.IH [of "p + 1"] by simp
qed simp

lemma find_newline_found:
  "(\<And>i. i < n \<Longrightarrow> buf ! (p + i) \<noteq> 10) \<Longrightarrow> buf ! (p + n) = 10 \<Longrightarrow> find_newline (Suc n + m) buf p = (p + n + 1, True)"
proof (induction n arbitrary: p)
  case (Suc n)
  have "buf ! p \<noteq> 10" using Suc.prems(1) [of 0] by simp
  moreover have "buf ! (p + 1 + i) \<noteq> 10" if "i < n" for i using Suc.prems(1) [of "Suc i"] that by simp
  ultimately show ?case using Suc.IH [of "p + 1"] Suc.prems(2) by simp
qed simp

lemma find_newline_stored:
  assumes "p + length bs \<le> length buf" "10 \<notin> set bs"
  shows "find_newline (length bs) (store_at p bs buf) p = (p + length bs, False)"
proof (rule find_newline_none)
  fix i assume "i < length bs"
  then show "store_at p bs buf ! (p + i) \<noteq> 10" using assms by (metis store_at_nth nth_mem)
qed

lemma find_newline_stored_line:
  assumes "p + length bs + 1 + length cs \<le> length buf" "10 \<notin> set bs"
  shows "find_newline (length (bs @ 10 # cs)) (store_at p (bs @ 10 # cs) buf) p = (p + length bs + 1, True)"
proof -
  let ?l = "bs @ 10 # cs"
  have nth: "store_at p ?l buf ! (p + i) = ?l ! i" if "i < length ?l" for i
    using store_at_nth [of p ?l buf i] that assms(1) by simp
  have "store_at p ?l buf ! (p + i) \<noteq> 10" if "i < length bs" for i
  proof -
    have "bs ! i \<noteq> 10" using that assms(2) by (metis nth_mem)
    then show ?thesis using nth [of i] that by (simp add: nth_append)
  qed
  moreover have "store_at p ?l buf ! (p + length bs) = 10" using nth [of "length bs"] by simp
  ultimately show ?thesis using find_newline_found [of "length bs" "store_at p ?l buf" p "length cs"] by simp
qed

lemma readline_loop_arrives:
  "arrives os n w cs w' \<Longrightarrow> r_len r = n \<Longrightarrow> r_world r = w \<Longrightarrow> r_ptr r + n < length (r_buf r) \<Longrightarrow>
   readline_loop os r = Some \<lparr>r_buf = store_at (r_ptr r) cs (r_buf r), r_ptr = r_ptr r + length cs,
     r_num = r_num r + length cs, r_len = 0, r_world = w'\<rparr>"
proof (induction arbitrary: r rule: arrives.induct)
  case (nothing n w bs w1 cs w')
  then show ?case by (subst readline_loop.simps) (simp add: read_step_def)
next
  case (part n w bs w1 cs w')
  have f: "find_newline (length bs) (store_at (r_ptr r) bs (r_buf r)) (r_ptr r) = (r_ptr r + length bs, False)"
    by (rule find_newline_stored) (use part in auto)
  have "readline_loop os r = readline_loop os (r\<lparr>r_world := w1, r_buf := store_at (r_ptr r) bs (r_buf r), r_ptr := r_ptr r + length bs,
      r_num := r_num r + length bs, r_len := n - length bs\<rparr>)" (is "_ = readline_loop os ?r")
    using part by (subst readline_loop.simps) (simp add: read_step_def f)
  moreover have "readline_loop os ?r = Some \<lparr>r_buf = store_at (r_ptr ?r) cs (r_buf ?r), r_ptr = r_ptr ?r + length cs,
      r_num = r_num ?r + length cs, r_len = 0, r_world = w'\<rparr>"
    by (rule part.IH) (use part.prems part.hyps in auto)
  moreover have "r_ptr r + length bs + length cs \<le> length (r_buf r)"
    using part.prems(3) arrives_length [OF part.hyps(5), THEN conjunct1] part.hyps(3) by linarith
  ultimately show ?case using part.prems by (simp add: store_at_twice)
next
  case (rest n w bs w')
  have f: "find_newline (length (bs @ [10])) (store_at (r_ptr r) (bs @ [10]) (r_buf r)) (r_ptr r) = (r_ptr r + length bs + 1, True)"
    by (rule find_newline_stored_line) (use rest in auto)
  have "readline_loop os r = readline_loop os (snd (read_step os r))" "fst (read_step os r) = False"
    using rest f by (simp_all add: readline_loop.simps [of os r] read_step_def nat_add_distrib)
  then show ?case using rest f by (simp add: readline_loop.simps read_step_def nat_add_distrib)
qed

lemma store_at_zeros: "length cs \<le> n \<Longrightarrow> store_at 0 cs (replicate n 0) = cs @ replicate (n - length cs) 0"
  by (simp add: store_at_def)

text \<open>The reader hands over exactly the line that was typed, and its length.\<close>

lemma readline_arrives:
  assumes "arrives os 127 w cs w'"
  shows "readline os (replicate 128 0) w = Some (length cs, cs @ replicate (128 - length cs) 0, w')"
proof -
  have l: "length cs \<le> 127" using arrives_length [OF assms] by simp
  then have "(cs @ replicate (128 - length cs) 0)[length cs := 0] = cs @ replicate (128 - length cs) (0 :: u8)"
    by (intro nth_equalityI) (auto simp: nth_append nth_list_update)
  then show ?thesis using readline_loop_arrives [OF assms, of "\<lparr>r_buf = replicate 128 0, r_ptr = 0, r_num = 0, r_len = 127, r_world = w\<rparr>"] l
    by (simp add: readline_def store_at_zeros)
qed

lemma strip_append:
  assumes "line = ls @ eol @ rest" "set eol \<subseteq> {10, 13}" "ls \<noteq> []" "last ls \<noteq> 10" "last ls \<noteq> 13"
  shows "strip line (length ls + length eol) = length ls"
  using assms
proof (induction eol arbitrary: line rest rule: rev_induct)
  case Nil
  then obtain ms l where "ls = ms @ [l]" by (metis rev_exhaust)
  then show ?case using Nil by simp
next
  case (snoc c cs)
  then have "strip line (length ls + length cs) = length ls" by (intro snoc.IH [of _ "c # rest"]) auto
  moreover have "line ! (length ls + length cs) = c" using snoc.prems(1) by (simp add: nth_append)
  moreover have "c = 10 \<or> c = 13" using snoc.prems(2) by simp
  ultimately show ?case by auto
qed

lemma edit_append:
  assumes "set eol \<subseteq> {10, 13}" "eol \<noteq> []" "ls \<noteq> []" "last ls \<noteq> 10" "last ls \<noteq> 13"
  shows "edit (ls @ eol @ rest) (length ls + length eol) = (length ls, ls @ 0 # tl eol @ rest)"
  using strip_append [OF refl assms(1, 3-5), of rest] assms(2, 3) by (cases eol) (auto simp: edit_def Let_def)

lemma commands_nul: "0 \<notin> set cs \<Longrightarrow> commands os table name (cs @ 0 # rest) s = commands os table name cs s"
  by (induction cs arbitrary: s) (auto simp: Let_def split: prod.split)

lemma command_line_at:
  assumes "set eol \<subseteq> {10, 13}" "eol \<noteq> []" "cmds \<noteq> []" "last cmds \<noteq> 10" "last cmds \<noteq> 13"
    and "0x40 \<notin> set pre"
  shows "command_line os table name (length pre + 1 + length cmds + length eol) (pre @ 0x40 # cmds @ eol @ rest) s
    = collect os name (commands os table name (cmds @ 0 # tl eol @ rest) s)"
proof -
  let ?ls = "pre @ 0x40 # cmds"
  have e: "edit (?ls @ eol @ rest) (length ?ls + length eol) = (length ?ls, ?ls @ 0 # tl eol @ rest)"
    by (rule edit_append) (use assms in auto)
  have i: "takeWhile (\<lambda>c. c \<noteq> 0x40) ?ls = pre"
    using assms(6) by (subst takeWhile_append2) auto
  have n: "length ?ls \<ge> 2" "length ?ls + length eol \<ge> 3" using assms(2, 3) by (auto simp: Suc_le_eq simp flip: length_greater_0_conv)
  show ?thesis using e i n assms(3) by (simp add: command_line_def Let_def)
qed


text \<open>When two lines are waiting, one read takes both. The newline of the first is then a command, and the second line
  is lost.\<close>

lemma shell_round_two_lines:
  assumes "os_read os 127 (swrites os (line_end @ ''> '') [] (world s)) = (int (length l), l, w')"
    and "l = pre @ 0x40 # cmds @ 10 # second @ [10]" "length l \<le> 127" "second \<noteq> []" "last second \<noteq> 10" "last second \<noteq> 13"
    and "0x40 \<notin> set pre" "0 \<notin> set cmds" "10 \<notin> set (pre @ cmds)"
  shows "shell_round os table name s = collect os name (commands os table name (cmds @ [10]) (s\<lparr>world := w'\<rparr>))"
proof -
  define z where "z = replicate (128 - length l) (0 :: u8)"
  define first where "first = pre @ 0x40 # cmds"
  have l: "l = first @ 10 # second @ [10]" using assms(2) by (simp add: first_def)
  have f: "find_newline (length l) (store_at 0 l (replicate 128 0)) 0 = (length first + 1, True)"
    unfolding l using find_newline_stored_line [of 0 first "second @ [10]" "replicate 128 0"] assms(3, 9) l
    by (simp add: first_def)
  have "0 < length l" by (simp add: l)
  have "store_at 0 l (replicate 128 0) = l @ z" using assms(3) by (simp add: store_at_zeros z_def)
  then have "readline os (replicate 128 0) (swrites os (line_end @ ''> '') [] (world s))
      = Some (length l, (l @ z)[length first + 1 := 0], w')"
    using assms(1) f \<open>0 < length l\<close> by (simp add: readline_def readline_loop.simps read_step_def)
  moreover obtain c cs where second: "second = c # cs" using assms(4) by (cases second) auto
  then have "(l @ z)[length first + 1 := 0] = first @ 10 # 0 # cs @ [10] @ z" by (simp add: l list_update_append)
  ultimately have r: "shell_round os table name s
      = command_line os table name (length l) (first @ 10 # 0 # cs @ [10] @ z) (s\<lparr>world := w'\<rparr>)"
    by (simp add: shell_round_def)
  let ?cmds = "cmds @ 10 # 0 # cs"
  have "last ?cmds \<noteq> 10" "last ?cmds \<noteq> 13" using assms(5, 6) second by auto
  then have "command_line os table name (length pre + 1 + length ?cmds + length [10 :: u8]) (pre @ 0x40 # ?cmds @ [10] @ z) (s\<lparr>world := w'\<rparr>)
      = collect os name (commands os table name (?cmds @ 0 # tl [10] @ z) (s\<lparr>world := w'\<rparr>))"
    by (intro command_line_at) (use assms(7) in auto)
  moreover have "length pre + 1 + length ?cmds + length [10 :: u8] = length l" by (simp add: l first_def second)
  ultimately show ?thesis
    using r commands_nul [of "cmds @ [10]" os table name "cs @ 0 # z"] assms(8) by (simp add: first_def)
qed

section \<open>The children of the shell\<close>

text \<open>What the manual of the system calls promises: \<^verbatim>\<open>fork\<close> returns the pid of a new child or an error, \<^verbatim>\<open>waitpid\<close> removes
  a child and returns its pid, or says that there are none, and the other calls leave the children alone.\<close>

definition process_calls :: "'w os \<Rightarrow> ('w \<Rightarrow> int set) \<Rightarrow> bool" where
  "process_calls os live \<longleftrightarrow>
     (\<forall>w. finite (live w) \<and> (\<forall>p\<in>live w. 0 < p)) \<and>
     (\<forall>f w p w'. os_fork os f w = (p, w') \<longrightarrow> (if p > 0 then p \<notin> live w \<and> live w' = insert p (live w) else p < 0 \<and> live w' = live w)) \<and>
     (\<forall>w p st w'. os_waitpid os w = (p, st, w') \<longrightarrow>
        (if live w = {} then p = E_NO_CHILDREN \<and> live w' = {} else p \<in> live w \<and> live w' = live w - {p})) \<and>
     (\<forall>n w. live (snd (snd (os_read os n w))) = live w) \<and>
     (\<forall>n w. live (os_sleep os n w) = live w) \<and>
     (\<forall>c f as w. live (os_write os c f as w) = live w)"

lemma process_calls_simps:
  assumes "process_calls os live"
  shows "live (os_write os c f as w) = live w" "live (os_sleep os n w) = live w" "os_read os i w = (k, bs, w') \<Longrightarrow> live w' = live w"
    "live (swrites os f as w) = live w" "live (cwrites os f as w) = live w" "live (swritech os d w) = live w"
proof -
  show "live (os_write os c f as w) = live w" "live (os_sleep os n w) = live w"
    "live (swrites os f as w) = live w" "live (cwrites os f as w) = live w" "live (swritech os d w) = live w"
    using assms by (simp_all add: process_calls_def swrites_def cwrites_def swritech_def)
  have "live (snd (snd (os_read os i w))) = live w" using assms unfolding process_calls_def by blast
  then show "os_read os i w = (k, bs, w') \<Longrightarrow> live w' = live w" by simp
qed

lemma usage_live: "process_calls os live \<Longrightarrow> live (usage os table w) = live w"
proof -
  assume a: "process_calls os live"
  have "live (usage_loop os ps w) = live w" for ps w
    by (induction ps arbitrary: w) (simp_all add: process_calls_simps [OF a])
  then show ?thesis by (simp add: usage_def process_calls_simps [OF a])
qed

lemma dump_table_live: "process_calls os live \<Longrightarrow> live (dump_table os table i w) = live w"
proof -
  assume a: "process_calls os live"
  have f: "live (fold (\<lambda>x. cwrites os g [Str x]) xs w) = live w" for xs w g
    by (induction xs arbitrary: w) (simp_all add: process_calls_simps [OF a])
  show ?thesis by (induction table arbitrary: i w) (simp_all add: process_calls_simps [OF a] f Let_def)
qed

text \<open>The counter of the shell is the number of its children.\<close>

definition counted :: "('w \<Rightarrow> int set) \<Rightarrow> 'w shell \<Rightarrow> bool" where
  "counted live s \<longleftrightarrow> children s = int (card (live (world s)))"

lemma counted_on_world: "(\<And>w. live (f w) = live w) \<Longrightarrow> counted live (on_world f s) = counted live s"
  by (simp add: counted_def on_world_def)

lemma start_counted:
  assumes "process_calls os live" "counted live s" "start os p s = (pid, s')"
  shows "counted live s'"
proof -
  obtain w where f: "spawn os (pe_entry p) (pe_args p) (world s) = (pid, w)"
    using assms(3) by (auto simp: start_def split: prod.splits)
  then have "if pid > 0 then pid \<notin> live (world s) \<and> live w = insert pid (live (world s)) else live w = live (world s)"
    using assms(1) unfolding process_calls_def spawn_def by (meson)
  moreover have "finite (live (world s))" using assms(1) by (simp add: process_calls_def)
  ultimately show ?thesis using assms(2, 3) f by (auto simp: start_def counted_def split: if_splits)
qed

lemma run_counted:
  assumes a: "process_calls os live" and "counted live s" "run os table c s = (pid, s')"
  shows "counted live s'"
proof -
  have all: "counted live (run_all os ps u)" if "counted live u" for ps u
    using that start_counted [OF a] by (induction ps arbitrary: u) (auto simp: prod_eq_iff)
  have w: "counted live (on_world (usage os table) s)"
    "counted live (on_world (\<lambda>w. dump_table os table 0 (cwrites os f as w)) s)"
    "counted live (on_world (\<lambda>w. usage os table (swrites os f as w)) s)" for f as
    using assms(2) by (subst counted_on_world; simp add: usage_live [OF a] dump_table_live [OF a] process_calls_simps [OF a])+
  have x: "counted live (s\<lparr>time_to_stop := True\<rparr>)" using assms(2) by (simp add: counted_def)
  have "counted live (snd (run os table c s))"
  proof (cases "find_entry (LCASE c) table")
    case None
    then show ?thesis using w x all [OF assms(2)] by (simp add: run_def Let_def)
  next
    case (Some p)
    have "counted live (snd (start os p s))" using start_counted [OF a assms(2)] by (metis prod.collapse)
    then show ?thesis using w x all [OF assms(2)] Some by (simp add: run_def Let_def)
  qed
  then show ?thesis using assms(3) by simp
qed

lemma commands_counted: "process_calls os live \<Longrightarrow> counted live s \<Longrightarrow> counted live (commands os table name cs s)"
proof (induction cs arbitrary: s)
  case (Cons c cs)
  obtain pid s1 where r: "run os table c s = (pid, s1)" by fastforce
  then have "counted live s1" using run_counted Cons.prems by blast
  then show ?case using Cons r
    by (simp add: Let_def counted_on_world process_calls_simps [OF Cons.prems(1)])
qed simp

lemma collect_ends:
  assumes "process_calls os live" "counted live s"
  shows "\<exists>s'. collect os name s = Some s' \<and> children s' = 0 \<and> live (world s') = {} \<and> time_to_stop s' = time_to_stop s"
  using assms(2)
proof (induction "card (live (world s))" arbitrary: s)
  case 0
  moreover have "finite (live (world s))" using assms(1) by (simp add: process_calls_def)
  ultimately show ?case by (subst collect.simps) (simp add: counted_def)
next
  case (Suc n)
  obtain p st w where w: "os_waitpid os (world s) = (p, st, w)" by (metis prod_cases3)
  have ne: "live (world s) \<noteq> {}" using Suc.hyps(2) by auto
  have l: "p \<in> live (world s)" "live w = live (world s) - {p}" "0 < p"
    using assms(1) w ne unfolding process_calls_def by (metis, metis, metis)
  obtain s1 where s1: "collect_step os name s = (False, s1)" "children s1 = children s - 1" "live (world s1) = live w"
      "time_to_stop s1 = time_to_stop s"
    using w l(3) process_calls_simps [OF assms(1)] by (simp add: collect_step_def Let_def on_world_def)
  have "n = card (live (world s1))" "counted live s1"
    using Suc.hyps(2) Suc.prems l s1 by (simp_all add: counted_def card_Diff_singleton)
  then obtain s' where "collect os name s1 = Some s' \<and> children s' = 0 \<and> live (world s') = {} \<and> time_to_stop s' = time_to_stop s1"
    using Suc.hyps(1) by blast
  moreover have "children s > 0" using Suc.hyps(2) Suc.prems by (simp add: counted_def)
  then have "collect os name s = collect os name s1" by (subst collect.simps) (simp add: s1)
  ultimately show ?case using s1 by simp
qed

lemma readline_loop_live:
  assumes "process_calls os live" and ret: "readline_loop os r = Some r'"
  shows "live (r_world r') = live (r_world r)"
proof -
  have "process_calls os live \<longrightarrow> live (r_world r') = live (r_world r)"
  proof (rule readline_loop.raw_induct [where P = "\<lambda>os r r'. process_calls os live \<longrightarrow> live (r_world r') = live (r_world r)", OF _ ret], rule impI)
    fix f os r r'
    assume ih: "\<And>os r r'. f os r = Some r' \<Longrightarrow> process_calls os live \<longrightarrow> live (r_world r') = live (r_world r)"
      and s: "(if r_len r = 0 then Some r else let r' = read_step os r in if fst r' then Some (snd r') else f os (snd r')) = Some r'"
      and a: "process_calls os live"
    have "live (r_world (snd (read_step os r))) = live (r_world r)"
      by (auto simp: read_step_def Let_def process_calls_simps [OF a] split: prod.splits)
    then show "live (r_world r') = live (r_world r)"
      using s ih [of os "snd (read_step os r)" r'] a by (auto simp: Let_def split: if_splits)
  qed
  then show ?thesis using assms(1) by simp
qed

lemma readline_live:
  assumes "process_calls os live" "readline os buf w = Some (n, b, w')"
  shows "live w' = live w"
proof (cases "length buf < 2")
  case False
  then obtain r where "readline_loop os \<lparr>r_buf = buf, r_ptr = 0, r_num = 0, r_len = length buf - 1, r_world = w\<rparr> = Some r" "r_world r = w'"
    using assms(2) unfolding readline_def by (simp only: if_False map_option_eq_Some) blast
  then show ?thesis using readline_loop_live [OF assms(1)] by fastforce
qed (use assms(2) in \<open>simp add: readline_def\<close>)

lemma command_line_ends:
  assumes "process_calls os live" "counted live s" "live (world s) = {}"
  shows "\<exists>s'. command_line os table name num buf s = Some s' \<and> children s' = 0 \<and> live (world s') = {}"
proof -
  have "\<exists>s'. collect os name (commands os table name cs s) = Some s' \<and> children s' = 0 \<and> live (world s') = {}" for cs
    using collect_ends [OF assms(1) commands_counted [OF assms(1, 2)]] by blast
  moreover have "children s = 0" using assms(2, 3) by (simp add: counted_def)
  ultimately show ?thesis using assms(3) by (simp add: command_line_def Let_def split: prod.split)
qed

lemma shell_round_ends:
  assumes "process_calls os live" "children s = 0" "live (world s) = {}"
    and "readline os (replicate 128 0) (swrites os (line_end @ ''> '') [] (world s)) = Some r"
  shows "\<exists>s'. shell_round os table name s = Some s' \<and> children s' = 0 \<and> live (world s') = {}"
proof -
  obtain num buf w where r: "r = (num, buf, w)" by (metis prod_cases3)
  have "live w = {}" using readline_live [OF assms(1) assms(4) [unfolded r]] assms(3) by (simp add: process_calls_simps [OF assms(1)])
  then have "\<exists>s'. command_line os table name num buf (s\<lparr>world := w\<rparr>) = Some s' \<and> children s' = 0 \<and> live (world s') = {}"
    by (intro command_line_ends [OF assms(1)]) (simp_all add: counted_def assms(2))
  then show ?thesis using assms(4) r by (simp add: shell_round_def)
qed


section \<open>The children of init\<close>

text \<open>\<^verbatim>\<open>init\<close> also inherits the children of others, so the set may grow at any call.\<close>

definition parent_calls :: "'w os \<Rightarrow> ('w \<Rightarrow> int set) \<Rightarrow> bool" where
  "parent_calls os live \<longleftrightarrow>
     (\<forall>w. \<forall>p\<in>live w. 0 < p) \<and>
     (\<forall>f w p w'. os_fork os f w = (p, w') \<longrightarrow> (if p > 0 then p \<notin> live w \<and> insert p (live w) \<subseteq> live w' else p < 0 \<and> live w \<subseteq> live w')) \<and>
     (\<forall>w p st w'. os_waitpid os w = (p, st, w') \<longrightarrow> live w - {p} \<subseteq> live w') \<and>
     (\<forall>c f as w. live w \<subseteq> live (os_write os c f as w))"

lemma process_calls_parent:
  assumes "process_calls os live"
  shows "parent_calls os live"
proof -
  have "live w - {p} \<subseteq> live w'" if "os_waitpid os w = (p, st, w')" for w p st w'
    using assms that unfolding process_calls_def by (metis Diff_subset empty_Diff order_refl)
  moreover have "if p > 0 then p \<notin> live w \<and> insert p (live w) \<subseteq> live w' else p < 0 \<and> live w \<subseteq> live w'"
    if "os_fork os f w = (p, w')" for f w p w'
    using assms that unfolding process_calls_def by (metis order_refl)
  ultimately show ?thesis using assms unfolding parent_calls_def process_calls_def by (metis order_refl)
qed

abbreviation pids :: "proc_t list \<Rightarrow> int list" where
  "pids table \<equiv> filter (\<lambda>p. p \<noteq> 0) (map pe_pid (takeWhile pe_valid table))"

lemma parent_calls_write:
  assumes "parent_calls os live"
  shows "x \<in> live w \<Longrightarrow> x \<in> live (swrites os f as w)" "x \<in> live w \<Longrightarrow> x \<in> live (cwrites os f as w)"
  using assms unfolding parent_calls_def swrites_def cwrites_def by blast+

lemma process_pid:
  assumes a: "parent_calls os live" and "process os ch (p, w) = (p', w')"
  shows "p'\<lparr>pe_pid := 0\<rparr> = p\<lparr>pe_pid := 0\<rparr>" "live w \<subseteq> live w'"
    "pe_pid p' = pe_pid p \<or> pe_pid p' \<noteq> 0 \<and> pe_pid p' \<in> live w' - live w"
    "(\<And>f w. 0 < fst (os_fork os f w)) \<Longrightarrow> pe_pid p' \<noteq> 0"
proof -
  define f where "f = (\<lambda>cprio. [Getprio] @ (if cprio \<noteq> pe_prio p then [Setprio (pe_prio p)] else []) @
     [Exec (pe_entry p) (pe_args p), Write To_console (''INIT: exec(0x%08x) failed'' @ line_end) [Num (uint (pe_entry p))], Go_on])"
  obtain q v where q: "os_fork os f w = (q, v)" by fastforce
  have r: "process os ch (p, w) = (if q < 0 then
      (p, cwrites os (''INIT: fork for #%d failed'' @ line_end) [Num (sint (pe_entry p))] v)
      else (p\<lparr>pe_pid := q\<rparr>, swrites os ''%c%c%c'' [Chr ch, Chr (pe_select p), Chr ch] v))"
    using q unfolding f_def process_def by (simp add: Let_def)
  have l: "if q > 0 then q \<notin> live w \<and> insert q (live w) \<subseteq> live v else q < 0 \<and> live w \<subseteq> live v"
    using a q unfolding parent_calls_def by blast
  show "p'\<lparr>pe_pid := 0\<rparr> = p\<lparr>pe_pid := 0\<rparr>" using r assms(2) by (auto split: if_splits)
  show "live w \<subseteq> live w'" "pe_pid p' = pe_pid p \<or> pe_pid p' \<noteq> 0 \<and> pe_pid p' \<in> live w' - live w"
    using r assms(2) l by (auto split: if_splits intro: parent_calls_write [OF a])
  assume "\<And>f w. 0 < fst (os_fork os f w)"
  from this [of f w] show "pe_pid p' \<noteq> 0" using r q assms(2) by (auto split: if_splits)
qed

text \<open>The table without the pids.\<close>

definition blank :: "proc_t list \<Rightarrow> proc_t list" where
  "blank = map (\<lambda>p. p\<lparr>pe_pid := 0\<rparr>)"

lemma blank_simps [simp]: "blank [] = []" "blank (p # ps) = p\<lparr>pe_pid := 0\<rparr> # blank ps"
  by (simp_all add: blank_def)

lemma same_valid: "p'\<lparr>pe_pid := 0\<rparr> = p\<lparr>pe_pid := 0\<rparr> \<Longrightarrow> pe_valid p' = pe_valid p"
  by (metis proc_t.select_convs(4) proc_t.surjective proc_t.update_convs(5))

lemma process_all_pids:
  assumes a: "parent_calls os live"
  shows "\<forall>p\<in>set table. pe_pid p = 0 \<Longrightarrow> process_all os ch table w = (t', w') \<Longrightarrow>
    blank t' = blank table \<and> live w \<subseteq> live w' \<and> distinct (pids t') \<and> set (pids t') \<subseteq> live w' - live w \<and>
    ((\<forall>f w. 0 < fst (os_fork os f w)) \<longrightarrow> 0 \<notin> set (map pe_pid (takeWhile pe_valid t')))"
proof (induction table arbitrary: w t' w')
  case (Cons p ps)
  show ?case
  proof (cases "pe_valid p")
    case True
    obtain p' w1 where p: "process os ch (p, w) = (p', w1)" by fastforce
    obtain ps' where ps: "process_all os ch ps w1 = (ps', w')" "t' = p' # ps'"
      using Cons.prems(2) True p by (auto split: prod.splits)
    note h = process_pid [OF a p]
    have "pe_valid p'" using same_valid [OF h(1)] True by simp
    moreover have "pe_pid p' = 0 \<or> pe_pid p' \<in> live w1 - live w" using h(3) Cons.prems(1) by auto
    ultimately show ?thesis using Cons.IH [of w1 ps' w'] Cons.prems(1) ps h(1, 2, 4) by auto
  qed (use Cons.prems in auto)
qed simp

lemma restart_pids:
  assumes a: "parent_calls os live" and whom: "whom \<noteq> 0"
  shows "set (pids table) - {whom} \<subseteq> live w \<Longrightarrow> distinct (pids table) \<Longrightarrow> restart os ch whom table w = (t', w') \<Longrightarrow>
    blank t' = blank table \<and> live w \<subseteq> live w' \<and> distinct (pids t') \<and>
    set (pids t') \<subseteq> live w' \<and> set (pids t') \<inter> live w \<subseteq> set (pids table) - {whom} \<and>
    ((\<forall>f w. 0 < fst (os_fork os f w)) \<and> 0 \<notin> set (map pe_pid (takeWhile pe_valid table)) \<longrightarrow>
      0 \<notin> set (map pe_pid (takeWhile pe_valid t')))"
proof (induction table arbitrary: t')
  case (Cons p ps)
  consider "\<not> pe_valid p" | "pe_valid p" "pe_pid p = whom" | "pe_valid p" "pe_pid p \<noteq> whom" by blast
  then show ?case
  proof cases
    case 1
    then show ?thesis using Cons.prems by auto
  next
    case 2
    obtain p' where p: "process os ch (p\<lparr>pe_pid := 0\<rparr>, w) = (p', w')" "t' = p' # ps"
      using Cons.prems(3) 2 by (auto split: prod.splits)
    note h = process_pid [OF a p(1)]
    have "pe_valid p'" using same_valid [of p' p] h(1) 2 by simp
    moreover have "pe_pid p' = 0 \<or> pe_pid p' \<noteq> 0 \<and> pe_pid p' \<in> live w' - live w" using h(3) by simp
    moreover have "whom \<notin> set (pids ps)" "distinct (pids ps)" "set (pids ps) \<subseteq> live w"
      using Cons.prems(1, 2) 2 whom by auto
    ultimately show ?thesis using h(1, 2, 4) p(2) 2 whom by auto
  next
    case 3
    obtain ps' where ps: "restart os ch whom ps w = (ps', w')" "t' = p # ps'"
      using Cons.prems(3) 3 by (auto split: prod.splits)
    have "set (pids ps) - {whom} \<subseteq> live w" "distinct (pids ps)" using Cons.prems(1, 2) 3 by (auto split: if_splits)
    then have ih: "blank ps' = blank ps" "live w \<subseteq> live w'" "distinct (pids ps')" "set (pids ps') \<subseteq> live w'"
      "set (pids ps') \<inter> live w \<subseteq> set (pids ps) - {whom}"
      "(\<forall>f w. 0 < fst (os_fork os f w)) \<and> 0 \<notin> set (map pe_pid (takeWhile pe_valid ps)) \<longrightarrow>
        0 \<notin> set (map pe_pid (takeWhile pe_valid ps'))"
      using Cons.IH ps(1) by blast+
    moreover have "pe_pid p = 0 \<or> pe_pid p \<in> live w \<and> pe_pid p \<notin> set (pids ps)" using Cons.prems(1, 2) 3 by (auto split: if_splits)
    ultimately show ?thesis using ps(2) 3 by auto
  qed
qed simp

definition supervised :: "('w \<Rightarrow> int set) \<Rightarrow> proc_t list \<times> 'w \<Rightarrow> bool" where
  "supervised live = (\<lambda>(table, w). distinct (pids table) \<and> set (pids table) \<subseteq> live w)"

abbreviation all_started :: "proc_t list \<Rightarrow> bool" where
  "all_started table \<equiv> 0 \<notin> set (map pe_pid (takeWhile pe_valid table))"

lemma init_start_supervised:
  assumes a: "parent_calls os live" and "\<forall>p\<in>set table. pe_pid p = 0" and "init_start os argv (table, w) = (t', w')"
  shows "supervised live (t', w') \<and> blank t' = blank table \<and> ((\<forall>f w. 0 < fst (os_fork os f w)) \<longrightarrow> all_started t')"
proof -
  obtain v v' f g xs ys where p: "process_all os (spawn_char argv 0x2B) table v = (t', v')"
      and w': "w' = cwrites os f xs (swrites os g ys v')"
    using assms(3) unfolding init_start_def Let_def case_prod_conv by (simp only: split_beta prod.inject) (metis prod.collapse)
  have "live v' \<subseteq> live w'" using parent_calls_write [OF a] unfolding w' by blast
  then show ?thesis using process_all_pids [OF a assms(2) p] by (auto simp: supervised_def)
qed

lemma init_round_supervised:
  assumes a: "parent_calls os live" and "supervised live (table, w)" and "init_round os argv (table, w) = (t', w')"
  shows "supervised live (t', w') \<and> blank t' = blank table \<and>
    ((\<forall>f w. 0 < fst (os_fork os f w)) \<and> all_started table \<longrightarrow> all_started t')"
proof -
  obtain whom st v where v: "os_waitpid os w = (whom, st, v)" by (metis prod_cases3)
  have l: "live w - {whom} \<subseteq> live v" and pos: "\<forall>p\<in>live w. 0 < p" using a v unfolding parent_calls_def by blast+
  have s: "distinct (pids table)" "set (pids table) \<subseteq> live w" using assms(2) by (auto simp: supervised_def)
  show ?thesis
  proof (cases "whom \<le> 0")
    case True
    then have "set (pids table) \<subseteq> live v" using s(2) l pos by force
    then show ?thesis using assms(3) v s(1) True parent_calls_write [OF a]
      by (auto simp: init_round_def Let_def supervised_def)
  next
    case False
    then obtain f xs where r: "restart os (spawn_char argv 0x2B) whom table (cwrites os f xs v) = (t', w')"
      using assms(3) v by (simp add: init_round_def)
    define u where "u = cwrites os f xs v"
    note r = r [folded u_def]
    have "live v \<subseteq> live u" using parent_calls_write [OF a] unfolding u_def by blast
    then have "set (pids table) - {whom} \<subseteq> live u" using s(2) l by blast
    then show ?thesis using restart_pids [OF a _ _ s(1) r] False by (simp add: supervised_def)
  qed
qed

lemma init_supervised:
  assumes a: "parent_calls os live" and "\<forall>p\<in>set table. pe_pid p = 0"
  shows "init os argv n (table, w) = (t', w') \<Longrightarrow>
    supervised live (t', w') \<and> blank t' = blank table \<and> ((\<forall>f w. 0 < fst (os_fork os f w)) \<longrightarrow> all_started t')"
proof (induction n arbitrary: t' w')
  case 0
  then show ?case using init_start_supervised [OF a assms(2)] by (simp add: init_def)
next
  case (Suc n)
  obtain t1 w1 where "init os argv n (table, w) = (t1, w1)" by fastforce
  then show ?case using Suc init_round_supervised [OF a, of t1 w1 argv t' w'] by (auto simp: init_def)
qed

text \<open>C17. After the start and any number of rounds the pids in the table of \<^verbatim>\<open>init\<close> are different live children, the
  entries are otherwise as they were, and unless a \<^verbatim>\<open>fork\<close> fails every entry has a process: whatever ends is started again.\<close>

theorem init_supervises:
  assumes "parent_calls os live" "\<forall>p\<in>set table. pe_pid p = 0" "init os argv n (table, w) = (t', w')"
  shows "distinct (pids t') \<and> set (pids t') \<subseteq> live w' \<and> blank t' = blank table \<and>
    ((\<forall>f w. 0 < fst (os_fork os f w)) \<longrightarrow> 0 \<notin> set (map pe_pid (takeWhile pe_valid t')))"
  using init_supervised [OF assms] by (simp add: supervised_def)

section \<open>A system to run on\<close>

record sample =
  pieces :: "u8 list list"
  kids :: "nat list"
  started :: "call list list"

definition sample_os :: "sample os" where
  "sample_os = \<lparr>
     os_read = (\<lambda>n w. case pieces w of [] \<Rightarrow> (- 1, [], w) | bs # ps \<Rightarrow> (int (length (take n bs)), take n bs, w\<lparr>pieces := ps\<rparr>)),
     os_sleep = (\<lambda>n w. w),
     os_fork = (\<lambda>f w. let k = Suc (sum_list (kids w)) in (int k + 1, w\<lparr>kids := k # kids w, started := f 2 # started w\<rparr>)),
     os_waitpid = (\<lambda>w. case kids w of [] \<Rightarrow> (E_NO_CHILDREN, 0, w) | k # ks \<Rightarrow> (int k + 1, 0, w\<lparr>kids := removeAll k ks\<rparr>)),
     os_write = (\<lambda>c f as w. w)\<rparr>"

definition sample_live :: "sample \<Rightarrow> int set" where
  "sample_live w = (\<lambda>k. int k + 1) ` set (kids w)"

lemma sample_process_calls: "process_calls sample_os sample_live"
proof -
  have "1 + int (sum_list ks) \<noteq> int k" if "k \<in> set ks" for k and ks :: "nat list"
    using member_le_sum_list [of k ks] that by auto
  then show ?thesis
    by (auto simp: process_calls_def sample_os_def sample_live_def Let_def split: list.splits)
qed

definition typed :: "u8 list list \<Rightarrow> sample" where
  "typed ps = \<lparr>pieces = ps, kids = [], started = []\<rparr>"

definition sample_table :: "proc_t list" where
  "sample_table = [\<lparr>pe_entry = 0x30000, pe_select = 65, pe_prio = 2, pe_valid = True, pe_pid = 0, pe_args = [''userA'']\<rparr>,
     \<lparr>pe_entry = 0x31000, pe_select = 66, pe_prio = 1, pe_valid = True, pe_pid = 0, pe_args = [''userB'']\<rparr>,
     \<lparr>pe_entry = 0, pe_select = 0, pe_prio = 0, pe_valid = False, pe_pid = 0, pe_args = []\<rparr>]"

lemma sample_read:
  "os_read sample_os n (typed (bs # ps)) = (int (length (take n bs)), take n bs, typed ps)" "os_sleep sample_os k w = w"
  by (simp_all add: sample_os_def typed_def)

lemma sample_arrives: "arrives sample_os 127 (typed [[], [32, 64], [97, 66, 120, 13, 10]]) ([32] @ 0x40 # [97, 66, 120] @ replicate 1 13 @ [10]) (typed [])"
proof -
  have "arrives sample_os (127 - length [32, 64 :: u8]) (typed [[97, 66, 120, 13, 10]]) ([97, 66, 120, 13] @ [10]) (typed [])"
    by (rule arrives.rest) (simp_all add: sample_read)
  then have "arrives sample_os 127 (typed [[32, 64], [97, 66, 120, 13, 10]]) ([32, 64] @ [97, 66, 120, 13] @ [10]) (typed [])"
    by (rule arrives.part [rotated 4]) (simp_all add: sample_read)
  then have "arrives sample_os 127 (os_sleep sample_os 1000 (typed [[32, 64], [97, 66, 120, 13, 10]]))
      ([32, 64] @ [97, 66, 120, 13] @ [10]) (typed [])" by (simp only: sample_read)
  then have "arrives sample_os 127 (typed [[], [32, 64], [97, 66, 120, 13, 10]]) ([32, 64] @ [97, 66, 120, 13] @ [10]) (typed [])"
    by (rule arrives.nothing [rotated 2, of _ _ _ _ _ _ "[]"]) (simp_all add: sample_read)
  then show ?thesis by simp
qed

lemma sample_write: "swrites sample_os f as w = w" "cwrites sample_os f as w = w"
  by (simp_all add: swrites_def cwrites_def sample_os_def)


lemma sample_readline: "readline sample_os (replicate 128 0) (typed [[], [32, 64], [97, 66, 120, 13, 10]])
    = Some (7, [32, 64, 97, 66, 120, 13, 10] @ replicate 121 0, typed [])"
  using readline_arrives [OF sample_arrives] by simp


theorem init_supervises_witness:
  "(case init sample_os [''init''] 2 (sample_table, typed []) of (t', w') \<Rightarrow>
     distinct (pids t') \<and> set (pids t') \<subseteq> sample_live w' \<and> blank t' = blank sample_table \<and>
     ((\<forall>f w. 0 < fst (os_fork sample_os f w)) \<longrightarrow> 0 \<notin> set (map pe_pid (takeWhile pe_valid t'))))"
proof -
  obtain t' w' where i: "init sample_os [''init''] 2 (sample_table, typed []) = (t', w')" by fastforce
  have "\<forall>p\<in>set sample_table. pe_pid p = 0" by (simp add: sample_table_def)
  from init_supervises [OF process_calls_parent [OF sample_process_calls] this i] show ?thesis unfolding i by simp
qed

end
