(* ===== verification/Spec2Isabelle.thy ===== *)
theory Spec2Isabelle
  imports Pcb_Queue Kmem Procs Sio Clock Klib User Dmx Packets Net Syscalls Kernel_Run Ulib Snake Cio_Text Support Pci Nic_Init Hda Boot Shell
begin

text \<open>
  This library models 452-OS, a small operating system for one 32-bit processor: its kernel with all drivers, from
  the reset to the first process and on, its user library, its shell, the process
  \<^verbatim>\<open>init\<close> and a game. The C code is in \<^verbatim>\<open>src/\<close>, its headers in \<^verbatim>\<open>src/include/\<close>.

  \<^bold>\<open>The program.\<close> Processes are described by PCBs in a fixed table. A PCB is in one of six linked
  queues (free, ready, waiting, sleeping, zombie, reading) or its process runs. The clock interrupt wakes
  sleepers and ends the quantum of the running process; the serial interrupt moves characters between the UART
  and two ring buffers and wakes a reader; the keyboard interrupt fills the input ring of the console; a system
  call enters the kernel through a jump table. Stacks come from a page allocator that keeps its free list in the
  free pages. Handlers end by returning to the current process, possibly another one than before. The start
  sets up the interrupt tables and each of these modules in turn, looks for the network and the audio device on the
  PCI bus, and creates and dispatches the process \<^verbatim>\<open>init\<close>. Programs draw on the screen through a graphics driver.

  \<^bold>\<open>The theories.\<close>
  \<^descr> \<open>Prelude\<close>: words, the result type \<open>'a res\<close> (a failure or a value), pointer chains, the bounded
    list walk \<open>walk\<close>, ordered insertion.
  \<^descr> \<open>Pcb_Queue\<close>: the PCB, the queues and their operations (\<^verbatim>\<open>procs.c\<close>). The table is a map from indices,
    a pointer is an optional index, links are the PCBs' own fields. \<open>qrep s q xs\<close> says that queue \<open>q\<close>
    holds the list \<open>xs\<close>, \<open>qreps s L\<close> that all queues hold the lists \<open>L\<close> and share nothing. Locale
    \<open>queue_interface\<close>, interpreted as \<open>pq\<close>.
  \<^descr> \<open>Memory\<close>: byte memory, 32-bit loads and stores, and the block routines of \<^verbatim>\<open>klibc.c\<close>; the list module
    \<^verbatim>\<open>list.c\<close>.
  \<^descr> \<open>Kmem\<close>: the allocator \<^verbatim>\<open>kmem.c\<close> on that memory, with the free list in the free blocks.
    \<open>frep\<close> relates it to a list of blocks, \<open>pool\<close> to a set of free bytes. Locale \<open>page_pool\<close>, interpreted as \<open>km\<close>.
  \<^descr> \<open>Procs\<close>: PCB allocation, stacks, zombies, scheduler and dispatcher (\<^verbatim>\<open>procs.c\<close>) over both.
  \<^descr> \<open>Klib\<close>: strings, number conversion and \<^verbatim>\<open>sprint\<close> (\<^verbatim>\<open>klibc.c\<close>).
  \<^descr> \<open>Sio\<close>, \<open>Sio_Isr\<close>: the serial driver (\<^verbatim>\<open>sio.c\<close>); the record \<open>kernel\<close> of the whole state.
  \<^descr> \<open>Cio\<close>: the console (\<^verbatim>\<open>cio.c\<close>): screen, formatted output, keyboard.
    \<open>Cio_Text\<close>: what its output routines do with text, and when they succeed.
  \<^descr> \<open>Clock\<close>: the clock interrupt (\<^verbatim>\<open>clock.c\<close>).
  \<^descr> \<open>User\<close>: the first stack of a program (\<^verbatim>\<open>user.c\<close>).
  \<^descr> \<open>Dmx\<close>: the DMX driver (\<^verbatim>\<open>dmx.c\<close>).
  \<^descr> \<open>Packets\<close>: Ethernet, IPv4 and UDP (\<^verbatim>\<open>ethernet.c\<close>, \<^verbatim>\<open>ipv4.c\<close>, \<^verbatim>\<open>udp.c\<close>).
  \<^descr> \<open>Nic\<close>, \<open>Net\<close>: the descriptor rings of the network device (\<^verbatim>\<open>intel8255x.c\<close>) and \<^verbatim>\<open>net.c\<close>.
    \<open>Nic_Init\<close>: its reset, its EEPROM and address, and \<^verbatim>\<open>net_init\<close>.
  \<^descr> \<open>Syscalls\<close>: every system call, the jump table and \<^verbatim>\<open>sys_isr\<close> (\<^verbatim>\<open>syscalls.c\<close>).
  \<^descr> \<open>Kernel_Run\<close>: interrupts and system calls as steps of the kernel, and its invariant. Locale
    \<open>syscall_handler\<close>, interpreted on each handler that keeps the invariant.
  \<^descr> \<open>Support\<close>: the interrupt tables, the interrupt controllers and the default handlers (\<^verbatim>\<open>support.c\<close>).
  \<^descr> \<open>Pci\<close>, \<open>Hda\<close>: the PCI configuration space (\<^verbatim>\<open>pci.c\<close>) and the audio driver (\<^verbatim>\<open>hda.c\<close>).
  \<^descr> \<open>Boot\<close>: the start of the kernel (\<^verbatim>\<open>main.c\<close>) over all of these.
  \<^descr> \<open>Ulib\<close>: the user library (\<^verbatim>\<open>ulibc.c\<close> with the files \<^verbatim>\<open>usercode/u*.c\<close> it includes, \<^verbatim>\<open>usercode/itoa.c\<close>), on
    memory through pointers.
  \<^descr> \<open>Vga\<close>, \<open>Vga_Text\<close>: the graphics driver (\<^verbatim>\<open>vga_graphics.c\<close>, \<^verbatim>\<open>font8x8.h\<close>), on two byte buffers in memory.
    Locale \<open>raster\<close>, interpreted on both buffers.
  \<^descr> \<open>Snake\<close>: the game (\<^verbatim>\<open>usercode/vga/snake.c\<close>), its rules and its pictures.
  \<^descr> \<open>Shell\<close>: the shell (\<^verbatim>\<open>usercode/shell.c\<close>) and \<^verbatim>\<open>init\<close> (\<^verbatim>\<open>usercode/init.c\<close>), with \<^verbatim>\<open>spawn\<close> of
    \<^verbatim>\<open>usercode/uextras.c\<close> and the spawn table of \<^verbatim>\<open>userland.c\<close>, over system calls that are parameters.

  Definitions have the names of the C functions; parts of a function that are separate definitions are named
  after what they do, and the manifest gives their lines.

  \<^bold>\<open>What is shown.\<close> Queues: each operation on lists, with all error results; insertion keeps the order and
  is first come first served among equals. Allocator: first fit, coalescing, allocation and release as inverse
  operations, disjointness, and the initial pool from the BIOS map. Processes: what becomes of a process, its
  children and its waiting parent when it ends; priority scheduling; stacks. Drivers: bytes are
  transmitted and received in order; the screen scrolls; the keyboard ring is a bounded queue; the bit stream
  of the DMX packet; the layout of packets; the rings of the network device. System calls: \<^verbatim>\<open>fork\<close>, \<^verbatim>\<open>waitpid\<close>,
  \<^verbatim>\<open>exit\<close>, \<^verbatim>\<open>kill\<close>, \<^verbatim>\<open>sleep\<close>. The kernel: in every run without \<^verbatim>\<open>waitpid\<close> and \<^verbatim>\<open>kill\<close> each PCB either
  runs or is in exactly one queue and has the state of that queue; ready processes of one priority share the
  processor. The start: every gate of the interrupt table leads to its stub, the modules come up, \<^verbatim>\<open>init\<close> runs
  with its arguments on its stack, and the invariant of the runs holds from there on. These two calls are left out because they break that invariant: \<^verbatim>\<open>waitpid\<close> leaves a collected
  child in the zombie queue, a woken parent stays in the waiting queue, and \<^verbatim>\<open>kill\<close> marks a process in its queue.
  Devices: the searches of the PCI bus find the first match, enabling a function restores what its probing changes,
  the driver and the network device agree on the address, the report on the audio codecs is the tree of their answers.
  User level: the library's string routines are the kernel's and its conversions refine them; rectangles, lines,
  discs, text and sprites paint exactly the pixels they should; the snake stays inside the play area and its array; the
  shell runs the commands of a typed line in their order and collects all children before it asks for the next line;
  \<^verbatim>\<open>init\<close> keeps a live child for every entry of its table.

  \<^bold>\<open>Failures.\<close> \<open>Assert\<close> and \<open>Kpanic\<close> are failed assertions and calls of \<^verbatim>\<open>kpanic\<close>; \<open>Wild\<close> is an
  access outside an object or through NULL; \<open>Hang\<close> is a loop that does not end.

  \<^bold>\<open>Bounds.\<close> A walk over a queue has \<^verbatim>\<open>N_PROCS\<close> steps, enough for every queue without a cycle; a walk
  over the free list has \<open>km_fuel\<close>, that is \<open>2 ^ 32\<close>, steps, enough for every chain without a cycle in a
  32-bit memory; the loop of the clock over the sleepers has \<^verbatim>\<open>N_PROCS\<close> rounds, one per process. The
  loops over user memory (\<open>fork_chain\<close>, strings, arguments) are partial functions in the option monad
  or recursive by a measure; where one may not end its result is \<open>Hang\<close>.

  \<^bold>\<open>Devices and inputs.\<close> What a port or a device register delivers is an argument: a script of bytes for the
  serial port and the keyboard, a list of values for the registers of the network device and the retrace port. The PCI
  configuration space and the registers of the audio controller are pairs of a read and a write function on a state
  of any type; properties assume of them that a register keeps what is written to it, or that commands are answered,
  and have witnesses on concrete ones. What is written elsewhere is appended to \<open>port_out\<close> or \<open>mmio_out\<close>.
  Uninitialized local variables are arguments. Addresses that the linker or the assembly code decides (\<^verbatim>\<open>fake_exit\<close>,
  the interrupt stubs, string constants) are arguments. The shell and \<^verbatim>\<open>init\<close> get the system calls as functions on
  a state of any type; what their properties assume of \<^verbatim>\<open>fork\<close> and \<^verbatim>\<open>waitpid\<close> is a predicate on these functions.

  \<^bold>\<open>Not modelled.\<close> Output of the dump and trace routines, and the diagnostic lines of \<^verbatim>\<open>pci.c\<close> and of the network
  device's initialization; the lines of the audio driver are recorded, not drawn. \<^verbatim>\<open>idle\<close> and the
  test programs, which only make system calls and print, and \<^verbatim>\<open>networktests.c\<close>. \<^verbatim>\<open>kernel.c\<close>, an older variant of
  \<^verbatim>\<open>main.c\<close> that is not built. Assembly code and the build tools. \<^verbatim>\<open>usprint\<close> is modelled, but that it refines \<^verbatim>\<open>sprint\<close>
  is not shown. Interrupts do not nest: the kernel runs with interrupts disabled.
\<close>

end
